(* ===== verification/NetPrelude.thy ===== *)
theory NetPrelude
  imports Main "HOL-Library.Word"
begin

text \<open>
  The prelude of the development: the error values that stand for the exceptions the
  code raises, the result type and its bind, Java's integer shifts at their width, and the
  string operations of the Java library that the address code uses (split, parseLong,
  parseInt, decimal printing), with the lemmas the components share.
  Strings are lists of characters, so the model covers the characters below 256.
  Exception messages are dropped: an error keeps its class and, for
  ProcessCodeException, its code.
\<close>

unbundle bit_operations_syntax

section \<open>Lemma collections\<close>

named_theorems res_simps \<open>unfolding of the result monad\<close>
named_theorems jnum_simps \<open>parsing and printing of numbers\<close>

section \<open>Errors and results\<close>

datatype error =
    NumberFormatException
  | IndexOutOfBoundsException
  | NullPointerException
  | IllegalArgumentException
  | UnsupportedOperationException
  | CidrParseException
  | ProcessException
  | ProcessCodeException int
  | InvalidProtocolBufferException
  | ClassCastException
  | IllegalStateException
  | TooManyResultsException
  | DataIntegrityViolationException

type_synonym 'a res = "error + 'a"

fun bindR :: "'a res \<Rightarrow> ('a \<Rightarrow> 'b res) \<Rightarrow> 'b res" where
  "bindR (Inl e) f = Inl e"
| "bindR (Inr x) f = f x"

fun mapR :: "('a \<Rightarrow> 'b res) \<Rightarrow> 'a list \<Rightarrow> 'b list res" where
  "mapR f [] = Inr []"
| "mapR f (x # xs) = bindR (f x) (\<lambda>y. bindR (mapR f xs) (\<lambda>ys. Inr (y # ys)))"

definition guardR :: "bool \<Rightarrow> error \<Rightarrow> unit res" where
  "guardR b e = (if b then Inr () else Inl e)"

definition atR :: "'a list \<Rightarrow> nat \<Rightarrow> 'a res" where
  "atR xs i = (if i < length xs then Inr (xs ! i) else Inl IndexOutOfBoundsException)"

lemma bindR_Inr_iff [res_simps]:
  "bindR m f = Inr y \<longleftrightarrow> (\<exists>x. m = Inr x \<and> f x = Inr y)"
  by (cases m) auto

lemma bindR_Inl_iff [res_simps]:
  "bindR m f = Inl e \<longleftrightarrow> m = Inl e \<or> (\<exists>x. m = Inr x \<and> f x = Inl e)"
  by (cases m) auto

lemma guardR_Inr_iff [res_simps]: "guardR b e = Inr u \<longleftrightarrow> b"
  by (simp add: guardR_def)

lemma guardR_True [simp]: "guardR True e = Inr ()"
  by (simp add: guardR_def)

lemma guardR_False [simp]: "guardR False e = Inl e"
  by (simp add: guardR_def)

lemma atR_Inr_iff [res_simps]: "atR xs i = Inr x \<longleftrightarrow> i < length xs \<and> x = xs ! i"
  by (auto simp: atR_def)

lemma atR_0 [simp]: "atR (x # xs) 0 = Inr x"
  by (simp add: atR_def)

lemma atR_Suc [simp]: "atR (x # xs) (Suc i) = atR xs i"
  by (simp add: atR_def)

lemma bindR_assoc: "bindR (bindR m f) g = bindR m (\<lambda>x. bindR (f x) g)"
  by (cases m) auto

lemma bindR_Inr_right [simp]: "bindR m Inr = m"
  by (cases m) auto

lemma mapR_length: "mapR f xs = Inr ys \<Longrightarrow> length ys = length xs"
  by (induction xs arbitrary: ys) (auto simp: res_simps)

lemma mapR_Inr_all:
  "(\<And>x. x \<in> set xs \<Longrightarrow> f x = Inr (g x)) \<Longrightarrow> mapR f xs = Inr (map g xs)"
  by (induction xs) auto

section \<open>Java integers: shifts at their width\<close>

text \<open>
  A Java \<open>int\<close> is a 32-bit word and a \<open>long\<close> a 64-bit word, both read as two's
  complement by \<open>sint\<close>. The shift count is reduced modulo the width.
\<close>

type_synonym jint = "32 word"
type_synonym jlong = "64 word"
type_synonym jbyte = "8 word"

definition shl64 :: "jlong \<Rightarrow> int \<Rightarrow> jlong" where
  "shl64 w k = push_bit (nat (k mod 64)) w"

definition sar64 :: "jlong \<Rightarrow> int \<Rightarrow> jlong" where
  "sar64 w k = signed_drop_bit (nat (k mod 64)) w"

definition shl32 :: "jint \<Rightarrow> int \<Rightarrow> jint" where
  "shl32 w k = push_bit (nat (k mod 32)) w"

definition sar32 :: "jint \<Rightarrow> int \<Rightarrow> jint" where
  "sar32 w k = signed_drop_bit (nat (k mod 32)) w"

definition i2l :: "jint \<Rightarrow> jlong" where
  "i2l w = word_of_int (sint w)"

section \<open>Strings: split, decimal printing, parsing\<close>

fun split_all :: "char \<Rightarrow> string \<Rightarrow> string list" where
  "split_all c [] = [[]]"
| "split_all c (x # xs) =
     (if x = c then [] # split_all c xs
      else (case split_all c xs of
              [] \<Rightarrow> [[x]]
            | p # ps \<Rightarrow> (x # p) # ps))"

text \<open>
  \<open>String.split\<close> with a one-character pattern: all pieces, the empty ones at the end
  removed; a string without the separator is returned as it is (also the empty one).
\<close>

definition java_split :: "char \<Rightarrow> string \<Rightarrow> string list" where
  "java_split c s =
     (if c \<in> set s then rev (dropWhile (\<lambda>p. p = []) (rev (split_all c s))) else [s])"

definition is_digit :: "char \<Rightarrow> bool" where
  "is_digit c \<longleftrightarrow> 48 \<le> (of_char c :: nat) \<and> (of_char c :: nat) \<le> 57"

definition digit_val :: "char \<Rightarrow> nat" where
  "digit_val c = of_char c - 48"

definition digit_char :: "nat \<Rightarrow> char" where
  "digit_char n = char_of (48 + n)"

fun dec_val :: "nat \<Rightarrow> string \<Rightarrow> nat" where
  "dec_val a [] = a"
| "dec_val a (c # cs) = dec_val (10 * a + digit_val c) cs"

fun show_nat :: "nat \<Rightarrow> string" where
  "show_nat n =
     (if n < 10 then [digit_char n]
      else show_nat (n div 10) @ [digit_char (n mod 10)])"

declare show_nat.simps [simp del]

definition show_int :: "int \<Rightarrow> string" where
  "show_int i = (if i < 0 then CHR ''-'' # show_nat (nat (- i)) else show_nat (nat i))"

text \<open>
  \<open>Long.parseLong\<close> and \<open>Integer.parseInt\<close>: an optional sign, at least one
  digit, a value in the range of the type.
\<close>

definition parse_dec :: "string \<Rightarrow> int res" where
  "parse_dec s =
     (case s of
        [] \<Rightarrow> Inl NumberFormatException
      | c # cs \<Rightarrow>
          (let ds = (if c = CHR ''-'' \<or> c = CHR ''+'' then cs else s)
           in if ds = [] \<or> \<not> list_all is_digit ds then Inl NumberFormatException
              else Inr (if c = CHR ''-'' then - int (dec_val 0 ds) else int (dec_val 0 ds))))"

definition parseLong :: "string \<Rightarrow> jlong res" where
  "parseLong s = bindR (parse_dec s) (\<lambda>v.
     if - (2 ^ 63) \<le> v \<and> v < 2 ^ 63 then Inr (word_of_int v) else Inl NumberFormatException)"

definition parseInt :: "string \<Rightarrow> jint res" where
  "parseInt s = bindR (parse_dec s) (\<lambda>v.
     if - (2 ^ 31) \<le> v \<and> v < 2 ^ 31 then Inr (word_of_int v) else Inl NumberFormatException)"


section \<open>Lemmas on digits and numbers\<close>

lemma of_char_digit_char [jnum_simps]: "d < 10 \<Longrightarrow> (of_char (digit_char d) :: nat) = 48 + d"
  by (simp add: digit_char_def)

lemma is_digit_digit_char [simp]: "d < 10 \<Longrightarrow> is_digit (digit_char d)"
  by (simp add: is_digit_def of_char_digit_char)

lemma digit_val_digit_char [simp]: "d < 10 \<Longrightarrow> digit_val (digit_char d) = d"
  by (simp add: digit_val_def of_char_digit_char)

lemma digit_val_le: "is_digit c \<Longrightarrow> digit_val c \<le> 9"
  unfolding is_digit_def digit_val_def by linarith

lemma digit_char_digit_val: "is_digit c \<Longrightarrow> digit_char (digit_val c) = c"
  by (simp add: is_digit_def digit_val_def digit_char_def)

lemma not_digit_char [simp]:
  "\<not> is_digit CHR ''.''" "\<not> is_digit CHR ''-''" "\<not> is_digit CHR ''+''"
  "\<not> is_digit CHR ''/''" "\<not> is_digit CHR '':''"
  by (simp_all add: is_digit_def)

lemma dec_val_snoc: "dec_val a (xs @ [c]) = 10 * dec_val a xs + digit_val c"
  by (induction xs arbitrary: a) auto

lemma show_nat_not_Nil [simp]: "show_nat n \<noteq> []"
  by (cases "n < 10") (simp_all add: show_nat.simps [of n])

lemma show_nat_digits [simp]: "list_all is_digit (show_nat n)"
proof (induction n rule: show_nat.induct)
  case (1 n)
  then show ?case by (cases "n < 10") (simp_all add: show_nat.simps [of n])
qed

lemma dec_val_show_nat [jnum_simps, simp]: "dec_val 0 (show_nat n) = n"
proof (induction n rule: show_nat.induct)
  case (1 n)
  then show ?case
    by (cases "n < 10") (simp_all add: show_nat.simps [of n] dec_val_snoc)
qed

lemma show_nat_inj: "show_nat m = show_nat n \<longleftrightarrow> m = n"
  by (metis dec_val_show_nat)

lemma show_nat_set: "c \<in> set (show_nat n) \<Longrightarrow> is_digit c"
  using show_nat_digits [of n] by (simp add: list_all_iff)

lemma not_in_show_nat [simp]: "\<not> is_digit c \<Longrightarrow> c \<notin> set (show_nat n)"
  using show_nat_set by blast

lemma hd_show_nat: "show_nat n = c # cs \<Longrightarrow> is_digit c"
  by (rule show_nat_set [of _ n]) simp

lemma dec_val_bound: "list_all is_digit s \<Longrightarrow> dec_val a s < (a + 1) * 10 ^ length s"
proof (induction s arbitrary: a)
  case Nil
  then show ?case by simp
next
  case (Cons c s)
  then have d: "digit_val c \<le> 9" by (simp add: digit_val_le)
  from Cons have "dec_val (10 * a + digit_val c) s < (10 * a + digit_val c + 1) * 10 ^ length s"
    by simp
  also have "\<dots> \<le> (10 * (a + 1)) * 10 ^ length s"
    using d by (intro mult_right_mono) auto
  finally show ?case by (simp add: algebra_simps)
qed

lemma parse_dec_digits [jnum_simps]:
  assumes "list_all is_digit s" and "s \<noteq> []"
  shows "parse_dec s = Inr (int (dec_val 0 s))"
proof (cases s)
  case Nil
  with assms show ?thesis by simp
next
  case (Cons c cs)
  with assms have "c \<noteq> CHR ''-''" and "c \<noteq> CHR ''+''" by auto
  with Cons assms show ?thesis by (simp add: parse_dec_def Let_def)
qed

lemma parseLong_digits [jnum_simps]:
  assumes "list_all is_digit s" and "s \<noteq> []" and "length s \<le> 18"
  shows "parseLong s = Inr (of_nat (dec_val 0 s))"
proof -
  have "dec_val 0 s < 10 ^ length s" using dec_val_bound [OF assms(1), of 0] by simp
  also have "\<dots> \<le> (10::nat) ^ 18" by (rule power_increasing) (use assms(3) in auto)
  finally have "dec_val 0 s < 10 ^ 18" .
  then show ?thesis
    by (simp add: parseLong_def parse_dec_digits assms word_of_int_nat)
qed

lemma parseInt_digits [jnum_simps]:
  assumes "list_all is_digit s" and "s \<noteq> []" and "length s \<le> 9"
  shows "parseInt s = Inr (of_nat (dec_val 0 s))"
proof -
  have "dec_val 0 s < 10 ^ length s" using dec_val_bound [OF assms(1), of 0] by simp
  also have "\<dots> \<le> (10::nat) ^ 9" by (rule power_increasing) (use assms(3) in auto)
  finally have "dec_val 0 s < 10 ^ 9" .
  then show ?thesis
    by (simp add: parseInt_def parse_dec_digits assms word_of_int_nat)
qed

lemma length_show_nat_le: "n < 10 ^ k \<Longrightarrow> 0 < k \<Longrightarrow> length (show_nat n) \<le> k"
proof (induction n arbitrary: k rule: show_nat.induct)
  case (1 n)
  show ?case
  proof (cases "n < 10")
    case True
    with "1.prems" show ?thesis by (simp add: show_nat.simps [of n])
  next
    case False
    then obtain j where k: "k = Suc j" and "0 < j"
      using "1.prems" by (cases k; cases "k - 1") auto
    then have "n div 10 < 10 ^ j" using "1.prems" by (simp add: less_mult_imp_div_less)
    with False "1.IH" [OF False] \<open>0 < j\<close> k show ?thesis by (simp add: show_nat.simps [of n])
  qed
qed

lemma parseLong_show_nat [jnum_simps]:
  "n < 2 ^ 32 \<Longrightarrow> parseLong (show_nat n) = Inr (of_nat n)"
  using length_show_nat_le [of n 10] by (simp add: parseLong_digits)

lemma parseInt_show_nat [jnum_simps]:
  "n < 10 ^ 9 \<Longrightarrow> parseInt (show_nat n) = Inr (of_nat n)"
  using length_show_nat_le [of n 9] by (simp add: parseInt_digits)

section \<open>Lemmas on split\<close>

lemma split_all_not_Nil [simp]: "split_all c s \<noteq> []"
  by (induction s) (auto split: list.splits)

lemma split_all_no_sep: "c \<notin> set s \<Longrightarrow> split_all c s = [s]"
  by (induction s) auto

lemma split_all_append: "c \<notin> set p \<Longrightarrow> split_all c (p @ c # s) = p # split_all c s"
  by (induction p) auto

lemma split_all_pieces: "p \<in> set (split_all c s) \<Longrightarrow> c \<notin> set p"
  by (induction s arbitrary: p) (auto split: list.splits if_splits)

lemma java_split_no_sep: "c \<notin> set s \<Longrightarrow> java_split c s = [s]"
  by (simp add: java_split_def)

lemma dropWhile_rev_last:
  "xs \<noteq> [] \<Longrightarrow> last xs \<noteq> [] \<Longrightarrow> rev (dropWhile (\<lambda>p. p = []) (rev xs)) = xs"
  by (cases xs rule: rev_cases) auto

lemma java_split_last:
  "c \<in> set s \<Longrightarrow> last (split_all c s) \<noteq> [] \<Longrightarrow> java_split c s = split_all c s"
  by (simp add: java_split_def dropWhile_rev_last)


section \<open>Lemmas on words\<close>

lemma word_or_add:
  fixes x y :: "'a::len word"
  assumes "take_bit k y = y"
  shows "push_bit k x OR y = push_bit k x + y"
proof -
  have "\<not> bit (push_bit k x) n \<or> \<not> bit y n" for n
  proof (cases "n < k")
    case True
    then show ?thesis by (simp add: bit_simps)
  next
    case False
    then have "\<not> bit (take_bit k y) n" by (simp add: bit_simps)
    with assms show ?thesis by simp
  qed
  then show ?thesis by (simp add: disjunctive_add)
qed

lemma sint_small:
  fixes w :: "'a::len word"
  assumes "unat w < 2 ^ (LENGTH('a) - 1)"
  shows "sint w = int (unat w)"
proof -
  from assms have "uint w < 2 ^ (LENGTH('a) - 1)"
    by (metis of_nat_less_iff of_nat_numeral of_nat_power int_nat_eq unat_eq_nat_uint uint_nat)
  then have "signed_take_bit (LENGTH('a) - 1) (uint w) = uint w"
    by (intro signed_take_bit_int_eq_self) (auto intro: order_trans [of _ 0])
  then show ?thesis by (simp add: sint_uint)
qed

lemma unat_take_bit: "unat (take_bit n w) = unat w mod 2 ^ n" for w :: "'a::len word"
  by (simp only: unsigned_take_bit_eq) (simp only: take_bit_eq_mod)

lemma and_255: "w AND 255 = take_bit 8 w" for w :: "'a::len word"
  by (simp add: take_bit_eq_mask mask_eq_exp_minus_1)

lemma unat_and_255: "unat (w AND 255) = unat w mod 256" for w :: "'a::len word"
  by (simp only: and_255 unat_take_bit) simp

lemma unat_drop_bit_div: "unat (drop_bit n w) = unat w div 2 ^ n" for w :: "'a::len word"
  by (simp only: unat_drop_bit_eq) (simp only: drop_bit_eq_div)

lemma unat_sar_and_255:
  fixes w :: "'a::len word"
  assumes "n + 8 \<le> LENGTH('a)"
  shows "unat (signed_drop_bit n w AND 255) = unat w div 2 ^ n mod 256"
proof -
  have "take_bit 8 (signed_drop_bit n w) = take_bit 8 (drop_bit n w)"
    using assms by (intro bit_word_eqI) (auto simp: bit_simps min_def)
  then have "unat (signed_drop_bit n w AND 255) = unat (drop_bit n w) mod 2 ^ 8"
    by (simp only: and_255 unat_take_bit)
  then show ?thesis by (simp only: unat_drop_bit_div) simp
qed

lemma show_int_of_nat [simp]: "show_int (int n) = show_nat n"
  by (simp add: show_int_def)

lemma take_bit_of_nat_small: "n < 2 ^ k \<Longrightarrow> take_bit k (of_nat n :: 'a::len word) = of_nat n"
  by (metis take_bit_nat_eq_self take_bit_of_nat)

lemma bytes_of_nat:
  "x div 2 ^ 24 mod 256 * 2 ^ 24 + x div 2 ^ 16 mod 256 * 2 ^ 16 + x div 2 ^ 8 mod 256 * 2 ^ 8
   + x mod 256 = x mod 2 ^ 32" for x :: nat
proof -
  have "x mod (2 ^ 24 * 256) = 2 ^ 24 * (x div 2 ^ 24 mod 256) + x mod 2 ^ 24"
    "x mod (2 ^ 16 * 256) = 2 ^ 16 * (x div 2 ^ 16 mod 256) + x mod 2 ^ 16"
    "x mod (2 ^ 8 * 256) = 2 ^ 8 * (x div 2 ^ 8 mod 256) + x mod 2 ^ 8"
    by (rule mod_mult2_eq)+
  then show ?thesis by simp
qed

lemma horner_div: "y < 256 \<Longrightarrow> (x * 256 + y) div 256 = x" "y < 256 \<Longrightarrow> (x * 256 + y) mod 256 = y" for x y :: nat
  by simp_all

lemma unat_byte_bound [simp]: "unat b < 256" for b :: jbyte
proof -
  have "unat b < 2 ^ LENGTH(8)" by (rule unsigned_less)
  then show ?thesis by simp
qed

lemma show_int_uint [simp]: "show_int (uint w) = show_nat (unat w)" for w :: "'a::len word"
  by (metis show_int_of_nat uint_nat)

lemma and_push_mask: "w AND push_bit n (mask k) = push_bit n (take_bit k (drop_bit n w))" for w :: "'a::len word"
  by (rule bit_word_eqI) (auto simp: bit_simps)

lemma signed_drop_bit_small:
  fixes w :: "'a::len word"
  assumes "unat w < 2 ^ (LENGTH('a) - 1)"
  shows "signed_drop_bit k w = drop_bit k w"
proof -
  have "sint (signed_drop_bit k w) = drop_bit k (sint w)" by (simp add: sint_signed_drop_bit_eq)
  also have "\<dots> = int (unat w) div 2 ^ k" by (simp only: sint_small [OF assms] drop_bit_eq_div)
  finally have 1: "sint (signed_drop_bit k w) = int (unat w div 2 ^ k)" by (simp add: zdiv_int)
  have "unat (drop_bit k w) \<le> unat w" by (simp only: unat_drop_bit_div div_le_dividend)
  then have "sint (drop_bit k w) = int (unat w div 2 ^ k)"
    using assms by (subst sint_small) (erule (1) le_less_trans, simp only: unat_drop_bit_div)
  with 1 have "sint (signed_drop_bit k w) = sint (drop_bit k w)" by (simp only:)
  then show ?thesis by (rule signed_word_eqI)
qed

lemma unat_push_bit_small: "unat w * 2 ^ k < 2 ^ LENGTH('a) \<Longrightarrow> unat (push_bit k w) = unat w * 2 ^ k"
  for w :: "'a::len word"
proof -
  assume a: "unat w * 2 ^ k < 2 ^ LENGTH('a)"
  have "push_bit k w = of_nat (unat w * 2 ^ k)" by (simp add: push_bit_eq_mult)
  then show ?thesis using a by (simp only: unat_of_nat mod_less)
qed

lemma last_split_all:
  "s \<noteq> [] \<Longrightarrow> (if last s = c then last (split_all c s) = []
     else last (split_all c s) \<noteq> [] \<and> last (last (split_all c s)) = last s)"
proof (induction s)
  case Nil
  then show ?case by simp
next
  case (Cons x s)
  obtain p ps where e: "split_all c s = p # ps"
    using split_all_not_Nil by (cases "split_all c s") auto
  show ?case
  proof (cases "s = []")
    case True
    then show ?thesis by simp
  next
    case False
    then obtain y t where "s = y # t" by (cases s) auto
    then show ?thesis using Cons.IH e False
      by (cases ps) (auto split: list.splits if_splits)
  qed
qed

lemma parseLong_last_digit: "parseLong p = Inr v \<Longrightarrow> p \<noteq> [] \<and> is_digit (last p)"
  by (cases p) (auto simp: parseLong_def parse_dec_def Let_def list_all_iff res_simps split: if_splits)

lemma sint_i2l: "sint (i2l n) = sint n"
proof -
  have "- (2 ^ 31) \<le> sint n" "sint n < 2 ^ 31" using sint_ge [of n] sint_lt [of n] by simp_all
  then have "signed_take_bit 63 (sint n) = sint n"
    by (intro signed_take_bit_int_eq_self) simp_all
  then show ?thesis by (simp only: i2l_def signed_of_int) simp
qed

lemma sint_i2l_nat: "i \<le> 2 ^ 30 \<Longrightarrow> sint (i2l (of_nat i)) = int i"
  unfolding sint_i2l by (subst sint_small) (simp_all add: unat_of_nat)

lemma uint_le_nat: "uint w \<le> int n \<longleftrightarrow> unat w \<le> n" for w :: "'a::len word"
  by (simp add: nat_le_iff [symmetric] del: nat_le_iff)

lemma nat_le_uint: "int n \<le> uint w \<longleftrightarrow> n \<le> unat w" for w :: "'a::len word"
  by (simp add: le_nat_iff [symmetric] del: le_nat_iff)

lemma ex_less_Suc_split: "(\<exists>i < Suc n. P i) \<longleftrightarrow> P 0 \<or> (\<exists>i < n. P (Suc i))"
  using less_Suc_eq_0_disj by auto

lemma find_SomeD: "find P xs = Some x \<Longrightarrow> P x \<and> x \<in> set xs"
  by (induction xs) (auto split: if_splits)

lemma all_less_Suc_split: "(\<forall>i < Suc n. P i) \<longleftrightarrow> P 0 \<and> (\<forall>i < n. P (Suc i))"
  using less_Suc_eq_0_disj by auto

end
