(* ===== verification/IPAddr.thy ===== *)
theory IPAddr
  imports NetPrelude
begin

text \<open>
  Addresses as strings, numbers and bytes: the class IPUtil and the class Multicast of
  sdwan-common. An address as a number is a Java \<open>long\<close> (64-bit word). The lemmas
  relate the three forms: printing is inverse to parsing on the 32-bit addresses and on the
  canonical dotted quads.
\<close>

section \<open>IPUtil\<close>

text \<open>
  The regular expression of IPUtil: three groups \<open>octet dot\<close> and a last octet
  between \<open>^\<close> and \<open>$\<close>. Without MULTILINE, \<open>$\<close> also matches before one
  line terminator at the end, which \<open>strip_eol\<close> removes.
\<close>

definition digit_between :: "nat \<Rightarrow> nat \<Rightarrow> char \<Rightarrow> bool" where
  "digit_between lo hi c \<longleftrightarrow> is_digit c \<and> lo \<le> digit_val c \<and> digit_val c \<le> hi"

fun is_octet :: "string \<Rightarrow> bool" where
  "is_octet [a] \<longleftrightarrow> digit_between 0 9 a"
| "is_octet [a, b] \<longleftrightarrow> digit_between 0 9 a \<and> digit_between 0 9 b"
| "is_octet [a, b, c] \<longleftrightarrow>
     digit_between 2 2 a \<and> digit_between 5 5 b \<and> digit_between 0 5 c \<or>
     digit_between 2 2 a \<and> digit_between 0 4 b \<and> digit_between 0 9 c \<or>
     digit_between 0 1 a \<and> digit_between 0 9 b \<and> digit_between 0 9 c"
| "is_octet _ \<longleftrightarrow> False"

definition quad_match :: "string \<Rightarrow> bool" where
  "quad_match s \<longleftrightarrow>
     (case split_all CHR ''.'' s of
        [a, b, c, d] \<Rightarrow> is_octet a \<and> is_octet b \<and> is_octet c \<and> is_octet d
      | _ \<Rightarrow> False)"

definition is_eol :: "char \<Rightarrow> bool" where
  "is_eol c \<longleftrightarrow> c = CHR 0x0A \<or> c = CHR 0x0D \<or> c = CHR 0x85"

definition strip_eol :: "string \<Rightarrow> string" where
  "strip_eol s =
     (case rev s of
        [] \<Rightarrow> []
      | c # r \<Rightarrow>
          (if \<not> is_eol c then s
           else if c = CHR 0x0A \<and> r \<noteq> [] \<and> hd r = CHR 0x0D then rev (tl r)
           else rev r))"

definition isIPv4 :: "string \<Rightarrow> bool" where
  "isIPv4 ip \<longleftrightarrow> quad_match (strip_eol ip)"

fun ip2long_loop :: "string list \<Rightarrow> int \<Rightarrow> jlong \<Rightarrow> jlong res" where
  "ip2long_loop [] bt s = Inr s"
| "ip2long_loop (sp # sps) bt s =
     bindR (parseLong sp) (\<lambda>v.
       let n = shl64 v bt in ip2long_loop sps (bt - 8) (s OR n))"

definition ip2long :: "string \<Rightarrow> jlong res" where
  "ip2long ip = ip2long_loop (java_split CHR ''.'' ip) 24 0"

definition format_quad :: "int \<Rightarrow> int \<Rightarrow> int \<Rightarrow> int \<Rightarrow> string" where
  "format_quad d1 d2 d3 d4 =
     show_int d1 @ ''.'' @ show_int d2 @ ''.'' @ show_int d3 @ ''.'' @ show_int d4"

definition int2ip :: "jlong \<Rightarrow> string" where
  "int2ip s =
     (let d1 = sar64 s 24 AND 255;
          d2 = sar64 s 16 AND 255;
          d3 = sar64 s 8 AND 255;
          d4 = s AND 255
      in format_quad (sint d1) (sint d2) (sint d3) (sint d4))"

definition byte_and_255 :: "jbyte \<Rightarrow> jint" where
  "byte_and_255 b = (word_of_int (sint b) :: jint) AND 255"

definition bytes2ip :: "jbyte list \<Rightarrow> string res" where
  "bytes2ip bytes =
     bindR (atR bytes 0) (\<lambda>b0. bindR (atR bytes 1) (\<lambda>b1.
     bindR (atR bytes 2) (\<lambda>b2. bindR (atR bytes 3) (\<lambda>b3.
       Inr (format_quad (sint (byte_and_255 b0)) (sint (byte_and_255 b1))
                        (sint (byte_and_255 b2)) (sint (byte_and_255 b3)))))))"

definition ip2bytes :: "string \<Rightarrow> jbyte list res" where
  "ip2bytes ip =
     mapR (\<lambda>sp. bindR (parseInt sp) (\<lambda>i. Inr (word_of_int (sint i))))
       (java_split CHR ''.'' ip)"

section \<open>Multicast\<close>

definition LimitedBroadcastAddress :: "jlong res" where
  "LimitedBroadcastAddress = ip2long ''255.255.255.255''"

definition isMulticastIp :: "string \<Rightarrow> bool res" where
  "isMulticastIp ip =
     bindR LimitedBroadcastAddress (\<lambda>lb.
     bindR (ip2long ip) (\<lambda>addr.
       if lb = addr then Inr True
       else Inr (addr AND 0xf0000000 = 0xe0000000)))"

section \<open>Dotted quads\<close>

text \<open>The canonical text of four octets and the number they stand for.\<close>

definition quad_str :: "nat \<Rightarrow> nat \<Rightarrow> nat \<Rightarrow> nat \<Rightarrow> string" where
  "quad_str a b c d = show_nat a @ ''.'' @ show_nat b @ ''.'' @ show_nat c @ ''.'' @ show_nat d"

definition quad_nat :: "nat \<Rightarrow> nat \<Rightarrow> nat \<Rightarrow> nat \<Rightarrow> nat" where
  "quad_nat a b c d = a * 2 ^ 24 + b * 2 ^ 16 + c * 2 ^ 8 + d"

lemma split_quad_str: "split_all CHR ''.'' (quad_str a b c d) = [show_nat a, show_nat b, show_nat c, show_nat d]"
  by (simp add: quad_str_def split_all_append split_all_no_sep)

lemma java_split_quad_str: "java_split CHR ''.'' (quad_str a b c d) = [show_nat a, show_nat b, show_nat c, show_nat d]"
  by (subst java_split_last) (simp_all add: split_quad_str, simp add: quad_str_def)

lemma format_quad_of_nat [simp]: "format_quad (int a) (int b) (int c) (int d) = quad_str a b c d"
  by (simp add: format_quad_def quad_str_def)

lemma int2ip_quad:
  "int2ip s = quad_str (unat s div 2 ^ 24 mod 256) (unat s div 2 ^ 16 mod 256)
                       (unat s div 2 ^ 8 mod 256) (unat s mod 256)"
proof -
  have b: "unat (x AND 255) < 2 ^ (LENGTH(64) - 1)" for x :: jlong
    by (simp add: unat_and_255 less_trans [of _ 256])
  show ?thesis
    unfolding int2ip_def Let_def sint_small [OF b] format_quad_of_nat
    by (simp add: sar64_def unat_sar_and_255) (simp add: unat_and_255)
qed

lemma or_octets:
  assumes "b < 256" and "c < 256" and "d < 256"
  shows "push_bit 24 (of_nat a) OR push_bit 16 (of_nat b) OR push_bit 8 (of_nat c) OR of_nat d
         = (of_nat (quad_nat a b c d) :: jlong)"
proof -
  have d: "take_bit 8 (of_nat d :: jlong) = of_nat d"
    using assms by (intro take_bit_of_nat_small) simp
  have e1: "push_bit 8 (of_nat c) OR of_nat d = (of_nat (c * 256 + d) :: jlong)"
    unfolding word_or_add [OF d] by (simp add: push_bit_eq_mult)
  have c: "take_bit 16 (of_nat (c * 256 + d) :: jlong) = of_nat (c * 256 + d)"
    using assms by (intro take_bit_of_nat_small) simp
  have e2: "push_bit 16 (of_nat b) OR of_nat (c * 256 + d) = (of_nat (b * 65536 + c * 256 + d) :: jlong)"
    unfolding word_or_add [OF c] by (simp add: push_bit_eq_mult)
  have b: "take_bit 24 (of_nat (b * 65536 + c * 256 + d) :: jlong) = of_nat (b * 65536 + c * 256 + d)"
    using assms by (intro take_bit_of_nat_small) simp
  show ?thesis
    unfolding e1 e2 word_or_add [OF b] by (simp add: push_bit_eq_mult quad_nat_def)
qed

lemma ip2long_loop_octets:
  assumes "parseLong p = Inr (of_nat a)" "parseLong q = Inr (of_nat b)"
    "parseLong r = Inr (of_nat c)" "parseLong s = Inr (of_nat d)"
    and "b < 256" and "c < 256" and "d < 256"
  shows "ip2long_loop [p, q, r, s] 24 0 = Inr (of_nat (quad_nat a b c d))"
  using or_octets [OF assms(5-7), of a]
  by (simp add: assms(1-4) shl64_def or.assoc)

lemma ip2long_quad_str:
  "a < 256 \<Longrightarrow> b < 256 \<Longrightarrow> c < 256 \<Longrightarrow> d < 256 \<Longrightarrow>
   ip2long (quad_str a b c d) = Inr (of_nat (quad_nat a b c d))"
  unfolding ip2long_def java_split_quad_str
  by (rule ip2long_loop_octets) (simp_all add: parseLong_show_nat)

lemma ip2long_int2ip: "ip2long (int2ip s) = Inr (take_bit 32 s)"
proof -
  have "quad_nat (unat s div 2 ^ 24 mod 256) (unat s div 2 ^ 16 mod 256)
                       (unat s div 2 ^ 8 mod 256) (unat s mod 256) = unat s mod 2 ^ 32"
    unfolding quad_nat_def by (rule bytes_of_nat)
  moreover have "of_nat (unat s mod 2 ^ 32) = (of_nat (unat (take_bit 32 s)) :: jlong)"
    by (simp only: unat_take_bit)
  ultimately show ?thesis
    unfolding int2ip_quad by (subst ip2long_quad_str) (simp_all only: mod_less_divisor, simp_all)
qed

lemma is_octet_val:
  "is_octet s \<Longrightarrow> list_all is_digit s \<and> s \<noteq> [] \<and> length s \<le> 3 \<and> dec_val 0 s < 256"
  by (cases s rule: is_octet.cases) (auto simp: digit_between_def)

lemma is_octet_iff:
  "is_octet s \<longleftrightarrow> list_all is_digit s \<and> s \<noteq> [] \<and> length s \<le> 3 \<and> dec_val 0 s < 256"
proof (cases s rule: is_octet.cases)
  case (3 a b c)
  show ?thesis unfolding 3 by (auto simp: digit_between_def dest: digit_val_le)
qed (auto simp: digit_between_def dest: digit_val_le)

lemma is_octet_show_nat [simp]: "n < 256 \<Longrightarrow> is_octet (show_nat n)"
  using length_show_nat_le [of n 3] by (simp add: is_octet_iff)

lemma parse_octet: "is_octet s \<Longrightarrow> parseLong s = Inr (of_nat (dec_val 0 s))"
  by (rule parseLong_digits) (auto dest: is_octet_val)

lemma parseInt_octet: "is_octet s \<Longrightarrow> parseInt s = Inr (of_nat (dec_val 0 s))"
  by (rule parseInt_digits) (auto dest: is_octet_val)

lemma quad_matchE:
  assumes "quad_match s"
  obtains a b c d where "java_split CHR ''.'' s = [a, b, c, d]"
    and "is_octet a" and "is_octet b" and "is_octet c" and "is_octet d"
proof -
  from assms obtain a b c d where s: "split_all CHR ''.'' s = [a, b, c, d]"
    and o: "is_octet a" "is_octet b" "is_octet c" "is_octet d"
    by (auto simp: quad_match_def split: list.splits)
  have "CHR ''.'' \<in> set s" using s split_all_no_sep [of "CHR ''.''" s] by fastforce
  moreover have "d \<noteq> []" using o by auto
  ultimately have "java_split CHR ''.'' s = [a, b, c, d]"
    using s by (simp add: java_split_last)
  then show thesis using o that by blast
qed

lemma quad_nat_bound: "a < 256 \<Longrightarrow> b < 256 \<Longrightarrow> c < 256 \<Longrightarrow> d < 256 \<Longrightarrow> quad_nat a b c d < 2 ^ 32"
  by (simp add: quad_nat_def)

lemma ip2long_quad_match:
  assumes "quad_match s"
  obtains a b c d where "a < 256" "b < 256" "c < 256" "d < 256"
    and "ip2long s = Inr (of_nat (quad_nat a b c d))"
    and "ip2bytes s = Inr [of_nat a, of_nat b, of_nat c, of_nat d]"
proof -
  obtain a b c d where s: "java_split CHR ''.'' s = [a, b, c, d]"
    and o: "is_octet a" "is_octet b" "is_octet c" "is_octet d"
    using assms by (rule quad_matchE)
  have b: "word_of_int (sint (of_nat n :: jint)) = (of_nat n :: jbyte)" if "n < 256" for n
    using that by (subst sint_small) (simp_all add: unat_of_nat)
  show thesis
  proof (rule that)
    show "ip2long s = Inr (of_nat (quad_nat (dec_val 0 a) (dec_val 0 b) (dec_val 0 c) (dec_val 0 d)))"
      unfolding ip2long_def s by (rule ip2long_loop_octets) (simp_all add: o parse_octet is_octet_val)
    show "ip2bytes s = Inr [of_nat (dec_val 0 a), of_nat (dec_val 0 b), of_nat (dec_val 0 c), of_nat (dec_val 0 d)]"
      unfolding ip2bytes_def s by (simp add: o parseInt_octet is_octet_val b [simplified])
  qed (simp_all add: o is_octet_val)
qed

lemma quad_match_quad_str [simp]:
  "a < 256 \<Longrightarrow> b < 256 \<Longrightarrow> c < 256 \<Longrightarrow> d < 256 \<Longrightarrow> quad_match (quad_str a b c d)"
  by (simp add: quad_match_def split_quad_str)

lemma quad_match_int2ip [simp]: "quad_match (int2ip w)"
  unfolding int2ip_quad by simp

lemma quad_nat_parts:
  assumes "b < 256" "c < 256" "d < 256"
  shows "quad_nat a b c d div 2 ^ 24 = a" "quad_nat a b c d div 2 ^ 16 mod 256 = b"
    "quad_nat a b c d div 2 ^ 8 mod 256 = c" "quad_nat a b c d mod 256 = d"
proof -
  have h: "quad_nat a b c d = ((a * 256 + b) * 256 + c) * 256 + d"
    by (simp add: quad_nat_def)
  have p: "2 ^ 24 = (256 * 256 * 256 :: nat)" "2 ^ 16 = (256 * 256 :: nat)" "2 ^ 8 = (256 :: nat)"
    by simp_all
  show "quad_nat a b c d div 2 ^ 24 = a" "quad_nat a b c d div 2 ^ 16 mod 256 = b"
    "quad_nat a b c d div 2 ^ 8 mod 256 = c" "quad_nat a b c d mod 256 = d"
    unfolding h p div_mult2_eq by (simp_all only: horner_div assms mod_less)
qed

lemma quad_nat_inj:
  assumes "quad_nat a b c d = quad_nat a' b' c' d'"
    and "b < 256" "c < 256" "d < 256" "b' < 256" "c' < 256" "d' < 256"
  shows "a = a' \<and> b = b' \<and> c = c' \<and> d = d'"
  using quad_nat_parts [OF assms(2-4), of a] quad_nat_parts [OF assms(5-7), of a'] assms(1) by metis

lemma unat_quad_nat:
  assumes "a < 256" "b < 256" "c < 256" "d < 256"
  shows "unat (of_nat (quad_nat a b c d) :: jlong) = quad_nat a b c d"
  using quad_nat_bound [OF assms] by (simp add: unat_of_nat)

lemma int2ip_quad_nat:
  assumes "a < 256" "b < 256" "c < 256" "d < 256"
  shows "int2ip (of_nat (quad_nat a b c d)) = quad_str a b c d"
  using assms by (simp only: int2ip_quad unat_quad_nat quad_nat_parts mod_less)

lemma int2ip_inj32: 
  assumes "int2ip v = int2ip w" shows "take_bit 32 v = take_bit 32 w"
proof -
  have "ip2long (int2ip v) = ip2long (int2ip w)" using assms by simp
  then show ?thesis unfolding ip2long_int2ip by simp
qed

lemma digit_not_eol: "is_digit c \<Longrightarrow> \<not> is_eol c"
  by (auto simp: is_digit_def is_eol_def)

lemma strip_eol_id: "s = [] \<or> \<not> is_eol (last s) \<Longrightarrow> strip_eol s = s"
  by (cases s rule: rev_cases) (simp_all add: strip_eol_def)

lemma last_quad_str: "is_digit (last (quad_str a b c d))"
proof -
  have "last (quad_str a b c d) = last (show_nat d)" by (simp add: quad_str_def)
  moreover have "last (show_nat d) \<in> set (show_nat d)" by simp
  ultimately show ?thesis using show_nat_set by metis
qed

lemma strip_eol_quad_str [simp]: "strip_eol (quad_str a b c d) = quad_str a b c d"
  using last_quad_str digit_not_eol by (intro strip_eol_id) blast

lemma isIPv4_quad_str [simp]:
  "a < 256 \<Longrightarrow> b < 256 \<Longrightarrow> c < 256 \<Longrightarrow> d < 256 \<Longrightarrow> isIPv4 (quad_str a b c d)"
  by (simp add: isIPv4_def)

lemma isIPv4_int2ip [simp]: "isIPv4 (int2ip w)"
  unfolding int2ip_quad by simp

lemma isIPv4_quad_match: "isIPv4 s \<Longrightarrow> s = [] \<or> \<not> is_eol (last s) \<Longrightarrow> quad_match s"
  by (simp add: isIPv4_def strip_eol_id)

lemma byte_and_255_ucast: "byte_and_255 b = ucast b"
  unfolding byte_and_255_def and_255
  by transfer (simp add: take_bit_signed_take_bit)

lemma unat_byte_and_255: "unat (byte_and_255 b) = unat b"
  unfolding byte_and_255_ucast by (simp add: unsigned_ucast_eq take_bit_nat_eq_self less_trans [OF unat_byte_bound])

lemma bytes2ip_quad:
  "bytes2ip [b0, b1, b2, b3] = Inr (quad_str (unat b0) (unat b1) (unat b2) (unat b3))"
proof -
  have "sint (byte_and_255 b) = int (unat b)" for b
    by (subst sint_small)
      (simp_all only: unat_byte_and_255, simp_all add: less_trans [OF unat_byte_bound])
  then show ?thesis by (simp add: bytes2ip_def atR_def format_quad_def quad_str_def)
qed

lemma ip2bytes_quad_str:
  assumes "a < 256" "b < 256" "c < 256" "d < 256"
  shows "ip2bytes (quad_str a b c d) = Inr [of_nat a, of_nat b, of_nat c, of_nat d]"
proof -
  have "scast (of_nat n :: jint) = (of_nat n :: jbyte)" if "n < 256" for n
    using that sint_small [of "of_nat n :: jint"] by (simp add: scast_eq unat_of_nat)
  then show ?thesis
    using assms by (simp add: ip2bytes_def java_split_quad_str parseInt_octet)
qed

lemma ip2bytes_bytes2ip:
  assumes "length bs = 4"
  shows "bindR (bytes2ip bs) ip2bytes = Inr bs"
proof -
  obtain b0 b1 b2 b3 where bs: "bs = [b0, b1, b2, b3]"
    using assms by (auto simp: length_Suc_conv numeral_eq_Suc)
  have l: "unat b < 256" for b :: jbyte by simp
  obtain w where "ip2bytes (quad_str (unat b0) (unat b1) (unat b2) (unat b3)) = Inr w"
    and "w = [b0, b1, b2, b3]"
    using ip2bytes_quad_str [OF l l l l, of b0 b1 b2 b3] by simp
  then show ?thesis by (simp add: bs bytes2ip_quad)
qed

lemma class_d: "w AND 0xf0000000 = 0xe0000000 \<longleftrightarrow> unat w div 2 ^ 28 mod 16 = 14" for w :: jlong
proof -
  have e: "w AND 0xf0000000 = push_bit 28 (take_bit 4 (drop_bit 28 w))"
    using and_push_mask [of w 28 4] by (simp add: mask_eq_exp_minus_1 push_bit_eq_mult)
  have "drop_bit 28 (w AND 0xf0000000) = take_bit 4 (drop_bit 28 w)"
    unfolding e by (rule bit_word_eqI) (auto simp: bit_simps)
  then have "w AND 0xf0000000 = 0xe0000000 \<longleftrightarrow> take_bit 4 (drop_bit 28 w) = 14"
    using e by (auto simp: push_bit_eq_mult)
  also have "\<dots> \<longleftrightarrow> unat (take_bit 4 (drop_bit 28 w)) = 14"
    by (simp add: word_unat_eq_iff)
  also have "unat (take_bit 4 (drop_bit 28 w)) = unat w div 2 ^ 28 mod 2 ^ 4"
    by (simp only: unat_take_bit unat_drop_bit_div)
  finally show ?thesis by simp
qed

lemma isMulticastIp_quad_str:
  assumes "a < 256" "b < 256" "c < 256" "d < 256"
  shows "isMulticastIp (quad_str a b c d) =
    Inr (224 \<le> a \<and> a \<le> 239 \<or> a = 255 \<and> b = 255 \<and> c = 255 \<and> d = 255)"
proof -
  let ?w = "of_nat (quad_nat a b c d) :: jlong"
  have u: "unat ?w = quad_nat a b c d"
    by (rule unat_quad_nat [OF assms])
  have q: "quad_nat a b c d div 2 ^ 28 = a div 16"
  proof -
    have "quad_nat a b c d div 2 ^ 24 = a" using assms by (simp only: quad_nat_parts)
    moreover have "quad_nat a b c d div (2 ^ 24 * 16) = quad_nat a b c d div 2 ^ 24 div 16"
      by (rule div_mult2_eq)
    ultimately show ?thesis by simp
  qed
  have m: "?w AND 0xf0000000 = 0xe0000000 \<longleftrightarrow> 224 \<le> a \<and> a \<le> 239"
    unfolding class_d u q using assms by auto
  have s: "''255.255.255.255'' = quad_str 255 255 255 255" by code_simp
  have lb: "(of_nat (quad_nat 255 255 255 255) = ?w) \<longleftrightarrow> a = 255 \<and> b = 255 \<and> c = 255 \<and> d = 255"
  proof
    assume "of_nat (quad_nat 255 255 255 255) = ?w"
    then have "quad_nat 255 255 255 255 = quad_nat a b c d"
      using u unat_quad_nat [of 255 255 255 255] by simp
    then show "a = 255 \<and> b = 255 \<and> c = 255 \<and> d = 255"
      using assms quad_nat_inj [of 255 255 255 255 a b c d] by simp
  qed simp
  show ?thesis
    unfolding isMulticastIp_def LimitedBroadcastAddress_def s
    using assms by (auto simp: ip2long_quad_str lb m)
qed

end
