(* ===== verification/CidrBlock.thy ===== *)
theory CidrBlock
  imports IPAddr
begin

text \<open>
  Address blocks: the class Cidr of sdwan-common, every field and operation.
  \<open>ipv4Pat\<close> stands for hutool's \<open>PatternPool.IPV4\<close>, which is not part of the
  repository: the operations that use it take it as an argument. Besides the operations the
  theory gives the block that a text denotes (\<open>cidr_of\<close>: network number and prefix
  length) and shows that parsing, containment, enumeration and translation agree with it.
\<close>

section \<open>The class Cidr\<close>

record Cidr =
  networkIdentifier :: string
  maskAddress :: string
  broadcastAddress :: string
  gatewayAddress :: string
  maskBits :: jint
  addrCount :: jlong

definition Cidr_check :: "string \<Rightarrow> unit res" where
  "Cidr_check text =
     (let split = java_split CHR ''/'' text in
      bindR (atR split 0) (\<lambda>address.
      if \<not> isIPv4 address then Inl CidrParseException
      else bindR (atR split 1) (\<lambda>m. bindR (parseInt m) (\<lambda>maskBits.
        if sint maskBits < 1 \<or> sint maskBits > 32 then Inl CidrParseException
        else Inr ()))))"

definition parseIdentifierAddress :: "jlong \<Rightarrow> jint \<Rightarrow> jlong" where
  "parseIdentifierAddress address m = shl64 (sar64 address (sint (32 - m))) (sint (32 - m))"

text \<open>The cast of \<open>Math.pow(2, 32 - maskBits)\<close> to long truncates and saturates.\<close>

definition calcCount :: "jint \<Rightarrow> jlong" where
  "calcCount m =
     (let k = sint (32 - m) in
      if k < 0 then 0 else if 63 \<le> k then 2 ^ 63 - 1 else 2 ^ nat k)"

definition calcMaxAddr :: "jlong \<Rightarrow> jlong \<Rightarrow> jlong" where
  "calcMaxAddr address cnt = address + cnt - 1"

definition parseIp :: "jlong \<Rightarrow> jint \<Rightarrow> jint \<Rightarrow> string" where
  "parseIp address m index = int2ip (parseIdentifierAddress address m + i2l index)"

definition parseNetworkIdentifier :: "jlong \<Rightarrow> jint \<Rightarrow> string" where
  "parseNetworkIdentifier address m = int2ip (parseIdentifierAddress address m)"

definition parseBroadcastAddress :: "jlong \<Rightarrow> jint \<Rightarrow> string" where
  "parseBroadcastAddress address m =
     int2ip (calcMaxAddr (parseIdentifierAddress address m) (calcCount m))"

definition parseMaskAddress :: "jint \<Rightarrow> string" where
  "parseMaskAddress m = (let mask = shl32 0x7fffffff (sint (32 - m)) in int2ip (i2l mask))"

definition parseCidr :: "(string \<Rightarrow> bool) \<Rightarrow> string \<Rightarrow> Cidr res" where
  "parseCidr ipv4Pat text =
     (let split = java_split CHR ''/'' text in
      bindR (atR split 0) (\<lambda>a.
      if \<not> ipv4Pat a then Inl ProcessException
      else bindR (ip2long a) (\<lambda>addr. bindR (atR split 1) (\<lambda>s1. bindR (parseInt s1) (\<lambda>m.
        if \<not> (0 \<le> sint m \<and> sint m \<le> 32) then Inl ProcessException
        else
          let address = parseIdentifierAddress addr m
          in Inr \<lparr> networkIdentifier = parseNetworkIdentifier address m,
                   maskAddress = parseMaskAddress m,
                   broadcastAddress = parseBroadcastAddress address m,
                   gatewayAddress = parseIp address m 1,
                   maskBits = m,
                   addrCount = calcCount m \<rparr>)))))"

text \<open>
  The loop of parseIpList counts with an \<open>int\<close> against a \<open>long\<close> bound, so it is a
  partial function: \<open>None\<close> stands for not returning.
\<close>

partial_function (option) parseIpList_loop ::
    "jlong \<Rightarrow> jint \<Rightarrow> jlong \<Rightarrow> string list \<Rightarrow> string list option" where
  "parseIpList_loop cnt n s acc =
     (if sint (i2l n) < sint cnt
      then parseIpList_loop cnt (n + 1) (s + 1) (acc @ [int2ip s])
      else Some acc)"

definition parseIpList :: "jlong \<Rightarrow> jint \<Rightarrow> string list option" where
  "parseIpList address m =
     parseIpList_loop (calcCount m) 0 (parseIdentifierAddress address m) []"

definition blockStart :: "Cidr \<Rightarrow> jlong res" where
  "blockStart c = bindR (ip2long (networkIdentifier c)) (\<lambda>a. Inr (parseIdentifierAddress a (maskBits c)))"

definition allIpList :: "Cidr \<Rightarrow> string list option res" where
  "allIpList c = bindR (blockStart c) (\<lambda>address. Inr (parseIpList address (maskBits c)))"

definition availableIpList :: "Cidr \<Rightarrow> string list option res" where
  "availableIpList c = bindR (allIpList c) (\<lambda>l. Inr (map_option (\<lambda>ips.
     remove1 (gatewayAddress c) (remove1 (broadcastAddress c)
       (remove1 (maskAddress c) (remove1 (networkIdentifier c) ips)))) l))"

definition Cidr_isBroadcastAddress :: "string \<Rightarrow> string \<Rightarrow> bool res" where
  "Cidr_isBroadcastAddress cidr ip =
     bindR (Cidr_check cidr) (\<lambda>_.
     let split = java_split CHR ''/'' cidr in
     bindR (atR split 0) (\<lambda>s0. bindR (ip2long s0) (\<lambda>address.
     bindR (atR split 1) (\<lambda>s1. bindR (parseInt s1) (\<lambda>m.
       Inr (ip = parseBroadcastAddress address m))))))"

definition Cidr_contains :: "string \<Rightarrow> string \<Rightarrow> bool res" where
  "Cidr_contains cidr ip =
     bindR (Cidr_check cidr) (\<lambda>_.
     let split = java_split CHR ''/'' cidr in
     bindR (atR split 0) (\<lambda>s0. bindR (ip2long s0) (\<lambda>a.
     bindR (atR split 1) (\<lambda>s1. bindR (parseInt s1) (\<lambda>m.
       let address = parseIdentifierAddress a m;
           maxAddr = calcMaxAddr address (calcCount m)
       in bindR (ip2long ip) (\<lambda>checkAddr.
            Inr (sint address \<le> sint checkAddr \<and> sint checkAddr \<le> sint maxAddr)))))))"

definition contains :: "Cidr \<Rightarrow> string \<Rightarrow> bool res" where
  "contains c ip =
     bindR (blockStart c) (\<lambda>address.
     let maxAddr = calcMaxAddr address (calcCount (maskBits c))
     in bindR (ip2long ip) (\<lambda>checkAddr.
          Inr (sint address \<le> sint checkAddr \<and> sint checkAddr \<le> sint maxAddr)))"

definition getIdx :: "Cidr \<Rightarrow> string \<Rightarrow> jlong res" where
  "getIdx c ip =
     bindR (blockStart c) (\<lambda>address. bindR (ip2long ip) (\<lambda>checkAddr. Inr (checkAddr - address)))"

definition genIpByIdx :: "Cidr \<Rightarrow> jlong \<Rightarrow> string res" where
  "genIpByIdx c idx = bindR (blockStart c) (\<lambda>address. Inr (int2ip (address + idx)))"

definition isAvailableIp :: "Cidr \<Rightarrow> string \<Rightarrow> bool" where
  "isAvailableIp c ip \<longleftrightarrow>
     (if networkIdentifier c = ip then False
      else if maskAddress c = ip then False
      else if broadcastAddress c = ip then False
      else if gatewayAddress c = ip then False
      else True)"

definition Cidr_transform :: "string \<Rightarrow> Cidr \<Rightarrow> Cidr \<Rightarrow> string res" where
  "Cidr_transform ip src target =
     bindR (contains src ip) (\<lambda>b.
     if \<not> b then Inl ProcessException
     else if maskBits src \<noteq> maskBits target then Inl ProcessException
     else bindR (getIdx src ip) (\<lambda>idx. genIpByIdx target idx))"

definition Cidr_toString :: "Cidr \<Rightarrow> string" where
  "Cidr_toString c = networkIdentifier c @ ''/'' @ show_int (sint (maskBits c))"

section \<open>Lemmas on the arithmetic of blocks\<close>

lemma sint_32_minus: "m \<le> 32 \<Longrightarrow> sint (32 - of_nat m :: jint) = int (32 - m)"
proof -
  assume "m \<le> 32"
  then have "32 - of_nat m = (of_nat (32 - m) :: jint)" by simp
  moreover have "unat (of_nat (32 - m) :: jint) = 32 - m" by (simp add: unat_of_nat)
  ultimately show ?thesis by (simp add: sint_small)
qed

lemma unat_parseIdentifierAddress:
  assumes "m \<le> 32" and "unat w < 2 ^ 32"
  shows "unat (parseIdentifierAddress w (of_nat m)) = unat w div 2 ^ (32 - m) * 2 ^ (32 - m)"
proof -
  have n: "nat (int (32 - m) mod 64) = 32 - m" by simp
  have "unat w div 2 ^ (32 - m) * 2 ^ (32 - m) \<le> unat w" by (rule div_times_less_eq_dividend)
  also note assms(2)
  also have "(2::nat) ^ 32 < 2 ^ 64" by simp
  finally have b: "unat (drop_bit (32 - m) w) * 2 ^ (32 - m) < 2 ^ 64"
    by (simp only: unat_drop_bit_div) 
  have "signed_drop_bit (32 - m) w = drop_bit (32 - m) w"
    using assms(2) by (intro signed_drop_bit_small) simp
  then show ?thesis
    unfolding parseIdentifierAddress_def sint_32_minus [OF assms(1)] shl64_def sar64_def n
    using b by (subst unat_push_bit_small) (simp_all only: unat_drop_bit_div, simp_all)
qed

lemma unat_calcCount: "m \<le> 32 \<Longrightarrow> unat (calcCount (of_nat m)) = 2 ^ (32 - m)"
proof -
  assume m: "m \<le> 32"
  have "(2::nat) ^ (32 - m) < 2 ^ 64" by (rule power_strict_increasing) auto
  moreover have "calcCount (of_nat m) = of_nat (2 ^ (32 - m))"
    unfolding calcCount_def sint_32_minus [OF m] by simp
  ultimately show ?thesis by (simp only: unat_of_nat) simp
qed

section \<open>The block a text denotes\<close>

definition ip_num :: "string \<Rightarrow> nat" where
  "ip_num s = (case ip2long s of Inr w \<Rightarrow> unat w | Inl e \<Rightarrow> 0)"

definition block_of :: "nat \<Rightarrow> nat \<Rightarrow> nat" where
  "block_of m n = n div 2 ^ (32 - m) * 2 ^ (32 - m)"

text \<open>What \<open>parseMaskAddress\<close> gives: the mask of the block for prefix lengths from 1 to 31 only.\<close>

definition mask_text :: "nat \<Rightarrow> string" where
  "mask_text m =
     (if m = 0 \<or> m = 32 then ''127.255.255.255'' else int2ip (of_nat (2 ^ 32 - 2 ^ (32 - m))))"

definition cidr_of :: "nat \<Rightarrow> nat \<Rightarrow> Cidr" where
  "cidr_of b m =
     \<lparr> networkIdentifier = int2ip (of_nat b),
       maskAddress = mask_text m,
       broadcastAddress = int2ip (of_nat (b + 2 ^ (32 - m) - 1)),
       gatewayAddress = int2ip (of_nat (b + 1)),
       maskBits = of_nat m,
       addrCount = of_nat (2 ^ (32 - m)) \<rparr>"

definition is_block :: "nat \<Rightarrow> nat \<Rightarrow> bool" where
  "is_block b m \<longleftrightarrow> m \<le> 32 \<and> b < 2 ^ 32 \<and> block_of m b = b"

lemma ip2long_num:
  assumes "quad_match s" shows "ip2long s = Inr (of_nat (ip_num s))" and "ip_num s < 2 ^ 32"
proof -
  obtain a b c d where "a < 256" "b < 256" "c < 256" "d < 256"
    and "ip2long s = Inr (of_nat (quad_nat a b c d))"
    using assms by (rule ip2long_quad_match)
  moreover from this have "ip_num s = quad_nat a b c d"
    by (simp only: ip_num_def unat_quad_nat sum.case)
  ultimately show "ip2long s = Inr (of_nat (ip_num s))" "ip_num s < 2 ^ 32"
    by (simp_all only: quad_nat_bound)
qed

lemma unat_small: "n < 2 ^ 33 \<Longrightarrow> unat (of_nat n :: jlong) = n"
  by (simp add: unat_of_nat)

lemma sint_small_long: "n < 2 ^ 33 \<Longrightarrow> sint (of_nat n :: jlong) = int n"
  by (simp add: sint_small unat_of_nat)

lemma ip_num_int2ip: "n < 2 ^ 32 \<Longrightarrow> ip_num (int2ip (of_nat n)) = n"
  by (simp add: ip_num_def ip2long_int2ip take_bit_of_nat_small unat_small del: of_nat_take_bit)

lemma ip2long_of_num: "n < 2 ^ 32 \<Longrightarrow> ip2long (int2ip (of_nat n)) = Inr (of_nat n)"
  by (simp only: ip2long_int2ip take_bit_of_nat_small)

lemma int2ip_eq_iff: "m < 2 ^ 32 \<Longrightarrow> n < 2 ^ 32 \<Longrightarrow> int2ip (of_nat m) = int2ip (of_nat n) \<longleftrightarrow> m = n"
  using ip_num_int2ip by metis

lemma block_of_le: "block_of m n \<le> n"
  by (simp add: block_of_def div_times_less_eq_dividend)

lemma block_of_idem [simp]: "block_of m (block_of m n) = block_of m n"
  by (simp add: block_of_def)

lemma is_block_block_of: "m \<le> 32 \<Longrightarrow> n < 2 ^ 32 \<Longrightarrow> is_block (block_of m n) m"
  using block_of_le [of m n] by (simp add: is_block_def)

lemma parseIdentifierAddress_nat:
  assumes "m \<le> 32" and "n < 2 ^ 32"
  shows "parseIdentifierAddress (of_nat n) (of_nat m) = of_nat (block_of m n)"
proof -
  have u: "unat (of_nat n :: jlong) = n" using assms(2) by (intro unat_small) simp
  have "block_of m n < 2 ^ 33" using block_of_le [of m n] assms(2) by simp
  then show ?thesis
    using unat_parseIdentifierAddress [OF assms(1), of "of_nat n"] assms(2)
    unfolding u by (simp only: word_unat_eq_iff unat_small block_of_def)
qed

lemma calcCount_nat: "m \<le> 32 \<Longrightarrow> calcCount (of_nat m) = of_nat (2 ^ (32 - m))"
  by (simp only: unat_calcCount [symmetric]) simp

lemma block_end:
  assumes "is_block b m" shows "b + 2 ^ (32 - m) \<le> 2 ^ 32"
proof -
  from assms have m: "m \<le> 32" and b: "b < 2 ^ 32" and e: "b div 2 ^ (32 - m) * 2 ^ (32 - m) = b"
    by (simp_all add: is_block_def block_of_def)
  have s: "(2::nat) ^ 32 = 2 ^ m * 2 ^ (32 - m)" using m by (simp flip: power_add)
  with b have "b div 2 ^ (32 - m) < 2 ^ m" by (simp only: less_mult_imp_div_less)
  then have "(b div 2 ^ (32 - m) + 1) * 2 ^ (32 - m) \<le> 2 ^ m * 2 ^ (32 - m)"
    by (intro mult_right_mono) auto
  then show ?thesis unfolding s using e by (simp add: algebra_simps)
qed

lemma calcMaxAddr_nat:
  assumes "is_block b m"
  shows "calcMaxAddr (of_nat b) (calcCount (of_nat m)) = of_nat (b + 2 ^ (32 - m) - 1)"
proof -
  have m: "m \<le> 32" using assms by (simp add: is_block_def)
  have pos: "0 < (2::nat) ^ (32 - m)" by simp
  have "of_nat (b + 2 ^ (32 - m) - 1) = (of_nat (b + 2 ^ (32 - m)) - 1 :: jlong)"
    using pos by (subst of_nat_diff) (linarith, simp)
  then show ?thesis unfolding calcMaxAddr_def calcCount_nat [OF m] by simp
qed

lemma i2l_1: "i2l 1 = 1"
  by (simp add: i2l_def)

lemma parseIp_nat:
  assumes "is_block b m" shows "parseIp (of_nat b) (of_nat m) 1 = int2ip (of_nat (b + 1))"
proof -
  from assms have "m \<le> 32" "b < 2 ^ 32" "block_of m b = b" by (simp_all add: is_block_def)
  then show ?thesis by (simp add: parseIp_def parseIdentifierAddress_nat i2l_1 add.commute)
qed

lemma parseNetworkIdentifier_nat:
  assumes "is_block b m"
  shows "parseNetworkIdentifier (of_nat b) (of_nat m) = int2ip (of_nat b)"
  using assms by (simp add: is_block_def parseNetworkIdentifier_def parseIdentifierAddress_nat)

lemma parseBroadcastAddress_nat:
  assumes "m \<le> 32" and "n < 2 ^ 32"
  shows "parseBroadcastAddress (of_nat n) (of_nat m) = int2ip (of_nat (block_of m n + 2 ^ (32 - m) - 1))"
  unfolding parseBroadcastAddress_def parseIdentifierAddress_nat [OF assms]
  by (simp only: calcMaxAddr_nat [OF is_block_block_of [OF assms]])

lemma int2ip_take32: "int2ip (take_bit 32 w) = int2ip w"
proof -
  have "take_bit 8 (drop_bit k (take_bit 32 x)) = take_bit 8 (drop_bit k x)"
    if "k + 8 \<le> 32" for k and x :: nat
    using that by (intro bit_eqI) (auto simp: bit_simps)
  then have d: "x mod 2 ^ 32 div 2 ^ k mod 2 ^ 8 = x div 2 ^ k mod 2 ^ 8"
    if "k + 8 \<le> 32" for k and x :: nat
    using that by (simp only: take_bit_eq_mod drop_bit_eq_div)
  have "x mod 2 ^ 32 div 2 ^ 24 mod 256 = x div 2 ^ 24 mod 256"
    "x mod 2 ^ 32 div 2 ^ 16 mod 256 = x div 2 ^ 16 mod 256"
    "x mod 2 ^ 32 div 2 ^ 8 mod 256 = x div 2 ^ 8 mod 256"
    "x mod 2 ^ 32 mod 256 = x mod 256" for x :: nat
    using d [of 24 x] d [of 16 x] d [of 8 x] d [of 0 x] by simp_all
  then show ?thesis unfolding int2ip_quad by (simp only: unat_take_bit)
qed

lemma mask_word:
  assumes "0 < k" and "k < 32"
  shows "(push_bit k 0x7fffffff :: jint) = of_nat (2 ^ 32 - 2 ^ k)"
proof -
  have z: "(2::jint) ^ (k + 31) = 0" using assms(1) by (simp add: exp_eq_zero_iff)
  have "(push_bit k 0x7fffffff :: jint) = 0x7fffffff * 2 ^ k" by (simp add: push_bit_eq_mult)
  also have "\<dots> = (2 ^ 31 - 1) * 2 ^ k" by simp
  also have "(2 ^ 31 - 1) * (2::jint) ^ k = 2 ^ (k + 31) - 2 ^ k"
    by (simp only: left_diff_distrib power_add mult.commute) simp
  also have "\<dots> = - (2 ^ k)" unfolding z by simp
  also have "\<dots> = of_nat (2 ^ 32 - 2 ^ k)"
    using assms(2) power_increasing [of k 32 "2::nat"] by (subst of_nat_diff) simp_all
  finally show ?thesis .
qed

lemma parseMaskAddress_nat:
  assumes "m \<le> 32" shows "parseMaskAddress (of_nat m) = mask_text m"
proof -
  have n: "nat (int k mod 32) = k mod 32" for k by (simp add: nat_mod_distrib)
  have t: "take_bit 32 (i2l w) = ucast w" for w
  proof (rule bit_word_eqI)
    fix n assume "n < LENGTH(64)"
    have "31 \<le> n \<Longrightarrow> n < 32 \<Longrightarrow> n = 31" by simp
    then show "bit (take_bit 32 (i2l w)) n = bit (ucast w :: jlong) n"
      unfolding i2l_def using bit_imp_le_length [of w n] by (cases "n = 31") (auto simp: bit_simps min_def)
  qed
  have e: "parseMaskAddress (of_nat m) = int2ip (ucast (push_bit ((32 - m) mod 32) 0x7fffffff :: jint))"
    unfolding parseMaskAddress_def Let_def shl32_def sint_32_minus [OF assms] n
    by (subst int2ip_take32 [symmetric]) (simp only: t)
  have z: "int2ip (ucast (0x7fffffff :: jint)) = ''127.255.255.255''"
    unfolding int2ip_quad by simp code_simp
  show ?thesis
  proof (cases "m = 0 \<or> m = 32")
    case True
    then show ?thesis unfolding e mask_text_def using z by auto
  next
    case False
    with assms have k: "0 < 32 - m" "32 - m < 32" "(32 - m) mod 32 = 32 - m" by auto
    have "ucast (of_nat (2 ^ 32 - 2 ^ (32 - m)) :: jint) = (of_nat (2 ^ 32 - 2 ^ (32 - m)) :: jlong)"
      by (simp only: unsigned_of_nat) (simp add: take_bit_nat_eq_self del: of_nat_diff)
    with False show ?thesis unfolding e k(3) mask_word [OF k(1,2)] mask_text_def by simp
  qed
qed

section \<open>Parsing: the interface to the address pattern\<close>

lemma ip2long_loop_all: "ip2long_loop ps k w = Inr v \<Longrightarrow> p \<in> set ps \<Longrightarrow> \<exists>x. parseLong p = Inr x"
  by (induction ps arbitrary: k w) (auto simp: res_simps)

lemma ip2long_last:
  assumes "ip2long s = Inr w" shows "s \<noteq> [] \<and> \<not> is_eol (last s)"
proof (rule conjI)
  show "s \<noteq> []"
  proof
    assume "s = []"
    then show False using assms by (simp add: ip2long_def java_split_def parseLong_def parse_dec_def)
  qed
  show "\<not> is_eol (last s)"
  proof
    assume e: "is_eol (last s)"
    then have n: "last s \<noteq> CHR ''.''" by (auto simp: is_eol_def)
    from last_split_all [OF \<open>s \<noteq> []\<close>, of "CHR ''.''"] n
    have l: "last (split_all CHR ''.'' s) \<noteq> []" "last (last (split_all CHR ''.'' s)) = last s" by auto
    have "java_split CHR ''.'' s = split_all CHR ''.'' s"
      using l(1) by (cases "CHR ''.'' \<in> set s") (simp_all add: java_split_last java_split_no_sep split_all_no_sep)
    then have "last (split_all CHR ''.'' s) \<in> set (java_split CHR ''.'' s)" by simp
    then obtain v where "parseLong (last (split_all CHR ''.'' s)) = Inr v"
      using assms ip2long_loop_all unfolding ip2long_def by metis
    then have "is_digit (last s)" using parseLong_last_digit l(2) by metis
    with e digit_not_eol show False by blast
  qed
qed

lemma isIPv4_ip2long:
  assumes "isIPv4 s" and "ip2long s = Inr w" shows "quad_match s"
  using ip2long_last [OF assms(2)] isIPv4_quad_match [OF assms(1)] by blast

lemma isIPv4_of_quad:
  assumes "quad_match s" shows "isIPv4 s"
proof -
  have "ip2long s = Inr (of_nat (ip_num s))" using assms by (rule ip2long_num)
  then have "strip_eol s = s" using ip2long_last strip_eol_id by metis
  with assms show ?thesis by (simp add: isIPv4_def)
qed

lemma split_cidr_text:
  "java_split CHR ''/'' (quad_str a b c d @ ''/'' @ show_nat m) = [quad_str a b c d, show_nat m]"
proof -
  have "split_all CHR ''/'' (quad_str a b c d @ ''/'' @ show_nat m) = [quad_str a b c d, show_nat m]"
    using split_all_append [of "CHR ''/''" "quad_str a b c d" "show_nat m"]
    by (simp add: quad_str_def split_all_no_sep)
  then show ?thesis by (subst java_split_last) simp_all
qed

lemma cidr_of_block:
  assumes "is_block b m"
  shows "\<lparr> networkIdentifier = parseNetworkIdentifier (of_nat b) (of_nat m),
           maskAddress = parseMaskAddress (of_nat m),
           broadcastAddress = parseBroadcastAddress (of_nat b) (of_nat m),
           gatewayAddress = parseIp (of_nat b) (of_nat m) 1,
           maskBits = of_nat m,
           addrCount = calcCount (of_nat m) \<rparr> = cidr_of b m"
proof -
  from assms have "m \<le> 32" "b < 2 ^ 32" "block_of m b = b" by (simp_all add: is_block_def)
  then show ?thesis
    using assms by (simp only: cidr_of_def parseNetworkIdentifier_nat parseMaskAddress_nat
      parseBroadcastAddress_nat parseIp_nat calcCount_nat)
qed

lemma quad_nat_surj:
  assumes "n < 2 ^ 32"
  shows "\<exists>a b c d. a < 256 \<and> b < 256 \<and> c < 256 \<and> d < 256 \<and> n = quad_nat a b c d"
proof (intro exI conjI)
  show "n = quad_nat (n div 2 ^ 24 mod 256) (n div 2 ^ 16 mod 256) (n div 2 ^ 8 mod 256) (n mod 256)"
    unfolding quad_nat_def bytes_of_nat using assms by simp
qed simp_all

lemma show_int_of_nat_word: "m \<le> 32 \<Longrightarrow> show_int (sint (of_nat m :: jint)) = show_nat m"
  by (subst sint_small) (simp_all add: unat_of_nat flip: show_int_of_nat)

text \<open>
  What the code relies on about hutool's \<open>PatternPool.IPV4\<close>: it finds every dotted quad, and
  finds nothing that the class's own test for an IPv4 address rejects.
\<close>

locale ipv4_pattern =
  fixes pat :: "string \<Rightarrow> bool"
  assumes pat_quad: "quad_match s \<Longrightarrow> pat s"
    and pat_isIPv4: "pat s \<Longrightarrow> isIPv4 s"
begin

lemma parseCidr_Inr:
  assumes "parseCidr pat text = Inr c"
  shows "\<exists>b m. is_block b m \<and> c = cidr_of b m"
proof -
  from assms obtain a s1 w m where p: "pat a" and w: "ip2long a = Inr w"
    and m: "0 \<le> sint m" "sint m \<le> 32"
    and c: "c = \<lparr> networkIdentifier = parseNetworkIdentifier (parseIdentifierAddress w m) m,
                   maskAddress = parseMaskAddress m,
                   broadcastAddress = parseBroadcastAddress (parseIdentifierAddress w m) m,
                   gatewayAddress = parseIp (parseIdentifierAddress w m) m 1,
                   maskBits = m,
                   addrCount = calcCount m \<rparr>"
    by (auto simp: parseCidr_def Let_def res_simps split: if_splits)
  from p have "isIPv4 a" by (rule pat_isIPv4)
  then have q: "quad_match a" using w by (rule isIPv4_ip2long)
  have n: "w = of_nat (ip_num a)" "ip_num a < 2 ^ 32" using ip2long_num [OF q] w by simp_all
  define k where "k = nat (sint m)"
  have k: "m = of_nat k" "k \<le> 32" using m by (simp_all add: k_def)
  have blk: "is_block (block_of k (ip_num a)) k" using k(2) n(2) by (rule is_block_block_of)
  have "c = cidr_of (block_of k (ip_num a)) k"
    using c k(2) blk unfolding n(1) k(1)
    by (simp add: parseIdentifierAddress_nat [OF k(2) n(2)] cidr_of_block)
  with blk show ?thesis by blast
qed

lemma parseCidr_text:
  assumes "a < 256" "b < 256" "c < 256" "d < 256" and "m \<le> 32"
  shows "parseCidr pat (quad_str a b c d @ ''/'' @ show_nat m)
    = Inr (cidr_of (block_of m (quad_nat a b c d)) m)"
proof -
  have n: "quad_nat a b c d < 2 ^ 32" using assms(1-4) by (rule quad_nat_bound)
  have s: "java_split CHR ''/'' (quad_str a b c d @ ''/'' @ show_nat m)
           = [quad_str a b c d, show_nat m]" by (rule split_cidr_text)
  have "sint (of_nat m :: jint) = int m" using assms(5) by (simp add: sint_small unat_of_nat)
  moreover have "parseInt (show_nat m) = Inr (of_nat m)" using assms(5) by (intro parseInt_show_nat) simp
  ultimately show ?thesis
    using assms cidr_of_block [OF is_block_block_of [OF assms(5) n]]
    by (simp add: parseCidr_def Let_def s [simplified] pat_quad ip2long_quad_str
      parseIdentifierAddress_nat [OF assms(5) n] atR_def)
qed

lemma parseCidr_toString:
  assumes "parseCidr pat text = Inr c"
  shows "parseCidr pat (Cidr_toString c) = Inr c"
proof -
  obtain b m where bm: "is_block b m" and c: "c = cidr_of b m"
    using parseCidr_Inr [OF assms] by blast
  then have m: "m \<le> 32" and b: "b < 2 ^ 32" and e: "block_of m b = b" by (simp_all add: is_block_def)
  obtain p q r s where o: "p < 256" "q < 256" "r < 256" "s < 256" and n: "b = quad_nat p q r s"
    using quad_nat_surj [OF b] by blast
  have "Cidr_toString c = quad_str p q r s @ ''/'' @ show_nat m"
    using m by (simp add: c Cidr_toString_def cidr_of_def n int2ip_quad_nat o show_int_of_nat_word)
  then show ?thesis using parseCidr_text [OF o m] e by (simp add: c n)
qed

end

interpretation own_pattern: ipv4_pattern isIPv4
  by unfold_locales (simp_all add: isIPv4_of_quad)

section \<open>Containment\<close>

lemma is_blockD: "is_block b m \<Longrightarrow> m \<le> 32 \<and> b < 2 ^ 32 \<and> block_of m b = b"
  by (simp add: is_block_def)

lemma blockStart_cidr_of:
  assumes "is_block b m" shows "blockStart (cidr_of b m) = Inr (of_nat b)"
proof -
  have m: "m \<le> 32" and b: "b < 2 ^ 32" and e: "block_of m b = b" using is_blockD [OF assms] by blast+
  show ?thesis
    by (simp add: blockStart_def cidr_of_def ip2long_of_num [OF b] parseIdentifierAddress_nat [OF m b] e)
qed

lemma in_block_iff:
  assumes "is_block b m"
  shows "b \<le> n \<and> n \<le> b + 2 ^ (32 - m) - 1 \<longleftrightarrow> block_of m n = b"
proof -
  have e: "b = block_of m b" using is_blockD [OF assms] by simp
  define k where "k = (2::nat) ^ (32 - m)"
  have k: "0 < k" by (simp add: k_def)
  obtain q where q: "b = q * k" using e by (auto simp: block_of_def k_def)
  have "q * k \<le> n \<and> n \<le> q * k + k - 1 \<longleftrightarrow> n div k = q"
  proof
    assume a: "q * k \<le> n \<and> n \<le> q * k + k - 1"
    moreover have "n < q * k + k" using a k by linarith
    then have "n < (q + 1) * k" by (simp add: algebra_simps)
    ultimately show "n div k = q"
      using k by (metis Suc_eq_plus1 div_less_iff_less_mult less_eq_div_iff_mult_less_eq less_Suc_eq_le order_antisym)
  next
    assume "n div k = q"
    then show "q * k \<le> n \<and> n \<le> q * k + k - 1"
      using k mod_less_divisor [OF k, of n] div_mult_mod_eq [of n k]  by (metis One_nat_def Suc_leI Suc_pred add_Suc_right add_le_cancel_left le_add1 less_Suc_eq_le add_diff_assoc)
  qed
  then show ?thesis using k by (auto simp: q block_of_def k_def [symmetric])
qed

lemma range_check:
  assumes "is_block b m" and "n < 2 ^ 32"
  shows "(sint (of_nat b :: jlong) \<le> sint (of_nat n :: jlong) \<and>
          sint (of_nat n :: jlong) \<le> sint (calcMaxAddr (of_nat b) (calcCount (of_nat m))))
         \<longleftrightarrow> block_of m n = b"
proof -
  have l: "b + 2 ^ (32 - m) - 1 < 2 ^ 33" using block_end [OF assms(1)] by simp
  have "b < 2 ^ 33" "n < 2 ^ 33" using is_blockD [OF assms(1)] assms(2) by simp_all
  then show ?thesis
    unfolding calcMaxAddr_nat [OF assms(1)] sint_small_long [OF l]
    by (simp only: sint_small_long of_nat_le_iff in_block_iff [OF assms(1)])
qed

lemma contains_cidr_of:
  assumes "is_block b m" and "quad_match ip"
  shows "contains (cidr_of b m) ip = Inr (block_of m (ip_num ip) = b)"
  using range_check [OF assms(1) ip2long_num(2) [OF assms(2)]]
  by (simp add: contains_def blockStart_cidr_of [OF assms(1)] ip2long_num(1) [OF assms(2)] Let_def)
    (simp add: cidr_of_def)

lemma Cidr_check_text:
  assumes "a < 256" "b < 256" "c < 256" "d < 256" and "m < 10 ^ 9"
  shows "Cidr_check (quad_str a b c d @ ''/'' @ show_nat m) =
    (if 1 \<le> m \<and> m \<le> 32 then Inr () else Inl CidrParseException)"
proof -
  have "sint (of_nat m :: jint) = int m" using assms(5) by (simp add: sint_small unat_of_nat)
  then show ?thesis
    using assms split_cidr_text [of a b c d m]
    by (auto simp: Cidr_check_def Let_def atR_def parseInt_show_nat)
qed

lemma Cidr_contains_text:
  assumes "a < 256" "b < 256" "c < 256" "d < 256" and "1 \<le> m" "m \<le> 32" and "quad_match ip"
  shows "Cidr_contains (quad_str a b c d @ ''/'' @ show_nat m) ip =
    Inr (block_of m (ip_num ip) = block_of m (quad_nat a b c d))"
proof -
  have n: "quad_nat a b c d < 2 ^ 32" using assms(1-4) by (rule quad_nat_bound)
  have k: "Cidr_check (quad_str a b c d @ ''/'' @ show_nat m) = Inr ()"
    using assms by (subst Cidr_check_text) simp_all
  have p: "parseInt (show_nat m) = Inr (of_nat m)" using assms(6) by (intro parseInt_show_nat) simp
  show ?thesis
    unfolding Cidr_contains_def k split_cidr_text Let_def
    using range_check [OF is_block_block_of [OF assms(6) n] ip2long_num(2) [OF assms(7)]]
    by (simp add: atR_def ip2long_quad_str assms(1-4) p ip2long_num(1) [OF assms(7)]
       parseIdentifierAddress_nat [OF assms(6) n])
qed

lemma Cidr_isBroadcastAddress_text:
  assumes "a < 256" "b < 256" "c < 256" "d < 256" and "1 \<le> m" "m \<le> 32"
  shows "Cidr_isBroadcastAddress (quad_str a b c d @ ''/'' @ show_nat m) ip =
    Inr (ip = broadcastAddress (cidr_of (block_of m (quad_nat a b c d)) m))"
proof -
  have n: "quad_nat a b c d < 2 ^ 32" using assms(1-4) by (rule quad_nat_bound)
  have k: "Cidr_check (quad_str a b c d @ ''/'' @ show_nat m) = Inr ()"
    using assms by (subst Cidr_check_text) simp_all
  have p: "parseInt (show_nat m) = Inr (of_nat m)" using assms(6) by (intro parseInt_show_nat) simp
  show ?thesis
    unfolding Cidr_isBroadcastAddress_def k split_cidr_text Let_def
    by (simp add: atR_def ip2long_quad_str assms(1-4) p parseBroadcastAddress_nat [OF assms(6) n] cidr_of_def)
qed

section \<open>Enumeration\<close>

lemma parseIpList_loop_run:
  assumes "j \<le> 2 ^ 30" and "cnt = of_nat j" and "i \<le> j"
  shows "parseIpList_loop cnt (of_nat i) s acc
    = Some (acc @ map (\<lambda>k. int2ip (s + of_nat k)) [0..<j - i])"
  using assms(3)
proof (induction "j - i" arbitrary: i s acc)
  case 0
  have c: "sint cnt = int j" using assms(1) by (simp add: assms(2) sint_small unat_of_nat)
  have "sint (i2l (of_nat i)) = int i"
    using 0 assms(1) sint_i2l_nat by simp
  with 0 c show ?case by (subst parseIpList_loop.simps) simp
next
  case (Suc d)
  have c: "sint cnt = int j" using assms(1) by (simp add: assms(2) sint_small unat_of_nat)
  have lt: "i < j" using Suc(2) by simp
  have n: "sint (i2l (of_nat i)) = int i" using Suc assms(1) sint_i2l_nat by simp
  have "parseIpList_loop cnt (of_nat i) s acc
      = parseIpList_loop cnt (of_nat (Suc i)) (s + 1) (acc @ [int2ip s])"
    using lt by (subst parseIpList_loop.simps) (simp add: n c add.commute)
  also have "\<dots> = Some ((acc @ [int2ip s]) @ map (\<lambda>k. int2ip (s + 1 + of_nat k)) [0..<j - Suc i])"
    using Suc(2) by (intro Suc.hyps(1)) simp_all
  also have "j - i = Suc (j - Suc i)" using Suc(2) by simp
  ultimately show ?case using Suc(2)
    by (simp add: upt_conv_Cons map_Suc_upt [symmetric] o_def add.assoc del: upt_Suc)
qed

lemma parseIpList_loop_diverges:
  assumes "parseIpList_loop cnt n s acc = Some ys" shows "sint cnt < 2 ^ 31"
proof (rule parseIpList_loop.raw_induct [of "\<lambda>cnt n s acc ys. sint cnt < 2 ^ 31", OF _ assms])
  fix loop cnt n s acc ys
  assume IH: "\<And>cnt n s acc ys. loop cnt n s acc = Some ys \<Longrightarrow> sint (cnt :: jlong) < 2 ^ 31"
    and r: "(if sint (i2l n) < sint cnt then loop cnt (n + 1) (s + 1) (acc @ [int2ip s])
             else Some acc) = Some ys"
  show "sint cnt < 2 ^ 31"
  proof (cases "sint (i2l n) < sint cnt")
    case True
    with r IH show ?thesis by simp
  next
    case False
    have "sint (i2l n) < 2 ^ 31" using sint_lt [of n] by (simp add: sint_i2l)
    with False show ?thesis by simp
  qed
qed

section \<open>Enumeration and translation of blocks\<close>

lemma ip_num_quad_str:
  "a < 256 \<Longrightarrow> b < 256 \<Longrightarrow> c < 256 \<Longrightarrow> d < 256 \<Longrightarrow> ip_num (quad_str a b c d) = quad_nat a b c d"
  by (simp only: ip_num_def ip2long_quad_str sum.case unat_quad_nat)

definition block_ips :: "nat \<Rightarrow> nat \<Rightarrow> string list" where
  "block_ips b m = map (\<lambda>k. int2ip (of_nat (b + k))) [0..<2 ^ (32 - m)]"

lemma parseIpList_nat:
  assumes "is_block b m"
  shows "parseIpList (of_nat b) (of_nat m) = (if 2 \<le> m then Some (block_ips b m) else None)"
proof -
  have m: "m \<le> 32" and b: "b < 2 ^ 32" and e: "block_of m b = b" using is_blockD [OF assms] by blast+
  show ?thesis
  proof (cases "2 \<le> m")
    case True
    then have "(2::nat) ^ (32 - m) \<le> 2 ^ 30" by (intro power_increasing) auto
    from parseIpList_loop_run [OF this calcCount_nat [OF m], of 0] True show ?thesis
      by (simp add: parseIpList_def parseIdentifierAddress_nat [OF m b] e block_ips_def)
  next
    case False
    have "(2::nat) ^ (32 - m) \<le> 2 ^ 32" by (intro power_increasing) auto
    then have "sint (calcCount (of_nat m)) = int (2 ^ (32 - m))"
      unfolding calcCount_nat [OF m] by (intro sint_small_long) simp
    moreover have "(2::nat) ^ 31 \<le> 2 ^ (32 - m)" using False by (intro power_increasing) auto
    ultimately have "\<not> sint (calcCount (of_nat m)) < 2 ^ 31"
      by (metis linorder_not_less of_nat_le_iff of_nat_numeral of_nat_power)
    then have "parseIpList (of_nat b) (of_nat m) \<noteq> Some ys" for ys
      unfolding parseIpList_def using parseIpList_loop_diverges by blast
    with False show ?thesis by (cases "parseIpList (of_nat b) (of_nat m)") auto
  qed
qed

lemma allIpList_cidr_of:
  assumes "is_block b m"
  shows "allIpList (cidr_of b m) = Inr (if 2 \<le> m then Some (block_ips b m) else None)"
  by (simp add: allIpList_def blockStart_cidr_of [OF assms] parseIpList_nat [OF assms, simplified])
    (simp add: cidr_of_def parseIpList_nat [OF assms])

lemma block_ips_num:
  assumes "is_block b m" and "k < 2 ^ (32 - m)"
  shows "b + k < 2 ^ 32"
  using block_end [OF assms(1)] assms(2) by linarith

lemma distinct_block_ips:
  assumes "is_block b m" shows "distinct (block_ips b m)"
proof -
  have "x = y" if "x < 2 ^ (32 - m)" "y < 2 ^ (32 - m)"
    and "int2ip (of_nat (b + x)) = int2ip (of_nat (b + y))" for x y
    using iffD1 [OF int2ip_eq_iff [OF block_ips_num [OF assms that(1)]
      block_ips_num [OF assms that(2)]] that(3)] by simp
  then show ?thesis by (simp add: block_ips_def distinct_map inj_on_def)
qed

lemma in_block_ips:
  assumes "is_block b m"
  shows "ip \<in> set (block_ips b m) \<longleftrightarrow> (\<exists>n < 2 ^ 32. ip = int2ip (of_nat n) \<and> block_of m n = b)"
proof
  assume "ip \<in> set (block_ips b m)"
  then obtain k where k: "k < 2 ^ (32 - m)" and "ip = int2ip (of_nat (b + k))"
    by (auto simp: block_ips_def)
  moreover have "block_of m (b + k) = b"
    using k by (subst in_block_iff [OF assms, symmetric]) linarith
  ultimately show "\<exists>n < 2 ^ 32. ip = int2ip (of_nat n) \<and> block_of m n = b"
    using block_ips_num [OF assms k] by blast
next
  assume "\<exists>n < 2 ^ 32. ip = int2ip (of_nat n) \<and> block_of m n = b"
  then obtain n where n: "ip = int2ip (of_nat n)" "block_of m n = b" by blast
  then have "b \<le> n \<and> n \<le> b + 2 ^ (32 - m) - 1" by (simp only: in_block_iff [OF assms])
  moreover have "0 < (2::nat) ^ (32 - m)" by simp
  ultimately have "b + (n - b) = n" "n - b < 2 ^ (32 - m)" by linarith+
  then show "ip \<in> set (block_ips b m)"
    unfolding block_ips_def n(1) set_map set_upt by (intro image_eqI [of _ _ "n - b"]) auto
qed

lemma remove1_filter: "distinct xs \<Longrightarrow> remove1 x xs = filter (\<lambda>y. y \<noteq> x) xs"
  by (simp add: distinct_remove1_removeAll removeAll_filter_not_eq neq_commute)

lemma isAvailableIp_iff:
  "isAvailableIp c ip \<longleftrightarrow> ip \<notin> {networkIdentifier c, maskAddress c, broadcastAddress c, gatewayAddress c}"
  by (auto simp: isAvailableIp_def)

lemma availableIpList_cidr_of:
  assumes "is_block b m"
  shows "availableIpList (cidr_of b m) =
    Inr (if 2 \<le> m then Some (filter (isAvailableIp (cidr_of b m)) (block_ips b m)) else None)"
  using distinct_block_ips [OF assms]
  by (auto simp: availableIpList_def allIpList_cidr_of [OF assms] remove1_filter isAvailableIp_iff
      intro!: filter_cong)

lemma getIdx_cidr_of:
  assumes "is_block b m" and "quad_match ip"
  shows "getIdx (cidr_of b m) ip = Inr (of_nat (ip_num ip) - of_nat b)"
  by (simp add: getIdx_def blockStart_cidr_of [OF assms(1)] ip2long_num(1) [OF assms(2)])

lemma genIpByIdx_cidr_of:
  assumes "is_block b m"
  shows "genIpByIdx (cidr_of b m) idx = Inr (int2ip (of_nat b + idx))"
  by (simp add: genIpByIdx_def blockStart_cidr_of [OF assms])

lemma maskBits_cidr_of [simp]: "maskBits (cidr_of b m) = of_nat m"
  by (simp add: cidr_of_def)

lemma Cidr_transform_cidr_of:
  assumes "is_block b m" and "is_block b' m'" and "quad_match ip"
  shows "Cidr_transform ip (cidr_of b m) (cidr_of b' m') =
    (if block_of m (ip_num ip) = b \<and> m = m' then Inr (int2ip (of_nat (b' + (ip_num ip - b))))
     else Inl ProcessException)"
proof -
  have m: "m \<le> 32" "m' \<le> 32" using assms is_blockD by blast+
  then have q: "(of_nat m :: jint) = of_nat m' \<longleftrightarrow> m = m'"
    by (auto dest!: arg_cong [of _ _ unat] simp: unat_of_nat)
  have "block_of m (ip_num ip) = b \<Longrightarrow> b \<le> ip_num ip" using block_of_le [of m "ip_num ip"] by simp
  then have "block_of m (ip_num ip) = b \<Longrightarrow>
    (of_nat b' + (of_nat (ip_num ip) - of_nat b) :: jlong) = of_nat (b' + (ip_num ip - b))"
    by (simp add: of_nat_diff)
  then show ?thesis
    unfolding Cidr_transform_def contains_cidr_of [OF assms(1,3)] getIdx_cidr_of [OF assms(1,3)]
        genIpByIdx_cidr_of [OF assms(2)] bindR.simps maskBits_cidr_of q by auto
qed

lemma transform_target:
  assumes "is_block b m" and "is_block b' m" and "block_of m n = b"
  shows "block_of m (b' + (n - b)) = b'" and "b' + (n - b) < 2 ^ 32"
proof -
  have "b \<le> n \<and> n \<le> b + 2 ^ (32 - m) - 1" using assms(3) in_block_iff [OF assms(1), of n] by blast
  moreover have "0 < (2::nat) ^ (32 - m)" by simp
  ultimately have "n - b < 2 ^ (32 - m)" by linarith
  moreover from this show "b' + (n - b) < 2 ^ 32" by (rule block_ips_num [OF assms(2)])
  ultimately show "block_of m (b' + (n - b)) = b'"
    using in_block_iff [OF assms(2), of "b' + (n - b)"] by linarith
qed

text \<open>
  The fields of a block as they should be; those of \<open>cidr_of\<close>, which has what the code computes, differ from them in
  the masks of the prefix lengths 0 and 32.
\<close>

definition block_fields :: "nat \<Rightarrow> nat \<Rightarrow> Cidr" where
  "block_fields b m =
     \<lparr> networkIdentifier = int2ip (of_nat b),
       maskAddress = int2ip (of_nat (2 ^ 32 - 2 ^ (32 - m))),
       broadcastAddress = int2ip (of_nat (b + 2 ^ (32 - m) - 1)),
       gatewayAddress = int2ip (of_nat (b + 1)),
       maskBits = of_nat m,
       addrCount = of_nat (2 ^ (32 - m)) \<rparr>"

lemma cidr_of_fields:
  "cidr_of b m = (if m = 0 \<or> m = 32 then (block_fields b m)\<lparr>maskAddress := ''127.255.255.255''\<rparr> else block_fields b m)"
  by (simp add: cidr_of_def block_fields_def mask_text_def)

lemma no_such_mask: "m \<le> 32 \<Longrightarrow> int2ip (of_nat (2 ^ 32 - 2 ^ (32 - m))) \<noteq> ''127.255.255.255''"
proof
  assume "int2ip (of_nat (2 ^ 32 - 2 ^ (32 - m))) = ''127.255.255.255''" and m: "m \<le> 32"
  moreover have "int2ip (of_nat (quad_nat 127 255 255 255)) = ''127.255.255.255''" unfolding int2ip_quad by (simp add: quad_nat_def) code_simp
  ultimately have "ip_num (int2ip (of_nat (2 ^ 32 - 2 ^ (32 - m)))) = ip_num (int2ip (of_nat (quad_nat 127 255 255 255)))" by simp
  moreover have "(2::nat) ^ 32 - 2 ^ (32 - m) < 2 ^ 32" by (rule diff_less) simp_all
  moreover have "quad_nat 127 255 255 255 < 2 ^ 32" by (simp add: quad_nat_def)
  ultimately have "(2::nat) ^ 32 - 2 ^ (32 - m) = quad_nat 127 255 255 255" by (simp only: ip_num_int2ip)
  then have "(2::nat) ^ (32 - m) = 2 ^ 32 - quad_nat 127 255 255 255" using power_increasing [of "32 - m" 32 "2::nat"] by simp
  then have e: "(2::nat) ^ (32 - m) = 2 ^ 31 + 1" by (simp add: quad_nat_def)
  then have "32 - m \<noteq> 0" by (metis add_cancel_left_left power_0 power_not_zero zero_neq_numeral)
  then have "even ((2::nat) ^ (32 - m))" by simp
  then show False unfolding e by simp
qed

section \<open>Properties\<close>

text \<open>
  C30: A text that \<open>parseCidr\<close> accepts denotes a block: an aligned network number with a prefix
  length up to 32. The network, the broadcast address (the last of the block), the gateway (the network plus one), the
  count and the prefix length of the object are those of the block, and so is the mask for a
  prefix length from 1 to 31; for 0 and 32 the mask is 127.255.255.255, which is the mask of no block. The
  text \<open>toString\<close> prints parses to the same object, and every text \<open>a.b.c.d/m\<close> with octets and a
  prefix length in range is accepted as the block of its address.
\<close>

theorem parseCidr_correct:
  assumes "ipv4_pattern pat"
  shows "(\<forall>text c. parseCidr pat text = Inr c \<longrightarrow>
      (\<exists>b m. is_block b m \<and> c = (if m = 0 \<or> m = 32 then (block_fields b m)\<lparr>maskAddress := ''127.255.255.255''\<rparr> else block_fields b m)) \<and>
      parseCidr pat (Cidr_toString c) = Inr c) \<and>
    (\<forall>a b c d m. a < 256 \<and> b < 256 \<and> c < 256 \<and> d < 256 \<and> m \<le> 32 \<longrightarrow>
      (let f = block_fields (block_of m (quad_nat a b c d)) m
       in parseCidr pat (quad_str a b c d @ ''/'' @ show_nat m) =
         Inr (if m = 0 \<or> m = 32 then f\<lparr>maskAddress := ''127.255.255.255''\<rparr> else f))) \<and>
    (\<forall>b m. is_block b m \<longrightarrow> maskAddress (block_fields b m) \<noteq> ''127.255.255.255'')"
proof (intro conjI)
  show "\<forall>text c. parseCidr pat text = Inr c \<longrightarrow>
      (\<exists>b m. is_block b m \<and> c = (if m = 0 \<or> m = 32 then (block_fields b m)\<lparr>maskAddress := ''127.255.255.255''\<rparr> else block_fields b m)) \<and>
      parseCidr pat (Cidr_toString c) = Inr c"
    using ipv4_pattern.parseCidr_Inr [OF assms] ipv4_pattern.parseCidr_toString [OF assms] unfolding cidr_of_fields by blast
  show "\<forall>a b c d m. a < 256 \<and> b < 256 \<and> c < 256 \<and> d < 256 \<and> m \<le> 32 \<longrightarrow>
      (let f = block_fields (block_of m (quad_nat a b c d)) m
       in parseCidr pat (quad_str a b c d @ ''/'' @ show_nat m) =
         Inr (if m = 0 \<or> m = 32 then f\<lparr>maskAddress := ''127.255.255.255''\<rparr> else f))"
    using ipv4_pattern.parseCidr_text [OF assms] by (simp add: cidr_of_fields Let_def)
  show "\<forall>b m. is_block b m \<longrightarrow> maskAddress (block_fields b m) \<noteq> ''127.255.255.255''"
    using no_such_mask by (simp add: is_block_def block_fields_def)
qed

theorem parseCidr_correct_witness:
  "parseCidr isIPv4 (quad_str 192 168 1 7 @ ''/'' @ show_nat 24) =
     Inr (cidr_of (block_of 24 (quad_nat 192 168 1 7)) 24) \<and>
   parseCidr isIPv4 (Cidr_toString (cidr_of (block_of 24 (quad_nat 192 168 1 7)) 24)) =
     Inr (cidr_of (block_of 24 (quad_nat 192 168 1 7)) 24)"
proof -
  note p = parseCidr_correct [OF own_pattern.ipv4_pattern_axioms]
  have t: "parseCidr isIPv4 (quad_str 192 168 1 7 @ ''/'' @ show_nat 24) =
     Inr (cidr_of (block_of 24 (quad_nat 192 168 1 7)) 24)"
    using own_pattern.parseCidr_text [of 192 168 1 7 24] by simp
  show ?thesis using t p [THEN conjunct1, rule_format, OF t] by blast
qed

text \<open>
  The two containment tests of the class decide that the address lies in the block, that is
  that its first \<open>m\<close> bits are those of the block: \<open>contains\<close> on the parsed object and the
  static \<open>contains\<close> on the text, which agree; the broadcast test on the text compares with the
  broadcast address of the object.
\<close>

theorem Cidr_contains_correct:
  assumes "a < 256" "b < 256" "c < 256" "d < 256" and "1 \<le> m" "m \<le> 32" and "quad_match ip"
  shows "Cidr_contains (quad_str a b c d @ ''/'' @ show_nat m) ip =
      Inr (ip_num ip div 2 ^ (32 - m) = quad_nat a b c d div 2 ^ (32 - m)) \<and>
    contains (cidr_of (block_of m (quad_nat a b c d)) m) ip =
      Cidr_contains (quad_str a b c d @ ''/'' @ show_nat m) ip \<and>
    Cidr_isBroadcastAddress (quad_str a b c d @ ''/'' @ show_nat m) ip =
      Inr (ip = broadcastAddress (cidr_of (block_of m (quad_nat a b c d)) m))"
proof -
  have n: "quad_nat a b c d < 2 ^ 32" using assms(1-4) by (rule quad_nat_bound)
  have "block_of m (ip_num ip) = block_of m (quad_nat a b c d) \<longleftrightarrow>
    ip_num ip div 2 ^ (32 - m) = quad_nat a b c d div 2 ^ (32 - m)"
    by (simp add: block_of_def)
  then show ?thesis
    using assms by (simp only: Cidr_contains_text Cidr_isBroadcastAddress_text
      contains_cidr_of is_block_block_of n simp_thms)
qed

theorem Cidr_contains_correct_witness:
  "Cidr_contains (quad_str 10 1 0 0 @ ''/'' @ show_nat 16) (quad_str 10 1 200 3) = Inr True \<and>
   Cidr_contains (quad_str 10 1 0 0 @ ''/'' @ show_nat 16) (quad_str 10 2 200 3) = Inr False"
  using Cidr_contains_correct [of 10 1 0 0 16 "quad_str 10 1 200 3"]
    Cidr_contains_correct [of 10 1 0 0 16 "quad_str 10 2 200 3"]
  by (simp add: ip_num_quad_str quad_nat_def)

text \<open>
  C29: The enumeration of a block with prefix length at least 2 is the list of its addresses in
  order, each once, exactly the contained ones; \<open>availableIpList\<close> keeps those that
  \<open>isAvailableIp\<close> accepts. For prefix length 0 or 1 the loop never returns (its counter is an
  \<open>int\<close> and the bound at least \<open>2^31\<close>).
\<close>

theorem allIpList_correct:
  assumes "is_block b m"
  shows "allIpList (cidr_of b m) = Inr (if 2 \<le> m then Some (block_ips b m) else None) \<and>
    availableIpList (cidr_of b m) =
      Inr (if 2 \<le> m then Some (filter (isAvailableIp (cidr_of b m)) (block_ips b m)) else None) \<and>
    distinct (block_ips b m) \<and> length (block_ips b m) = 2 ^ (32 - m) \<and>
    (\<forall>w. int2ip w \<in> set (block_ips b m) \<longleftrightarrow> contains (cidr_of b m) (int2ip w) = Inr True)"
proof (intro conjI allI)
  fix w :: jlong
  define n where "n = unat (take_bit 32 w)"
  have "n < 2 ^ 32" unfolding n_def by (simp only: unat_take_bit) simp
  have "int2ip w = int2ip (take_bit 32 w)" by (simp only: int2ip_take32)
  also have "take_bit 32 w = of_nat n" unfolding n_def by simp
  finally have w: "int2ip w = int2ip (of_nat n)" .
  have "ip_num (int2ip w) = n" unfolding w using \<open>n < 2 ^ 32\<close> by (rule ip_num_int2ip)
  then show "int2ip w \<in> set (block_ips b m) \<longleftrightarrow> contains (cidr_of b m) (int2ip w) = Inr True"
    unfolding in_block_ips [OF assms] contains_cidr_of [OF assms quad_match_int2ip]
    using w \<open>n < 2 ^ 32\<close> ip_num_int2ip by (metis sum.inject(2))
next
  show "distinct (block_ips b m)" using assms by (rule distinct_block_ips)
qed (simp_all add: allIpList_cidr_of availableIpList_cidr_of assms, simp add: block_ips_def)

theorem allIpList_correct_witness:
  "allIpList (cidr_of (quad_nat 10 0 0 4) 30) = Inr (Some (block_ips (quad_nat 10 0 0 4) 30)) \<and>
   allIpList (cidr_of 0 1) = Inr None"
  using allIpList_correct [of "quad_nat 10 0 0 4" 30] allIpList_correct [of 0 1]
  by (simp add: is_block_def block_of_def quad_nat_def)

text \<open>
  C19: Translating an address from one block to another of the same size keeps its offset: the
  result lies in the target block, and translating back gives the address again. An address
  outside the source block and blocks of different sizes are refused.
\<close>

theorem Cidr_transform_correct:
  assumes "is_block b m" and "is_block b' m'" and "n < 2 ^ 32"
  shows "Cidr_transform (int2ip (of_nat n)) (cidr_of b m) (cidr_of b' m') =
      (if block_of m n = b \<and> m = m' then Inr (int2ip (of_nat (b' + (n - b)))) else Inl ProcessException) \<and>
    (\<forall>ip. Cidr_transform (int2ip (of_nat n)) (cidr_of b m) (cidr_of b' m') = Inr ip \<longrightarrow>
       contains (cidr_of b' m') ip = Inr True \<and>
       Cidr_transform ip (cidr_of b' m') (cidr_of b m) = Inr (int2ip (of_nat n)))"
proof -
  have t: "Cidr_transform (int2ip (of_nat n)) (cidr_of b m) (cidr_of b' m') =
      (if block_of m n = b \<and> m = m' then Inr (int2ip (of_nat (b' + (n - b)))) else Inl ProcessException)"
    using Cidr_transform_cidr_of [OF assms(1,2) quad_match_int2ip, of "of_nat n"]
    unfolding ip_num_int2ip [OF assms(3)] by blast
  have "contains (cidr_of b' m') ip = Inr True \<and>
       Cidr_transform ip (cidr_of b' m') (cidr_of b m) = Inr (int2ip (of_nat n))"
    if ip: "Cidr_transform (int2ip (of_nat n)) (cidr_of b m) (cidr_of b' m') = Inr ip" for ip
  proof -
    have e: "block_of m n = b" "m = m'" "ip = int2ip (of_nat (b' + (n - b)))"
      using ip unfolding t by (auto split: if_splits)
    have le: "b \<le> n" using block_of_le [of m n] e(1) by simp
    obtain k where k: "k = b' + (n - b)" by blast
    note tt = transform_target [OF assms(1) assms(2) [folded e(2)] e(1), folded k]
    have "b + (k - b') = n" using le k by simp
    then show ?thesis
      using contains_cidr_of [OF assms(2) quad_match_int2ip, of "of_nat k"]
        Cidr_transform_cidr_of [OF assms(2,1) quad_match_int2ip, of "of_nat k"]
      unfolding e(3) k [symmetric] ip_num_int2ip [OF tt(2)] e(2) [symmetric] tt(1) by simp
  qed
  with t show ?thesis by blast
qed

theorem Cidr_transform_correct_witness:
  "Cidr_transform (int2ip (of_nat (quad_nat 10 0 0 7)))
     (cidr_of (quad_nat 10 0 0 0) 24) (cidr_of (quad_nat 192 168 5 0) 24)
   = Inr (int2ip (of_nat (quad_nat 192 168 5 7)))"
  using Cidr_transform_correct [of "quad_nat 10 0 0 0" 24 "quad_nat 192 168 5 0" 24 "quad_nat 10 0 0 7"]
  by (simp add: is_block_def block_of_def quad_nat_def)

text \<open>
  The mask address of a prefix length between 1 and 31 is the one with the first \<open>m\<close> bits
  set; for 0 and 32 it is 127.255.255.255 in both cases.
\<close>

theorem parseMaskAddress_correct:
  assumes "m \<le> 32"
  shows "parseMaskAddress (of_nat m) =
    (if m = 0 \<or> m = 32 then ''127.255.255.255'' else int2ip (of_nat (2 ^ 32 - 2 ^ (32 - m))))"
  unfolding parseMaskAddress_nat [OF assms] mask_text_def by (rule refl)

theorem parseMaskAddress_correct_witness:
  "parseMaskAddress (of_nat 32) = ''127.255.255.255'' \<and>
   parseMaskAddress (of_nat 24) = int2ip (of_nat (2 ^ 32 - 2 ^ 8))"
  using parseMaskAddress_correct [of 32] parseMaskAddress_correct [of 24] by simp

text \<open>
  The conversions between the number, the text and the four bytes of an address are
  inverse to each other: a text printed from a number parses to its low 32 bits, four bytes
  printed as text give the same four bytes; and a text accepted by \<open>isIPv4\<close> is parsed by
  \<open>ip2long\<close> exactly when it is a dotted quad without a line terminator at the end (with one,
  \<open>isIPv4\<close> says yes and \<open>ip2long\<close> throws).
\<close>

theorem ip_conversions:
  "ip2long (int2ip w) = Inr (take_bit 32 w) \<and> isIPv4 (int2ip w) \<and>
   (length bs = 4 \<longrightarrow> bindR (bytes2ip bs) ip2bytes = Inr bs) \<and>
   (isIPv4 s \<longrightarrow> ((\<exists>v. ip2long s = Inr v) \<longleftrightarrow> strip_eol s = s))"
proof -
  have "(\<exists>v. ip2long s = Inr v) \<longleftrightarrow> strip_eol s = s" if "isIPv4 s"
  proof
    assume "\<exists>v. ip2long s = Inr v"
    then show "strip_eol s = s" using ip2long_last strip_eol_id by blast
  next
    assume "strip_eol s = s"
    with that have "quad_match s" by (simp add: isIPv4_def)
    then show "\<exists>v. ip2long s = Inr v" using ip2long_num(1) by blast
  qed
  then show ?thesis using ip2long_int2ip ip2bytes_bytes2ip by simp
qed

theorem ip_conversions_witness:
  "bindR (bytes2ip [10, 0, 255, 7]) ip2bytes = Inr [10, 0, 255, 7] \<and>
   (\<nexists>v. ip2long (''1.2.3.4'' @ [CHR 0x0A]) = Inr v)"
proof -
  have "isIPv4 (''1.2.3.4'' @ [CHR 0x0A])" "strip_eol (''1.2.3.4'' @ [CHR 0x0A]) \<noteq> ''1.2.3.4'' @ [CHR 0x0A]"
    by code_simp+
  then show ?thesis
    using ip_conversions [of 0 "[10, 0, 255, 7]" "''1.2.3.4'' @ [CHR 0x0A]"] by simp
qed

text \<open>
  \<open>isMulticastIp\<close> holds of exactly the class D addresses 224.0.0.0 to 239.255.255.255 and
  of the limited broadcast address.
\<close>

theorem isMulticastIp_correct:
  assumes "a < 256" "b < 256" "c < 256" "d < 256"
  shows "isMulticastIp (quad_str a b c d) =
    Inr (224 \<le> a \<and> a \<le> 239 \<or> a = 255 \<and> b = 255 \<and> c = 255 \<and> d = 255)"
  using assms by (rule isMulticastIp_quad_str)

theorem isMulticastIp_correct_witness:
  "isMulticastIp (quad_str 224 0 0 251) = Inr True \<and> isMulticastIp (quad_str 10 0 0 1) = Inr False"
  using isMulticastIp_correct [of 224 0 0 251] isMulticastIp_quad_str [of 10 0 0 1] by simp

end
