(* ===== verification/Messages.thy ===== *)
theory Messages
  imports NetPrelude
begin

text \<open>
  The messages of sdwan.proto as records, with the proto's field names (a prefix keeps them
  apart), its enumerations as datatypes and an optional field as an option where its absence
  matters. Serialisation is generated code and a parameter: a record of functions to and from
  a type \<open>'d\<close> of serialised bytes, with the law that parsing what was serialised gives the
  message back.
\<close>

section \<open>Enumerations\<close>

datatype MessageCode =
  MC_Success | MC_Failed | MC_SysError | MC_NotEnough | MC_VipBound | MC_NotFound | MC_NotGrant | MC_Disabled

fun MessageCode_number :: "MessageCode \<Rightarrow> int" where
  "MessageCode_number MC_Success = 0"
| "MessageCode_number MC_Failed = 1"
| "MessageCode_number MC_SysError = 2"
| "MessageCode_number MC_NotEnough = 3"
| "MessageCode_number MC_VipBound = 4"
| "MessageCode_number MC_NotFound = 5"
| "MessageCode_number MC_NotGrant = 6"
| "MessageCode_number MC_Disabled = 7"

datatype MessageMode = ReqResp | Push

datatype MessageTypeCode =
    RegistReqType | RegistRespType | P2pOfferType | P2pAnswerType | ConfigReqType | ConfigRespTpe
  | NodeInfoListType | RouteListType | VNATListType | NodeOnlineType | NodeOfflineType
  | RouteRuleListType | HeartType | UpdateNodeInfoType

datatype NodeTypeCode = SimpleType | MeshType

section \<open>Messages\<close>

record NodeInfo =
  ni_vip :: string
  ni_addressUri :: "string list"

record Route =
  rt_destination :: string
  rt_nexthop :: "string list"
  rt_name :: string

record RouteRule =
  rr_strategy :: string
  rr_direction :: string
  rr_level :: jint
  rr_ruleList :: "string list"
  rr_name :: string

record VNAT =
  vn_vip :: string
  vn_src :: string
  vn_dst :: string
  vn_vipList :: "string list"
  vn_name :: string

record RegistReq =
  rq_tenantId :: string
  rq_nodeType :: NodeTypeCode
  rq_macAddress :: string
  rq_addressUri :: "string list"
  rq_os :: string
  rq_osVersion :: string
  rq_nodeVersion :: string
  rq_mesh :: bool

record RegistResp =
  rs_code :: MessageCode
  rs_vip :: string
  rs_maskBits :: jint
  rs_nodeList :: "NodeInfo list"
  rs_routeList :: "Route list"
  rs_vnatList :: "VNAT list"
  rs_routeRuleList :: "RouteRule list"
  rs_cidr :: string

record NodeInfoReq =
  nr_addressUri :: "string list"

record IpPacketMsg =
  ip_srcIP :: string
  ip_dstIP :: string
  ip_payload :: "jbyte list"

record P2pOffer =
  po_tenantId :: string
  po_srcVIP :: string
  po_dstVIP :: string
  po_addressUri :: "string list"
  po_publicKey :: "jbyte list"

record P2pAnswer =
  pa_tenantId :: string
  pa_code :: MessageCode
  pa_srcVIP :: string
  pa_dstVIP :: string
  pa_publicKey :: "jbyte list"

record ServerConfigReq =
  cq_tenantId :: string

record ServerConfigResp =
  cr_code :: MessageCode
  cr_stunServers :: "string list"
  cr_relayServers :: "string list"
  cr_stunServer :: string
  cr_relayServer :: string

record 'd Message =
  msg_reqId :: string
  msg_mode :: MessageMode
  msg_type :: MessageTypeCode
  msg_data :: 'd

end
