(* ===== verification/RouteRules.thy ===== *)
theory RouteRules
  imports CidrBlock Messages
begin

text \<open>
  The route rules of sdwan-core (package tranport.rule): predicates on addresses, their
  parser, chains with a strategy and a direction, and the processor that lets the first
  matching chain decide. An abstract rule is a set of address numbers with a strategy; the
  processor refines the first-match decision over abstract rules. Log output is left out.
\<close>

section \<open>Predicates and their parser\<close>

datatype RouteRuleDirectionEnum = RD_All | RD_Input | RD_Output

datatype RouteRuleStrategyEnum = RS_Allow | RS_Reject

datatype RouteRulePredicate =
    CidrRouteRulePredicate Cidr
  | Ipv4RangeRouteRulePredicate jlong jlong
  | Ipv4RouteRulePredicate string

fun predicate_test :: "RouteRulePredicate \<Rightarrow> string \<Rightarrow> bool res" where
  "predicate_test (CidrRouteRulePredicate cidr) ip = contains cidr ip"
| "predicate_test (Ipv4RangeRouteRulePredicate st en) ip =
     bindR (ip2long ip) (\<lambda>address.
       if sint address \<ge> sint st \<and> sint address \<le> sint en then Inr True else Inr False)"
| "predicate_test (Ipv4RouteRulePredicate ipv4) ip = Inr (ip = ipv4)"

fun predicate_toString :: "RouteRulePredicate \<Rightarrow> string" where
  "predicate_toString (CidrRouteRulePredicate cidr) =
     ''CidrRouteRulePredicate{cidr='' @ [CHR 0x27] @ Cidr_toString cidr @ [CHR 0x27] @ ''}''"
| "predicate_toString (Ipv4RangeRouteRulePredicate st en) =
     ''Ipv4RangeRouteRulePredicate{start='' @ int2ip st @ '', end='' @ int2ip en @ ''}''"
| "predicate_toString (Ipv4RouteRulePredicate ipv4) =
     ''Ipv4RouteRulePredicate{ipv4='' @ [CHR 0x27] @ ipv4 @ [CHR 0x27] @ ''}''"

definition parseIpRange :: "(string \<Rightarrow> bool) \<Rightarrow> string \<Rightarrow> RouteRulePredicate res" where
  "parseIpRange ipv4Pat rng =
     (let split = java_split CHR ''-'' rng in
      if length split \<noteq> 2 then Inl ProcessException
      else if \<not> ipv4Pat (split ! 0) then Inl ProcessException
      else if \<not> ipv4Pat (split ! 1) then Inl ProcessException
      else bindR (ip2long (split ! 0)) (\<lambda>st. bindR (ip2long (split ! 1)) (\<lambda>en.
             Inr (Ipv4RangeRouteRulePredicate st en))))"

definition rule_parse :: "(string \<Rightarrow> bool) \<Rightarrow> string \<Rightarrow> RouteRulePredicate res" where
  "rule_parse ipv4Pat rule =
     (if ipv4Pat rule then Inr (Ipv4RouteRulePredicate rule)
      else if CHR ''-'' \<in> set rule then parseIpRange ipv4Pat rule
      else (case parseCidr ipv4Pat rule of
              Inr cidr \<Rightarrow> Inr (CidrRouteRulePredicate cidr)
            | Inl e \<Rightarrow> Inl ProcessException))"

section \<open>Chains\<close>

record RouteRulePredicateChain =
  ch_name :: string
  ch_strategy :: RouteRuleStrategyEnum
  ch_direction :: RouteRuleDirectionEnum
  ch_predicateList :: "RouteRulePredicate list"

definition chain_test :: "RouteRulePredicateChain \<Rightarrow> string \<Rightarrow> bool res" where
  "chain_test ch ip =
     bindR (mapR (\<lambda>e. predicate_test e ip) (ch_predicateList ch)) (\<lambda>rs.
       let count = length (filter (\<lambda>b. b) rs) in Inr (count > 0))"

definition strategy_valueOf :: "string \<Rightarrow> RouteRuleStrategyEnum res" where
  "strategy_valueOf s =
     (if s = ''Allow'' then Inr RS_Allow else if s = ''Reject'' then Inr RS_Reject
      else Inl IllegalArgumentException)"

definition direction_valueOf :: "string \<Rightarrow> RouteRuleDirectionEnum res" where
  "direction_valueOf s =
     (if s = ''All'' then Inr RD_All else if s = ''Input'' then Inr RD_Input
      else if s = ''Output'' then Inr RD_Output else Inl IllegalArgumentException)"

definition chain_build :: "(string \<Rightarrow> bool) \<Rightarrow> RouteRule \<Rightarrow> RouteRulePredicateChain res" where
  "chain_build ipv4Pat r =
     bindR (mapR (rule_parse ipv4Pat) (rr_ruleList r)) (\<lambda>l.
     bindR (strategy_valueOf (rr_strategy r)) (\<lambda>strategy.
     bindR (direction_valueOf (rr_direction r)) (\<lambda>direction.
       Inr \<lparr> ch_name = rr_name r, ch_strategy = strategy, ch_direction = direction,
             ch_predicateList = l \<rparr>)))"

text \<open>The comparator of the rules: by level (the streams sort stably).\<close>

definition sort_rules :: "RouteRule list \<Rightarrow> RouteRule list" where
  "sort_rules rs = sort_key (\<lambda>r. sint (rr_level r)) rs"

section \<open>The processor\<close>

fun processor_test :: "RouteRulePredicateChain list \<Rightarrow> string \<Rightarrow> bool res" where
  "processor_test [] ip = Inr False"
| "processor_test (p # ps) ip =
     bindR (chain_test p ip) (\<lambda>b.
       if b then (case ch_strategy p of RS_Allow \<Rightarrow> Inr True | RS_Reject \<Rightarrow> Inr False)
       else processor_test ps ip)"

section \<open>Abstract rules\<close>

text \<open>
  What a predicate, a chain and a rule list mean for the address with number \<open>n\<close>.
\<close>

fun pred_holds :: "RouteRulePredicate \<Rightarrow> nat \<Rightarrow> bool" where
  "pred_holds (CidrRouteRulePredicate c) n \<longleftrightarrow>
     block_of (unat (maskBits c)) n = ip_num (networkIdentifier c)"
| "pred_holds (Ipv4RangeRouteRulePredicate st en) n \<longleftrightarrow> unat st \<le> n \<and> n \<le> unat en"
| "pred_holds (Ipv4RouteRulePredicate t) n \<longleftrightarrow> int2ip (of_nat n) = t"

definition chain_holds :: "RouteRulePredicateChain \<Rightarrow> nat \<Rightarrow> bool" where
  "chain_holds ch n \<longleftrightarrow> list_ex (\<lambda>p. pred_holds p n) (ch_predicateList ch)"

fun first_match :: "RouteRulePredicateChain list \<Rightarrow> nat \<Rightarrow> RouteRuleStrategyEnum option" where
  "first_match [] n = None"
| "first_match (p # ps) n = (if chain_holds p n then Some (ch_strategy p) else first_match ps n)"

fun wf_pred :: "RouteRulePredicate \<Rightarrow> bool" where
  "wf_pred (CidrRouteRulePredicate c) \<longleftrightarrow>
     is_block (ip_num (networkIdentifier c)) (unat (maskBits c)) \<and>
     c = cidr_of (ip_num (networkIdentifier c)) (unat (maskBits c))"
| "wf_pred (Ipv4RangeRouteRulePredicate st en) \<longleftrightarrow> unat st < 2 ^ 32 \<and> unat en < 2 ^ 32"
| "wf_pred (Ipv4RouteRulePredicate t) \<longleftrightarrow> True"

definition wf_chain :: "RouteRulePredicateChain \<Rightarrow> bool" where
  "wf_chain ch \<longleftrightarrow> list_all wf_pred (ch_predicateList ch)"

section \<open>Predicates and chains as sets of addresses\<close>

lemma int2ip_canonical:
  obtains n where "n < 2 ^ 32" and "int2ip w = int2ip (of_nat n)"
proof (rule that [of "unat (take_bit 32 w)"])
  show "unat (take_bit 32 w) < 2 ^ 32" by (simp only: unat_take_bit) simp
  show "int2ip w = int2ip (of_nat (unat (take_bit 32 w)))"
    by (simp add: int2ip_take32 del: of_nat_take_bit unsigned_take_bit_eq)
qed

text \<open>
  The interface between the chains and the predicates: a test that is total on canonical
  address texts and decides membership in a set of address numbers.
\<close>

locale address_predicate =
  fixes test :: "string \<Rightarrow> bool res" and holds :: "nat \<Rightarrow> bool"
  assumes test_holds: "n < 2 ^ 32 \<Longrightarrow> test (int2ip (of_nat n)) = Inr (holds n)"
begin

lemma test_total: "test (int2ip w) \<noteq> Inl e"
  using test_holds by (metis int2ip_canonical sum.distinct(1))

lemma test_num: "test (int2ip w) = Inr b \<Longrightarrow> b \<longleftrightarrow> holds (ip_num (int2ip w))"
  using test_holds ip_num_int2ip by (metis int2ip_canonical sum.inject(2))

end

lemma unat_of_mask: "m \<le> 32 \<Longrightarrow> unat (of_nat m :: jint) = m"
  by (simp add: unat_of_nat)

lemma wf_pred_cidr_of: "is_block b m \<Longrightarrow> wf_pred (CidrRouteRulePredicate (cidr_of b m))"
  using is_blockD [of b m] by (simp add: cidr_of_def unat_of_mask ip_num_int2ip [simplified])

lemma predicate_address: "wf_pred p \<Longrightarrow> address_predicate (predicate_test p) (pred_holds p)"
proof (unfold_locales)
  fix n :: nat
  assume w: "wf_pred p" and n: "n < 2 ^ 32"
  show "predicate_test p (int2ip (of_nat n)) = Inr (pred_holds p n)"
  proof (cases p)
    case (CidrRouteRulePredicate c)
    define b m where bm: "b = ip_num (networkIdentifier c)" "m = unat (maskBits c)"
    have blk: "is_block b m" and c: "c = cidr_of b m" using w CidrRouteRulePredicate bm by simp_all
    show ?thesis
      using contains_cidr_of [OF blk quad_match_int2ip] ip_num_int2ip [OF n]
      by (simp add: CidrRouteRulePredicate bm [symmetric]) (simp add: c)
  next
    case (Ipv4RangeRouteRulePredicate st en)
    have "sint x = int (unat x)" if "unat x < 2 ^ 32" for x :: jlong
      using that by (intro sint_small) simp
    then show ?thesis
      using w n by (simp add: Ipv4RangeRouteRulePredicate ip2long_of_num sint_small_long
          uint_le_nat nat_le_uint)
  qed simp
qed

lemma predicate_test_int2ip:
  "wf_pred p \<Longrightarrow> n < 2 ^ 32 \<Longrightarrow> predicate_test p (int2ip (of_nat n)) = Inr (pred_holds p n)"
  using predicate_address address_predicate.test_holds by blast

interpretation any_chain: address_predicate
    "\<lambda>ip. if wf_chain ch then chain_test ch ip else Inr False" "\<lambda>n. wf_chain ch \<and> chain_holds ch n"
proof unfold_locales
  fix n :: nat
  assume n: "n < 2 ^ 32"
  have "mapR (\<lambda>e. predicate_test e (int2ip (of_nat n))) ps = Inr (map (\<lambda>p. pred_holds p n) ps)"
    if "list_all wf_pred ps" for ps
    using that n by (intro mapR_Inr_all) (simp add: predicate_test_int2ip list_all_iff)
  then show "(if wf_chain ch then chain_test ch (int2ip (of_nat n)) else Inr False)
    = Inr (wf_chain ch \<and> chain_holds ch n)"
    by (auto simp: wf_chain_def chain_test_def chain_holds_def list_ex_iff filter_map
        length_0_conv filter_empty_conv o_def)
qed

lemma chain_test_int2ip:
  "wf_chain ch \<Longrightarrow> n < 2 ^ 32 \<Longrightarrow> chain_test ch (int2ip (of_nat n)) = Inr (chain_holds ch n)"
  using any_chain.test_holds [of n ch] by simp

lemma processor_test_int2ip:
  "list_all wf_chain chs \<Longrightarrow> n < 2 ^ 32 \<Longrightarrow>
   processor_test chs (int2ip (of_nat n)) = Inr (first_match chs n = Some RS_Allow)"
  by (induction chs) (auto simp: chain_test_int2ip split: RouteRuleStrategyEnum.splits)

context ipv4_pattern
begin

lemma pat_num: "pat s \<Longrightarrow> ip2long s = Inr w \<Longrightarrow> unat w < 2 ^ 32"
proof -
  assume "pat s" and w: "ip2long s = Inr w"
  then have "quad_match s" using pat_isIPv4 isIPv4_ip2long by blast
  then have "w = of_nat (ip_num s)" "ip_num s < 2 ^ 32" using ip2long_num w by auto
  then show ?thesis by (simp add: unat_small)
qed

lemma rule_parse_wf: "rule_parse pat r = Inr p \<Longrightarrow> wf_pred p"
  by (auto simp: rule_parse_def parseIpRange_def Let_def res_simps pat_num [simplified]
        intro: wf_pred_cidr_of dest!: parseCidr_Inr split: if_splits sum.splits simp del: wf_pred.simps(1))

lemma chain_build_wf: "chain_build pat r = Inr ch \<Longrightarrow> wf_chain ch"
proof -
  have "mapR (rule_parse pat) rs = Inr ps \<Longrightarrow> list_all wf_pred ps" for rs ps
    by (induction rs arbitrary: ps) (auto simp: res_simps rule_parse_wf)
  then show "chain_build pat r = Inr ch \<Longrightarrow> wf_chain ch"
    by (auto simp: chain_build_def res_simps wf_chain_def)
qed

lemma chain_builds_wf: "mapR (chain_build pat) rs = Inr chs \<Longrightarrow> list_all wf_chain chs"
  by (induction rs arbitrary: chs) (auto simp: res_simps chain_build_wf)

end

lemma set_split_all: "x \<in> set s \<Longrightarrow> x = c \<or> (\<exists>p \<in> set (split_all c s). x \<in> set p)"
  by (induction s) (auto split: list.splits)

lemma quad_match_chars: "quad_match s \<Longrightarrow> x \<in> set s \<Longrightarrow> is_digit x \<or> x = CHR ''.''"
  using set_split_all [of x s "CHR ''.''"]
  by (auto simp: quad_match_def is_octet_iff list_all_iff split: list.splits)

lemma strip_eol_chars: "x \<in> set s \<Longrightarrow> x \<in> set (strip_eol s) \<or> is_eol x"
  by (cases s rule: rev_cases; cases "butlast s" rule: rev_cases)
    (auto simp: strip_eol_def is_eol_def split: if_splits)

lemma isIPv4_chars: "isIPv4 s \<Longrightarrow> x \<in> set s \<Longrightarrow> is_digit x \<or> x = CHR ''.'' \<or> is_eol x"
  using strip_eol_chars quad_match_chars unfolding isIPv4_def by blast

lemma isIPv4_no_dash: "isIPv4 s \<Longrightarrow> CHR ''-'' \<notin> set s \<and> CHR ''/'' \<notin> set s"
  using isIPv4_chars [of s "CHR ''-''"] isIPv4_chars [of s "CHR ''/''"]
  by (auto simp: is_eol_def)

lemma split_range_text:
  "java_split CHR ''-'' (quad_str a b c d @ ''-'' @ quad_str a' b' c' d') = [quad_str a b c d, quad_str a' b' c' d']"
proof -
  have "split_all CHR ''-'' (quad_str a b c d @ ''-'' @ quad_str a' b' c' d')
      = [quad_str a b c d, quad_str a' b' c' d']"
    using split_all_append [of "CHR ''-''" "quad_str a b c d" "quad_str a' b' c' d'"]
    by (simp add: quad_str_def split_all_no_sep)
  then show ?thesis by (subst java_split_last) (simp_all add: quad_str_def)
qed

lemma first_match_nth:
  "first_match chs n = Some st \<longleftrightarrow>
    (\<exists>i < length chs. chain_holds (chs ! i) n \<and> ch_strategy (chs ! i) = st \<and>
       (\<forall>j < i. \<not> chain_holds (chs ! j) n))"
proof (induction chs)
  case (Cons c chs)
  show ?case
  proof (cases "chain_holds c n")
    case True
    then show ?thesis by (auto simp: nth_Cons' split: if_splits)
  next
    case False
    then show ?thesis unfolding ex_less_Suc_split length_Cons by (auto simp: Cons all_less_Suc_split)
  qed
qed simp

context ipv4_pattern
begin

lemma parse_single:
  assumes "a < 256" "b < 256" "c < 256" "d < 256" and "n < 2 ^ 32"
  shows "\<exists>p. rule_parse pat (quad_str a b c d) = Inr p \<and> (pred_holds p n \<longleftrightarrow> n = quad_nat a b c d)"
proof -
  have q: "quad_nat a b c d < 2 ^ 32" using assms(1-4) by (rule quad_nat_bound)
  have "quad_str a b c d = int2ip (of_nat (quad_nat a b c d))" using assms(1-4) by (rule int2ip_quad_nat [symmetric])
  then show ?thesis
    using assms int2ip_eq_iff [OF assms(5) q] by (auto simp: rule_parse_def pat_quad)
qed

lemma parse_range:
  assumes "a < 256" "b < 256" "c < 256" "d < 256" and "a' < 256" "b' < 256" "c' < 256" "d' < 256"
  shows "\<exists>p. rule_parse pat (quad_str a b c d @ ''-'' @ quad_str a' b' c' d') = Inr p \<and>
    (pred_holds p n \<longleftrightarrow> quad_nat a b c d \<le> n \<and> n \<le> quad_nat a' b' c' d')"
proof -
  have "\<not> pat (quad_str a b c d @ ''-'' @ quad_str a' b' c' d')"
    using pat_isIPv4 isIPv4_no_dash by fastforce
  then show ?thesis
    using assms split_range_text [of a b c d a' b' c' d']
    by (simp add: rule_parse_def parseIpRange_def Let_def pat_quad ip2long_quad_str unat_quad_nat)
qed

lemma parse_block:
  assumes "a < 256" "b < 256" "c < 256" "d < 256" and "m \<le> 32"
  shows "\<exists>p. rule_parse pat (quad_str a b c d @ ''/'' @ show_nat m) = Inr p \<and>
    (pred_holds p n \<longleftrightarrow> n div 2 ^ (32 - m) = quad_nat a b c d div 2 ^ (32 - m))"
proof -
  have q: "quad_nat a b c d < 2 ^ 32" using assms(1-4) by (rule quad_nat_bound)
  then have "block_of m (quad_nat a b c d) < 2 ^ 32" using block_of_le le_less_trans by blast
  then have i: "ip_num (networkIdentifier (cidr_of (block_of m (quad_nat a b c d)) m)) = block_of m (quad_nat a b c d)"
    by (simp add: cidr_of_def ip_num_int2ip)
  have np: "\<not> pat (quad_str a b c d @ ''/'' @ show_nat m)"
    using pat_isIPv4 isIPv4_no_dash by fastforce
  have nd: "CHR ''-'' \<notin> set (quad_str a b c d @ ''/'' @ show_nat m)" by (simp add: quad_str_def)
  have "rule_parse pat (quad_str a b c d @ ''/'' @ show_nat m)
      = Inr (CidrRouteRulePredicate (cidr_of (block_of m (quad_nat a b c d)) m))"
    using np nd parseCidr_text [OF assms] by (simp add: rule_parse_def)
  then show ?thesis
    using assms(5) by (simp add: i unat_of_mask) (simp add: block_of_def)
qed

end

section \<open>Properties\<close>

text \<open>
  The texts of the three rule forms are accepted and mean what they say: an address is that
  address alone, \<open>x-y\<close> the addresses from \<open>x\<close> to \<open>y\<close>, \<open>x/m\<close> those with the first \<open>m\<close> bits of
  \<open>x\<close>. For a predicate that the parser returned, the test on an address text never fails and
  agrees with that meaning.
\<close>

theorem rule_parse_correct:
  assumes "ipv4_pattern pat" and "n < 2 ^ 32"
    and "a < 256" "b < 256" "c < 256" "d < 256" and "a' < 256" "b' < 256" "c' < 256" "d' < 256"
    and "m \<le> 32"
  shows "(\<exists>p. rule_parse pat (quad_str a b c d) = Inr p \<and>
        predicate_test p (int2ip (of_nat n)) = Inr (n = quad_nat a b c d)) \<and>
    (\<exists>p. rule_parse pat (quad_str a b c d @ ''-'' @ quad_str a' b' c' d') = Inr p \<and>
        predicate_test p (int2ip (of_nat n)) = Inr (quad_nat a b c d \<le> n \<and> n \<le> quad_nat a' b' c' d')) \<and>
    (\<exists>p. rule_parse pat (quad_str a b c d @ ''/'' @ show_nat m) = Inr p \<and>
        predicate_test p (int2ip (of_nat n))
          = Inr (n div 2 ^ (32 - m) = quad_nat a b c d div 2 ^ (32 - m)))"
proof -
  have t: "\<exists>p. rule_parse pat r = Inr p \<and> predicate_test p (int2ip (of_nat n)) = Inr b"
    if "\<exists>p. rule_parse pat r = Inr p \<and> (pred_holds p n \<longleftrightarrow> b)" for r b
    using that predicate_test_int2ip [OF ipv4_pattern.rule_parse_wf [OF assms(1)] assms(2)] by blast
  show ?thesis
    by (intro conjI t ipv4_pattern.parse_single [OF assms(1,3-6,2)]
      ipv4_pattern.parse_range [OF assms(1,3-10)] ipv4_pattern.parse_block [OF assms(1,3-6,11)])
qed

theorem rule_parse_correct_witness:
  "\<exists>p. rule_parse isIPv4 (quad_str 10 0 0 1 @ ''-'' @ quad_str 10 0 0 9) = Inr p \<and>
     predicate_test p (int2ip (of_nat (quad_nat 10 0 0 5))) = Inr True"
proof -
  have "quad_nat 10 0 0 5 < 2 ^ 32" by (simp add: quad_nat_def)
  from rule_parse_correct [OF own_pattern.ipv4_pattern_axioms this, of 10 0 0 1 10 0 0 9 0]
  show ?thesis by (simp add: quad_nat_def)
qed

text \<open>
  C15: The processor is a first-match filter: for chains built from rule messages, the test of an
  address succeeds exactly when the first chain that contains the address has strategy Allow;
  an address no chain contains is rejected, and the test never throws.
\<close>

theorem processor_first_match:
  assumes "ipv4_pattern pat" and "mapR (chain_build pat) rs = Inr chs" and "n < 2 ^ 32"
  shows "processor_test chs (int2ip (of_nat n)) = Inr (first_match chs n = Some RS_Allow) \<and>
    (first_match chs n = Some RS_Allow \<longleftrightarrow>
      (\<exists>i < length chs. chain_holds (chs ! i) n \<and> ch_strategy (chs ! i) = RS_Allow \<and>
         (\<forall>j < i. \<not> chain_holds (chs ! j) n)))"
  using processor_test_int2ip [OF ipv4_pattern.chain_builds_wf [OF assms(1,2)] assms(3)]
    first_match_nth by blast

theorem processor_first_match_witness:
  "\<exists>chs. mapR (chain_build isIPv4)
      [\<lparr> rr_strategy = ''Reject'', rr_direction = ''All'', rr_level = 1,
         rr_ruleList = [''10.0.0.0/24''], rr_name = ''a'' \<rparr>,
       \<lparr> rr_strategy = ''Allow'', rr_direction = ''All'', rr_level = 2,
         rr_ruleList = [''0.0.0.0/0''], rr_name = ''b'' \<rparr>] = Inr chs \<and>
    processor_test chs (int2ip (of_nat (quad_nat 10 0 0 5))) = Inr False \<and>
    processor_test chs (int2ip (of_nat (quad_nat 10 0 1 5))) = Inr True"
proof -
  note p = ipv4_pattern.parseCidr_text [OF own_pattern.ipv4_pattern_axioms]
  have t: "''10.0.0.0/24'' = quad_str 10 0 0 0 @ ''/'' @ show_nat 24"
    "''0.0.0.0/0'' = quad_str 0 0 0 0 @ ''/'' @ show_nat 0" by code_simp+
  have n: "\<not> isIPv4 ''10.0.0.0/24''" "\<not> isIPv4 ''0.0.0.0/0''" by code_simp+
  let ?chs = "[\<lparr> ch_name = ''a'', ch_strategy = RS_Reject, ch_direction = RD_All,
      ch_predicateList = [CidrRouteRulePredicate (cidr_of (block_of 24 (quad_nat 10 0 0 0)) 24)] \<rparr>,
    \<lparr> ch_name = ''b'', ch_strategy = RS_Allow, ch_direction = RD_All,
      ch_predicateList = [CidrRouteRulePredicate (cidr_of (block_of 0 (quad_nat 0 0 0 0)) 0)] \<rparr>]"
  have b: "mapR (chain_build isIPv4)
      [\<lparr> rr_strategy = ''Reject'', rr_direction = ''All'', rr_level = 1,
         rr_ruleList = [''10.0.0.0/24''], rr_name = ''a'' \<rparr>,
       \<lparr> rr_strategy = ''Allow'', rr_direction = ''All'', rr_level = 2,
         rr_ruleList = [''0.0.0.0/0''], rr_name = ''b'' \<rparr>] = Inr ?chs"
    using n p [of 10 0 0 0 24] p [of 0 0 0 0 0] unfolding t [symmetric]
    by (simp add: chain_build_def rule_parse_def strategy_valueOf_def direction_valueOf_def)
  have x: "quad_nat 10 0 0 5 < 2 ^ 32" "quad_nat 10 0 1 5 < 2 ^ 32" by (simp_all add: quad_nat_def)
  have i: "ip_num (networkIdentifier (cidr_of (block_of 24 (quad_nat 10 0 0 0)) 24)) = quad_nat 10 0 0 0"
    "ip_num (networkIdentifier (cidr_of (block_of 0 (quad_nat 0 0 0 0)) 0)) = 0"
    by (simp_all add: cidr_of_def block_of_def quad_nat_def ip_num_int2ip [of "167772160", simplified]
          ip_num_int2ip [of 0, simplified])
  have f: "first_match ?chs (quad_nat 10 0 0 5) = Some RS_Reject"
    "first_match ?chs (quad_nat 10 0 1 5) = Some RS_Allow"
    by (simp_all add: chain_holds_def i) (simp_all add: block_of_def quad_nat_def)
  show ?thesis
    using b f processor_first_match [OF own_pattern.ipv4_pattern_axioms b x(1)]
      processor_first_match [OF own_pattern.ipv4_pattern_axioms b x(2)]
    by (intro exI [of _ ?chs]) (simp del: first_match.simps)
qed

end
