(* ===== verification/NettyBuf.thy ===== *)
theory NettyBuf
  imports NetPrelude
begin

text \<open>
  Netty's ByteBuf, which is not part of the repository, as an interface: a record of the
  operations the packet code calls, over a type \<open>'b\<close> of buffers, and a locale with the laws the
  Javadoc states for them in terms of the readable bytes of a buffer. The codecs take such a
  record as an argument. A buffer is a value: an operation returns the buffer after it.
  Reference counting is not modelled. At the end the interface is interpreted on buffers that
  are byte lists with a mark.
\<close>

section \<open>Big-endian numbers\<close>

definition be_list :: "nat \<Rightarrow> nat \<Rightarrow> jbyte list" where
  "be_list k v = map (\<lambda>i. of_nat (v div 256 ^ (k - 1 - i))) [0..<k]"

definition be_val :: "jbyte list \<Rightarrow> nat" where
  "be_val bs = foldl (\<lambda>a b. a * 256 + unat b) 0 bs"

section \<open>The operations\<close>

record 'b netty =
  nb_new :: 'b
  nb_readableBytes :: "'b \<Rightarrow> nat"
  nb_readByte :: "'b \<Rightarrow> (jbyte \<times> 'b) res"
  nb_readUnsignedByte :: "'b \<Rightarrow> (jint \<times> 'b) res"
  nb_readUnsignedShort :: "'b \<Rightarrow> (jint \<times> 'b) res"
  nb_readInt :: "'b \<Rightarrow> (jint \<times> 'b) res"
  nb_readUnsignedInt :: "'b \<Rightarrow> (jlong \<times> 'b) res"
  nb_readLong :: "'b \<Rightarrow> (jlong \<times> 'b) res"
  nb_readBytes :: "nat \<Rightarrow> 'b \<Rightarrow> (jbyte list \<times> 'b) res"
  nb_skipBytes :: "nat \<Rightarrow> 'b \<Rightarrow> 'b res"
  nb_readSlice :: "int \<Rightarrow> 'b \<Rightarrow> ('b \<times> 'b) res"
  nb_writeByte :: "jint \<Rightarrow> 'b \<Rightarrow> 'b"
  nb_writeShort :: "jint \<Rightarrow> 'b \<Rightarrow> 'b"
  nb_writeInt :: "jint \<Rightarrow> 'b \<Rightarrow> 'b"
  nb_writeLong :: "jlong \<Rightarrow> 'b \<Rightarrow> 'b"
  nb_writeBytes :: "jbyte list \<Rightarrow> 'b \<Rightarrow> 'b"
  nb_writeBuf :: "'b \<Rightarrow> 'b \<Rightarrow> 'b \<times> 'b"
  nb_overwrite :: "'b \<Rightarrow> 'b \<Rightarrow> 'b res"
  nb_markReader :: "'b \<Rightarrow> 'b"
  nb_resetReader :: "'b \<Rightarrow> 'b"

text \<open>
  \<open>nb_writeBuf src dst\<close> is \<open>dst.writeBytes(src)\<close>: it returns the source, whose readable bytes
  are consumed, and the destination. \<open>nb_overwrite src dst\<close> is the pair of calls
  \<open>dst.writerIndex(0); dst.writeBytes(src)\<close>. The views of a buffer are its readable bytes
  (\<open>content\<close>), the bytes from the marked reader index (\<open>marked\<close>), the reader index and the marked
  one; a buffer cut from another shares its memory, which the value view leaves out: no code
  modelled here reads the parent after writing to the slice.
\<close>

section \<open>The laws\<close>

locale netty_buf =
  fixes N :: "'b netty"
    and content :: "'b \<Rightarrow> jbyte list"
    and marked :: "'b \<Rightarrow> jbyte list"
    and after :: "nat \<Rightarrow> 'b \<Rightarrow> 'b"
    and sliced :: "nat \<Rightarrow> 'b \<Rightarrow> 'b"
    and rpos :: "'b \<Rightarrow> nat"
    and mpos :: "'b \<Rightarrow> nat"
  assumes content_new [simp]: "content (nb_new N) = []"
    and readable [simp]: "nb_readableBytes N b = length (content b)"
    and content_after [simp]: "content (after n b) = drop n (content b)"
    and marked_after [simp]: "marked (after n b) = marked b"
    and content_slice [simp]: "content (sliced n b) = take n (content b)"
    and readByte: "nb_readByte N b =
      (if 1 \<le> length (content b) then Inr (hd (content b), after 1 b) else Inl IndexOutOfBoundsException)"
    and readUnsignedByte: "nb_readUnsignedByte N b =
      (if 1 \<le> length (content b) then Inr (of_nat (be_val (take 1 (content b))), after 1 b)
       else Inl IndexOutOfBoundsException)"
    and readUnsignedShort: "nb_readUnsignedShort N b =
      (if 2 \<le> length (content b) then Inr (of_nat (be_val (take 2 (content b))), after 2 b)
       else Inl IndexOutOfBoundsException)"
    and readInt: "nb_readInt N b =
      (if 4 \<le> length (content b) then Inr (of_nat (be_val (take 4 (content b))), after 4 b)
       else Inl IndexOutOfBoundsException)"
    and readUnsignedInt: "nb_readUnsignedInt N b =
      (if 4 \<le> length (content b) then Inr (of_nat (be_val (take 4 (content b))), after 4 b)
       else Inl IndexOutOfBoundsException)"
    and readLong: "nb_readLong N b =
      (if 8 \<le> length (content b) then Inr (of_nat (be_val (take 8 (content b))), after 8 b)
       else Inl IndexOutOfBoundsException)"
    and readBytes: "nb_readBytes N n b =
      (if n \<le> length (content b) then Inr (take n (content b), after n b)
       else Inl IndexOutOfBoundsException)"
    and skipBytes: "nb_skipBytes N n b =
      (if n \<le> length (content b) then Inr (after n b) else Inl IndexOutOfBoundsException)"
    and readSlice: "0 \<le> k \<Longrightarrow> nb_readSlice N k b =
      (if nat k \<le> length (content b) then Inr (sliced (nat k) b, after (nat k) b)
       else Inl IndexOutOfBoundsException)"
    and readSlice_neg: "k < 0 \<Longrightarrow> \<exists>e. nb_readSlice N k b = Inl e"
    and content_writeByte [simp]: "content (nb_writeByte N i b) = content b @ be_list 1 (unat i)"
    and content_writeShort [simp]: "content (nb_writeShort N i b) = content b @ be_list 2 (unat i)"
    and content_writeInt [simp]: "content (nb_writeInt N i b) = content b @ be_list 4 (unat i)"
    and content_writeLong [simp]: "content (nb_writeLong N l b) = content b @ be_list 8 (unat l)"
    and content_writeBytes [simp]: "content (nb_writeBytes N bs b) = content b @ bs"
    and writeBuf_src [simp]: "fst (nb_writeBuf N s b) = after (length (content s)) s"
    and content_writeBuf [simp]: "content (snd (nb_writeBuf N s b)) = content b @ content s"
    and content_mark [simp]: "content (nb_markReader N b) = content b"
    and marked_mark [simp]: "marked (nb_markReader N b) = content b"
    and content_reset [simp]: "content (nb_resetReader N b) = marked b"
    and marked_reset [simp]: "marked (nb_resetReader N b) = marked b"
    and rpos_sliced [simp]: "rpos (sliced n b) = 0"
    and mpos_sliced [simp]: "mpos (sliced n b) = 0"
    and rpos_after [simp]: "rpos (after n b) = rpos b + n"
    and mpos_after [simp]: "mpos (after n b) = mpos b"
    and rpos_mark [simp]: "rpos (nb_markReader N b) = rpos b"
    and mpos_mark [simp]: "mpos (nb_markReader N b) = rpos b"
    and rpos_reset [simp]: "rpos (nb_resetReader N b) = mpos b"
    and mpos_reset [simp]: "mpos (nb_resetReader N b) = mpos b"
    and overwrite: "rpos d = 0 \<Longrightarrow> mpos d = 0 \<Longrightarrow> length (content s) \<le> length (content d) \<Longrightarrow>
      \<exists>d'. nb_overwrite N s d = Inr d' \<and> content d' = content s \<and> marked d' = content s \<and>
        rpos d' = 0 \<and> mpos d' = 0"

section \<open>Lemmas on big-endian numbers\<close>

lemma length_be_list [simp]: "length (be_list k v) = k"
  by (simp add: be_list_def)

lemma be_list_Suc: "be_list (Suc k) v = of_nat (v div 256 ^ k) # be_list k v"
  unfolding be_list_def by (simp add: upt_conv_Cons map_Suc_upt [symmetric] o_def del: upt_Suc)

lemma be_list_0 [simp]: "be_list 0 v = []"
  by (simp add: be_list_def)

lemma be_val_foldl: "foldl (\<lambda>a b. a * 256 + unat b) x bs = x * 256 ^ length bs + be_val bs"
proof (induction bs arbitrary: x)
  case (Cons b bs)
  have "be_val (b # bs) = unat b * 256 ^ length bs + be_val bs"
    using Cons [of "unat b"] by (simp add: be_val_def)
  then show ?case using Cons [of "x * 256 + unat b"] by (simp add: algebra_simps)
qed (simp add: be_val_def)

lemma be_val_Nil [simp]: "be_val [] = 0"
  by (simp add: be_val_def)

lemma be_val_Cons: "be_val (b # bs) = unat b * 256 ^ length bs + be_val bs"
  using be_val_foldl [of "unat b" bs] by (simp add: be_val_def)

lemma unat_of_nat_byte: "unat (of_nat n :: jbyte) = n mod 256"
  by (simp add: unat_of_nat)

lemma be_val_be_list: "be_val (be_list k v) = v mod 256 ^ k"
proof (induction k)
  case (Suc k)
  have "v mod 256 ^ Suc k = v mod (256 ^ k * 256)" by (simp add: mult.commute)
  also have "\<dots> = 256 ^ k * (v div 256 ^ k mod 256) + v mod 256 ^ k" by (rule mod_mult2_eq)
  finally show ?case
    by (simp add: be_list_Suc be_val_Cons Suc unat_of_nat_byte mult.commute)
qed simp

lemma be_val_bound: "be_val bs < 256 ^ length bs"
proof (induction bs)
  case (Cons b bs)
  have "be_val (b # bs) < (unat b + 1) * 256 ^ length bs"
    using Cons by (simp add: be_val_Cons algebra_simps)
  also have "\<dots> \<le> 256 * 256 ^ length bs"
    using unat_byte_bound [of b] by (intro mult_right_mono) linarith+
  finally show ?case by simp
qed simp

lemma be_list_add: "be_list k (x * 256 ^ k + v) = be_list k v"
proof (induction k arbitrary: x)
  case (Suc k)
  have e: "x * 256 ^ Suc k + v = (256 * x) * 256 ^ k + v" by simp
  have "(of_nat (256 * x + v div 256 ^ k) :: jbyte) = of_nat (v div 256 ^ k)"
    by (simp only: word_of_nat_eq_iff take_bit_eq_mod len_bit0 len_num1) simp
  then show ?case unfolding e be_list_Suc Suc by (simp add: div_mult_self3)
qed simp

lemma be_list_be_val: "be_list (length bs) (be_val bs) = bs"
proof (induction bs)
  case (Cons b bs)
  have "(unat b * 256 ^ length bs + be_val bs) div 256 ^ length bs = unat b"
    using be_val_bound [of bs] by simp
  then show ?case by (simp add: be_val_Cons be_list_Suc be_list_add Cons)
qed simp

lemma be_val_take_list [simp]: "be_val (take k (be_list k v @ xs)) = v mod 256 ^ k"
  by (simp add: be_val_be_list)

section \<open>Buffers as byte lists\<close>

text \<open>A buffer: the readable bytes, the bytes from the mark, the reader index and the marked one.\<close>

record lbuf =
  lb_content :: "jbyte list"
  lb_marked :: "jbyte list"
  lb_rpos :: nat
  lb_mpos :: nat

definition lafter :: "nat \<Rightarrow> lbuf \<Rightarrow> lbuf" where
  "lafter n b = b\<lparr> lb_content := drop n (lb_content b), lb_rpos := lb_rpos b + n \<rparr>"

definition lslice :: "nat \<Rightarrow> lbuf \<Rightarrow> lbuf" where
  "lslice n b = \<lparr> lb_content = take n (lb_content b), lb_marked = take n (lb_content b),
                 lb_rpos = 0, lb_mpos = 0 \<rparr>"

definition lread :: "nat \<Rightarrow> (jbyte list \<Rightarrow> 'a) \<Rightarrow> lbuf \<Rightarrow> ('a \<times> lbuf) res" where
  "lread n f b =
     (if n \<le> length (lb_content b) then Inr (f (take n (lb_content b)), lafter n b)
      else Inl IndexOutOfBoundsException)"

definition lwrite :: "jbyte list \<Rightarrow> lbuf \<Rightarrow> lbuf" where
  "lwrite bs b = b\<lparr> lb_content := lb_content b @ bs, lb_marked := lb_marked b @ bs \<rparr>"

definition of_bytes :: "jbyte list \<Rightarrow> lbuf" where
  "of_bytes bs = \<lparr> lb_content = bs, lb_marked = bs, lb_rpos = 0, lb_mpos = 0 \<rparr>"

definition list_netty :: "lbuf netty" where
  "list_netty =
     \<lparr> nb_new = of_bytes [],
       nb_readableBytes = \<lambda>b. length (lb_content b),
       nb_readByte = lread 1 hd,
       nb_readUnsignedByte = lread 1 (\<lambda>l. of_nat (be_val l)),
       nb_readUnsignedShort = lread 2 (\<lambda>l. of_nat (be_val l)),
       nb_readInt = lread 4 (\<lambda>l. of_nat (be_val l)),
       nb_readUnsignedInt = lread 4 (\<lambda>l. of_nat (be_val l)),
       nb_readLong = lread 8 (\<lambda>l. of_nat (be_val l)),
       nb_readBytes = \<lambda>n. lread n (\<lambda>l. l),
       nb_skipBytes = \<lambda>n b. (if n \<le> length (lb_content b) then Inr (lafter n b)
                            else Inl IndexOutOfBoundsException),
       nb_readSlice = \<lambda>k b. if k < 0 then Inl IllegalArgumentException
                          else if nat k \<le> length (lb_content b) then Inr (lslice (nat k) b, lafter (nat k) b)
                          else Inl IndexOutOfBoundsException,
       nb_writeByte = \<lambda>i. lwrite (be_list 1 (unat i)),
       nb_writeShort = \<lambda>i. lwrite (be_list 2 (unat i)),
       nb_writeInt = \<lambda>i. lwrite (be_list 4 (unat i)),
       nb_writeLong = \<lambda>l. lwrite (be_list 8 (unat l)),
       nb_writeBytes = lwrite,
       nb_writeBuf = \<lambda>s b. (lafter (length (lb_content s)) s, lwrite (lb_content s) b),
       nb_overwrite = \<lambda>s b. if length (lb_content s) \<le> length (lb_content b)
                           then Inr (of_bytes (lb_content s)) else Inl IndexOutOfBoundsException,
       nb_markReader = \<lambda>b. b\<lparr> lb_marked := lb_content b, lb_mpos := lb_rpos b \<rparr>,
       nb_resetReader = \<lambda>b. b\<lparr> lb_content := lb_marked b, lb_rpos := lb_mpos b \<rparr> \<rparr>"

lemmas lbuf_defs = list_netty_def lread_def lafter_def lslice_def lwrite_def of_bytes_def

interpretation lbuf: netty_buf list_netty lb_content lb_marked lafter lslice lb_rpos lb_mpos
  by unfold_locales (auto simp: lbuf_defs take_Suc hd_conv_nth nth_take)

end
