(* ===== verification/JavaMap.thy ===== *)
theory JavaMap
  imports NetPrelude
begin

text \<open>
  The maps of the Java library (HashMap, LinkedHashMap, ConcurrentHashMap) as association lists
  in iteration order: a key occurs once, \<open>put\<close> replaces in place. The interface the components
  rely on is a locale, a keyed store with put, get and remove; a history of puts and removes
  is read back as the last operation on a key. The list operations interpret it.
\<close>

section \<open>The operations\<close>

type_synonym ('k, 'v) jmap = "('k \<times> 'v) list"

definition jget :: "('k, 'v) jmap \<Rightarrow> 'k \<Rightarrow> 'v option" where
  "jget m k = map_of m k"

fun jput :: "'k \<Rightarrow> 'v \<Rightarrow> ('k, 'v) jmap \<Rightarrow> ('k, 'v) jmap" where
  "jput k v [] = [(k, v)]"
| "jput k v ((k', v') # m) = (if k' = k then (k, v) # m else (k', v') # jput k v m)"

definition jremove :: "'k \<Rightarrow> ('k, 'v) jmap \<Rightarrow> ('k, 'v) jmap" where
  "jremove k m = filter (\<lambda>e. fst e \<noteq> k) m"

definition jkeys :: "('k, 'v) jmap \<Rightarrow> 'k list" where
  "jkeys m = map fst m"

definition jvalues :: "('k, 'v) jmap \<Rightarrow> 'v list" where
  "jvalues m = map snd m"

definition wf_jmap :: "('k, 'v) jmap \<Rightarrow> bool" where
  "wf_jmap m \<longleftrightarrow> distinct (jkeys m)"

section \<open>Keyed stores\<close>

locale keyed_store =
  fixes get :: "'s \<Rightarrow> 'k \<Rightarrow> 'v option"
    and put :: "'k \<Rightarrow> 'v \<Rightarrow> 's \<Rightarrow> 's"
    and del :: "'k \<Rightarrow> 's \<Rightarrow> 's"
    and wf :: "'s \<Rightarrow> bool"
  assumes wf_put: "wf s \<Longrightarrow> wf (put k v s)"
    and wf_del: "wf s \<Longrightarrow> wf (del k s)"
    and get_put: "get (put k v s) k' = (if k' = k then Some v else get s k')"
    and get_del: "wf s \<Longrightarrow> get (del k s) k' = (if k' = k then None else get s k')"
begin

text \<open>A history: pairs of a key and the value put, or none for a removal.\<close>

fun apply_op :: "'k \<times> 'v option \<Rightarrow> 's \<Rightarrow> 's" where
  "apply_op (k, Some v) s = put k v s"
| "apply_op (k, None) s = del k s"

lemma wf_apply_op: "wf s \<Longrightarrow> wf (apply_op e s)"
  by (cases e; cases "snd e") (auto simp: wf_put wf_del)

lemma wf_history: "wf s \<Longrightarrow> wf (fold apply_op h s)"
  by (induction h arbitrary: s) (simp_all add: wf_apply_op)

lemma get_apply_op: "wf s \<Longrightarrow> get (apply_op e s) k = (if k = fst e then snd e else get s k)"
  by (cases e; cases "snd e") (auto simp: get_put get_del)

lemma get_history:
  "wf s \<Longrightarrow> get (fold apply_op h s) k =
    (case map_of (rev h) k of Some w \<Rightarrow> w | None \<Rightarrow> get s k)"
proof (induction h arbitrary: s)
  case (Cons e h)
  have "map_of (rev (e # h)) k = (case map_of (rev h) k of None \<Rightarrow> if k = fst e then Some (snd e) else None | Some w \<Rightarrow> Some w)"
    by (cases e) (simp add: map_add_def fun_upd_def split: option.splits)
  then show ?case
    using Cons.IH [OF wf_apply_op [OF Cons.prems]] get_apply_op [OF Cons.prems]
    by (auto split: option.splits)
qed simp

lemma last_put:
  assumes "wf s" and "k \<notin> fst ` set h'"
  shows "get (fold apply_op (h @ [(k, Some v)] @ h') s) k = Some v"
proof -
  have "map_of (rev h') k = None" using assms(2) by (simp add: map_of_eq_None_iff)
  then show ?thesis unfolding get_history [OF assms(1)] by (simp add: map_add_def)
qed

end

section \<open>Association lists are keyed stores\<close>

lemma jget_jput [simp]: "jget (jput k v m) k' = (if k' = k then Some v else jget m k')"
  by (induction k v m rule: jput.induct) (auto simp: jget_def)

lemma jkeys_jput: "jkeys (jput k v m) = (if k \<in> set (jkeys m) then jkeys m else jkeys m @ [k])"
  by (induction k v m rule: jput.induct) (auto simp: jkeys_def)

lemma wf_jput [simp, intro]: "wf_jmap m \<Longrightarrow> wf_jmap (jput k v m)"
  by (simp add: wf_jmap_def jkeys_jput)

lemma jkeys_jremove [simp]: "jkeys (jremove k m) = filter (\<lambda>x. x \<noteq> k) (jkeys m)"
  by (induction m) (auto simp: jremove_def jkeys_def)

lemma wf_jremove [simp, intro]: "wf_jmap m \<Longrightarrow> wf_jmap (jremove k m)"
  by (simp add: wf_jmap_def)

lemma wf_jmap_Nil [simp]: "wf_jmap []"
  by (simp add: wf_jmap_def jkeys_def)

lemma jput_new: "k \<notin> set (jkeys m) \<Longrightarrow> jput k v m = m @ [(k, v)]"
  by (induction k v m rule: jput.induct) (auto simp: jkeys_def)

lemma jget_jremove [simp]: "jget (jremove k m) k' = (if k' = k then None else jget m k')"
  by (induction m) (auto simp: jremove_def jget_def)

lemma jget_Nil [simp]: "jget [] k = None"
  by (simp add: jget_def)

lemma jget_in_values: "jget m k = Some v \<Longrightarrow> v \<in> set (jvalues m)"
  by (force simp: jget_def jvalues_def dest: map_of_SomeD)

lemma jget_keys: "jget m k \<noteq> None \<longleftrightarrow> k \<in> set (jkeys m)"
  by (auto simp: jget_def jkeys_def map_of_eq_None_iff)

lemma jget_None_keys: "jget m k = None \<longleftrightarrow> k \<notin> set (jkeys m)"
  by (auto simp: jget_def jkeys_def map_of_eq_None_iff)

lemma jvalues_jget: "wf_jmap m \<Longrightarrow> v \<in> set (jvalues m) \<longleftrightarrow> (\<exists>k. jget m k = Some v)"
  by (force simp: wf_jmap_def jvalues_def jget_def jkeys_def dest: map_of_SomeD)

interpretation jmap: keyed_store jget jput jremove wf_jmap
  by unfold_locales auto

end
