(* ===== verification/Stun.thy ===== *)
theory Stun
  imports IPAddr NettyBuf JavaMap
begin

text \<open>
  The STUN messages of sdwan-common (package stun): attribute types, attributes, messages, the
  encoder and the decoder, both over the buffer interface. The attribute map is an association
  list in the map's iteration order. The platform's charset is a parameter (the two functions
  \<open>String.getBytes\<close> and \<open>new String\<close>). The decoding loop is a partial function (\<open>None\<close>: not
  returning); that it returns on every input is proved.
\<close>

section \<open>Types\<close>

datatype MessageType =
    BindRequest | BindResponse | Transfer | BindRelayRequest | BindRelayResponse
  | RefreshRelayRequest | RefreshRelayResponse | PingRequest | PingResponse

fun MessageType_code :: "MessageType \<Rightarrow> nat" where
  "MessageType_code BindRequest = 0x0001"
| "MessageType_code BindResponse = 0x0101"
| "MessageType_code Transfer = 0x0301"
| "MessageType_code BindRelayRequest = 0x0303"
| "MessageType_code BindRelayResponse = 0x0304"
| "MessageType_code RefreshRelayRequest = 0x0305"
| "MessageType_code RefreshRelayResponse = 0x0306"
| "MessageType_code PingRequest = 0x0307"
| "MessageType_code PingResponse = 0x0308"

definition MessageType_values :: "MessageType list" where
  "MessageType_values =
     [BindRequest, BindResponse, Transfer, BindRelayRequest, BindRelayResponse,
      RefreshRelayRequest, RefreshRelayResponse, PingRequest, PingResponse]"

definition MessageType_valueOf :: "nat \<Rightarrow> MessageType option" where
  "MessageType_valueOf code = find (\<lambda>t. MessageType_code t = code) MessageType_values"

datatype ProtoFamily = PF_IPv4 | PF_IPv6

fun ProtoFamily_code :: "ProtoFamily \<Rightarrow> nat" where
  "ProtoFamily_code PF_IPv4 = 1"
| "ProtoFamily_code PF_IPv6 = 2"

definition ProtoFamily_valueOf :: "nat \<Rightarrow> ProtoFamily option" where
  "ProtoFamily_valueOf code = find (\<lambda>t. ProtoFamily_code t = code) [PF_IPv4, PF_IPv6]"

datatype AttrType =
    MappedAddress | SourceAddress | ChangedAddress | XorMappedAddress | ChangeRequest
  | ResponseOrigin | OtherAddress | AttrData | RelayToken | TransferType | AttrTime | SrcVip

datatype AttrDecode = DecAddress | DecXAddress | DecChangeRequest | DecBytes | DecString | DecLong

fun AttrType_code :: "AttrType \<Rightarrow> nat" where
  "AttrType_code MappedAddress = 0x0001"
| "AttrType_code SourceAddress = 0x0004"
| "AttrType_code ChangedAddress = 0x0005"
| "AttrType_code XorMappedAddress = 0x0020"
| "AttrType_code ChangeRequest = 0x0003"
| "AttrType_code ResponseOrigin = 0x802b"
| "AttrType_code OtherAddress = 0x802c"
| "AttrType_code AttrData = 0x8003"
| "AttrType_code RelayToken = 0x8004"
| "AttrType_code TransferType = 0x8005"
| "AttrType_code AttrTime = 0x8006"
| "AttrType_code SrcVip = 0x8007"

fun AttrType_decode :: "AttrType \<Rightarrow> AttrDecode" where
  "AttrType_decode MappedAddress = DecAddress"
| "AttrType_decode SourceAddress = DecAddress"
| "AttrType_decode ChangedAddress = DecAddress"
| "AttrType_decode XorMappedAddress = DecXAddress"
| "AttrType_decode ChangeRequest = DecChangeRequest"
| "AttrType_decode ResponseOrigin = DecAddress"
| "AttrType_decode OtherAddress = DecAddress"
| "AttrType_decode AttrData = DecBytes"
| "AttrType_decode RelayToken = DecString"
| "AttrType_decode TransferType = DecString"
| "AttrType_decode AttrTime = DecLong"
| "AttrType_decode SrcVip = DecString"

definition AttrType_compatibleCode :: "AttrType \<Rightarrow> nat" where
  "AttrType_compatibleCode t = (if t = OtherAddress then 0x0005 else 0)"

definition AttrType_values :: "AttrType list" where
  "AttrType_values =
     [MappedAddress, SourceAddress, ChangedAddress, XorMappedAddress, ChangeRequest,
      ResponseOrigin, OtherAddress, AttrData, RelayToken, TransferType, AttrTime, SrcVip]"

definition AttrType_valueOf :: "nat \<Rightarrow> AttrType option" where
  "AttrType_valueOf code = find (\<lambda>t. AttrType_code t = code) AttrType_values"

datatype Attr =
    AddressAttr "ProtoFamily option" string jint
  | ChangeRequestAttr bool bool
  | BytesAttr "jbyte list"
  | LongAttr jlong
  | StringAttr string

record charset =
  cs_getBytes :: "string \<Rightarrow> jbyte list"
  cs_newString :: "jbyte list \<Rightarrow> string"

definition Cookie :: jint where
  "Cookie = 0x2112a442"

record StunMessage =
  sm_messageType :: "MessageType option"
  sm_tranId :: string
  sm_attrs :: "(AttrType \<times> Attr) list"

definition StunMessage_new :: "MessageType option \<Rightarrow> string \<Rightarrow> StunMessage res" where
  "StunMessage_new t tranId =
     (if length tranId \<noteq> 12 then Inl IllegalArgumentException
      else Inr \<lparr> sm_messageType = t, sm_tranId = tranId, sm_attrs = [] \<rparr>)"

definition setAttr :: "AttrType \<Rightarrow> Attr \<Rightarrow> StunMessage \<Rightarrow> StunMessage" where
  "setAttr t a m = m\<lparr> sm_attrs := jput t a (sm_attrs m) \<rparr>"

definition getAttr :: "AttrType \<Rightarrow> StunMessage \<Rightarrow> Attr option" where
  "getAttr t m = map_of (sm_attrs m) t"

section \<open>Attributes to and from buffers\<close>

fun attr_write :: "'b netty \<Rightarrow> charset \<Rightarrow> Attr \<Rightarrow> 'b \<Rightarrow> 'b res" where
  "attr_write N cs (AddressAttr family ip port) b =
     (let b1 = nb_writeByte N 0 b in
      case family of
        None \<Rightarrow> Inl NullPointerException
      | Some f \<Rightarrow>
          (let b2 = nb_writeByte N (of_nat (ProtoFamily_code f)) b1;
               b3 = nb_writeShort N port b2
           in bindR (ip2bytes ip) (\<lambda>bytes. Inr (nb_writeBytes N bytes b3))))"
| "attr_write N cs (ChangeRequestAttr changeIP changePort) b =
     (let flag = 0 :: jint;
          flag = (if changeIP then flag OR 4 else flag);
          flag = (if changePort then flag OR 2 else flag)
      in Inr (nb_writeInt N flag b))"
| "attr_write N cs (BytesAttr bytes) b = Inr (nb_writeBytes N bytes b)"
| "attr_write N cs (LongAttr v) b = Inr (nb_writeLong N v b)"
| "attr_write N cs (StringAttr s) b = Inr (nb_writeBytes N (cs_getBytes cs s) b)"

definition toBytes :: "'b netty \<Rightarrow> 'b \<Rightarrow> (jbyte list \<times> 'b) res" where
  "toBytes N b = nb_readBytes N (nb_readableBytes N b) b"

fun attr_decode :: "'b netty \<Rightarrow> charset \<Rightarrow> AttrDecode \<Rightarrow> 'b \<Rightarrow> Attr res" where
  "attr_decode N cs DecAddress b =
     bindR (nb_readUnsignedByte N b) (\<lambda>(reserved, b). bindR (nb_readUnsignedByte N b) (\<lambda>(family, b).
     bindR (nb_readUnsignedShort N b) (\<lambda>(port, b). bindR (nb_readBytes N 4 b) (\<lambda>(bytes, b).
     bindR (bytes2ip bytes) (\<lambda>ip.
       Inr (AddressAttr (ProtoFamily_valueOf (unat family)) ip port))))))"
| "attr_decode N cs DecXAddress b =
     bindR (nb_readUnsignedByte N b) (\<lambda>(reserved, b). bindR (nb_readUnsignedByte N b) (\<lambda>(family, b).
     bindR (nb_readUnsignedShort N b) (\<lambda>(p, b). bindR (nb_readInt N b) (\<lambda>(i, b).
       let port = p XOR sar32 Cookie 16; ipInt = i XOR Cookie; ip = int2ip (i2l ipInt)
       in Inr (AddressAttr (ProtoFamily_valueOf (unat family)) ip port)))))"
| "attr_decode N cs DecChangeRequest b =
     bindR (nb_readInt N b) (\<lambda>(flag, b).
       let changeIP = (sar32 (flag AND 4) 2 = 1); changePort = (sar32 (flag AND 2) 1 = 1)
       in Inr (ChangeRequestAttr changeIP changePort))"
| "attr_decode N cs DecBytes b = bindR (toBytes N b) (\<lambda>(bytes, b). Inr (BytesAttr bytes))"
| "attr_decode N cs DecString b =
     bindR (toBytes N b) (\<lambda>(bytes, b). Inr (StringAttr (cs_newString cs bytes)))"
| "attr_decode N cs DecLong b = bindR (nb_readLong N b) (\<lambda>(v, b). Inr (LongAttr v))"

section \<open>StunEncoder\<close>

definition encode_attr :: "'b netty \<Rightarrow> charset \<Rightarrow> AttrType \<times> Attr \<Rightarrow> 'b \<Rightarrow> 'b res" where
  "encode_attr N cs entry attrsBuf =
     bindR (attr_write N cs (snd entry) (nb_new N)) (\<lambda>valueBuf.
       let attrBuf = nb_writeShort N (of_nat (AttrType_code (fst entry))) (nb_new N);
           attrBuf = nb_writeShort N (of_nat (nb_readableBytes N valueBuf)) attrBuf;
           attrBuf = snd (nb_writeBuf N valueBuf attrBuf)
       in Inr (snd (nb_writeBuf N attrBuf attrsBuf)))"

fun encode_attrs :: "'b netty \<Rightarrow> charset \<Rightarrow> (AttrType \<times> Attr) list \<Rightarrow> 'b \<Rightarrow> 'b res" where
  "encode_attrs N cs [] attrsBuf = Inr attrsBuf"
| "encode_attrs N cs (e # es) attrsBuf =
     bindR (encode_attr N cs e attrsBuf) (\<lambda>b. encode_attrs N cs es b)"

definition StunEncoder_encode :: "'b netty \<Rightarrow> charset \<Rightarrow> StunMessage \<Rightarrow> 'b res" where
  "StunEncoder_encode N cs m =
     bindR (encode_attrs N cs (sm_attrs m) (nb_new N)) (\<lambda>attrsBuf.
     case sm_messageType m of
       None \<Rightarrow> Inl NullPointerException
     | Some t \<Rightarrow>
         (let b = nb_writeShort N (of_nat (MessageType_code t)) (nb_new N);
              b = nb_writeShort N (of_nat (nb_readableBytes N attrsBuf)) b;
              b = nb_writeInt N Cookie b;
              b = nb_writeBytes N (cs_getBytes cs (sm_tranId m)) b
          in Inr (snd (nb_writeBuf N attrsBuf b))))"

section \<open>StunDecoder\<close>

text \<open>One round of the loop over the attributes: the buffer and the map after it.\<close>

definition decode_attr_step ::
    "'b netty \<Rightarrow> charset \<Rightarrow> 'b \<Rightarrow> (AttrType \<times> Attr) list \<Rightarrow> ('b \<times> (AttrType \<times> Attr) list) res" where
  "decode_attr_step N cs attrs m =
     bindR (nb_readUnsignedShort N attrs) (\<lambda>(t, attrs). bindR (nb_readUnsignedShort N attrs) (\<lambda>(l, attrs).
     bindR (nb_readSlice N (sint l) attrs) (\<lambda>(v, attrs).
       case AttrType_valueOf (unat t) of
         None \<Rightarrow> Inr (attrs, m)
       | Some attrType \<Rightarrow>
           (case (if AttrType_compatibleCode attrType > 0
                  then AttrType_valueOf (AttrType_compatibleCode attrType) else Some attrType) of
              None \<Rightarrow> Inl NullPointerException
            | Some attrType \<Rightarrow>
                bindR (attr_decode N cs (AttrType_decode attrType) v) (\<lambda>attr.
                  Inr (attrs, jput attrType attr m))))))"

partial_function (option) decode_attrs ::
    "'b netty \<Rightarrow> charset \<Rightarrow> 'b \<Rightarrow> (AttrType \<times> Attr) list \<Rightarrow> (AttrType \<times> Attr) list res option" where
  "decode_attrs N cs attrs m =
     (if nb_readableBytes N attrs > 0 then
        (case decode_attr_step N cs attrs m of
           Inl e \<Rightarrow> Some (Inl e)
         | Inr (attrs', m') \<Rightarrow> decode_attrs N cs attrs' m')
      else Some (Inr m))"

definition StunDecoder_decode :: "'b netty \<Rightarrow> charset \<Rightarrow> 'b \<Rightarrow> StunMessage res option" where
  "StunDecoder_decode N cs b =
     (case bindR (nb_readUnsignedShort N b) (\<lambda>(t, b). bindR (nb_readUnsignedShort N b) (\<lambda>(l, b).
           bindR (nb_skipBytes N 4 b) (\<lambda>b. bindR (nb_readBytes N 12 b) (\<lambda>(tranIdBytes, b).
           bindR (StunMessage_new (MessageType_valueOf (unat t)) (cs_newString cs tranIdBytes)) (\<lambda>message.
           bindR (nb_readSlice N (sint l) b) (\<lambda>(attrs, b). Inr (message, attrs))))))) of
        Inl e \<Rightarrow> Some (Inl e)
      | Inr (message, attrs) \<Rightarrow>
          (case decode_attrs N cs attrs (sm_attrs message) of
             None \<Rightarrow> None
           | Some (Inl e) \<Rightarrow> Some (Inl e)
           | Some (Inr m) \<Rightarrow> Some (Inr (message\<lparr> sm_attrs := m \<rparr>))))"

text \<open>The charset: \<open>new String\<close> inverts \<open>getBytes\<close>, and ASCII text takes one byte per character.\<close>

definition ascii :: "string \<Rightarrow> bool" where
  "ascii s \<longleftrightarrow> (\<forall>c \<in> set s. (of_char c :: nat) < 128)"

locale charset_laws =
  fixes cs :: charset
  assumes newString_getBytes [simp]: "ascii s \<Longrightarrow> cs_newString cs (cs_getBytes cs s) = s"
    and length_getBytes [simp]: "ascii s \<Longrightarrow> length (cs_getBytes cs s) = length s"

locale stun_codec = netty_buf N content marked after sliced rpos mpos + charset_laws cs
  for N :: "'b netty" and content marked after sliced rpos mpos cs

definition latin1 :: charset where
  "latin1 = \<lparr> cs_getBytes = map (\<lambda>c. of_nat (of_char c)), cs_newString = map (\<lambda>b. char_of (unat b)) \<rparr>"

interpretation latin1: charset_laws latin1
proof
  have e: "char_of (unat (of_nat (of_char c) :: jbyte)) = c" for c :: char
  proof -
    have "(of_char c :: nat) \<in> range of_char" by simp
    then have "(of_char c :: nat) < 256" unfolding range_nat_of_char by simp
    then show ?thesis by (simp add: unat_of_nat)
  qed
  show "cs_newString latin1 (cs_getBytes latin1 s) = s" for s
    unfolding latin1_def by (simp add: o_def e)
qed (simp add: latin1_def)

section \<open>The wire format\<close>

fun attr_bytes :: "charset \<Rightarrow> Attr \<Rightarrow> jbyte list" where
  "attr_bytes cs (AddressAttr family ip port) =
     0 # of_nat (case family of Some f \<Rightarrow> ProtoFamily_code f | None \<Rightarrow> 0) # be_list 2 (unat port) @
     (case ip2bytes ip of Inr bs \<Rightarrow> bs | Inl e \<Rightarrow> [])"
| "attr_bytes cs (ChangeRequestAttr i p) =
     be_list 4 ((if i then 4 else 0) + (if p then 2 else 0))"
| "attr_bytes cs (BytesAttr bs) = bs"
| "attr_bytes cs (LongAttr v) = be_list 8 (unat v)"
| "attr_bytes cs (StringAttr s) = cs_getBytes cs s"

definition entry_bytes :: "charset \<Rightarrow> AttrType \<times> Attr \<Rightarrow> jbyte list" where
  "entry_bytes cs e =
     be_list 2 (AttrType_code (fst e)) @ be_list 2 (length (attr_bytes cs (snd e))) @ attr_bytes cs (snd e)"

fun attr_fits :: "AttrDecode \<Rightarrow> Attr \<Rightarrow> bool" where
  "attr_fits DecAddress (AddressAttr f ip port) \<longleftrightarrow>
     f \<noteq> None \<and> (\<exists>a < 256. \<exists>b < 256. \<exists>c < 256. \<exists>d < 256. ip = quad_str a b c d) \<and> unat port < 65536"
| "attr_fits DecChangeRequest (ChangeRequestAttr i p) \<longleftrightarrow> True"
| "attr_fits DecBytes (BytesAttr bs) \<longleftrightarrow> True"
| "attr_fits DecString (StringAttr s) \<longleftrightarrow> ascii s"
| "attr_fits DecLong (LongAttr v) \<longleftrightarrow> True"
| "attr_fits _ _ \<longleftrightarrow> False"

definition entry_ok :: "charset \<Rightarrow> AttrType \<times> Attr \<Rightarrow> bool" where
  "entry_ok cs e \<longleftrightarrow>
     fst e \<noteq> OtherAddress \<and> attr_fits (AttrType_decode (fst e)) (snd e) \<and>
     length (attr_bytes cs (snd e)) < 65536"

definition message_ok :: "charset \<Rightarrow> StunMessage \<Rightarrow> bool" where
  "message_ok cs m \<longleftrightarrow>
     sm_messageType m \<noteq> None \<and> length (sm_tranId m) = 12 \<and> ascii (sm_tranId m) \<and>
     distinct (map fst (sm_attrs m)) \<and> list_all (entry_ok cs) (sm_attrs m) \<and>
     length (concat (map (entry_bytes cs) (sm_attrs m))) < 65536"

definition message_bytes :: "charset \<Rightarrow> StunMessage \<Rightarrow> jbyte list" where
  "message_bytes cs m =
     be_list 2 (case sm_messageType m of Some t \<Rightarrow> MessageType_code t | None \<Rightarrow> 0) @
     be_list 2 (length (concat (map (entry_bytes cs) (sm_attrs m)))) @
     be_list 4 (unat Cookie) @ cs_getBytes cs (sm_tranId m) @
     concat (map (entry_bytes cs) (sm_attrs m))"

section \<open>Lemmas on codes and maps\<close>

lemma AttrType_valueOf_code [simp]: "AttrType_valueOf (AttrType_code t) = Some t"
  by (cases t) (simp_all add: AttrType_valueOf_def AttrType_values_def)

lemma MessageType_valueOf_code [simp]: "MessageType_valueOf (MessageType_code t) = Some t"
  by (cases t) (simp_all add: MessageType_valueOf_def MessageType_values_def)

lemma ProtoFamily_valueOf_code [simp]: "ProtoFamily_valueOf (ProtoFamily_code t) = Some t"
  by (cases t) (simp_all add: ProtoFamily_valueOf_def)

lemma AttrType_code_less: "AttrType_code t < 65536"
  by (cases t) simp_all

lemma MessageType_code_less: "MessageType_code t < 65536"
  by (cases t) simp_all

lemma jput_append: "k \<notin> fst ` set m \<Longrightarrow> jput k v m = m @ [(k, v)]"
  by (induction m) auto

lemma map_of_jput: "map_of (jput k v m) = (map_of m)(k \<mapsto> v)"
  by (induction m) auto

lemma jput_keys: "fst ` set (jput k v m) = insert k (fst ` set m)"
  by (induction k v m rule: jput.induct) auto

lemma distinct_jput: "distinct (map fst m) \<Longrightarrow> distinct (map fst (jput k v m))"
  by (induction k v m rule: jput.induct) (simp_all add: jput_keys, blast)

lemma sint_be_val2: "length bs = 2 \<Longrightarrow> sint (of_nat (be_val bs) :: jint) = int (be_val bs)"
  using be_val_bound [of bs] by (simp add: sint_small unat_of_nat)

lemma unat_be_val2: "length bs = 2 \<Longrightarrow> unat (of_nat (be_val bs) :: jint) = be_val bs"
  using be_val_bound [of bs] by (simp add: unat_of_nat)

lemma be_val_take2: "n < 65536 \<Longrightarrow> be_val (take 2 (be_list 2 n @ xs)) = n"
  by (simp add: be_val_be_list)

section \<open>The decoder returns\<close>

context netty_buf
begin

lemma decode_step_shrinks:
  "decode_attr_step N cs b m = Inr (b', m') \<Longrightarrow> length (content b') < length (content b)"
proof -
  assume a: "decode_attr_step N cs b m = Inr (b', m')"
  then have l: "4 \<le> length (content b)"
    by (auto simp: decode_attr_step_def readUnsignedShort res_simps split: if_splits)
  have "sint (of_nat (be_val (take 2 (drop 2 (content b)))) :: jint)
      = int (be_val (take 2 (drop 2 (content b))))" using l by (intro sint_be_val2) simp
  then show ?thesis using a l
    by (auto simp: decode_attr_step_def readUnsignedShort readSlice res_simps
        split: if_splits option.splits)
qed

lemma decode_attrs_total: "\<exists>r. decode_attrs N cs b m = Some r"
proof (induction "length (content b)" arbitrary: b m rule: less_induct)
  case less
  show ?case
  proof (cases "decode_attr_step N cs b m")
    case (Inr r)
    then obtain b' m' where r: "decode_attr_step N cs b m = Inr (b', m')" by (cases r) auto
    then have "\<exists>s. decode_attrs N cs b' m' = Some s" using less decode_step_shrinks by blast
    then show ?thesis by (subst decode_attrs.simps) (simp add: r)
  qed (subst decode_attrs.simps, simp)
qed

lemma decode_total: "\<exists>r. StunDecoder_decode N cs b = Some r"
  unfolding StunDecoder_decode_def
  using decode_attrs_total by (auto split: sum.splits option.splits) (metis option.distinct(1))

end

section \<open>The codec is a round trip\<close>

context stun_codec
begin

lemma write_address:
  assumes "a < 256" "b < 256" "c < 256" "d < 256"
  shows "\<exists>y. attr_write N cs (AddressAttr (Some f) (quad_str a b c d) port) x = Inr y \<and>
    content y = content x @ attr_bytes cs (AddressAttr (Some f) (quad_str a b c d) port)"
proof -
  have "be_list 1 0 = [0]" "be_list 1 (unat (of_nat (ProtoFamily_code f) :: jint)) = [of_nat (ProtoFamily_code f)]"
    by (cases f; simp add: be_list_Suc)+
  then show ?thesis by (simp add: ip2bytes_quad_str assms)
qed

lemma attr_write_run:
  assumes "attr_fits d a"
  shows "\<exists>y. attr_write N cs a x = Inr y \<and> content y = content x @ attr_bytes cs a"
proof (cases a)
  case (AddressAttr f ip port)
  then obtain g where "f = Some g" "\<exists>a < 256. \<exists>b < 256. \<exists>c < 256. \<exists>d < 256. ip = quad_str a b c d"
    using assms by (cases d) auto
  then show ?thesis using AddressAttr write_address by blast
next
  case (ChangeRequestAttr i p)
  have "unat (4 OR 2 :: jint) = 6" "unat (0 OR 2 :: jint) = 2" "unat (0 OR 4 :: jint) = 4" by simp_all
  then show ?thesis by (simp add: ChangeRequestAttr Let_def numeral_2_eq_2)
qed simp_all

lemma decode_address:
  assumes "content v = 0 # of_nat (ProtoFamily_code f) # be_list 2 (unat port) @ bs"
    and "unat port < 65536" and "length bs = 4"
  shows "attr_decode N cs DecAddress v =
    bindR (bytes2ip bs) (\<lambda>ip. Inr (AddressAttr (Some f) ip port))"
proof -
  have f: "unat (of_nat (be_val [of_nat (ProtoFamily_code f)]) :: jint) = ProtoFamily_code f"
    by (cases f) (simp_all add: be_val_Cons)
  have 1: "content (after 1 v) = of_nat (ProtoFamily_code f) # be_list 2 (unat port) @ bs"
    "content (after 1 (after 1 v)) = be_list 2 (unat port) @ bs"
    "content (after 2 (after 1 (after 1 v))) = bs" by (simp_all add: assms)
  show ?thesis using assms(2,3)
    by (simp add: readUnsignedByte readUnsignedShort readBytes 1 assms(1) be_val_be_list f)
qed

lemma attr_decode_run:
  assumes "attr_fits d a" and "content v = attr_bytes cs a"
  shows "attr_decode N cs d v = Inr a"
proof (cases d)
  case DecAddress
  then obtain f ip port where a: "a = AddressAttr (Some f) ip port" and p: "unat port < 65536"
    and ip: "\<exists>a < 256. \<exists>b < 256. \<exists>c < 256. \<exists>d < 256. ip = quad_str a b c d"
    using assms(1) by (cases a) auto
  obtain b0 b1 b2 b3 where q: "b0 < 256" "b1 < 256" "b2 < 256" "b3 < 256" "ip = quad_str b0 b1 b2 b3"
    using ip by blast
  have "content v = 0 # of_nat (ProtoFamily_code f) # be_list 2 (unat port) @
      [of_nat b0, of_nat b1, of_nat b2, of_nat b3]"
    using assms(2) by (simp add: a q ip2bytes_quad_str)
  from decode_address [OF this p] show ?thesis
    using q by (simp add: DecAddress a bytes2ip_quad unat_of_nat)
next
  case DecChangeRequest
  then obtain i p where a: "a = ChangeRequestAttr i p" using assms(1) by (cases a) auto
  have "length (content v) = 4" using assms(2) a by simp
  moreover have "be_val (content v) = (if i then 4 else 0) + (if p then 2 else 0)"
    using assms(2) a by (simp add: be_val_be_list)
  ultimately show ?thesis
    by (cases i; cases p) (simp_all add: DecChangeRequest a readInt sar32_def; code_simp)+
next
  case DecBytes
  then obtain bs where "a = BytesAttr bs" using assms(1) by (cases a) auto
  with assms(2) show ?thesis by (simp add: DecBytes toBytes_def readBytes)
next
  case DecString
  then obtain s where "a = StringAttr s" "ascii s" using assms(1) by (cases a) auto
  with assms(2) show ?thesis by (simp add: DecString toBytes_def readBytes)
next
  case DecLong
  then obtain w where "a = LongAttr w" using assms(1) by (cases a) auto
  moreover have "unat w < 256 ^ 8" using unsigned_less [of w, where 'a = nat] by simp
  ultimately show ?thesis
    using assms(2) by (simp add: DecLong readLong be_val_be_list)
qed (use assms in \<open>cases a; simp\<close>)

lemma encode_attr_run:
  assumes "entry_ok cs e"
  shows "\<exists>y. encode_attr N cs e x = Inr y \<and> content y = content x @ entry_bytes cs e"
proof -
  obtain t a where e: "e = (t, a)" by (cases e)
  obtain v where v: "attr_write N cs a (nb_new N) = Inr v" "content v = attr_bytes cs a"
    using assms attr_write_run [of "AttrType_decode t" a "nb_new N"] by (auto simp: entry_ok_def e)
  have "unat (of_nat (AttrType_code t) :: jint) = AttrType_code t"
    "unat (of_nat (length (attr_bytes cs a)) :: jint) = length (attr_bytes cs a)"
    using assms AttrType_code_less [of t] by (simp_all add: entry_ok_def e unat_of_nat)
  then show ?thesis by (simp add: encode_attr_def e v entry_bytes_def)
qed

lemma encode_attrs_run:
  "list_all (entry_ok cs) es \<Longrightarrow>
   \<exists>y. encode_attrs N cs es x = Inr y \<and> content y = content x @ concat (map (entry_bytes cs) es)"
proof (induction es arbitrary: x)
  case (Cons e es)
  then obtain y where y: "encode_attr N cs e x = Inr y" "content y = content x @ entry_bytes cs e"
    using encode_attr_run [of e x] by auto
  moreover obtain z where "encode_attrs N cs es y = Inr z"
    "content z = content y @ concat (map (entry_bytes cs) es)"
    using Cons.IH [of y] Cons.prems by auto
  ultimately show ?case by auto
qed simp

lemma encode_run:
  assumes "message_ok cs m"
  shows "\<exists>y. StunEncoder_encode N cs m = Inr y \<and> content y = message_bytes cs m"
proof -
  obtain t where t: "sm_messageType m = Some t" using assms by (auto simp: message_ok_def)
  obtain a where a: "encode_attrs N cs (sm_attrs m) (nb_new N) = Inr a"
    "content a = concat (map (entry_bytes cs) (sm_attrs m))"
    using encode_attrs_run [of "sm_attrs m" "nb_new N"] assms by (auto simp: message_ok_def)
  have "unat (of_nat (MessageType_code t) :: jint) = MessageType_code t"
    "unat (of_nat (length (content a)) :: jint) = length (content a)"
    using assms a MessageType_code_less [of t] by (simp_all add: message_ok_def unat_of_nat)
  then show ?thesis by (simp add: StunEncoder_encode_def t a message_bytes_def Let_def)
qed

lemma decode_entry:
  assumes "entry_ok cs (t, a)" and "content b = entry_bytes cs (t, a) @ xs"
  shows "\<exists>b'. decode_attr_step N cs b m = Inr (b', jput t a m) \<and> content b' = xs"
proof -
  let ?l = "length (attr_bytes cs a)"
  have l: "?l < 65536" and n: "t \<noteq> OtherAddress" and f: "attr_fits (AttrType_decode t) a"
    using assms(1) by (simp_all add: entry_ok_def)
  have c1: "content (after 2 b) = be_list 2 ?l @ attr_bytes cs a @ xs"
    and c2: "content (after 2 (after 2 b)) = attr_bytes cs a @ xs"
    by (simp_all add: assms(2) entry_bytes_def)
  have v1: "be_val (take 2 (content b)) = AttrType_code t"
    using AttrType_code_less [of t] by (simp add: assms(2) entry_bytes_def be_val_be_list)
  have v2: "be_val (take 2 (content (after 2 b))) = ?l"
    using l unfolding c1 by (simp add: be_val_be_list)
  have "unat (of_nat (AttrType_code t) :: jint) = AttrType_code t"
    "sint (of_nat ?l :: jint) = int ?l"
    using AttrType_code_less [of t] l by (simp_all add: unat_of_nat sint_small)
  moreover have "attr_decode N cs (AttrType_decode t) (sliced ?l (after 2 (after 2 b))) = Inr a"
    by (rule attr_decode_run [OF f]) (simp only: content_slice c2, simp)
  moreover have "2 \<le> length (content b)" "2 \<le> length (content (after 2 b))"
    "?l \<le> length (content (after 2 (after 2 b)))"
    unfolding c1 c2 by (simp_all add: assms(2) entry_bytes_def)
  moreover have "content (after ?l (after 2 (after 2 b))) = xs"
    unfolding content_after [of ?l] c2 by simp
  ultimately show ?thesis
    using n v1 v2 by (simp add: decode_attr_step_def readUnsignedShort readSlice AttrType_compatibleCode_def
        del: content_after)
qed

lemma decode_attrs_entries:
  "list_all (entry_ok cs) es \<Longrightarrow> distinct (map fst (m @ es)) \<Longrightarrow>
   content b = concat (map (entry_bytes cs) es) \<Longrightarrow> decode_attrs N cs b m = Some (Inr (m @ es))"
proof (induction es arbitrary: b m)
  case Nil
  then show ?case by (subst decode_attrs.simps) simp
next
  case (Cons e es)
  obtain t a where e: "e = (t, a)" by (cases e)
  from Cons.prems obtain b' where
    s: "decode_attr_step N cs b m = Inr (b', jput t a m)" "content b' = concat (map (entry_bytes cs) es)"
    using decode_entry [of t a b "concat (map (entry_bytes cs) es)" m] by (auto simp: e)
  have "t \<notin> fst ` set m" using Cons.prems(2) by (auto simp: e)
  then have p: "jput t a m = m @ [(t, a)]" by (rule jput_append)
  have "0 < length (content b)" using Cons.prems(3) by (simp add: entry_bytes_def)
  then have "decode_attrs N cs b m = decode_attrs N cs b' (m @ [(t, a)])"
    by (subst decode_attrs.simps) (simp add: s p)
  also have "\<dots> = Some (Inr ((m @ [(t, a)]) @ es))"
    using Cons.prems s by (intro Cons.IH) (simp_all add: e)
  finally show ?case by (simp add: e)
qed

lemma decode_run:
  assumes "message_ok cs m" and "content b = message_bytes cs m"
  shows "StunDecoder_decode N cs b = Some (Inr m)"
proof -
  let ?es = "concat (map (entry_bytes cs) (sm_attrs m))"
  obtain t where t: "sm_messageType m = Some t" using assms by (auto simp: message_ok_def)
  have g: "length (cs_getBytes cs (sm_tranId m)) = 12" "length ?es < 65536"
    "cs_newString cs (cs_getBytes cs (sm_tranId m)) = sm_tranId m" "length (sm_tranId m) = 12"
    "list_all (entry_ok cs) (sm_attrs m)" "distinct (map fst (sm_attrs m))"
    using assms by (simp_all add: message_ok_def)
  define b1 b2 b3 b4 where b: "b1 = after 2 b" "b2 = after 2 b1" "b3 = after 4 b2" "b4 = after 12 b3"
  have c: "content b = be_list 2 (MessageType_code t) @ be_list 2 (length ?es) @
      be_list 4 (unat Cookie) @ cs_getBytes cs (sm_tranId m) @ ?es"
    using assms(2) by (simp add: message_bytes_def t)
  have c1: "content b1 = be_list 2 (length ?es) @ be_list 4 (unat Cookie) @ cs_getBytes cs (sm_tranId m) @ ?es"
    unfolding b content_after c by simp
  have c2: "content b2 = be_list 4 (unat Cookie) @ cs_getBytes cs (sm_tranId m) @ ?es"
    unfolding b(2) content_after c1 by simp
  have c3: "content b3 = cs_getBytes cs (sm_tranId m) @ ?es"
    unfolding b(3) content_after c2 by simp
  have c4: "content b4 = ?es" unfolding b(4) content_after c3 using g by simp
  have v: "be_val (take 2 (content b)) = MessageType_code t" "be_val (take 2 (content b1)) = length ?es"
    unfolding c c1 using MessageType_code_less [of t] g(2) by (simp_all add: be_val_be_list)
  have l: "2 \<le> length (content b)" "2 \<le> length (content b1)" "4 \<le> length (content b2)"
    "12 \<le> length (content b3)" "take 12 (content b3) = cs_getBytes cs (sm_tranId m)"
    unfolding c c1 c2 c3 using g(1) by simp_all
  have w: "unat (of_nat (MessageType_code t) :: jint) = MessageType_code t"
    "sint (of_nat (length ?es) :: jint) = int (length ?es)"
    using MessageType_code_less [of t] g(2) by (simp_all add: unat_of_nat sint_small)
  have "decode_attrs N cs (sliced (length ?es) b4) [] = Some (Inr (sm_attrs m))"
    using decode_attrs_entries [of "sm_attrs m" "[]" "sliced (length ?es) b4"] g
    by (simp add: content_slice c4)
  then show ?thesis
    unfolding StunDecoder_decode_def
    by (simp add: readUnsignedShort readBytes skipBytes readSlice l v w g t c4 StunMessage_new_def
        b(1) [symmetric] b(2) [symmetric] b(3) [symmetric] b(4) [symmetric] del: content_after)
qed

end

section \<open>Properties\<close>

text \<open>
  C24: Decoding what the encoder wrote gives the message back: every message with a type, a
  transaction id of twelve ASCII characters, attributes that fit their types (address
  attributes of the plain form, canonical addresses, ports below 65536) and a total length
  below 65536 is encoded to the wire format and decoded to itself, attributes in order.
\<close>

theorem stun_roundtrip:
  assumes "netty_buf N content marked after sliced rpos mpos" and "charset_laws cs" and "message_ok cs m"
  shows "\<exists>b. StunEncoder_encode N cs m = Inr b \<and> content b = message_bytes cs m \<and>
    StunDecoder_decode N cs b = Some (Inr m)"
  using stun_codec.encode_run [OF stun_codec.intro [OF assms(1,2)] assms(3)]
    stun_codec.decode_run [OF stun_codec.intro [OF assms(1,2)] assms(3)] by blast

theorem stun_roundtrip_witness:
  "\<exists>b. StunDecoder_decode list_netty latin1 b = Some (Inr
     \<lparr> sm_messageType = Some BindResponse, sm_tranId = ''0123456789ab'',
       sm_attrs = [(MappedAddress, AddressAttr (Some PF_IPv4) (quad_str 10 0 0 1) 888),
                   (RelayToken, StringAttr ''token''), (AttrTime, LongAttr 7)] \<rparr>)"
proof -
  have q: "\<exists>a < 256. \<exists>b < 256. \<exists>c < 256. \<exists>d < 256. quad_str 10 0 0 1 = quad_str a b c d"
    by (rule exI [of _ 10], rule conjI, simp, rule exI [of _ 0], rule conjI, simp,
        rule exI [of _ 0], rule conjI, simp, rule exI [of _ 1]) simp
  have i: "ip2bytes (quad_str 10 0 0 1) = Inr [10, 0, 0, 1]" using ip2bytes_quad_str [of 10 0 0 1] by simp
  have "message_ok latin1 \<lparr> sm_messageType = Some BindResponse, sm_tranId = ''0123456789ab'',
       sm_attrs = [(MappedAddress, AddressAttr (Some PF_IPv4) (quad_str 10 0 0 1) 888),
                   (RelayToken, StringAttr ''token''), (AttrTime, LongAttr 7)] \<rparr>"
    using q by (simp add: message_ok_def entry_ok_def ascii_def entry_bytes_def latin1_def i [simplified])
  from stun_roundtrip [OF lbuf.netty_buf_axioms latin1.charset_laws_axioms this]
  show ?thesis by blast
qed

text \<open>
  C33: The decoder returns on every datagram: with a message or with an exception, the loop over
  the attributes always ends.
\<close>

theorem stun_decode_total:
  assumes "netty_buf N content marked after sliced rpos mpos"
  shows "\<exists>r. StunDecoder_decode N cs b = Some r"
  using netty_buf.decode_total [OF assms] .

theorem stun_decode_total_witness:
  "\<exists>r. StunDecoder_decode list_netty latin1 (of_bytes [0, 1, 0, 9, 1]) = Some r"
  by (rule stun_decode_total [OF lbuf.netty_buf_axioms])

text \<open>The codec on the buffer of lists with the Latin-1 charset.\<close>

interpretation lstun: stun_codec list_netty lb_content lb_marked lafter lslice lb_rpos lb_mpos latin1
  by unfold_locales

end
