(* ===== verification/CheckSum.thy ===== *)
theory CheckSum
  imports NettyBuf
begin

text \<open>
  The Internet checksum: the class CheckSum of sdwan-tun. The two reading loops run on a
  buffer of the Netty interface and are partial functions (\<open>None\<close>: not returning); the folding
  of the carries is a total function. The reference is arithmetic modulo 65535.
\<close>

section \<open>The class CheckSum\<close>

partial_function (option) sum_shorts :: "'b netty \<Rightarrow> jint \<Rightarrow> 'b \<Rightarrow> (jint \<times> 'b) res option" where
  "sum_shorts N s b =
     (if nb_readableBytes N b \<ge> 2 then
        (case nb_readUnsignedShort N b of
           Inl e \<Rightarrow> Some (Inl e)
         | Inr (v, b') \<Rightarrow> sum_shorts N (s + v) b')
      else Some (Inr (s, b)))"

partial_function (option) sum_bytes :: "'b netty \<Rightarrow> jint \<Rightarrow> 'b \<Rightarrow> (jint \<times> 'b) res option" where
  "sum_bytes N s b =
     (if nb_readableBytes N b > 0 then
        (case nb_readByte N b of
           Inl e \<Rightarrow> Some (Inl e)
         | Inr (v, b') \<Rightarrow> sum_bytes N (s + shl32 (word_of_int (sint v)) 8) b')
      else Some (Inr (s, b)))"

definition calcTcpUdp :: "'b netty \<Rightarrow> 'b \<Rightarrow> (jint \<times> 'b) res option" where
  "calcTcpUdp N byteBuf =
     (case sum_shorts N 0 (nb_markReader N byteBuf) of
        None \<Rightarrow> None
      | Some (Inl e) \<Rightarrow> Some (Inl e)
      | Some (Inr (s, b)) \<Rightarrow>
          (case sum_bytes N s b of
             None \<Rightarrow> None
           | Some (Inl e) \<Rightarrow> Some (Inl e)
           | Some (Inr (s', b')) \<Rightarrow> Some (Inr (s', nb_resetReader N b'))))"

lemma sar32_16: "unat s < 2 ^ 31 \<Longrightarrow> unat (sar32 s 16) = unat s div 65536"
proof -
  assume a: "unat s < 2 ^ 31"
  then have "signed_drop_bit 16 s = drop_bit 16 s" by (intro signed_drop_bit_small) simp
  then show ?thesis by (simp add: sar32_def unat_drop_bit_div)
qed

lemma sar32_16_pos: "0 < sint (sar32 s 16) \<longleftrightarrow> 65536 \<le> unat s \<and> unat s < 2 ^ 31"
proof (cases "unat s < 2 ^ 31")
  case True
  have "unat (sar32 s 16) < 2 ^ (LENGTH(32) - 1)" using True unfolding sar32_16 [OF True] by simp
  then have "sint (sar32 s 16) = int (unat s div 65536)" using sint_small sar32_16 [OF True] by metis
  moreover have "0 < unat s div 65536 \<longleftrightarrow> 65536 \<le> unat s" by (simp add: div_greater_zero_iff)
  ultimately show ?thesis using True by simp
next
  case False
  have "sint s < 0"
  proof (rule ccontr)
    assume n: "\<not> sint s < 0"
    have "sint s < 2 ^ 31" using sint_lt [of s] by simp
    then have "uint s = sint s" using n by (subst uint_sint) (simp add: take_bit_int_eq_self)
    then show False using \<open>sint s < 2 ^ 31\<close> False by (simp add: unat_eq_nat_uint nat_less_iff)
  qed
  then have "\<not> 0 < drop_bit 16 (sint s)" using drop_bit_negative_int_iff [of 16 "sint s"] by linarith
  then show ?thesis using False by (simp add: sar32_def sint_signed_drop_bit_eq)
qed

lemma unat_and_ffff: "unat (s AND 0xffff) = unat s mod 65536" for s :: jint
proof -
  have "s AND 0xffff = take_bit 16 s" by (simp add: take_bit_eq_mask mask_eq_exp_minus_1)
  then show ?thesis by (simp only: unat_take_bit) simp
qed

lemma fold_step:
  assumes "65536 \<le> unat s" and "unat s < 2 ^ 31"
  shows "unat ((s AND 0xffff) + sar32 s 16) = unat s mod 65536 + unat s div 65536"
proof -
  have "unat s div 65536 < 65536" using assms(2) by (simp add: less_mult_imp_div_less)
  then have "unat s mod 65536 + unat s div 65536 < 2 ^ 32" by (simp add: mod_less_divisor [of 65536 "unat s", THEN less_trans])
  then show ?thesis
    by (simp add: unat_word_ariths unat_and_ffff sar32_16 [OF assms(2)])
qed

lemma calcHighLow_decreases:
  assumes "0 < sint (sar32 s 16)"
  shows "unat ((s AND 0xffff) + sar32 s 16) < unat s"
proof -
  have s: "65536 \<le> unat s" "unat s < 2 ^ 31" using assms by (simp_all add: sar32_16_pos)
  have "1 \<le> unat s div 65536" using s(1) by (simp add: div_greater_zero_iff Suc_le_eq)
  moreover have "unat s = unat s div 65536 * 65536 + unat s mod 65536" by simp
  ultimately show ?thesis unfolding fold_step [OF s] by linarith
qed

function calcHighLow :: "jint \<Rightarrow> jint" where
  "calcHighLow s =
     (if 0 < sint (sar32 s 16) then calcHighLow ((s AND 0xffff) + sar32 s 16)
      else NOT s AND 0xffff)"
  by pat_completeness auto

termination
  by (relation "measure unat") (auto simp: calcHighLow_decreases)

declare calcHighLow.simps [simp del]

definition calcIp :: "'b netty \<Rightarrow> 'b \<Rightarrow> (jint \<times> 'b) res option" where
  "calcIp N byteBuf =
     (case sum_shorts N 0 (nb_markReader N byteBuf) of
        None \<Rightarrow> None
      | Some (Inl e) \<Rightarrow> Some (Inl e)
      | Some (Inr (s, b)) \<Rightarrow>
          (case sum_bytes N s b of
             None \<Rightarrow> None
           | Some (Inl e) \<Rightarrow> Some (Inl e)
           | Some (Inr (s', b')) \<Rightarrow> Some (Inr (calcHighLow s', nb_resetReader N b'))))"

section \<open>The reference\<close>

text \<open>
  The sum of the 16-bit big-endian words of a byte list; the code adds an odd last byte as a
  signed byte shifted left.
\<close>

fun word_sum :: "jbyte list \<Rightarrow> nat" where
  "word_sum (a # b # bs) = unat a * 256 + unat b + word_sum bs"
| "word_sum [a] = unat a * 256"
| "word_sum [] = 0"

fun java_sum :: "jbyte list \<Rightarrow> int" where
  "java_sum (a # b # bs) = int (unat a * 256 + unat b) + java_sum bs"
| "java_sum [a] = sint a * 256"
| "java_sum [] = 0"

definition ones_fold :: "nat \<Rightarrow> nat" where
  "ones_fold s = (if s = 0 then 0 else (s - 1) mod 65535 + 1)"

definition inet_checksum :: "jbyte list \<Rightarrow> nat" where
  "inet_checksum bs = 65535 - ones_fold (word_sum bs)"


section \<open>Lemmas\<close>

lemma ones_fold_small: "s \<le> 65535 \<Longrightarrow> ones_fold s = s"
  by (simp add: ones_fold_def)

lemma ones_fold_le: "ones_fold s \<le> 65535"
proof -
  have "(s - 1) mod 65535 < 65535" by simp
  then have "(s - 1) mod 65535 + 1 \<le> 65535" by linarith
  then show ?thesis by (simp add: ones_fold_def)
qed

lemma ones_fold_step:
  assumes "65536 \<le> s" shows "ones_fold (s mod 65536 + s div 65536) = ones_fold s"
proof -
  define q r where qr: "q = s div 65536" "r = s mod 65536"
  have q: "0 < q" using assms by (simp add: qr div_greater_zero_iff)
  have s: "s = q * 65536 + r" by (simp add: qr)
  have "s - 1 = q * 65535 + (r + q - 1)" using q by (simp add: s)
  then have "(s - 1) mod 65535 = (r + q - 1) mod 65535" by (simp only: mod_mult_self3)
  then show ?thesis using q assms by (simp add: ones_fold_def qr [symmetric])
qed

lemma not_and_ffff:
  fixes s :: jint
  assumes "unat s < 65536" shows "NOT s AND 0xffff = of_nat (65535 - unat s)"
proof -
  have "take_bit 16 s = s"
    by (rule unsigned_word_eqI [where 'a = nat]) (use assms in \<open>simp only: unat_take_bit, simp\<close>)
  then have b: "bit s n \<Longrightarrow> n < 16" for n by (metis bit_take_bit_iff)
  have m: "(0xffff :: jint) = mask 16" by (simp add: mask_eq_exp_minus_1)
  have "s + (NOT s AND 0xffff) = s OR (NOT s AND 0xffff)"
    by (rule disjunctive_add) (auto simp: bit_simps)
  also have "\<dots> = 0xffff"
    unfolding m by (rule bit_word_eqI) (use b in \<open>auto simp: bit_simps\<close>)
  finally have "NOT s AND 0xffff = 0xffff - s" by (simp add: eq_diff_eq add.commute)
  then show ?thesis using assms by (simp add: of_nat_diff)
qed

lemma calcHighLow_fold: "unat s < 2 ^ 31 \<Longrightarrow> calcHighLow s = of_nat (65535 - ones_fold (unat s))"
proof (induction s rule: calcHighLow.induct)
  case (1 s)
  show ?case
  proof (cases "65536 \<le> unat s")
    case True
    let ?t = "(s AND 0xffff) + sar32 s 16"
    have c: "0 < sint (sar32 s 16)" using True 1(2) by (simp add: sar32_16_pos)
    have "unat ?t < 2 ^ 31" using calcHighLow_decreases [OF c] 1(2) by linarith
    then have "calcHighLow ?t = of_nat (65535 - ones_fold (unat ?t))" by (rule 1(1) [OF c])
    then show ?thesis using c
      by (subst calcHighLow.simps) (simp only: fold_step [OF True 1(2)] ones_fold_step [OF True] if_True)
  next
    case False
    then have "\<not> 0 < sint (sar32 s 16)" by (simp add: sar32_16_pos)
    with False show ?thesis
      by (subst calcHighLow.simps) (simp add: not_and_ffff ones_fold_small)
  qed
qed

lemma word_sum_bound: "word_sum bs \<le> 65535 * ((length bs + 1) div 2)"
proof (induction bs rule: word_sum.induct)
  case (1 a b bs)
  have "unat a \<le> 255" "unat b \<le> 255" using unat_byte_bound [of a] unat_byte_bound [of b] by linarith+
  with 1 show ?case by simp
next
  case (2 a)
  have "unat a \<le> 255" using unat_byte_bound [of a] by linarith
  then show ?case by simp
qed simp

lemma word_sum_small: "length bs \<le> 65535 \<Longrightarrow> word_sum bs < 2 ^ 31"
proof -
  assume "length bs \<le> 65535"
  then have "(length bs + 1) div 2 \<le> 32768" by linarith
  then have "word_sum bs \<le> 65535 * 32768" using word_sum_bound [of bs] by linarith
  then show ?thesis by simp
qed

lemma sint_byte: "sint b = (if unat b < 128 then int (unat b) else int (unat b) - 256)" for b :: jbyte
proof (cases "unat b < 128")
  case True
  then show ?thesis by (simp add: sint_small)
next
  case False
  have "sint b < 2 ^ 7" "- (2 ^ 7) \<le> sint b" using sint_lt [of b] sint_ge [of b] by simp_all
  moreover have "int (unat b) = sint b mod 256" using uint_sint [of b] by (simp add: take_bit_eq_mod)
  moreover have "x < 2 ^ 7 \<Longrightarrow> - (2 ^ 7) \<le> x \<Longrightarrow> u = x mod 256 \<Longrightarrow>
      (0 \<le> x \<longrightarrow> u = x) \<and> (x < 0 \<longrightarrow> u = x + 256)" for x u :: int
    by simp presburger
  ultimately have "(0 \<le> sint b \<longrightarrow> int (unat b) = sint b) \<and> (sint b < 0 \<longrightarrow> int (unat b) = sint b + 256)"
    by blast
  moreover have "sint b < 128" using sint_lt [of b] by simp
  ultimately have "sint b = int (unat b) - 256" using False by linarith
  with False show ?thesis by simp
qed


text \<open>A list is regular when its length is even or its last byte is below 128.\<close>

definition regular_bytes :: "jbyte list \<Rightarrow> bool" where
  "regular_bytes bs \<longleftrightarrow> even (length bs) \<or> unat (last bs) < 128"

lemma java_sum_word_sum:
  "java_sum bs = (if regular_bytes bs then int (word_sum bs) else int (word_sum bs) - 65536)"
  by (induction bs rule: word_sum.induct) (auto simp: regular_bytes_def sint_byte)

lemma shl32_byte: "shl32 (word_of_int (sint v)) 8 = word_of_int (sint v * 256)" for v :: jbyte
  by (simp add: shl32_def push_bit_eq_mult)

context netty_buf
begin

lemma sum_shorts_run:
  "\<exists>b'. sum_shorts N s b =
      Some (Inr (s + word_of_int (java_sum (take (2 * (length (content b) div 2)) (content b))), b')) \<and>
    content b' = drop (2 * (length (content b) div 2)) (content b) \<and> marked b' = marked b"
proof (induction "length (content b)" arbitrary: b s rule: less_induct)
  case less
  show ?case
  proof (cases "2 \<le> length (content b)")
    case False
    then have "length (content b) div 2 = 0" by simp
    with False show ?thesis by (subst sum_shorts.simps) simp
  next
    case True
    then obtain x y bs where c: "content b = x # y # bs"
      by (cases "content b"; cases "tl (content b)") auto
    let ?v = "of_nat (be_val [x, y]) :: jint"
    have n: "content (after 2 b) = bs" using c by simp
    have "length (content (after 2 b)) < length (content b)" using c by simp
    from less [OF this, of "s + ?v"] obtain b' where
      IH: "sum_shorts N (s + ?v) (after 2 b) =
          Some (Inr (s + ?v + word_of_int (java_sum (take (2 * (length bs div 2)) bs)), b'))"
        "content b' = drop (2 * (length bs div 2)) bs" "marked b' = marked b"
      unfolding n by auto
    have "sum_shorts N s b = sum_shorts N (s + ?v) (after 2 b)"
      using True by (subst sum_shorts.simps) (simp add: readUnsignedShort c)
    then show ?thesis using IH c by (auto simp: be_val_Cons)
  qed
qed

lemma sum_bytes_run:
  "length (content b) \<le> 1 \<Longrightarrow> \<exists>b'. sum_bytes N s b =
      Some (Inr (s + word_of_int (java_sum (content b)), b')) \<and> marked b' = marked b"
proof (cases "content b")
  case Nil
  then show ?thesis by (subst sum_bytes.simps) simp
next
  case (Cons x xs)
  assume "length (content b) \<le> 1"
  with Cons have c: "content b = [x]" by simp
  have "sum_bytes N s b = sum_bytes N (s + shl32 (word_of_int (sint x)) 8) (after 1 b)"
    by (subst sum_bytes.simps) (simp add: readByte c)
  also have "\<dots> = Some (Inr (s + shl32 (word_of_int (sint x)) 8, after 1 b))"
    by (subst sum_bytes.simps) (simp add: c)
  finally show ?thesis unfolding c shl32_byte by simp
qed

lemma java_sum_split:
  "java_sum (take (2 * (length bs div 2)) bs) + java_sum (drop (2 * (length bs div 2)) bs) = java_sum bs"
  by (induction bs rule: java_sum.induct) auto

lemma calcTcpUdp_run:
  "\<exists>b'. calcTcpUdp N b = Some (Inr (word_of_int (java_sum (content b)), b')) \<and>
    content b' = content b \<and> marked b' = content b"
proof -
  let ?k = "2 * (length (content b) div 2)"
  obtain b1 where 1: "sum_shorts N 0 (nb_markReader N b) =
      Some (Inr (word_of_int (java_sum (take ?k (content b))), b1))"
    "content b1 = drop ?k (content b)" "marked b1 = content b"
    using sum_shorts_run [of 0 "nb_markReader N b"] by auto
  have "length (content b1) \<le> 1" unfolding 1 by simp
  from sum_bytes_run [OF this, of "word_of_int (java_sum (take ?k (content b)))"] obtain b2 where
    2: "sum_bytes N (word_of_int (java_sum (take ?k (content b)))) b1 =
      Some (Inr (word_of_int (java_sum (take ?k (content b)) + java_sum (drop ?k (content b))), b2))"
      "marked b2 = content b"
    unfolding 1 by auto
  show ?thesis by (simp add: calcTcpUdp_def 1 2 java_sum_split)
qed

lemma calcIp_run:
  "\<exists>b'. calcIp N b = Some (Inr (calcHighLow (word_of_int (java_sum (content b))), b')) \<and>
    content b' = content b \<and> marked b' = content b"
proof -
  have "calcIp N b = (case calcTcpUdp N b of None \<Rightarrow> None | Some (Inl e) \<Rightarrow> Some (Inl e)
      | Some (Inr (s, b')) \<Rightarrow> Some (Inr (calcHighLow s, b')))"
    by (auto simp: calcIp_def calcTcpUdp_def split: option.splits sum.splits)
  then show ?thesis using calcTcpUdp_run [of b] by auto
qed

end

lemma calcHighLow_regular:
  assumes "length bs \<le> 65535" and "regular_bytes bs"
  shows "calcHighLow (word_of_int (java_sum bs)) = of_nat (inet_checksum bs)"
proof -
  have b: "word_sum bs < 2 ^ 31" using assms(1) by (rule word_sum_small)
  then have u: "unat (word_of_int (int (word_sum bs)) :: jint) = word_sum bs"
    by (simp add: unat_of_nat)
  then show ?thesis
    using calcHighLow_fold [of "word_of_int (int (word_sum bs))"] b assms(2)
    by (simp add: java_sum_word_sum inet_checksum_def)
qed

text \<open>
  Inserting the checksum at a word position where the list has a zero word makes the checksum
  of the list zero, which is what the receiver verifies.
\<close>

lemma ones_fold_complement: "ones_fold (s + (65535 - ones_fold s)) = 65535"
proof (cases "s = 0")
  case False
  define q where "q = (s - 1) div 65535"
  have "s - 1 = q * 65535 + (s - 1) mod 65535" by (simp add: q_def)
  moreover have "ones_fold s = (s - 1) mod 65535 + 1" using False by (simp add: ones_fold_def)
  moreover have "ones_fold s \<le> 65535" by (rule ones_fold_le)
  ultimately have "s + (65535 - ones_fold s) - 1 = q * 65535 + 65534" using False by linarith
  then show ?thesis using False by (simp add: ones_fold_def)
qed (simp add: ones_fold_def)

lemma word_sum_append: "even (length xs) \<Longrightarrow> word_sum (xs @ ys) = word_sum xs + word_sum ys"
  by (induction xs rule: word_sum.induct) auto

lemma word_sum_be_list: "c < 65536 \<Longrightarrow> word_sum (be_list 2 c @ ys) = c + word_sum ys"
proof -
  assume "c < 65536"
  then have "c div 256 < 256" by simp
  then show ?thesis
    by (simp add: numeral_2_eq_2 be_list_Suc unat_of_nat_byte del: of_nat_mod)
qed

lemma checksum_inserted:
  assumes "even (length xs)"
  shows "inet_checksum (xs @ be_list 2 (inet_checksum (xs @ [0, 0] @ ys)) @ ys) = 0"
proof -
  define t c where tc: "t = word_sum xs + word_sum ys" "c = 65535 - ones_fold t"
  have "word_sum (xs @ [0, 0] @ ys) = t" using assms by (simp add: word_sum_append tc)
  then have i: "inet_checksum (xs @ [0, 0] @ ys) = c" by (simp add: inet_checksum_def tc)
  have "word_sum (be_list 2 c) = c" using word_sum_be_list [of c "[]"] by (simp add: tc)
  then have "word_sum (xs @ be_list 2 c @ ys) = t + c"
    using assms by (simp add: word_sum_append tc(1))
  then show ?thesis unfolding i using ones_fold_complement [of t] by (simp add: inet_checksum_def tc)
qed

section \<open>Properties\<close>

lemma and_ffff_not: "NOT s AND 0xffff = 0xffff - (s AND 0xffff)" for s :: jint
proof -
  have "unat (s AND 0xffff) < 65536" by (simp only: unat_and_ffff)
  then have "NOT (s AND 0xffff) AND 0xffff = of_nat (65535 - unat (s AND 0xffff))" by (rule not_and_ffff)
  also have "NOT (s AND 0xffff) AND 0xffff = NOT s AND 0xffff"
    by (rule bit_word_eqI) (auto simp: bit_simps)
  also have "of_nat (65535 - unat (s AND 0xffff)) = 0xffff - (s AND 0xffff)"
  proof (subst of_nat_diff)
    show "unat (s AND 0xffff) \<le> 65535"
      unfolding unat_and_ffff using mod_less_divisor [of 65536 "unat s"] by linarith
  qed simp
  finally show ?thesis .
qed

lemma calcHighLow_negative:
  assumes "w < 65536" shows "calcHighLow (word_of_int (int w - 65536)) = of_nat (65535 - w)"
proof -
  let ?s = "word_of_int (int w - 65536) :: jint"
  have "(- 65536 :: jint) = of_nat (2 ^ 32 - 65536)" by simp
  then have "?s = of_nat (2 ^ 32 - 65536 + w)" by simp
  then have u: "unat ?s = 2 ^ 32 - 65536 + w" using assms by (simp only: unat_of_nat) simp
  then have "\<not> 0 < sint (sar32 ?s 16)" by (simp only: sar32_16_pos) simp
  moreover have "?s AND 0xffff = of_nat w"
  proof (rule unsigned_word_eqI [where 'a = nat])
    show "unat (?s AND 0xffff) = unat (of_nat w :: jint)"
      unfolding unat_and_ffff u using assms by (simp add: unat_of_nat mod_add_eq [symmetric, of "4294901760"])
  qed
  ultimately show ?thesis
    using assms by (subst calcHighLow.simps) (simp only: if_False and_ffff_not, simp add: of_nat_diff)
qed

text \<open>
  C25: The checksum of a buffer with at most 65535 readable bytes is the Internet checksum (the
  complement of the ones' complement sum of its 16-bit words), and the buffer is afterwards as
  before; this holds when the length is even or the last byte is below 128. Otherwise the last
  byte is added as a negative number: the result is the checksum of a sum that is 65536
  smaller, which differs when the sum does not fit 16 bits.
\<close>

theorem calcIp_correct:
  assumes "netty_buf N content marked after sliced rpos mpos" and "length (content b) \<le> 65535"
  shows "\<exists>b'. content b' = content b \<and>
    calcIp N b = Some (Inr (of_nat (if regular_bytes (content b) \<or> word_sum (content b) < 65536
                                  then inet_checksum (content b)
                                  else 65535 - ones_fold (word_sum (content b) - 65536)), b'))"
proof -
  define w where "w = word_sum (content b)"
  obtain b' where b': "calcIp N b = Some (Inr (calcHighLow (word_of_int (java_sum (content b))), b'))"
    "content b' = content b"
    using netty_buf.calcIp_run [OF assms(1)] by blast
  have "w < 2 ^ 31" unfolding w_def using assms(2) by (rule word_sum_small)
  consider (regular) "regular_bytes (content b)"
    | (small) "\<not> regular_bytes (content b)" "w < 65536"
    | (big) "\<not> regular_bytes (content b)" "65536 \<le> w" by linarith
  then have "calcHighLow (word_of_int (java_sum (content b))) =
    of_nat (if regular_bytes (content b) \<or> w < 65536 then inet_checksum (content b)
            else 65535 - ones_fold (w - 65536))"
  proof cases
    case regular
    then show ?thesis using calcHighLow_regular [OF assms(2)] by simp
  next
    case small
    then show ?thesis
      by (simp add: java_sum_word_sum w_def [symmetric] calcHighLow_negative [simplified]
          inet_checksum_def ones_fold_small)
  next
    case big
    then have "int w - 65536 = int (w - 65536)" by simp
    moreover have "unat (of_nat (w - 65536) :: jint) = w - 65536"
      using \<open>w < 2 ^ 31\<close> by (simp add: unat_of_nat)
    ultimately show ?thesis
      using big calcHighLow_fold [of "of_nat (w - 65536)"] \<open>w < 2 ^ 31\<close>
      by (simp add: java_sum_word_sum w_def [symmetric] del: of_nat_diff)
  qed
  with b' show ?thesis by (auto simp: w_def)
qed

theorem calcIp_correct_witness:
  "(\<exists>b. calcIp list_netty (of_bytes [0x45, 0, 0, 20]) = Some (Inr (0xbaeb, b))) \<and>
   (\<exists>b. calcIp list_netty (of_bytes [0xff, 0xff, 0x80]) = Some (Inr (0x8000, b))) \<and>
   inet_checksum [0xff, 0xff, 0x80] = 0x7fff"
  using calcIp_correct [OF lbuf.netty_buf_axioms, of "of_bytes [0x45, 0, 0, 20]"]
    calcIp_correct [OF lbuf.netty_buf_axioms, of "of_bytes [0xff, 0xff, 0x80]"]
  by (auto simp: of_bytes_def regular_bytes_def inet_checksum_def ones_fold_def)

end
