(* ===== verification/IpPackets.thy ===== *)
theory IpPackets
  imports IPAddr CheckSum
begin

text \<open>
  The packet codecs of sdwan-tun: Ipv4Packet, UdpPacket, TcpPacket, IcmpPacket and
  EthernetPacket over the buffer interface. The Java fields are ints, shorts and longs and keep
  their width; a setter or getter is the record's field. The payload accessors of IPv4, UDP and
  TCP mark and reset the reader index. Encoding an IPv4 packet with a TCP or UDP payload
  rewrites the payload buffer with the re-encoded transport packet.
\<close>

definition res_opt :: "'a res option \<Rightarrow> ('a \<Rightarrow> 'c res option) \<Rightarrow> 'c res option" where
  "res_opt m f = (case m of None \<Rightarrow> None | Some (Inl e) \<Rightarrow> Some (Inl e) | Some (Inr x) \<Rightarrow> f x)"

definition Icmp :: jint where "Icmp = 1"
definition Tcp :: jint where "Tcp = 6"
definition Udp :: jint where "Udp = 17"

section \<open>IPv4\<close>

record 'b Ipv4Packet =
  v4_version :: jint
  v4_headerLen :: jint
  v4_diffServices :: jint
  v4_totalLen :: jint
  v4_identifier :: jint
  v4_flags :: jint
  v4_liveTime :: jint
  v4_protocol :: jint
  v4_checksum :: jint
  v4_srcIP :: string
  v4_dstIP :: string
  v4_payload :: 'b

definition v4_getPayload :: "'b netty \<Rightarrow> 'b Ipv4Packet \<Rightarrow> 'b" where
  "v4_getPayload N p = nb_resetReader N (v4_payload p)"

definition Ipv4Packet_decode :: "'b netty \<Rightarrow> 'b \<Rightarrow> ('b Ipv4Packet \<times> 'b) res" where
  "Ipv4Packet_decode N b =
     bindR (nb_readUnsignedByte N b) (\<lambda>(head, b).
     let version = sar32 head 4; headLen = (head AND 15) * 4 in
     bindR (nb_readUnsignedByte N b) (\<lambda>(diffServices, b).
     bindR (nb_readUnsignedShort N b) (\<lambda>(totalLen, b).
     bindR (nb_readUnsignedShort N b) (\<lambda>(identifier, b).
     bindR (nb_readUnsignedShort N b) (\<lambda>(flags, b).
     bindR (nb_readUnsignedByte N b) (\<lambda>(liveTime, b).
     bindR (nb_readUnsignedByte N b) (\<lambda>(protocol, b).
     bindR (nb_readUnsignedShort N b) (\<lambda>(checksum, b).
     bindR (nb_readBytes N 4 b) (\<lambda>(srcIPBytes, b).
     bindR (nb_readBytes N 4 b) (\<lambda>(dstIPBytes, b).
     bindR (nb_readSlice N (int (nb_readableBytes N b)) b) (\<lambda>(payload, b).
     bindR (bytes2ip srcIPBytes) (\<lambda>srcIP. bindR (bytes2ip dstIPBytes) (\<lambda>dstIP.
       Inr (\<lparr> v4_version = version, v4_headerLen = headLen, v4_diffServices = diffServices,
              v4_totalLen = totalLen, v4_identifier = identifier, v4_flags = flags,
              v4_liveTime = liveTime, v4_protocol = protocol, v4_checksum = checksum,
              v4_srcIP = srcIP, v4_dstIP = dstIP, v4_payload = nb_markReader N payload \<rparr>, b))))))))))))))"

definition Ipv4Packet_decodeMark :: "'b netty \<Rightarrow> 'b \<Rightarrow> ('b Ipv4Packet \<times> 'b) res" where
  "Ipv4Packet_decodeMark N b =
     bindR (Ipv4Packet_decode N (nb_markReader N b)) (\<lambda>(p, b). Inr (p, nb_resetReader N b))"

text \<open>The twenty header bytes, with the checksum word given.\<close>

definition v4_header :: "'b netty \<Rightarrow> 'b Ipv4Packet \<Rightarrow> jint \<Rightarrow> 'b res" where
  "v4_header N p checksum =
     (let head = push_bit 4 (v4_version p) OR word_of_int (sint (v4_headerLen p) div 4);
          b = nb_writeByte N head (nb_new N);
          b = nb_writeByte N (v4_diffServices p) b;
          b = nb_writeShort N (v4_totalLen p) b;
          b = nb_writeShort N (v4_identifier p) b;
          b = nb_writeShort N (v4_flags p) b;
          b = nb_writeByte N (v4_liveTime p) b;
          b = nb_writeByte N (v4_protocol p) b;
          b = nb_writeShort N checksum b
      in bindR (ip2bytes (v4_srcIP p)) (\<lambda>s. let b = nb_writeBytes N s b in
         bindR (ip2bytes (v4_dstIP p)) (\<lambda>d. Inr (nb_writeBytes N d b))))"

definition v4_calcChecksum :: "'b netty \<Rightarrow> 'b Ipv4Packet \<Rightarrow> jint res option" where
  "v4_calcChecksum N p =
     (case v4_header N p 0 of
        Inl e \<Rightarrow> Some (Inl e)
      | Inr b \<Rightarrow> res_opt (calcIp N b) (\<lambda>(s, b). Some (Inr s)))"

text \<open>The pseudo header of the transport checksums.\<close>

definition pseudo_header :: "'b netty \<Rightarrow> string \<Rightarrow> string \<Rightarrow> jint \<Rightarrow> nat \<Rightarrow> 'b res" where
  "pseudo_header N srcIP dstIP protocol len =
     bindR (ip2bytes srcIP) (\<lambda>s. let b = nb_writeBytes N s (nb_new N) in
     bindR (ip2bytes dstIP) (\<lambda>d.
       let b = nb_writeBytes N d b;
           b = nb_writeByte N 0 b;
           b = nb_writeByte N protocol b
       in Inr (nb_writeShort N (of_nat len) b)))"

text \<open>The sum over the pseudo header and a segment, folded.\<close>

definition transport_checksum :: "'b netty \<Rightarrow> 'b res \<Rightarrow> 'b \<Rightarrow> jint res option" where
  "transport_checksum N header segment =
     (case header of
        Inl e \<Rightarrow> Some (Inl e)
      | Inr hb \<Rightarrow>
          res_opt (calcTcpUdp N hb) (\<lambda>(s1, b).
          res_opt (calcTcpUdp N segment) (\<lambda>(s2, b). Some (Inr (calcHighLow (s1 + s2))))))"

section \<open>UDP\<close>

record 'b UdpPacket =
  udp_srcPort :: jint
  udp_dstPort :: jint
  udp_len :: jint
  udp_checksum :: jint
  udp_payload :: 'b

definition udp_getPayload :: "'b netty \<Rightarrow> 'b UdpPacket \<Rightarrow> 'b" where
  "udp_getPayload N p = nb_resetReader N (udp_payload p)"

definition UdpPacket_decode :: "'b netty \<Rightarrow> 'b \<Rightarrow> ('b UdpPacket \<times> 'b) res" where
  "UdpPacket_decode N b =
     bindR (nb_readUnsignedShort N b) (\<lambda>(srcPort, b). bindR (nb_readUnsignedShort N b) (\<lambda>(dstPort, b).
     bindR (nb_readUnsignedShort N b) (\<lambda>(len, b). bindR (nb_readUnsignedShort N b) (\<lambda>(checksum, b).
     bindR (nb_readSlice N (sint len - 8) b) (\<lambda>(payload, b).
       Inr (\<lparr> udp_srcPort = srcPort, udp_dstPort = dstPort, udp_len = len, udp_checksum = checksum,
              udp_payload = nb_markReader N payload \<rparr>, b))))))"

definition UdpPacket_decodeMark :: "'b netty \<Rightarrow> 'b \<Rightarrow> ('b UdpPacket \<times> 'b) res" where
  "UdpPacket_decodeMark N b =
     bindR (UdpPacket_decode N (nb_markReader N b)) (\<lambda>(p, b). Inr (p, nb_resetReader N b))"

definition udp_segment :: "'b netty \<Rightarrow> 'b UdpPacket \<Rightarrow> jint \<Rightarrow> 'b" where
  "udp_segment N p checksum =
     (let b = nb_writeShort N (udp_srcPort p) (nb_new N);
          b = nb_writeShort N (udp_dstPort p) b;
          b = nb_writeShort N (udp_len p) b;
          b = nb_writeShort N checksum b
      in snd (nb_writeBuf N (udp_getPayload N p) b))"

definition udp_calcChecksum :: "'b netty \<Rightarrow> 'b UdpPacket \<Rightarrow> 'b Ipv4Packet \<Rightarrow> jint res option" where
  "udp_calcChecksum N p ip =
     transport_checksum N
       (pseudo_header N (v4_srcIP ip) (v4_dstIP ip) (v4_protocol ip)
          (nb_readableBytes N (v4_getPayload N ip)))
       (udp_segment N p 0)"

definition UdpPacket_encode ::
    "'b netty \<Rightarrow> 'b UdpPacket \<Rightarrow> 'b Ipv4Packet \<Rightarrow> bool \<Rightarrow> ('b UdpPacket \<times> 'b) res option" where
  "UdpPacket_encode N p ip check =
     res_opt (udp_calcChecksum N p ip) (\<lambda>calcChecksum.
       if check \<and> calcChecksum \<noteq> udp_checksum p then Some (Inl IllegalArgumentException)
       else let p' = p\<lparr> udp_checksum := calcChecksum \<rparr>
            in Some (Inr (p', udp_segment N p' calcChecksum)))"

section \<open>TCP\<close>

record 'b TcpPacket =
  tcp_srcPort :: jint
  tcp_dstPort :: jint
  tcp_seq :: jlong
  tcp_ack :: jlong
  tcp_flags :: jint
  tcp_headLen :: jint
  tcp_reservedFlag :: jint
  tcp_accurateECNFlag :: jint
  tcp_echoFlag :: jint
  tcp_urgFlag :: jint
  tcp_ackFlag :: jint
  tcp_pshFlag :: jint
  tcp_rstFlag :: jint
  tcp_synFlag :: jint
  tcp_finFlag :: jint
  tcp_window :: jint
  tcp_checksum :: jint
  tcp_urgentPointer :: jint
  tcp_options :: 'b
  tcp_payload :: 'b

definition tcp_getPayload :: "'b netty \<Rightarrow> 'b TcpPacket \<Rightarrow> 'b" where
  "tcp_getPayload N p = nb_resetReader N (tcp_payload p)"

definition tcp_getOptions :: "'b netty \<Rightarrow> 'b TcpPacket \<Rightarrow> 'b" where
  "tcp_getOptions N p = nb_resetReader N (tcp_options p)"

definition TcpPacket_decode :: "'b netty \<Rightarrow> 'b \<Rightarrow> ('b TcpPacket \<times> 'b) res" where
  "TcpPacket_decode N b =
     bindR (nb_readUnsignedShort N b) (\<lambda>(srcPort, b). bindR (nb_readUnsignedShort N b) (\<lambda>(dstPort, b).
     bindR (nb_readUnsignedInt N b) (\<lambda>(seq, b). bindR (nb_readUnsignedInt N b) (\<lambda>(ack, b).
     bindR (nb_readUnsignedShort N b) (\<lambda>(flags, b).
     let tcpHeadLen = sar32 (flags AND 0xf000) 12 * 4 in
     bindR (nb_readUnsignedShort N b) (\<lambda>(window, b). bindR (nb_readUnsignedShort N b) (\<lambda>(checksum, b).
     bindR (nb_readUnsignedShort N b) (\<lambda>(urgentPointer, b).
     bindR (nb_readSlice N (sint (tcpHeadLen - 20)) b) (\<lambda>(options, b).
     bindR (nb_readSlice N (int (nb_readableBytes N b)) b) (\<lambda>(payload, b).
       Inr (\<lparr> tcp_srcPort = srcPort, tcp_dstPort = dstPort, tcp_seq = seq, tcp_ack = ack,
              tcp_flags = flags, tcp_headLen = tcpHeadLen,
              tcp_reservedFlag = sar32 (flags AND 0x0100) 8,
              tcp_accurateECNFlag = sar32 (flags AND 0x0080) 7,
              tcp_echoFlag = sar32 (flags AND 0x0040) 6,
              tcp_urgFlag = sar32 (flags AND 0x0020) 5,
              tcp_ackFlag = sar32 (flags AND 0x0010) 4,
              tcp_pshFlag = sar32 (flags AND 0x0008) 3,
              tcp_rstFlag = sar32 (flags AND 0x0004) 2,
              tcp_synFlag = sar32 (flags AND 0x0002) 1,
              tcp_finFlag = sar32 (flags AND 0x0001) 0,
              tcp_window = window, tcp_checksum = checksum, tcp_urgentPointer = urgentPointer,
              tcp_options = nb_markReader N options, tcp_payload = nb_markReader N payload \<rparr>, b)))))))))))"

definition TcpPacket_decodeMark :: "'b netty \<Rightarrow> 'b \<Rightarrow> ('b TcpPacket \<times> 'b) res" where
  "TcpPacket_decodeMark N b =
     bindR (TcpPacket_decode N (nb_markReader N b)) (\<lambda>(p, b). Inr (p, nb_resetReader N b))"

definition tcp_segment :: "'b netty \<Rightarrow> 'b TcpPacket \<Rightarrow> jint \<Rightarrow> 'b" where
  "tcp_segment N p checksum =
     (let b = nb_writeShort N (tcp_srcPort p) (nb_new N);
          b = nb_writeShort N (tcp_dstPort p) b;
          b = nb_writeInt N (ucast (tcp_seq p)) b;
          b = nb_writeInt N (ucast (tcp_ack p)) b;
          b = nb_writeShort N (tcp_flags p) b;
          b = nb_writeShort N (tcp_window p) b;
          b = nb_writeShort N checksum b;
          b = nb_writeShort N (tcp_urgentPointer p) b;
          b = snd (nb_writeBuf N (tcp_getOptions N p) b)
      in snd (nb_writeBuf N (tcp_getPayload N p) b))"

definition tcp_calcChecksum :: "'b netty \<Rightarrow> 'b TcpPacket \<Rightarrow> 'b Ipv4Packet \<Rightarrow> jint res option" where
  "tcp_calcChecksum N p ip =
     transport_checksum N
       (pseudo_header N (v4_srcIP ip) (v4_dstIP ip) (v4_protocol ip)
          (nb_readableBytes N (v4_getPayload N ip)))
       (tcp_segment N p 0)"

definition TcpPacket_encode ::
    "'b netty \<Rightarrow> 'b TcpPacket \<Rightarrow> 'b Ipv4Packet \<Rightarrow> bool \<Rightarrow> bool \<Rightarrow> ('b TcpPacket \<times> 'b) res option" where
  "TcpPacket_encode N p ip calc check =
     res_opt (if calc then tcp_calcChecksum N p ip else Some (Inr (tcp_checksum p))) (\<lambda>calcChecksum.
       if calc \<and> check \<and> calcChecksum \<noteq> tcp_checksum p then Some (Inl IllegalArgumentException)
       else let p' = p\<lparr> tcp_checksum := calcChecksum \<rparr>
            in Some (Inr (p', tcp_segment N p' calcChecksum)))"

section \<open>Encoding IPv4 with its payload\<close>

text \<open>
  The payload of a TCP or UDP packet is decoded, encoded again with its checksum and written
  over itself; another payload stays. The result is the payload buffer.
\<close>

definition reencode_payload :: "'b netty \<Rightarrow> 'b Ipv4Packet \<Rightarrow> 'b res option" where
  "reencode_payload N p =
     (if v4_protocol p = Tcp then
        (case TcpPacket_decodeMark N (v4_getPayload N p) of
           Inl e \<Rightarrow> Some (Inl e)
         | Inr (packet, pl) \<Rightarrow>
             res_opt (TcpPacket_encode N packet (p\<lparr> v4_payload := pl \<rparr>) True False) (\<lambda>(packet, enc).
               Some (nb_overwrite N enc pl)))
      else if v4_protocol p = Udp then
        (case UdpPacket_decodeMark N (v4_getPayload N p) of
           Inl e \<Rightarrow> Some (Inl e)
         | Inr (packet, pl) \<Rightarrow>
             res_opt (UdpPacket_encode N packet (p\<lparr> v4_payload := pl \<rparr>) False) (\<lambda>(packet, enc).
               Some (nb_overwrite N enc pl)))
      else Some (Inr (v4_payload p)))"

definition Ipv4Packet_encode ::
    "'b netty \<Rightarrow> 'b Ipv4Packet \<Rightarrow> bool \<Rightarrow> bool \<Rightarrow> ('b Ipv4Packet \<times> 'b) res option" where
  "Ipv4Packet_encode N p calc check =
     (let p = p\<lparr> v4_headerLen := 20 \<rparr>;
          p = p\<lparr> v4_totalLen := v4_headerLen p + of_nat (nb_readableBytes N (v4_payload p)) \<rparr>
      in res_opt (if calc then v4_calcChecksum N p else Some (Inr (v4_checksum p))) (\<lambda>calcChecksum.
         if calc \<and> check \<and> calcChecksum \<noteq> v4_checksum p then Some (Inl IllegalArgumentException)
         else let p = p\<lparr> v4_checksum := calcChecksum \<rparr>
              in case v4_header N p calcChecksum of
                   Inl e \<Rightarrow> Some (Inl e)
                 | Inr b \<Rightarrow>
                     res_opt (reencode_payload N p) (\<lambda>pl.
                       let w = nb_writeBuf N (nb_resetReader N pl) b
                       in Some (Inr (p\<lparr> v4_payload := fst w \<rparr>, snd w)))))"

section \<open>ICMP\<close>

record 'b IcmpPacket =
  icmp_type :: jbyte
  icmp_code :: jbyte
  icmp_checksum :: jint
  icmp_identifier :: jint
  icmp_sequence :: jint
  icmp_timestamp :: jlong
  icmp_payload :: 'b

definition IcmpPacket_decode :: "'b netty \<Rightarrow> 'b \<Rightarrow> ('b IcmpPacket \<times> 'b) res" where
  "IcmpPacket_decode N b =
     bindR (nb_readByte N b) (\<lambda>(typ, b). bindR (nb_readByte N b) (\<lambda>(code, b).
     bindR (nb_readUnsignedShort N b) (\<lambda>(checksum, b).
     bindR (nb_readUnsignedShort N b) (\<lambda>(identifier, b).
     bindR (nb_readUnsignedShort N b) (\<lambda>(sequence, b).
     bindR (nb_readLong N b) (\<lambda>(timestamp, b).
     bindR (nb_readSlice N (int (nb_readableBytes N b)) b) (\<lambda>(payload, b).
       Inr (\<lparr> icmp_type = typ, icmp_code = code, icmp_checksum = checksum,
              icmp_identifier = identifier, icmp_sequence = sequence, icmp_timestamp = timestamp,
              icmp_payload = payload \<rparr>, b))))))))"

definition IcmpPacket_decodeMark :: "'b netty \<Rightarrow> 'b \<Rightarrow> ('b IcmpPacket \<times> 'b) res" where
  "IcmpPacket_decodeMark N b =
     bindR (IcmpPacket_decode N (nb_markReader N b)) (\<lambda>(p, b). Inr (p, nb_resetReader N b))"

definition icmp_header :: "'b netty \<Rightarrow> 'b IcmpPacket \<Rightarrow> jint \<Rightarrow> 'b" where
  "icmp_header N p checksum =
     (let b = nb_writeByte N (word_of_int (sint (icmp_type p))) (nb_new N);
          b = nb_writeByte N (word_of_int (sint (icmp_code p))) b;
          b = nb_writeShort N checksum b;
          b = nb_writeShort N (icmp_identifier p) b;
          b = nb_writeShort N (icmp_sequence p) b
      in nb_writeLong N (icmp_timestamp p) b)"

text \<open>The checksum, and the payload with its reader index reset.\<close>

definition icmp_calcChecksum :: "'b netty \<Rightarrow> 'b IcmpPacket \<Rightarrow> (jint \<times> 'b) res option" where
  "icmp_calcChecksum N p =
     (let pl = nb_markReader N (icmp_payload p);
          w = nb_writeBuf N pl (icmp_header N p 0);
          pl = nb_resetReader N (fst w)
      in res_opt (calcTcpUdp N (snd w)) (\<lambda>(s, b). Some (Inr (calcHighLow s, pl))))"

definition IcmpPacket_encode ::
    "'b netty \<Rightarrow> 'b IcmpPacket \<Rightarrow> bool \<Rightarrow> bool \<Rightarrow> ('b IcmpPacket \<times> 'b) res option" where
  "IcmpPacket_encode N p calc check =
     res_opt (if calc then icmp_calcChecksum N p else Some (Inr (0, icmp_payload p))) (\<lambda>(calcChecksum, pl).
       if calc \<and> check \<and> calcChecksum \<noteq> icmp_checksum p then Some (Inl IllegalArgumentException)
       else let p = p\<lparr> icmp_checksum := calcChecksum \<rparr>;
                w = nb_writeBuf N pl (icmp_header N p calcChecksum)
            in Some (Inr (p\<lparr> icmp_payload := fst w \<rparr>, snd w)))"

section \<open>Ethernet\<close>

record 'b EthernetPacket =
  eth_srcAddr :: string
  eth_dstAddr :: string
  eth_protocol :: jint
  eth_payload :: 'b

definition hex_char :: "nat \<Rightarrow> char" where
  "hex_char n = (if n < 10 then digit_char n else char_of (87 + n))"

definition hex_value :: "char \<Rightarrow> nat option" where
  "hex_value c =
     (let n = of_char c in
      if is_digit c then Some (n - 48)
      else if 97 \<le> n \<and> n \<le> (102 :: nat) then Some (n - 87)
      else if 65 \<le> n \<and> n \<le> (70 :: nat) then Some (n - 55) else None)"

fun hex_digits :: "nat \<Rightarrow> string \<Rightarrow> nat option" where
  "hex_digits a [] = Some a"
| "hex_digits a (c # cs) =
     (case hex_value c of None \<Rightarrow> None | Some d \<Rightarrow> hex_digits (16 * a + d) cs)"

text \<open>\<open>(byte) Integer.parseInt(sp, 16)\<close>.\<close>

definition parse_hex_byte :: "string \<Rightarrow> jbyte res" where
  "parse_hex_byte s =
     (case s of
        [] \<Rightarrow> Inl NumberFormatException
      | c # cs \<Rightarrow>
          (let ds = (if c = CHR ''-'' \<or> c = CHR ''+'' then cs else s)
           in if ds = [] then Inl NumberFormatException
              else case hex_digits 0 ds of
                     None \<Rightarrow> Inl NumberFormatException
                   | Some n \<Rightarrow>
                       (let v = (if c = CHR ''-'' then - int n else int n)
                        in if - (2 ^ 31) \<le> v \<and> v < 2 ^ 31 then Inr (word_of_int v)
                           else Inl NumberFormatException)))"

definition show_hex2 :: "jbyte \<Rightarrow> string" where
  "show_hex2 b = [hex_char (unat b div 16), hex_char (unat b mod 16)]"

definition encodeAddr :: "string \<Rightarrow> jbyte list res" where
  "encodeAddr addr = mapR parse_hex_byte (java_split CHR '':'' addr)"

definition parseAddr :: "'b netty \<Rightarrow> 'b \<Rightarrow> (string \<times> 'b) res" where
  "parseAddr N b =
     bindR (nb_readByte N b) (\<lambda>(b1, b). bindR (nb_readByte N b) (\<lambda>(b2, b).
     bindR (nb_readByte N b) (\<lambda>(b3, b). bindR (nb_readByte N b) (\<lambda>(b4, b).
     bindR (nb_readByte N b) (\<lambda>(b5, b). bindR (nb_readByte N b) (\<lambda>(b6, b).
       Inr (show_hex2 b1 @ '':'' @ show_hex2 b2 @ '':'' @ show_hex2 b3 @ '':'' @
            show_hex2 b4 @ '':'' @ show_hex2 b5 @ '':'' @ show_hex2 b6, b)))))))"

definition EthernetPacket_decode :: "'b netty \<Rightarrow> 'b \<Rightarrow> ('b EthernetPacket \<times> 'b) res" where
  "EthernetPacket_decode N b =
     bindR (parseAddr N b) (\<lambda>(dstAddr, b). bindR (parseAddr N b) (\<lambda>(srcAddr, b).
     bindR (nb_readUnsignedShort N b) (\<lambda>(protocol, b).
     bindR (nb_readSlice N (int (nb_readableBytes N b)) b) (\<lambda>(payload, b).
       Inr (\<lparr> eth_srcAddr = srcAddr, eth_dstAddr = dstAddr, eth_protocol = protocol,
              eth_payload = payload \<rparr>, b)))))"

definition EthernetPacket_encode :: "'b netty \<Rightarrow> 'b EthernetPacket \<Rightarrow> ('b EthernetPacket \<times> 'b) res" where
  "EthernetPacket_encode N p =
     bindR (encodeAddr (eth_dstAddr p)) (\<lambda>d. let b = nb_writeBytes N d (nb_new N) in
     bindR (encodeAddr (eth_srcAddr p)) (\<lambda>s.
       let b = nb_writeBytes N s b;
           b = nb_writeShort N (eth_protocol p) b;
           w = nb_writeBuf N (eth_payload p) b
       in Inr (p\<lparr> eth_payload := fst w \<rparr>, snd w)))"

lemma res_opt_Inr [simp]: "res_opt (Some (Inr x)) f = f x"
  by (simp add: res_opt_def)

lemma res_opt_Inl [simp]: "res_opt (Some (Inl e)) f = Some (Inl e)"
  by (simp add: res_opt_def)

section \<open>Wire formats\<close>

definition v4_wire :: "'b Ipv4Packet \<Rightarrow> jbyte list \<Rightarrow> jbyte list \<Rightarrow> nat \<Rightarrow> jbyte list" where
  "v4_wire p s d ck =
     be_list 1 (unat (push_bit 4 (v4_version p) OR word_of_int (sint (v4_headerLen p) div 4))) @
     be_list 1 (unat (v4_diffServices p)) @ be_list 2 (unat (v4_totalLen p)) @
     be_list 2 (unat (v4_identifier p)) @ be_list 2 (unat (v4_flags p)) @
     be_list 1 (unat (v4_liveTime p)) @ be_list 1 (unat (v4_protocol p)) @ be_list 2 ck @ s @ d"

definition pseudo_wire :: "jbyte list \<Rightarrow> jbyte list \<Rightarrow> jint \<Rightarrow> nat \<Rightarrow> jbyte list" where
  "pseudo_wire s d protocol len = s @ d @ [0] @ be_list 1 (unat protocol) @ be_list 2 len"

definition udp_wire :: "'b UdpPacket \<Rightarrow> jbyte list \<Rightarrow> nat \<Rightarrow> jbyte list" where
  "udp_wire p pl ck =
     (be_list 2 (unat (udp_srcPort p)) @ be_list 2 (unat (udp_dstPort p)) @ be_list 2 (unat (udp_len p)))
     @ be_list 2 ck @ pl"

definition tcp_head :: "'b TcpPacket \<Rightarrow> jbyte list" where
  "tcp_head p =
     be_list 2 (unat (tcp_srcPort p)) @ be_list 2 (unat (tcp_dstPort p)) @
     be_list 4 (unat (ucast (tcp_seq p) :: jint)) @ be_list 4 (unat (ucast (tcp_ack p) :: jint)) @
     be_list 2 (unat (tcp_flags p)) @ be_list 2 (unat (tcp_window p))"

definition tcp_wire :: "'b TcpPacket \<Rightarrow> jbyte list \<Rightarrow> jbyte list \<Rightarrow> nat \<Rightarrow> jbyte list" where
  "tcp_wire p opts pl ck =
     tcp_head p @ be_list 2 ck @ be_list 2 (unat (tcp_urgentPointer p)) @ opts @ pl"

definition icmp_wire :: "'b IcmpPacket \<Rightarrow> jbyte list \<Rightarrow> nat \<Rightarrow> jbyte list" where
  "icmp_wire p pl ck =
     [icmp_type p, icmp_code p] @ be_list 2 ck @ be_list 2 (unat (icmp_identifier p)) @
     be_list 2 (unat (icmp_sequence p)) @ be_list 8 (unat (icmp_timestamp p)) @ pl"

definition v4_tail :: "'b Ipv4Packet \<Rightarrow> jbyte list" where
  "v4_tail p =
     be_list 1 (unat (v4_diffServices p)) @ be_list 2 (unat (v4_totalLen p)) @
     be_list 2 (unat (v4_identifier p)) @ be_list 2 (unat (v4_flags p)) @
     be_list 1 (unat (v4_liveTime p)) @ be_list 1 (unat (v4_protocol p))"

lemma length_tcp_head [simp]: "length (tcp_head p) = 16"
  by (simp add: tcp_head_def)

lemma inet_checksum_le: "inet_checksum bs \<le> 65535"
  by (simp add: inet_checksum_def)

lemma unat_inet_checksum [simp]: "unat (of_nat (inet_checksum bs) :: jint) = inet_checksum bs"
  using inet_checksum_le [of bs] by (simp add: unat_of_nat)

text \<open>Where a wire format has its checksum word, the inserted checksum verifies.\<close>

lemma zero_word: "be_list 2 0 = [0, 0]"
  by (simp add: be_list_Suc numeral_2_eq_2)

lemma verify_v4:
  assumes "length s = 4" "length d = 4"
  shows "inet_checksum (v4_wire p s d (inet_checksum (v4_wire p s d 0))) = 0"
  using checksum_inserted [of "be_list 1 (unat (push_bit 4 (v4_version p) OR word_of_int (sint (v4_headerLen p) div 4))) @ v4_tail p" "s @ d"]
  by (simp add: v4_wire_def v4_tail_def zero_word)

lemma verify_udp:
  assumes "length s = 4" "length d = 4"
  shows "inet_checksum (pseudo_wire s d pr n @ udp_wire p pl (inet_checksum (pseudo_wire s d pr n @ udp_wire p pl 0))) = 0"
  using checksum_inserted [of "pseudo_wire s d pr n @ be_list 2 (unat (udp_srcPort p)) @
      be_list 2 (unat (udp_dstPort p)) @ be_list 2 (unat (udp_len p))" pl] assms
  by (simp add: udp_wire_def pseudo_wire_def zero_word)

lemma verify_tcp:
  assumes "length s = 4" "length d = 4"
  shows "inet_checksum (pseudo_wire s d pr n @ tcp_wire p opts pl (inet_checksum (pseudo_wire s d pr n @ tcp_wire p opts pl 0))) = 0"
  using checksum_inserted [of "pseudo_wire s d pr n @ tcp_head p" "be_list 2 (unat (tcp_urgentPointer p)) @ opts @ pl"] assms
  by (simp add: tcp_wire_def pseudo_wire_def zero_word)

lemma verify_icmp: "inet_checksum (icmp_wire p pl (inet_checksum (icmp_wire p pl 0))) = 0"
  using checksum_inserted [of "[icmp_type p, icmp_code p]" "be_list 2 (unat (icmp_identifier p)) @
     be_list 2 (unat (icmp_sequence p)) @ be_list 8 (unat (icmp_timestamp p)) @ pl"]
  by (simp add: icmp_wire_def zero_word)

lemma regular_append: "even (length xs) \<Longrightarrow> regular_bytes (xs @ ys) \<longleftrightarrow> regular_bytes ys \<or> ys = []"
  by (cases "ys = []") (auto simp: regular_bytes_def)

lemma ucast_scast_byte [simp]: "ucast (scast v :: jint) = v" for v :: jbyte
proof (rule bit_word_eqI)
  fix n assume "n < LENGTH(8)"
  then have "n \<noteq> 7 \<Longrightarrow> n < 7" by simp
  then show "bit (ucast (scast v :: jint) :: jbyte) n = bit v n"
    using \<open>n < LENGTH(8)\<close> by (cases "n = 7") (auto simp: bit_simps min_def)
qed

lemma java_sum_append: "even (length xs) \<Longrightarrow> java_sum (xs @ ys) = java_sum xs + java_sum ys"
  by (induction xs rule: java_sum.induct) auto

section \<open>The writers produce the wire formats\<close>

context netty_buf
begin

lemma v4_header_run:
  assumes "ip2bytes (v4_srcIP p) = Inr s" and "ip2bytes (v4_dstIP p) = Inr d"
  shows "\<exists>b. v4_header N p ck = Inr b \<and> content b = v4_wire p s d (unat ck)"
  by (simp add: v4_header_def Let_def assms v4_wire_def)

lemma v4_calcChecksum_run:
  assumes "ip2bytes (v4_srcIP p) = Inr s" and "ip2bytes (v4_dstIP p) = Inr d"
    and "length s = 4" "length d = 4"
  shows "v4_calcChecksum N p = Some (Inr (of_nat (inet_checksum (v4_wire p s d 0))))"
proof -
  obtain b where b: "v4_header N p 0 = Inr b" "content b = v4_wire p s d 0"
    using v4_header_run [OF assms(1,2), of 0] by auto
  have l: "length (v4_wire p s d 0) = 20" by (simp add: v4_wire_def assms(3,4))
  obtain b' where "calcIp N b = Some (Inr (calcHighLow (word_of_int (java_sum (v4_wire p s d 0))), b'))"
    using calcIp_run [of b] b by auto
  moreover have "calcHighLow (word_of_int (java_sum (v4_wire p s d 0))) = of_nat (inet_checksum (v4_wire p s d 0))"
    by (rule calcHighLow_regular) (simp_all add: l regular_bytes_def)
  ultimately show ?thesis by (simp add: v4_calcChecksum_def b)
qed

lemma pseudo_header_run:
  assumes "ip2bytes src = Inr s" and "ip2bytes dst = Inr d" and "n < 65536"
  shows "\<exists>b. pseudo_header N src dst pr n = Inr b \<and> content b = pseudo_wire s d pr n"
proof -
  have "be_list 1 0 = [0]" by (simp add: be_list_Suc)
  moreover have "unat (of_nat n :: jint) = n" using assms(3) by (simp add: unat_of_nat)
  ultimately show ?thesis by (simp add: pseudo_header_def assms(1,2) Let_def pseudo_wire_def)
qed

lemma transport_checksum_run:
  assumes "header = Inr hb" and "even (length (content hb))"
    and "length (content hb @ content sg) \<le> 65535" and "regular_bytes (content sg)"
  shows "transport_checksum N header sg = Some (Inr (of_nat (inet_checksum (content hb @ content sg))))"
proof -
  obtain b1 b2 where "calcTcpUdp N hb = Some (Inr (word_of_int (java_sum (content hb)), b1))"
    "calcTcpUdp N sg = Some (Inr (word_of_int (java_sum (content sg)), b2))"
    using calcTcpUdp_run by blast
  moreover have "regular_bytes (content hb @ content sg)"
    using assms(2,4) by (simp add: regular_append)
  then have "calcHighLow (word_of_int (java_sum (content hb @ content sg)))
      = of_nat (inet_checksum (content hb @ content sg))"
    using assms(3) by (intro calcHighLow_regular)
  ultimately show ?thesis
    by (simp add: transport_checksum_def assms(1) java_sum_append [OF assms(2)])
qed

lemma udp_segment_run: "content (udp_segment N p ck) = udp_wire p (marked (udp_payload p)) (unat ck)"
  by (simp add: udp_segment_def Let_def udp_wire_def udp_getPayload_def)

lemma tcp_segment_run:
  "content (tcp_segment N p ck) = tcp_wire p (marked (tcp_options p)) (marked (tcp_payload p)) (unat ck)"
  by (simp add: tcp_segment_def Let_def tcp_wire_def tcp_head_def tcp_getPayload_def tcp_getOptions_def)

lemma icmp_header_run: "content (icmp_header N p ck) @ pl = icmp_wire p pl (unat ck)"
proof -
  have "be_list 1 (unat (word_of_int (sint v) :: jint)) = [v]" for v :: jbyte
  proof -
    have "(of_nat (unat (scast v :: jint)) :: jbyte) = v"
      by simp
    then show ?thesis by (simp add: be_list_Suc)
  qed
  then show ?thesis by (simp add: icmp_header_def Let_def icmp_wire_def)
qed

end

section \<open>The transport encoders\<close>

definition udp_ok :: "'b UdpPacket \<Rightarrow> bool" where
  "udp_ok p \<longleftrightarrow> unat (udp_srcPort p) < 65536 \<and> unat (udp_dstPort p) < 65536 \<and> unat (udp_len p) < 65536"

context netty_buf
begin

lemma UdpPacket_encode_run:
  assumes "ip2bytes (v4_srcIP ip) = Inr s" and "ip2bytes (v4_dstIP ip) = Inr d"
    and "length s = 4" "length d = 4"
    and "length (marked (v4_payload ip)) < 65536"
    and "length (marked (udp_payload p)) \<le> 65515" and "regular_bytes (marked (udp_payload p))"
  shows "\<exists>b. UdpPacket_encode N p ip False = Some (Inr (p\<lparr> udp_checksum :=
        of_nat (inet_checksum (pseudo_wire s d (v4_protocol ip) (length (marked (v4_payload ip))) @
          udp_wire p (marked (udp_payload p)) 0)) \<rparr>, b)) \<and>
    content b = udp_wire p (marked (udp_payload p))
      (inet_checksum (pseudo_wire s d (v4_protocol ip) (length (marked (v4_payload ip))) @
          udp_wire p (marked (udp_payload p)) 0))"
proof -
  let ?n = "length (marked (v4_payload ip))"
  let ?pw = "pseudo_wire s d (v4_protocol ip) ?n"
  let ?c = "inet_checksum (?pw @ udp_wire p (marked (udp_payload p)) 0)"
  obtain hb where hb: "pseudo_header N (v4_srcIP ip) (v4_dstIP ip) (v4_protocol ip) ?n = Inr hb"
    "content hb = ?pw" using pseudo_header_run [OF assms(1,2,5)] by blast
  have "regular_bytes (udp_wire p (marked (udp_payload p)) 0)"
    using assms(7) by (cases "marked (udp_payload p) = []")
      (simp_all add: udp_wire_def regular_append, simp add: regular_bytes_def)
  moreover have "length (?pw @ udp_wire p (marked (udp_payload p)) 0) \<le> 65535" "even (length ?pw)"
    using assms(3,4,6) by (simp_all add: pseudo_wire_def udp_wire_def)
  ultimately have "udp_calcChecksum N p ip = Some (Inr (of_nat ?c))"
    using transport_checksum_run [OF hb(1), of "udp_segment N p 0"]
    by (simp add: udp_calcChecksum_def v4_getPayload_def udp_segment_run hb)
  moreover have "content (udp_segment N (p\<lparr> udp_checksum := of_nat ?c \<rparr>) (of_nat ?c)) =
      udp_wire p (marked (udp_payload p)) ?c"
    unfolding udp_segment_run by (simp add: udp_wire_def)
  ultimately show ?thesis by (simp add: UdpPacket_encode_def Let_def)
qed

lemma TcpPacket_encode_run:
  assumes "ip2bytes (v4_srcIP ip) = Inr s" and "ip2bytes (v4_dstIP ip) = Inr d"
    and "length s = 4" "length d = 4"
    and "length (marked (v4_payload ip)) < 65536"
    and "length (marked (tcp_options p) @ marked (tcp_payload p)) \<le> 65500"
    and "regular_bytes (marked (tcp_options p) @ marked (tcp_payload p))"
  shows "\<exists>b. TcpPacket_encode N p ip True False = Some (Inr (p\<lparr> tcp_checksum :=
        of_nat (inet_checksum (pseudo_wire s d (v4_protocol ip) (length (marked (v4_payload ip))) @
          tcp_wire p (marked (tcp_options p)) (marked (tcp_payload p)) 0)) \<rparr>, b)) \<and>
    content b = tcp_wire p (marked (tcp_options p)) (marked (tcp_payload p))
      (inet_checksum (pseudo_wire s d (v4_protocol ip) (length (marked (v4_payload ip))) @
          tcp_wire p (marked (tcp_options p)) (marked (tcp_payload p)) 0))"
proof -
  let ?n = "length (marked (v4_payload ip))"
  let ?pw = "pseudo_wire s d (v4_protocol ip) ?n"
  let ?seg = "tcp_wire p (marked (tcp_options p)) (marked (tcp_payload p))"
  let ?c = "inet_checksum (?pw @ ?seg 0)"
  obtain hb where hb: "pseudo_header N (v4_srcIP ip) (v4_dstIP ip) (v4_protocol ip) ?n = Inr hb"
    "content hb = ?pw" using pseudo_header_run [OF assms(1,2,5)] by blast
  have "?seg 0 = (tcp_head p @ be_list 2 0 @ be_list 2 (unat (tcp_urgentPointer p))) @
      (marked (tcp_options p) @ marked (tcp_payload p))" by (simp add: tcp_wire_def)
  moreover have "even (length (tcp_head p @ be_list 2 0 @ be_list 2 (unat (tcp_urgentPointer p))))" by simp
  ultimately have "regular_bytes (?seg 0)" using assms(7) regular_append by metis
  moreover have "length (?pw @ ?seg 0) \<le> 65535" "even (length ?pw)"
    using assms(3,4,6) by (simp_all add: pseudo_wire_def tcp_wire_def)
  ultimately have "tcp_calcChecksum N p ip = Some (Inr (of_nat ?c))"
    using transport_checksum_run [OF hb(1), of "tcp_segment N p 0"]
    by (simp add: tcp_calcChecksum_def v4_getPayload_def tcp_segment_run hb)
  moreover have "content (tcp_segment N (p\<lparr> tcp_checksum := of_nat ?c \<rparr>) (of_nat ?c)) = ?seg ?c"
    unfolding tcp_segment_run by (simp add: tcp_wire_def tcp_head_def)
  ultimately show ?thesis by (simp add: TcpPacket_encode_def Let_def)
qed

lemma IcmpPacket_encode_run:
  assumes "length (content (icmp_payload p)) \<le> 65500" and "regular_bytes (content (icmp_payload p))"
  shows "\<exists>q b. IcmpPacket_encode N p True False = Some (Inr (q, b)) \<and>
    content b = icmp_wire p (content (icmp_payload p)) (inet_checksum (icmp_wire p (content (icmp_payload p)) 0))"
proof -
  let ?pl = "nb_markReader N (icmp_payload p)" and ?c = "content (icmp_payload p)"
  let ?w = "nb_writeBuf N ?pl (icmp_header N p 0)"
  have w: "content (snd ?w) = icmp_wire p ?c 0" using icmp_header_run [of p 0 ?c] by simp
  then obtain b1 where "calcTcpUdp N (snd ?w) = Some (Inr (word_of_int (java_sum (icmp_wire p ?c 0)), b1))"
    using calcTcpUdp_run [of "snd ?w"] by auto
  moreover have "calcHighLow (word_of_int (java_sum (icmp_wire p ?c 0))) = of_nat (inet_checksum (icmp_wire p ?c 0))"
  proof (rule calcHighLow_regular)
    show "length (icmp_wire p ?c 0) \<le> 65535" using assms(1) by (simp add: icmp_wire_def)
    have "icmp_wire p ?c 0 = ([icmp_type p, icmp_code p] @ be_list 2 0 @ be_list 2 (unat (icmp_identifier p)) @
     be_list 2 (unat (icmp_sequence p)) @ be_list 8 (unat (icmp_timestamp p))) @ ?c" by (simp add: icmp_wire_def)
    moreover have "even (length ([icmp_type p, icmp_code p] @ be_list 2 0 @ be_list 2 (unat (icmp_identifier p)) @
     be_list 2 (unat (icmp_sequence p)) @ be_list 8 (unat (icmp_timestamp p))))" by simp
    ultimately show "regular_bytes (icmp_wire p ?c 0)" using assms(2) regular_append by metis
  qed
  ultimately have c: "icmp_calcChecksum N p = Some (Inr (of_nat (inet_checksum (icmp_wire p ?c 0)),
      nb_resetReader N (fst ?w)))" by (simp add: icmp_calcChecksum_def Let_def)
  have "content (nb_resetReader N (fst ?w)) = ?c" by simp
  then show ?thesis
    using icmp_header_run [of "p\<lparr> icmp_checksum := of_nat (inet_checksum (icmp_wire p ?c 0)) \<rparr>"
        "of_nat (inet_checksum (icmp_wire p ?c 0))" ?c]
    by (simp add: IcmpPacket_encode_def c Let_def) (simp add: icmp_wire_def)
qed

end

section \<open>Decoding\<close>

definition v4_ok :: "'b Ipv4Packet \<Rightarrow> bool" where
  "v4_ok p \<longleftrightarrow> unat (v4_version p) < 16 \<and> v4_headerLen p = 20 \<and> unat (v4_diffServices p) < 256 \<and>
     unat (v4_totalLen p) < 65536 \<and> unat (v4_identifier p) < 65536 \<and> unat (v4_flags p) < 65536 \<and>
     unat (v4_liveTime p) < 256 \<and> unat (v4_protocol p) < 256"

lemma v4_head_byte:
  assumes "unat v < 16"
  shows "unat (push_bit 4 v OR 5 :: jint) = unat v * 16 + 5"
proof -
  have "take_bit 4 (5 :: jint) = 5" by simp
  then have "push_bit 4 v OR 5 = push_bit 4 v + (5 :: jint)" by (rule word_or_add)
  moreover have "unat (push_bit 4 v) = unat v * 16" using assms by (subst unat_push_bit_small) simp_all
  ultimately show ?thesis using assms by (simp add: unat_word_ariths)
qed

lemma sar32_small: "unat w < 2 ^ 31 \<Longrightarrow> k < 32 \<Longrightarrow> sar32 w (int k) = of_nat (unat w div 2 ^ k)"
proof -
  assume a: "unat w < 2 ^ 31" "k < 32"
  then have "signed_drop_bit k w = drop_bit k w" by (intro signed_drop_bit_small) simp
  moreover have "drop_bit k w = of_nat (unat w div 2 ^ k)"
    by (simp add: unat_drop_bit_div [symmetric])
  ultimately show ?thesis using a by (simp add: sar32_def nat_mod_distrib)
qed

definition tcp_flag_bits :: "'b TcpPacket \<Rightarrow> bool" where
  "tcp_flag_bits p \<longleftrightarrow>
     tcp_headLen p = sar32 (tcp_flags p AND 0xf000) 12 * 4 \<and>
     tcp_reservedFlag p = sar32 (tcp_flags p AND 0x0100) 8 \<and>
     tcp_accurateECNFlag p = sar32 (tcp_flags p AND 0x0080) 7 \<and>
     tcp_echoFlag p = sar32 (tcp_flags p AND 0x0040) 6 \<and>
     tcp_urgFlag p = sar32 (tcp_flags p AND 0x0020) 5 \<and>
     tcp_ackFlag p = sar32 (tcp_flags p AND 0x0010) 4 \<and>
     tcp_pshFlag p = sar32 (tcp_flags p AND 0x0008) 3 \<and>
     tcp_rstFlag p = sar32 (tcp_flags p AND 0x0004) 2 \<and>
     tcp_synFlag p = sar32 (tcp_flags p AND 0x0002) 1 \<and>
     tcp_finFlag p = sar32 (tcp_flags p AND 0x0001) 0"

definition tcp_ok :: "'b TcpPacket \<Rightarrow> nat \<Rightarrow> bool" where
  "tcp_ok p n \<longleftrightarrow> unat (tcp_srcPort p) < 65536 \<and> unat (tcp_dstPort p) < 65536 \<and>
     unat (tcp_seq p) < 2 ^ 32 \<and> unat (tcp_ack p) < 2 ^ 32 \<and> unat (tcp_flags p) < 65536 \<and>
     unat (tcp_window p) < 65536 \<and> unat (tcp_urgentPointer p) < 65536 \<and> tcp_flag_bits p \<and>
     sint (tcp_headLen p - 20) = int n"

context netty_buf
begin

lemma Ipv4Packet_decode_run:
  assumes "content b = v4_wire p s d ck @ pl" and "v4_ok p" and "ck < 65536"
    and "bytes2ip s = Inr src" and "bytes2ip d = Inr dst" and "length s = 4" "length d = 4"
  shows "\<exists>q b'. Ipv4Packet_decode N b = Inr (q, b') \<and>
    q = p\<lparr> v4_checksum := of_nat ck, v4_srcIP := src, v4_dstIP := dst, v4_payload := v4_payload q \<rparr> \<and>
    content (v4_payload q) = pl \<and> marked (v4_payload q) = pl \<and>
    rpos (v4_payload q) = 0 \<and> mpos (v4_payload q) = 0 \<and> marked b' = marked b"
proof -
  let ?h = "push_bit 4 (v4_version p) OR 5 :: jint"
  have h: "unat ?h = unat (v4_version p) * 16 + 5" "unat ?h < 256"
    using v4_head_byte [of "v4_version p"] assms(2) by (simp_all add: v4_ok_def)
  have hh: "of_nat (unat ?h mod 256) = ?h" using h(2) by simp
  have "sar32 ?h (int 4) = of_nat (unat ?h div 2 ^ 4)" using h by (intro sar32_small) simp_all
  then have hv: "sar32 ?h 4 = v4_version p" unfolding h by simp
  have "?h AND 15 = take_bit 4 ?h" by (simp add: take_bit_eq_mask mask_eq_exp_minus_1)
  then have "unat (?h AND 15) = unat ?h mod 16" by (simp only: unat_take_bit) simp
  then have "?h AND 15 = 5" unfolding h by (simp add: word_unat_eq_iff)
  then have hl: "(?h AND 15) * 4 = 20" by simp
  show ?thesis
    using assms(2-7)
    by (simp add: Ipv4Packet_decode_def readUnsignedByte readUnsignedShort readBytes readSlice
        assms(1) v4_wire_def be_val_be_list Let_def v4_ok_def hh hv hl)
qed

lemma UdpPacket_decode_run:
  assumes "content b = udp_wire p pl ck" and "udp_ok p" and "ck < 65536"
    and "unat (udp_len p) = length pl + 8"
  shows "\<exists>q b'. UdpPacket_decode N b = Inr (q, b') \<and>
    q = p\<lparr> udp_checksum := of_nat ck, udp_payload := udp_payload q \<rparr> \<and>
    marked (udp_payload q) = pl \<and> marked b' = marked b \<and> mpos b' = mpos b"
proof -
  have "sint (udp_len p) = int (length pl + 8)"
    using assms(2,4) by (subst sint_small) (simp_all only: udp_ok_def, simp_all)
  then show ?thesis
    using assms(2,3)
    by (simp add: UdpPacket_decode_def readUnsignedShort readSlice assms(1) udp_wire_def
        be_val_be_list udp_ok_def)
qed

lemma seq_word: "unat w < 2 ^ 32 \<Longrightarrow> of_nat (unat (ucast w :: jint) mod 4294967296) = w" for w :: jlong
proof -
  assume "unat w < 2 ^ 32"
  then have "unat (ucast w :: jint) = unat w" by (simp add: unsigned_ucast_eq take_bit_nat_eq_self)
  with \<open>unat w < 2 ^ 32\<close> show ?thesis by simp
qed

lemma TcpPacket_decode_run:
  assumes "content b = tcp_wire p opts pl ck" and "tcp_ok p (length opts)" and "ck < 65536"
  shows "\<exists>q b'. TcpPacket_decode N b = Inr (q, b') \<and>
    q = p\<lparr> tcp_checksum := of_nat ck, tcp_options := tcp_options q, tcp_payload := tcp_payload q \<rparr> \<and>
    marked (tcp_options q) = opts \<and> marked (tcp_payload q) = pl \<and> marked b' = marked b \<and> mpos b' = mpos b"
proof -
  have h: "sint (sar32 (tcp_flags p AND 0xf000) 12 * 4 - 20) = int (length opts)"
    using assms(2) by (auto simp: tcp_ok_def tcp_flag_bits_def)
  show ?thesis
    using assms(2,3)
    by (simp add: TcpPacket_decode_def readUnsignedShort readUnsignedInt readSlice assms(1) tcp_wire_def
        tcp_head_def be_val_be_list Let_def tcp_ok_def tcp_flag_bits_def seq_word h)
qed

lemma IcmpPacket_decode_run:
  assumes "content b = icmp_wire p pl ck" and "ck < 65536"
    and "unat (icmp_identifier p) < 65536" "unat (icmp_sequence p) < 65536"
  shows "\<exists>q b'. IcmpPacket_decode N b = Inr (q, b') \<and>
    q = p\<lparr> icmp_checksum := of_nat ck, icmp_payload := icmp_payload q \<rparr> \<and>
    content (icmp_payload q) = pl"
proof -
  have "unat (icmp_timestamp p) mod 18446744073709551616 = unat (icmp_timestamp p)"
    using unsigned_less [of "icmp_timestamp p", where 'a = nat] by simp
  then show ?thesis
    using assms(2-4)
    by (simp add: IcmpPacket_decode_def readByte readUnsignedShort readLong readSlice assms(1) icmp_wire_def
        be_val_be_list)
qed

end

section \<open>Segments as bytes\<close>

lemma split_be:
  "k \<le> length pl \<Longrightarrow> pl = be_list k (be_val (take k pl)) @ drop k pl"
  "k \<le> length pl \<Longrightarrow> be_val (take k pl) < 256 ^ k"
proof -
  assume k: "k \<le> length pl"
  then have "be_list k (be_val (take k pl)) = take k pl" using be_list_be_val [of "take k pl"] by simp
  then show "pl = be_list k (be_val (take k pl)) @ drop k pl" by simp
  show "be_val (take k pl) < 256 ^ k" using be_val_bound [of "take k pl"] k by simp
qed

lemma tcp_offset:
  assumes "unat f < 65536" shows "sar32 (f AND 0xf000) 12 = of_nat (unat f div 4096)"
proof -
  have e: "f AND 0xf000 = push_bit 12 (take_bit 4 (drop_bit 12 f))"
    using and_push_mask [of f 12 4] by (simp add: mask_eq_exp_minus_1 push_bit_eq_mult)
  have "signed_drop_bit 12 (f AND 0xf000) = take_bit 4 (drop_bit 12 f)"
    unfolding e by (rule bit_word_eqI) (auto simp: bit_simps min_def)
  also have "\<dots> = of_nat (unat f div 4096)"
  proof (rule unsigned_word_eqI [where 'a = nat])
    have "unat f div 4096 < 16" using assms by (simp add: less_mult_imp_div_less)
    moreover have "unat (take_bit 4 (drop_bit 12 f)) = unat f div 2 ^ 12 mod 2 ^ 4"
      by (simp only: unat_take_bit unat_drop_bit_div)
    ultimately show "unat (take_bit 4 (drop_bit 12 f)) = unat (of_nat (unat f div 4096) :: jint)"
      by (simp add: unat_of_nat)
  qed
  finally show ?thesis by (simp add: sar32_def)
qed

definition tcp_bytes :: "jbyte list \<Rightarrow> bool" where
  "tcp_bytes pl \<longleftrightarrow> 20 \<le> length pl \<and>
     20 \<le> 4 * (be_val (take 2 (drop 12 pl)) div 4096) \<and> 4 * (be_val (take 2 (drop 12 pl)) div 4096) \<le> length pl"

definition udp_bytes :: "jbyte list \<Rightarrow> bool" where
  "udp_bytes pl \<longleftrightarrow> 8 \<le> length pl \<and> be_val (take 2 (drop 4 pl)) = length pl"

lemma udp_bytes_wire:
  assumes "udp_bytes pl"
  shows "\<exists>p ck. udp_ok p \<and> ck < 65536 \<and> unat (udp_len p) = length (drop 8 pl) + 8 \<and>
    pl = udp_wire p (drop 8 pl) ck"
proof -
  let ?v = "\<lambda>k. be_val (take 2 (drop k pl))"
  have l: "8 \<le> length pl" "?v 4 = length pl" using assms by (simp_all add: udp_bytes_def)
  have b: "?v 0 < 65536" "?v 2 < 65536" "?v 4 < 65536" "?v 6 < 65536"
    using l split_be(2) [of 2 "drop 0 pl"] split_be(2) [of 2 "drop 2 pl"]
      split_be(2) [of 2 "drop 4 pl"] split_be(2) [of 2 "drop 6 pl"] by simp_all
  have w: "drop k pl = be_list 2 (?v k) @ drop (k + 2) pl" if "k + 2 \<le> length pl" for k
    using that split_be(1) [of 2 "drop k pl"] by (simp add: add.commute)
  have "pl = be_list 2 (?v 0) @ be_list 2 (?v 2) @ be_list 2 (?v 4) @ be_list 2 (?v 6) @ drop 8 pl"
    using w [of 0] w [of 2] w [of 4] w [of 6] l by (simp flip: numeral_2_eq_2)
  then show ?thesis
    using b l
    by (intro exI [of _ "\<lparr> udp_srcPort = of_nat (?v 0), udp_dstPort = of_nat (?v 2),
          udp_len = of_nat (?v 4), udp_checksum = 0, udp_payload = undefined \<rparr>"] exI [of _ "?v 6"])
      (simp add: udp_ok_def udp_wire_def unat_of_nat)
qed

lemma tcp_bytes_wire:
  assumes "tcp_bytes pl"
  shows "\<exists>p opts rest ck. tcp_ok p (length opts) \<and> ck < 65536 \<and> opts @ rest = drop 20 pl \<and>
    pl = tcp_wire p opts rest ck"
proof -
  let ?v = "\<lambda>k. be_val (take 2 (drop k pl))" and ?w = "\<lambda>k. be_val (take 4 (drop k pl))"
  let ?n = "4 * (?v 12 div 4096)"
  let ?f = "of_nat (?v 12) :: jint"
  have l: "20 \<le> length pl" "20 \<le> ?n" "?n \<le> length pl" using assms by (simp_all add: tcp_bytes_def)
  have b: "?v 0 < 65536" "?v 2 < 65536" "?v 12 < 65536" "?v 14 < 65536" "?v 16 < 65536" "?v 18 < 65536"
    "?w 4 < 2 ^ 32" "?w 8 < 2 ^ 32"
    using l split_be(2) [of 2 "drop 0 pl"] split_be(2) [of 2 "drop 2 pl"]
      split_be(2) [of 2 "drop 12 pl"] split_be(2) [of 2 "drop 14 pl"]
      split_be(2) [of 2 "drop 16 pl"] split_be(2) [of 2 "drop 18 pl"]
      split_be(2) [of 4 "drop 4 pl"] split_be(2) [of 4 "drop 8 pl"] by simp_all
  have w: "drop k pl = be_list 2 (?v k) @ drop (k + 2) pl" if "k + 2 \<le> length pl" for k
    using that split_be(1) [of 2 "drop k pl"] by (simp add: add.commute)
  have w4: "drop k pl = be_list 4 (?w k) @ drop (k + 4) pl" if "k + 4 \<le> length pl" for k
    using that split_be(1) [of 4 "drop k pl"] by (simp add: add.commute)
  have e: "pl = be_list 2 (?v 0) @ be_list 2 (?v 2) @ be_list 4 (?w 4) @ be_list 4 (?w 8) @
      be_list 2 (?v 12) @ be_list 2 (?v 14) @ be_list 2 (?v 16) @ be_list 2 (?v 18) @ drop 20 pl"
    using w [of 0] w [of 2] w4 [of 4] w4 [of 8] w [of 12] w [of 14] w [of 16] w [of 18] l
    by (simp flip: numeral_2_eq_2)
  have uf: "unat ?f = ?v 12" using b by (simp add: unat_of_nat)
  have "sar32 (?f AND 0xf000) 12 = of_nat (?v 12 div 4096)" using tcp_offset [of ?f] b(3) uf by simp
  moreover have "?v 12 div 4096 < 16" using b(3) by (simp add: less_mult_imp_div_less)
  ultimately have "sar32 (?f AND 0xf000) 12 * 4 - 20 = of_nat (?n - 20)" using l(2) by simp
  moreover have "sint (of_nat (?n - 20) :: jint) = int (?n - 20)"
    using \<open>?v 12 div 4096 < 16\<close> by (subst sint_small) (simp_all add: unat_of_nat)
  ultimately have h: "sint (sar32 (?f AND 0xf000) 12 * 4 - 20) = int (?n - 20)" by (simp only:)
  have u: "unat (ucast (of_nat (?w k) :: jlong) :: jint) = ?w k \<and> unat (of_nat (?w k) :: jlong) = ?w k"
    if "?w k < 2 ^ 32" for k
    using that by (simp add: unsigned_ucast_eq unat_of_nat take_bit_nat_eq_self)
  let ?p = "\<lparr> tcp_srcPort = of_nat (?v 0), tcp_dstPort = of_nat (?v 2), tcp_seq = of_nat (?w 4),
      tcp_ack = of_nat (?w 8), tcp_flags = ?f, tcp_headLen = sar32 (?f AND 0xf000) 12 * 4,
      tcp_reservedFlag = sar32 (?f AND 0x0100) 8, tcp_accurateECNFlag = sar32 (?f AND 0x0080) 7,
      tcp_echoFlag = sar32 (?f AND 0x0040) 6, tcp_urgFlag = sar32 (?f AND 0x0020) 5,
      tcp_ackFlag = sar32 (?f AND 0x0010) 4, tcp_pshFlag = sar32 (?f AND 0x0008) 3,
      tcp_rstFlag = sar32 (?f AND 0x0004) 2, tcp_synFlag = sar32 (?f AND 0x0002) 1,
      tcp_finFlag = sar32 (?f AND 0x0001) 0, tcp_window = of_nat (?v 14), tcp_checksum = 0,
      tcp_urgentPointer = of_nat (?v 18), tcp_options = undefined, tcp_payload = undefined \<rparr>"
  have "tcp_ok ?p (?n - 20)"
    unfolding tcp_ok_def tcp_flag_bits_def TcpPacket.select_convs h
    using b u [OF b(7)] u [OF b(8)] by (simp add: unat_of_nat)
  moreover have "length (take (?n - 20) (drop 20 pl)) = ?n - 20" using l by simp
  moreover have "pl = tcp_wire ?p (take (?n - 20) (drop 20 pl)) (drop (?n - 20) (drop 20 pl)) (?v 16)"
    unfolding tcp_wire_def tcp_head_def TcpPacket.select_convs append_take_drop_id
    using e b u [OF b(7)] u [OF b(8)] by (simp add: unat_of_nat)
  ultimately show ?thesis using b(5) append_take_drop_id by metis
qed

section \<open>Encoding IPv4\<close>

definition checksum_at :: "jint \<Rightarrow> nat" where
  "checksum_at protocol = (if protocol = Tcp then 16 else 6)"

text \<open>
  What the encoder does to the payload: for TCP and UDP the checksum word is replaced so that
  the checksum over the pseudo header and the segment verifies, the other bytes stay; the
  payload of another protocol stays as it is.
\<close>

definition payload_checked :: "jbyte list \<Rightarrow> jbyte list \<Rightarrow> jint \<Rightarrow> jbyte list \<Rightarrow> jbyte list \<Rightarrow> bool" where
  "payload_checked s d protocol pl pl' \<longleftrightarrow> length pl' = length pl \<and>
     (if protocol = Tcp \<or> protocol = Udp then
        inet_checksum (pseudo_wire s d protocol (length pl') @ pl') = 0 \<and>
        take (checksum_at protocol) pl' = take (checksum_at protocol) pl \<and>
        drop (checksum_at protocol + 2) pl' = drop (checksum_at protocol + 2) pl
      else pl' = pl)"

definition payload_ok :: "jint \<Rightarrow> jbyte list \<Rightarrow> bool" where
  "payload_ok protocol pl \<longleftrightarrow> length pl \<le> 65500 \<and>
     (protocol = Tcp \<longrightarrow> tcp_bytes pl \<and> regular_bytes pl) \<and>
     (protocol = Udp \<longrightarrow> udp_bytes pl \<and> regular_bytes pl)"

lemma regular_tail: "regular_bytes pl \<Longrightarrow> pl = xs @ ys \<Longrightarrow> even (length xs) \<Longrightarrow> regular_bytes ys"
  by (cases "ys = []") (auto simp: regular_bytes_def)

lemma int2ip_bytes: "\<exists>s. ip2bytes (int2ip w) = Inr s \<and> length s = 4 \<and> bytes2ip s = Inr (int2ip w)"
proof -
  have m: "x mod 256 < 256" for x :: nat by simp
  show ?thesis
    unfolding int2ip_quad ip2bytes_quad_str [OF m m m m]
    by (simp add: bytes2ip_quad unat_of_nat_byte)
qed

lemma tcp_not_udp: "Tcp \<noteq> Udp"
  by (simp add: Tcp_def Udp_def)

context netty_buf
begin

lemma reencode_tcp:
  assumes "v4_protocol p = Tcp" and "marked (v4_payload p) = pl" and "mpos (v4_payload p) = 0"
    and "payload_ok Tcp pl" and "ip2bytes (v4_srcIP p) = Inr s" and "ip2bytes (v4_dstIP p) = Inr d"
    and "length s = 4" "length d = 4"
  shows "\<exists>b. reencode_payload N p = Some (Inr b) \<and> payload_checked s d Tcp pl (marked b)"
proof -
  obtain t :: "'b TcpPacket" and opts rest ck where t: "tcp_ok t (length opts)" "ck < 65536" "opts @ rest = drop 20 pl"
    and pl: "pl = tcp_wire t opts rest ck"
    using tcp_bytes_wire [of pl] assms(4) by (auto simp: payload_ok_def)
  let ?b0 = "nb_markReader N (v4_getPayload N p)"
  have "content ?b0 = tcp_wire t opts rest ck" using pl assms(2) by (simp add: v4_getPayload_def)
  from TcpPacket_decode_run [OF this t(1,2)] obtain q b' where
    q: "TcpPacket_decode N ?b0 = Inr (q, b')" "marked (tcp_options q) = opts" "marked (tcp_payload q) = rest"
    and qt: "q = t\<lparr> tcp_checksum := of_nat ck, tcp_options := tcp_options q, tcp_payload := tcp_payload q \<rparr>"
    and b': "marked b' = pl" "mpos b' = 0"
    using assms(2,3) by (auto simp: v4_getPayload_def)
  have wq: "tcp_wire q = tcp_wire t"
    by (subst qt) (simp add: tcp_wire_def tcp_head_def fun_eq_iff)
  let ?pb = "nb_resetReader N b'"
  let ?c = "inet_checksum (pseudo_wire s d Tcp (length pl) @ tcp_wire t opts rest 0)"
  let ?enc = "tcp_wire t opts rest ?c"
  have len: "length pl < 65536" "length (opts @ rest) \<le> 65500" "regular_bytes (opts @ rest)"
  proof -
    have l: "length pl \<le> 65500" using assms(4) by (simp add: payload_ok_def)
    then show "length pl < 65536" by simp
    show "length (opts @ rest) \<le> 65500" unfolding t(3) using l by simp
    show "regular_bytes (opts @ rest)"
      by (rule regular_tail [of pl "take 20 pl"])
        (use assms(4) t(3) in \<open>simp_all add: payload_ok_def tcp_bytes_def\<close>)
  qed
  have "\<exists>b. TcpPacket_encode N q (p\<lparr> v4_payload := ?pb \<rparr>) True False = Some (Inr (q\<lparr> tcp_checksum := of_nat ?c \<rparr>, b))
      \<and> content b = ?enc"
    using TcpPacket_encode_run [of "p\<lparr> v4_payload := ?pb \<rparr>" s d q] assms(1,5-8) len
    by (simp add: q(2,3) wq b')
  then obtain eb where eb: "TcpPacket_encode N q (p\<lparr> v4_payload := ?pb \<rparr>) True False =
      Some (Inr (q\<lparr> tcp_checksum := of_nat ?c \<rparr>, eb))" "content eb = ?enc" by blast
  have le: "length ?enc = length pl" by (simp add: pl tcp_wire_def)
  obtain b where b: "nb_overwrite N eb ?pb = Inr b" "marked b = ?enc"
    using overwrite [of ?pb eb] le b' eb by auto
  have "payload_checked s d Tcp pl ?enc"
    using verify_tcp [OF assms(7,8), of Tcp "length pl" t opts rest] le
    by (simp add: payload_checked_def checksum_at_def) (simp add: pl tcp_wire_def)
  then show ?thesis
    using b by (simp add: reencode_payload_def assms(1) TcpPacket_decodeMark_def q(1) eb(1))
qed

lemma reencode_udp:
  assumes "v4_protocol p = Udp" and "marked (v4_payload p) = pl" and "mpos (v4_payload p) = 0"
    and "payload_ok Udp pl" and "ip2bytes (v4_srcIP p) = Inr s" and "ip2bytes (v4_dstIP p) = Inr d"
    and "length s = 4" "length d = 4"
  shows "\<exists>b. reencode_payload N p = Some (Inr b) \<and> payload_checked s d Udp pl (marked b)"
proof -
  let ?rest = "drop 8 pl"
  obtain u :: "'b UdpPacket" and ck where u: "udp_ok u" "ck < 65536" "unat (udp_len u) = length ?rest + 8"
    and pl: "pl = udp_wire u ?rest ck"
    using udp_bytes_wire [of pl] assms(4) by (auto simp: payload_ok_def)
  let ?b0 = "nb_markReader N (v4_getPayload N p)"
  have "content ?b0 = udp_wire u ?rest ck" using pl assms(2) by (simp add: v4_getPayload_def)
  from UdpPacket_decode_run [OF this u] obtain q b' where
    q: "UdpPacket_decode N ?b0 = Inr (q, b')" "marked (udp_payload q) = ?rest"
    and qu: "q = u\<lparr> udp_checksum := of_nat ck, udp_payload := udp_payload q \<rparr>"
    and b': "marked b' = pl" "mpos b' = 0"
    using assms(2,3) by (auto simp: v4_getPayload_def)
  have wq: "udp_wire q = udp_wire u"
    by (subst qu) (simp add: udp_wire_def fun_eq_iff)
  let ?pb = "nb_resetReader N b'"
  let ?c = "inet_checksum (pseudo_wire s d Udp (length pl) @ udp_wire u ?rest 0)"
  let ?enc = "udp_wire u ?rest ?c"
  have len: "length pl < 65536" "length ?rest \<le> 65515" "regular_bytes ?rest"
  proof -
    have l: "length pl \<le> 65500" using assms(4) by (simp add: payload_ok_def)
    then show "length pl < 65536" "length ?rest \<le> 65515" by simp_all
    show "regular_bytes ?rest"
      by (rule regular_tail [of pl "take 8 pl"])
        (use assms(4) in \<open>simp_all add: payload_ok_def udp_bytes_def\<close>)
  qed
  have "\<exists>b. UdpPacket_encode N q (p\<lparr> v4_payload := ?pb \<rparr>) False = Some (Inr (q\<lparr> udp_checksum := of_nat ?c \<rparr>, b))
      \<and> content b = ?enc"
    using UdpPacket_encode_run [of "p\<lparr> v4_payload := ?pb \<rparr>" s d q] assms(1,5-8) len
    by (simp add: q(2) wq b')
  then obtain eb where eb: "UdpPacket_encode N q (p\<lparr> v4_payload := ?pb \<rparr>) False =
      Some (Inr (q\<lparr> udp_checksum := of_nat ?c \<rparr>, eb))" "content eb = ?enc" by blast
  have le: "length ?enc = length pl" by (subst (3) pl) (simp add: udp_wire_def)
  obtain b where b: "nb_overwrite N eb ?pb = Inr b" "marked b = ?enc"
    using overwrite [of ?pb eb] le b' eb by auto
  have "take 6 ?enc = take 6 (udp_wire u ?rest ck)" "drop 8 ?enc = drop 8 (udp_wire u ?rest ck)"
    by (simp_all add: udp_wire_def)
  then have "payload_checked s d Udp pl ?enc"
    using verify_udp [OF assms(7,8), of Udp "length pl" u ?rest] le
    unfolding pl [symmetric] by (simp add: payload_checked_def checksum_at_def tcp_not_udp [symmetric])
  then show ?thesis
    using b by (simp add: reencode_payload_def assms(1) UdpPacket_decodeMark_def q(1) eb(1)
        tcp_not_udp [symmetric])
qed

lemma reencode_run:
  assumes "marked (v4_payload p) = pl" and "mpos (v4_payload p) = 0"
    and "payload_ok (v4_protocol p) pl" and "ip2bytes (v4_srcIP p) = Inr s" and "ip2bytes (v4_dstIP p) = Inr d"
    and "length s = 4" "length d = 4"
  shows "\<exists>b. reencode_payload N p = Some (Inr b) \<and> payload_checked s d (v4_protocol p) pl (marked b)"
proof -
  consider "v4_protocol p = Tcp" | "v4_protocol p = Udp" | "v4_protocol p \<noteq> Tcp" "v4_protocol p \<noteq> Udp" by blast
  then show ?thesis
  proof cases
    case 1
    then show ?thesis using reencode_tcp [OF 1 assms(1,2) _ assms(4-7)] assms(3) by simp
  next
    case 2
    then show ?thesis using reencode_udp [OF 2 assms(1,2) _ assms(4-7)] assms(3) by simp
  next
    case 3
    then show ?thesis by (simp add: reencode_payload_def payload_checked_def assms(1))
  qed
qed

end

text \<open>The values of the fields of an IPv4 packet that fit their wire positions.\<close>

definition v4_fields_ok :: "'b Ipv4Packet \<Rightarrow> bool" where
  "v4_fields_ok p \<longleftrightarrow> unat (v4_version p) < 16 \<and> unat (v4_diffServices p) < 256 \<and>
     unat (v4_identifier p) < 65536 \<and> unat (v4_flags p) < 65536 \<and>
     unat (v4_liveTime p) < 256 \<and> unat (v4_protocol p) < 256"

context netty_buf
begin

lemma Ipv4Packet_encode_run:
  assumes "v4_fields_ok p" and "v4_srcIP p = int2ip a" and "v4_dstIP p = int2ip b"
    and "content (v4_payload p) = pl" "marked (v4_payload p) = pl" and "mpos (v4_payload p) = 0"
    and "payload_ok (v4_protocol p) pl"
  shows "\<exists>q buf hdr pl' s d.
    Ipv4Packet_encode N p True False = Some (Inr (q, buf)) \<and> content buf = hdr @ pl' \<and>
    length hdr = 20 \<and> inet_checksum hdr = 0 \<and>
    ip2bytes (v4_srcIP p) = Inr s \<and> ip2bytes (v4_dstIP p) = Inr d \<and>
    payload_checked s d (v4_protocol p) pl pl' \<and>
    (\<exists>r buf'. Ipv4Packet_decode N buf = Inr (r, buf') \<and> marked (v4_payload r) = pl' \<and>
       r = p\<lparr> v4_headerLen := 20, v4_totalLen := of_nat (20 + length pl),
             v4_checksum := v4_checksum q, v4_payload := v4_payload r \<rparr>)"
proof -
  obtain s where s: "ip2bytes (v4_srcIP p) = Inr s" "length s = 4" "bytes2ip s = Inr (v4_srcIP p)"
    unfolding assms(2) using int2ip_bytes by blast
  obtain d where d: "ip2bytes (v4_dstIP p) = Inr d" "length d = 4" "bytes2ip d = Inr (v4_dstIP p)"
    unfolding assms(3) using int2ip_bytes by blast
  have l: "length pl \<le> 65500" using assms(7) by (simp add: payload_ok_def)
  let ?p1 = "p\<lparr> v4_headerLen := 20, v4_totalLen := of_nat (20 + length pl) \<rparr>"
  let ?c = "inet_checksum (v4_wire ?p1 s d 0)"
  let ?p2 = "?p1\<lparr> v4_checksum := of_nat ?c \<rparr>"
  have c: "v4_calcChecksum N ?p1 = Some (Inr (of_nat ?c))"
    using v4_calcChecksum_run [of ?p1 s d] s d by simp
  have "v4_wire ?p2 s d ?c = v4_wire ?p1 s d ?c" by (simp add: v4_wire_def)
  then obtain hb where hb: "v4_header N ?p2 (of_nat ?c) = Inr hb" "content hb = v4_wire ?p1 s d ?c"
    using v4_header_run [of ?p2 s d "of_nat ?c"] s(1) d(1) by auto
  obtain pb where pb: "reencode_payload N ?p2 = Some (Inr pb)"
    "payload_checked s d (v4_protocol p) pl (marked pb)"
    using reencode_run [of ?p2 pl s d] assms s d by auto
  let ?w = "nb_writeBuf N (nb_resetReader N pb) hb"
  have e: "Ipv4Packet_encode N p True False = Some (Inr (?p2\<lparr> v4_payload := fst ?w \<rparr>, snd ?w))"
    using c hb(1) pb(1) by (simp add: Ipv4Packet_encode_def Let_def assms(4))
  have cw: "content (snd ?w) = v4_wire ?p1 s d ?c @ marked pb" by (simp add: hb(2))
  have hdr: "length (v4_wire ?p1 s d ?c) = 20" "inet_checksum (v4_wire ?p1 s d ?c) = 0"
    using verify_v4 [of s d ?p1] s d by (simp_all add: v4_wire_def)
  have "v4_ok ?p1" using assms(1) l by (simp add: v4_fields_ok_def v4_ok_def unat_of_nat unat_word_ariths)
  moreover have "?c < 65536" using inet_checksum_le [of "v4_wire ?p1 s d 0"] by simp
  ultimately obtain r b' where r: "Ipv4Packet_decode N (snd ?w) = Inr (r, b')" "marked (v4_payload r) = marked pb"
    "r = ?p1\<lparr> v4_checksum := of_nat ?c, v4_srcIP := v4_srcIP p, v4_dstIP := v4_dstIP p, v4_payload := v4_payload r \<rparr>"
    using Ipv4Packet_decode_run [OF cw] s d by blast
  have r': "r = p\<lparr> v4_headerLen := 20, v4_totalLen := of_nat (20 + length pl),
             v4_checksum := v4_checksum (?p2\<lparr> v4_payload := fst ?w \<rparr>), v4_payload := v4_payload r \<rparr>"
    by (subst r(3)) simp
  show ?thesis
    using e cw hdr s(1) d(1) pb(2) r(1,2) r' by blast
qed

lemma IcmpPacket_roundtrip:
  assumes "length (content (icmp_payload p)) \<le> 65500" and "regular_bytes (content (icmp_payload p))"
    and "unat (icmp_identifier p) < 65536" "unat (icmp_sequence p) < 65536"
  shows "\<exists>q buf r buf'. IcmpPacket_encode N p True False = Some (Inr (q, buf)) \<and>
    inet_checksum (content buf) = 0 \<and> IcmpPacket_decode N buf = Inr (r, buf') \<and>
    content (icmp_payload r) = content (icmp_payload p) \<and>
    r = p\<lparr> icmp_checksum := icmp_checksum r, icmp_payload := icmp_payload r \<rparr>"
proof -
  let ?c = "inet_checksum (icmp_wire p (content (icmp_payload p)) 0)"
  obtain q b where b: "IcmpPacket_encode N p True False = Some (Inr (q, b))"
    "content b = icmp_wire p (content (icmp_payload p)) ?c"
    using IcmpPacket_encode_run [OF assms(1,2)] by blast
  have "?c < 65536" using inet_checksum_le [of "icmp_wire p (content (icmp_payload p)) 0"] by simp
  from IcmpPacket_decode_run [OF b(2) this assms(3,4)] obtain r b' where
    r: "IcmpPacket_decode N b = Inr (r, b')" "content (icmp_payload r) = content (icmp_payload p)"
    "r = p\<lparr> icmp_checksum := of_nat ?c, icmp_payload := icmp_payload r \<rparr>" by blast
  have "icmp_checksum r = of_nat ?c" by (subst r(3)) simp
  then have "r = p\<lparr> icmp_checksum := icmp_checksum r, icmp_payload := icmp_payload r \<rparr>" using r(3) by simp
  moreover have "inet_checksum (content b) = 0" unfolding b(2) by (rule verify_icmp)
  ultimately show ?thesis using b(1) r(1,2) by blast
qed

end

section \<open>Ethernet addresses\<close>

definition mac_str :: "jbyte list \<Rightarrow> string" where
  "mac_str bs = (case map show_hex2 bs of [] \<Rightarrow> [] | x # xs \<Rightarrow> x @ concat (map (\<lambda>y. CHR '':'' # y) xs))"

lemma hex_value_char: "n < 16 \<Longrightarrow> hex_value (hex_char n) = Some n"
  by (cases "n < 10") (simp_all add: hex_value_def hex_char_def Let_def of_char_digit_char is_digit_def)

lemma hex_char_plain: "n < 16 \<Longrightarrow> hex_char n \<noteq> CHR '':'' \<and> hex_char n \<noteq> CHR ''-'' \<and> hex_char n \<noteq> CHR ''+''"
proof -
  assume "n < 16"
  then have "n \<in> set [0..<16]" by simp
  moreover have "\<forall>n \<in> set [0..<16]. hex_char n \<noteq> CHR '':'' \<and> hex_char n \<noteq> CHR ''-'' \<and> hex_char n \<noteq> CHR ''+''"
    by code_simp
  ultimately show ?thesis by blast
qed

lemma byte_nibbles: "unat b div 16 < 16" "unat b mod 16 < 16" for b :: jbyte
  using unat_byte_bound [of b] by (simp_all add: less_mult_imp_div_less)

lemma parse_hex_byte_show: "parse_hex_byte (show_hex2 b) = Inr b"
proof -
  have lo: "- 2147483648 \<le> uint b" by (rule order_trans [OF _ unsigned_greater_eq]) simp
  then show ?thesis
  using hex_char_plain [OF byte_nibbles(1) [of b]]
    unsigned_less [of b, where 'a = int] unsigned_greater_eq [of b, where 'a = int]
  by (simp add: parse_hex_byte_def show_hex2_def hex_value_char byte_nibbles Let_def lo)
qed

lemma no_colon: "CHR '':'' \<notin> set (show_hex2 b)"
  using hex_char_plain [OF byte_nibbles(1) [of b]] hex_char_plain [OF byte_nibbles(2) [of b]]
  by (auto simp: show_hex2_def)

lemma six_elements: "length xs = 6 \<Longrightarrow> xs = [xs ! 0, xs ! 1, xs ! 2, xs ! 3, xs ! 4, xs ! 5]"
  by (simp add: list_eq_iff_nth_eq less_Suc_eq numeral_eq_Suc)

lemma encodeAddr_mac:
  "encodeAddr (show_hex2 b1 @ '':'' @ show_hex2 b2 @ '':'' @ show_hex2 b3 @ '':'' @
     show_hex2 b4 @ '':'' @ show_hex2 b5 @ '':'' @ show_hex2 b6) = Inr [b1, b2, b3, b4, b5, b6]"
proof -
  have n: "show_hex2 b \<noteq> []" for b by (simp add: show_hex2_def)
  have "split_all CHR '':'' (show_hex2 b1 @ '':'' @ show_hex2 b2 @ '':'' @ show_hex2 b3 @ '':'' @
     show_hex2 b4 @ '':'' @ show_hex2 b5 @ '':'' @ show_hex2 b6) =
     [show_hex2 b1, show_hex2 b2, show_hex2 b3, show_hex2 b4, show_hex2 b5, show_hex2 b6]"
    by (simp add: split_all_append no_colon split_all_no_sep)
  then show ?thesis
    unfolding encodeAddr_def by (subst java_split_last) (simp_all add: n parse_hex_byte_show)
qed

context netty_buf
begin

lemma parseAddr_run:
  assumes "content b = [b1, b2, b3, b4, b5, b6] @ xs"
  shows "\<exists>b'. parseAddr N b = Inr (show_hex2 b1 @ '':'' @ show_hex2 b2 @ '':'' @ show_hex2 b3 @ '':'' @
     show_hex2 b4 @ '':'' @ show_hex2 b5 @ '':'' @ show_hex2 b6, b') \<and> content b' = xs"
  by (simp add: parseAddr_def readByte assms)

lemma Ethernet_roundtrip:
  assumes "content b = d @ s @ be_list 2 n @ pl" and "length d = 6" "length s = 6" and "n < 65536"
  shows "\<exists>p b' q buf. EthernetPacket_decode N b = Inr (p, b') \<and> eth_protocol p = of_nat n \<and>
    encodeAddr (eth_srcAddr p) = Inr s \<and> encodeAddr (eth_dstAddr p) = Inr d \<and> content (eth_payload p) = pl \<and>
    EthernetPacket_encode N p = Inr (q, buf) \<and> content buf = content b"
proof -
  obtain d1 d2 d3 d4 d5 d6 s1 s2 s3 s4 s5 s6 where
    ds: "d = [d1, d2, d3, d4, d5, d6]" "s = [s1, s2, s3, s4, s5, s6]"
    using six_elements [OF assms(2)] six_elements [OF assms(3)] by blast
  let ?d = "show_hex2 d1 @ '':'' @ show_hex2 d2 @ '':'' @ show_hex2 d3 @ '':'' @
     show_hex2 d4 @ '':'' @ show_hex2 d5 @ '':'' @ show_hex2 d6"
  let ?s = "show_hex2 s1 @ '':'' @ show_hex2 s2 @ '':'' @ show_hex2 s3 @ '':'' @
     show_hex2 s4 @ '':'' @ show_hex2 s5 @ '':'' @ show_hex2 s6"
  obtain x where x: "parseAddr N b = Inr (?d, x)" "content x = s @ be_list 2 n @ pl"
    using parseAddr_run [of b d1 d2 d3 d4 d5 d6 "s @ be_list 2 n @ pl"] assms(1) ds by auto
  obtain y where y: "parseAddr N x = Inr (?s, y)" "content y = be_list 2 n @ pl"
    using parseAddr_run [of x s1 s2 s3 s4 s5 s6 "be_list 2 n @ pl"] x ds by auto
  let ?p = "\<lparr> eth_srcAddr = ?s, eth_dstAddr = ?d, eth_protocol = of_nat n,
      eth_payload = sliced (length pl) (after 2 y) \<rparr>"
  have dec: "\<exists>b'. EthernetPacket_decode N b = Inr (?p, b')"
    using assms(4) by (simp add: EthernetPacket_decode_def x(1) y readUnsignedShort readSlice be_val_be_list)
  have c: "content (eth_payload ?p) = pl" by (simp add: y(2))
  have ea: "encodeAddr ?s = Inr s" "encodeAddr ?d = Inr d" unfolding ds by (rule encodeAddr_mac)+
  have "\<exists>q buf. EthernetPacket_encode N ?p = Inr (q, buf) \<and> content buf = content b"
    using assms(4) c by (simp add: EthernetPacket_encode_def ea [simplified] assms(1) unat_of_nat Let_def)
  then show ?thesis
    using dec c ea by (metis EthernetPacket.select_convs(1-3))
qed

end

section \<open>Properties\<close>

text \<open>
  C23: Encoding an IPv4 packet whose fields fit the header gives twenty header bytes whose
  checksum verifies, followed by the payload; a TCP or UDP payload (with any old checksum)
  gets the checksum that verifies over the pseudo header and keeps all its other bytes.
  Decoding the result gives the packet back, with the header length, total length and checksum
  the encoder set. The payload has to be regular: of even length or with a last byte below 128.
\<close>

theorem ipv4_encode_decode:
  assumes "netty_buf N content marked after sliced rpos mpos"
    and "v4_fields_ok p" and "v4_srcIP p = int2ip a" and "v4_dstIP p = int2ip b"
    and "content (v4_payload p) = pl" "marked (v4_payload p) = pl" and "mpos (v4_payload p) = 0"
    and "payload_ok (v4_protocol p) pl"
  shows "\<exists>q buf hdr pl' s d.
    Ipv4Packet_encode N p True False = Some (Inr (q, buf)) \<and> content buf = hdr @ pl' \<and>
    length hdr = 20 \<and> inet_checksum hdr = 0 \<and>
    ip2bytes (v4_srcIP p) = Inr s \<and> ip2bytes (v4_dstIP p) = Inr d \<and>
    payload_checked s d (v4_protocol p) pl pl' \<and>
    (\<exists>r buf'. Ipv4Packet_decode N buf = Inr (r, buf') \<and> marked (v4_payload r) = pl' \<and>
       r = p\<lparr> v4_headerLen := 20, v4_totalLen := of_nat (20 + length pl),
             v4_checksum := v4_checksum q, v4_payload := v4_payload r \<rparr>)"
  by (rule netty_buf.Ipv4Packet_encode_run [OF assms])

theorem ipv4_encode_decode_witness:
  "\<exists>q buf pl' r buf'.
    Ipv4Packet_encode list_netty
      \<lparr> v4_version = 4, v4_headerLen = 0, v4_diffServices = 0, v4_totalLen = 0, v4_identifier = 7,
        v4_flags = 0, v4_liveTime = 64, v4_protocol = Udp, v4_checksum = 0,
        v4_srcIP = int2ip 167772161, v4_dstIP = int2ip 167772162,
        v4_payload = of_bytes [48, 57, 0, 53, 0, 12, 0, 0, 1, 2, 3, 4] \<rparr> True False
      = Some (Inr (q, buf)) \<and>
    Ipv4Packet_decode list_netty buf = Inr (r, buf') \<and> v4_totalLen r = 32 \<and>
    payload_checked [10, 0, 0, 1] [10, 0, 0, 2] Udp [48, 57, 0, 53, 0, 12, 0, 0, 1, 2, 3, 4] (lb_marked (v4_payload r))"
proof -
  let ?p = "\<lparr> v4_version = 4, v4_headerLen = 0, v4_diffServices = 0, v4_totalLen = 0, v4_identifier = 7,
        v4_flags = 0, v4_liveTime = 64, v4_protocol = Udp, v4_checksum = 0,
        v4_srcIP = int2ip 167772161, v4_dstIP = int2ip 167772162,
        v4_payload = of_bytes [48, 57, 0, 53, 0, 12, 0, 0, 1, 2, 3, 4] \<rparr>"
  have ok: "v4_fields_ok ?p" "payload_ok (v4_protocol ?p) [48, 57, 0, 53, 0, 12, 0, 0, 1, 2, 3, 4]"
    by (simp_all add: v4_fields_ok_def payload_ok_def Udp_def Tcp_def udp_bytes_def regular_bytes_def be_val_Cons)
  have b: "ip2bytes (int2ip 167772161) = Inr [10, 0, 0, 1]" "ip2bytes (int2ip 167772162) = Inr [10, 0, 0, 2]"
    using ip2bytes_quad_str [of 10 0 0 1] ip2bytes_quad_str [of 10 0 0 2] by (simp_all add: int2ip_quad)
  show ?thesis
    using ipv4_encode_decode [OF lbuf.netty_buf_axioms ok(1), of 167772161 167772162
        "[48, 57, 0, 53, 0, 12, 0, 0, 1, 2, 3, 4]"] ok(2) b
    by (simp add: of_bytes_def) (metis Ipv4Packet.select_convs(4) Ipv4Packet.surjective Ipv4Packet.update_convs(4))
qed

text \<open>
  C39: An ICMP packet is encoded with a checksum that verifies and decoded back; encoding an
  Ethernet frame that was decoded gives the bytes of the frame again, and the printed MAC
  addresses parse to the six bytes they stand for.
\<close>

theorem icmp_ethernet_roundtrip:
  assumes "netty_buf N content marked after sliced rpos mpos"
  shows "(length (content (icmp_payload p)) \<le> 65500 \<and> regular_bytes (content (icmp_payload p)) \<and>
      unat (icmp_identifier p) < 65536 \<and> unat (icmp_sequence p) < 65536 \<longrightarrow>
      (\<exists>q buf r buf'. IcmpPacket_encode N p True False = Some (Inr (q, buf)) \<and>
        inet_checksum (content buf) = 0 \<and> IcmpPacket_decode N buf = Inr (r, buf') \<and>
        content (icmp_payload r) = content (icmp_payload p) \<and>
        r = p\<lparr> icmp_checksum := icmp_checksum r, icmp_payload := icmp_payload r \<rparr>)) \<and>
    (\<forall>b d s n pl. content b = d @ s @ be_list 2 n @ pl \<and> length d = 6 \<and> length s = 6 \<and> n < 65536 \<longrightarrow>
      (\<exists>e b' q buf. EthernetPacket_decode N b = Inr (e, b') \<and> eth_protocol e = of_nat n \<and>
        encodeAddr (eth_srcAddr e) = Inr s \<and> encodeAddr (eth_dstAddr e) = Inr d \<and>
        content (eth_payload e) = pl \<and>
        EthernetPacket_encode N e = Inr (q, buf) \<and> content buf = content b))"
  using netty_buf.IcmpPacket_roundtrip [OF assms] netty_buf.Ethernet_roundtrip [OF assms] by blast

theorem icmp_ethernet_roundtrip_witness:
  "\<exists>e b' q buf. EthernetPacket_decode list_netty (of_bytes ([1, 2, 3, 4, 5, 6] @ [7, 8, 9, 10, 11, 255] @ be_list 2 2048 @ [9]))
      = Inr (e, b') \<and> eth_protocol e = 2048 \<and> EthernetPacket_encode list_netty e = Inr (q, buf)"
proof -
  have "lb_content (of_bytes ([1, 2, 3, 4, 5, 6] @ [7, 8, 9, 10, 11, 255] @ be_list 2 2048 @ [9])) =
      [1, 2, 3, 4, 5, 6] @ [7, 8, 9, 10, 11, 255] @ be_list 2 2048 @ [9]" by (simp add: of_bytes_def)
  then show ?thesis
    using icmp_ethernet_roundtrip [OF lbuf.netty_buf_axioms, THEN conjunct2, rule_format,
      of _ "[1, 2, 3, 4, 5, 6]" "[7, 8, 9, 10, 11, 255]" 2048 "[9]"] by fastforce
qed

end
