(* ===== verification/IpLayer.thy ===== *)
theory IpLayer
  imports IpPackets
begin

text \<open>
  IpLayerPacket of sdwan-tun: a view on the bytes of an IPv4 packet, edited in place. The
  interface of the buffers is extended by the calls that move the reader and writer index and
  write within the capacity, and by the memory view. A slice shares memory with the buffer it
  was cut from: \<open>nx_share\<close> stands for that effect, it is the parent after the slice was written
  to. Reading accessors are functions of the packet (they restore the reader index; the reader
  mark they leave is not observed).
\<close>

section \<open>Buffers edited in place\<close>

record 'b netty_index =
  nx_index :: "'b \<Rightarrow> nat"
  nx_readerIndex :: "nat \<Rightarrow> 'b \<Rightarrow> 'b res"
  nx_writerIndex :: "nat \<Rightarrow> 'b \<Rightarrow> 'b res"
  nx_markWriter :: "'b \<Rightarrow> 'b"
  nx_resetWriter :: "'b \<Rightarrow> 'b"
  nx_writeShort :: "jint \<Rightarrow> 'b \<Rightarrow> 'b res"
  nx_writeBytes :: "jbyte list \<Rightarrow> 'b \<Rightarrow> 'b res"
  nx_share :: "nat \<Rightarrow> 'b \<Rightarrow> 'b \<Rightarrow> 'b"

locale netty_indexed = netty_buf N content marked after sliced rpos mpos
  for N :: "'b netty" and content marked after sliced rpos mpos +
  fixes X :: "'b netty_index"
    and mem :: "'b \<Rightarrow> jbyte list"
    and wpos :: "'b \<Rightarrow> nat"
    and wmark :: "'b \<Rightarrow> nat"
    and at_reader :: "nat \<Rightarrow> 'b \<Rightarrow> 'b"
    and at_writer :: "nat \<Rightarrow> 'b \<Rightarrow> 'b"
    and put :: "jbyte list \<Rightarrow> 'b \<Rightarrow> 'b"
  assumes content_mem: "content b = drop (rpos b) (take (wpos b) (mem b))"
    and wpos_le: "wpos b \<le> length (mem b)"
    and index [simp]: "nx_index X b = rpos b"
    and readerIndex: "nx_readerIndex X i b =
      (if i \<le> wpos b then Inr (at_reader i b) else Inl IndexOutOfBoundsException)"
    and at_reader [simp]: "mem (at_reader i b) = mem b" "rpos (at_reader i b) = i" "wpos (at_reader i b) = wpos b"
    and writerIndex: "nx_writerIndex X i b =
      (if rpos b \<le> i \<and> i \<le> length (mem b) then Inr (at_writer i b) else Inl IndexOutOfBoundsException)"
    and at_writer [simp]: "mem (at_writer i b) = mem b" "rpos (at_writer i b) = rpos b"
      "wmark (at_writer i b) = wmark b"
    and wpos_at_writer [simp]: "i \<le> length (mem b) \<Longrightarrow> wpos (at_writer i b) = i"
    and markWriter [simp]: "mem (nx_markWriter X b) = mem b" "rpos (nx_markWriter X b) = rpos b"
      "wpos (nx_markWriter X b) = wpos b" "wmark (nx_markWriter X b) = wpos b"
    and resetWriter [simp]: "mem (nx_resetWriter X b) = mem b" "rpos (nx_resetWriter X b) = rpos b"
      "wpos (nx_resetWriter X b) = wmark b"
    and writeShort: "wpos b + 2 \<le> length (mem b) \<Longrightarrow> nx_writeShort X v b = Inr (put (be_list 2 (unat v)) b)"
    and writeBytes: "wpos b + length bs \<le> length (mem b) \<Longrightarrow> nx_writeBytes X bs b = Inr (put bs b)"
    and mem_put [simp]: "mem (put bs b) = take (wpos b) (mem b) @ bs @ drop (wpos b + length bs) (mem b)"
    and put [simp]: "rpos (put bs b) = rpos b" "wpos (put bs b) = wpos b + length bs" "wmark (put bs b) = wmark b"
    and sliced_mem [simp]: "mem (sliced n b) = take n (content b)" "wpos (sliced n b) = min n (length (content b))"
    and after_mem [simp]: "mem (after n b) = mem b" "wpos (after n b) = wpos b"
    and mark_mem [simp]: "mem (nb_markReader N b) = mem b" "wpos (nb_markReader N b) = wpos b"
    and reset_mem [simp]: "mem (nb_resetReader N b) = mem b" "wpos (nb_resetReader N b) = wpos b"
    and mpos_kept [simp]: "mpos (at_reader i b) = mpos b" "mpos (at_writer i b) = mpos b" "mpos (put bs b) = mpos b"
    and rpos_new [simp]: "rpos (nb_new N) = 0"
    and rpos_writeBytes [simp]: "rpos b = 0 \<Longrightarrow> rpos (nb_writeBytes N bs b) = 0"
    and share [simp]: "mem (nx_share X k s b) = take k (mem b) @ mem s @ drop (k + length (mem s)) (mem b)"
      "rpos (nx_share X k s b) = rpos b" "wpos (nx_share X k s b) = wpos b"

section \<open>IpLayerPacket\<close>

record 'b IpLayerPacket =
  il_byteBuf :: 'b
  il_update :: bool

definition IpLayerPacket_new :: "'b \<Rightarrow> 'b IpLayerPacket" where
  "IpLayerPacket_new b = \<lparr> il_byteBuf = b, il_update = False \<rparr>"

definition writeIp :: "'b netty_index \<Rightarrow> nat \<Rightarrow> string \<Rightarrow> 'b IpLayerPacket \<Rightarrow> 'b IpLayerPacket res" where
  "writeIp X index ip p =
     bindR (nx_writerIndex X index (nx_markWriter X (il_byteBuf p))) (\<lambda>b.
     bindR (ip2bytes ip) (\<lambda>bytes. bindR (nx_writeBytes X bytes b) (\<lambda>b.
       Inr (p\<lparr> il_byteBuf := nx_resetWriter X b \<rparr>))))"

definition il_setSrcIP :: "'b netty_index \<Rightarrow> string \<Rightarrow> 'b IpLayerPacket \<Rightarrow> 'b IpLayerPacket res" where
  "il_setSrcIP X ip p = bindR (writeIp X 12 ip p) (\<lambda>p. Inr (p\<lparr> il_update := True \<rparr>))"

definition il_setDstIP :: "'b netty_index \<Rightarrow> string \<Rightarrow> 'b IpLayerPacket \<Rightarrow> 'b IpLayerPacket res" where
  "il_setDstIP X ip p = bindR (writeIp X 16 ip p) (\<lambda>p. Inr (p\<lparr> il_update := True \<rparr>))"

definition read_byte_at :: "'b netty \<Rightarrow> 'b netty_index \<Rightarrow> nat \<Rightarrow> 'b \<Rightarrow> jint res" where
  "read_byte_at N X i b =
     bindR (nx_readerIndex X i (nb_markReader N b)) (\<lambda>b.
     bindR (nb_readUnsignedByte N b) (\<lambda>(v, b). Inr v))"

definition read_short_at :: "'b netty \<Rightarrow> 'b netty_index \<Rightarrow> nat \<Rightarrow> 'b \<Rightarrow> jint res" where
  "read_short_at N X i b =
     bindR (nx_readerIndex X i (nb_markReader N b)) (\<lambda>b.
     bindR (nb_readUnsignedShort N b) (\<lambda>(v, b). Inr v))"

definition il_getVersion :: "'b netty \<Rightarrow> 'b netty_index \<Rightarrow> 'b IpLayerPacket \<Rightarrow> jint res" where
  "il_getVersion N X p = read_byte_at N X 9 (il_byteBuf p)"

definition il_getProtocol :: "'b netty \<Rightarrow> 'b netty_index \<Rightarrow> 'b IpLayerPacket \<Rightarrow> jint res" where
  "il_getProtocol N X p = read_byte_at N X 9 (il_byteBuf p)"

definition isIcmpProtocol :: "'b netty \<Rightarrow> 'b netty_index \<Rightarrow> 'b IpLayerPacket \<Rightarrow> bool res" where
  "isIcmpProtocol N X p = bindR (il_getProtocol N X p) (\<lambda>pr. Inr (Icmp = pr))"

definition readIp :: "'b netty \<Rightarrow> 'b netty_index \<Rightarrow> nat \<Rightarrow> 'b IpLayerPacket \<Rightarrow> string res" where
  "readIp N X index p =
     bindR (nx_readerIndex X index (nb_markReader N (il_byteBuf p))) (\<lambda>b.
     bindR (nb_readBytes N 4 b) (\<lambda>(bytes, b). bytes2ip bytes))"

definition il_getSrcIP :: "'b netty \<Rightarrow> 'b netty_index \<Rightarrow> 'b IpLayerPacket \<Rightarrow> string res" where
  "il_getSrcIP N X p = readIp N X 12 p"

definition il_getDstIP :: "'b netty \<Rightarrow> 'b netty_index \<Rightarrow> 'b IpLayerPacket \<Rightarrow> string res" where
  "il_getDstIP N X p = readIp N X 16 p"

definition il_getSrcPort :: "'b netty \<Rightarrow> 'b netty_index \<Rightarrow> 'b IpLayerPacket \<Rightarrow> jint res" where
  "il_getSrcPort N X p = read_short_at N X 20 (il_byteBuf p)"

definition il_getDstPort :: "'b netty \<Rightarrow> 'b netty_index \<Rightarrow> 'b IpLayerPacket \<Rightarrow> jint res" where
  "il_getDstPort N X p = read_short_at N X 22 (il_byteBuf p)"

text \<open>The key of a flow; for other protocols a random id, given as an argument.\<close>

definition getIdentifier ::
    "'b netty \<Rightarrow> 'b netty_index \<Rightarrow> string \<Rightarrow> bool \<Rightarrow> 'b IpLayerPacket \<Rightarrow> string res" where
  "getIdentifier N X uuid exchangeIp p =
     bindR (il_getProtocol N X p) (\<lambda>protocol.
     if protocol = Icmp then
       bindR (il_getSrcIP N X p) (\<lambda>srcIP. bindR (il_getDstIP N X p) (\<lambda>dstIP.
       bindR (read_short_at N X 24 (il_byteBuf p)) (\<lambda>identifier.
         Inr (show_int (sint protocol) @ '':'' @ show_int (sint identifier) @ '' '' @
              (if exchangeIp then dstIP @ ''->'' @ srcIP else srcIP @ ''->'' @ dstIP)))))
     else if protocol = Tcp \<or> protocol = Udp then
       bindR (il_getSrcIP N X p) (\<lambda>srcIP. bindR (il_getDstIP N X p) (\<lambda>dstIP.
       bindR (il_getSrcPort N X p) (\<lambda>srcPort. bindR (il_getDstPort N X p) (\<lambda>dstPort.
         Inr (show_int (sint protocol) @ '': '' @
              (if exchangeIp
               then dstIP @ '':'' @ show_int (sint dstPort) @ ''->'' @ srcIP @ '':'' @ show_int (sint srcPort)
               else srcIP @ '':'' @ show_int (sint srcPort) @ ''->'' @ dstIP @ '':'' @ show_int (sint dstPort)))))))
     else Inr uuid)"

text \<open>The header length in bytes, from the first byte.\<close>

definition head_len :: "jint \<Rightarrow> nat" where
  "head_len head = unat ((head AND 15) * 4)"

definition il_getPayload :: "'b netty \<Rightarrow> 'b netty_index \<Rightarrow> 'b \<Rightarrow> 'b res" where
  "il_getPayload N X buf =
     bindR (read_byte_at N X 0 buf) (\<lambda>head.
     bindR (nx_readerIndex X (head_len head) (nb_markReader N buf)) (\<lambda>b.
     bindR (nb_readSlice N (int (nb_readableBytes N b)) b) (\<lambda>(payload, b). Inr payload)))"

definition il_setPayload ::
    "'b netty \<Rightarrow> 'b netty_index \<Rightarrow> 'b \<Rightarrow> 'b IpLayerPacket \<Rightarrow> 'b IpLayerPacket res" where
  "il_setPayload N X payload p =
     bindR (read_byte_at N X 0 (il_byteBuf p)) (\<lambda>head.
     bindR (nx_readerIndex X 1 (nb_markReader N (il_byteBuf p))) (\<lambda>b.
     bindR (nx_writerIndex X 2 b) (\<lambda>b.
     bindR (nx_writeShort X (of_nat (head_len head + nb_readableBytes N payload)) b) (\<lambda>b.
     bindR (nx_writerIndex X (head_len head) b) (\<lambda>b.
     bindR (nb_readBytes N (nb_readableBytes N payload) payload) (\<lambda>(bytes, payload).
     bindR (nx_writeBytes X bytes b) (\<lambda>b.
       Inr (p\<lparr> il_byteBuf := nb_resetReader N b, il_update := True \<rparr>))))))))"

definition put_short :: "'b netty_index \<Rightarrow> nat \<Rightarrow> jint \<Rightarrow> 'b \<Rightarrow> 'b res" where
  "put_short X i v b =
     bindR (nx_writerIndex X i (nx_markWriter X b)) (\<lambda>b.
     bindR (nx_writeShort X v b) (\<lambda>b. Inr (nx_resetWriter X b)))"

definition lift_res :: "'a res \<Rightarrow> ('a \<Rightarrow> 'c res option) \<Rightarrow> 'c res option" where
  "lift_res m f = (case m of Inl e \<Rightarrow> Some (Inl e) | Inr x \<Rightarrow> f x)"

definition reCalcIcmpCheckSum :: "'b netty \<Rightarrow> 'b netty_index \<Rightarrow> 'b \<Rightarrow> 'b res option" where
  "reCalcIcmpCheckSum N X payload =
     lift_res (put_short X 2 0 payload) (\<lambda>payload.
     res_opt (calcIp N payload) (\<lambda>(s, b). Some (put_short X 2 s payload)))"

definition reCalcTcpUdp ::
    "'b netty \<Rightarrow> 'b netty_index \<Rightarrow> nat \<Rightarrow> 'b \<Rightarrow> jint \<Rightarrow> string \<Rightarrow> string \<Rightarrow> 'b res option" where
  "reCalcTcpUdp N X off payload protocol srcIp dstIp =
     lift_res (pseudo_header N srcIp dstIp protocol (nb_readableBytes N payload)) (\<lambda>hb.
     res_opt (calcTcpUdp N hb) (\<lambda>(s1, b).
     lift_res (put_short X off 0 payload) (\<lambda>payload.
     res_opt (calcTcpUdp N payload) (\<lambda>(s2, b).
       Some (put_short X off (calcHighLow (s1 + s2)) payload)))))"

definition reCalcTcpCheckSum ::
    "'b netty \<Rightarrow> 'b netty_index \<Rightarrow> 'b \<Rightarrow> jint \<Rightarrow> string \<Rightarrow> string \<Rightarrow> 'b res option" where
  "reCalcTcpCheckSum N X = reCalcTcpUdp N X 16"

definition reCalcUdpCheckSum ::
    "'b netty \<Rightarrow> 'b netty_index \<Rightarrow> 'b \<Rightarrow> jint \<Rightarrow> string \<Rightarrow> string \<Rightarrow> 'b res option" where
  "reCalcUdpCheckSum N X = reCalcTcpUdp N X 6"

definition reCalcIpCheckSum :: "'b netty \<Rightarrow> 'b netty_index \<Rightarrow> 'b \<Rightarrow> 'b res option" where
  "reCalcIpCheckSum N X buf =
     lift_res (nb_readSlice N 20 (nb_markReader N buf)) (\<lambda>(head, b).
     lift_res (put_short X 10 0 head) (\<lambda>head.
     res_opt (calcIp N head) (\<lambda>(s, b).
     lift_res (put_short X 10 s head) (\<lambda>head. Some (Inr (nx_share X (nx_index X buf) head buf))))))"

definition rebuild_transport :: "'b netty \<Rightarrow> 'b netty_index \<Rightarrow> 'b IpLayerPacket \<Rightarrow> 'b res option" where
  "rebuild_transport N X p =
     (let buf = il_byteBuf p in
      lift_res (read_byte_at N X 0 buf) (\<lambda>head.
      lift_res (read_byte_at N X 9 buf) (\<lambda>protocol.
      lift_res (il_getPayload N X buf) (\<lambda>payload.
        if protocol = Tcp then
          lift_res (il_getSrcIP N X p) (\<lambda>srcIp. lift_res (il_getDstIP N X p) (\<lambda>dstIp.
          res_opt (reCalcTcpCheckSum N X payload protocol srcIp dstIp) (\<lambda>payload.
            Some (Inr (nx_share X (head_len head) payload buf)))))
        else if protocol = Udp then
          lift_res (il_getSrcIP N X p) (\<lambda>srcIp. lift_res (il_getDstIP N X p) (\<lambda>dstIp.
          res_opt (reCalcUdpCheckSum N X payload protocol srcIp dstIp) (\<lambda>payload.
            Some (Inr (nx_share X (head_len head) payload buf)))))
        else if protocol = Icmp then
          res_opt (reCalcIcmpCheckSum N X payload) (\<lambda>payload.
            Some (Inr (nx_share X (head_len head) payload buf)))
        else Some (Inr buf)))))"

definition rebuild :: "'b netty \<Rightarrow> 'b netty_index \<Rightarrow> 'b IpLayerPacket \<Rightarrow> 'b res option" where
  "rebuild N X p =
     (if \<not> il_update p then Some (Inr (il_byteBuf p))
      else res_opt (rebuild_transport N X p) (\<lambda>buf. reCalcIpCheckSum N X buf))"

definition il_toString :: "'b netty \<Rightarrow> 'b netty_index \<Rightarrow> 'b IpLayerPacket \<Rightarrow> string res" where
  "il_toString N X p =
     bindR (il_getSrcIP N X p) (\<lambda>s. bindR (il_getDstIP N X p) (\<lambda>d. Inr (s @ '' -> '' @ d)))"

section \<open>The operations on the readable bytes\<close>

lemma take_splice:
  assumes "k + length xs \<le> w" and "w \<le> length m"
  shows "take w (take k m @ xs @ drop (k + length xs) m) = take k (take w m) @ xs @ drop (k + length xs) (take w m)"
proof -
  have "min k (length m) = k" "min k w = k" using assms by simp_all
  moreover have "w - k - length xs = w - (k + length xs)" by simp
  ultimately show ?thesis using assms by (simp add: drop_take)
qed

context netty_indexed
begin

text \<open>A packet buffer: read from the start.\<close>

lemma content_at_reader:
  "rpos b = 0 \<Longrightarrow> content (at_reader i (nb_markReader N b)) = drop i (content b)"
  by (simp add: content_mem)

lemma read_byte_at_run:
  assumes "rpos b = 0" and "i < length (content b)"
  shows "read_byte_at N X i b = Inr (of_nat (unat (content b ! i)))"
proof -
  have "i \<le> wpos b" using assms by (simp add: content_mem)
  moreover have "take 1 (drop i (content b)) = [content b ! i]"
    using assms(2) by (simp add: take_Suc hd_drop_conv_nth)
  ultimately show ?thesis
    using assms by (simp add: read_byte_at_def readerIndex readUnsignedByte content_at_reader be_val_Cons)
qed

lemma read_short_at_run:
  assumes "rpos b = 0" and "i + 2 \<le> length (content b)"
  shows "read_short_at N X i b = Inr (of_nat (be_val (take 2 (drop i (content b)))))"
proof -
  have "i \<le> wpos b" using assms by (simp add: content_mem)
  then show ?thesis
    using assms by (simp add: read_short_at_def readerIndex readUnsignedShort content_at_reader)
qed

lemma readIp_run:
  assumes "rpos (il_byteBuf p) = 0" and "i + 4 \<le> length (content (il_byteBuf p))"
  shows "readIp N X i p = bytes2ip (take 4 (drop i (content (il_byteBuf p))))"
proof -
  have "i \<le> wpos (il_byteBuf p)" using assms by (simp add: content_mem)
  moreover have "4 \<le> length (content (il_byteBuf p)) - i" using assms(2) by linarith
  ultimately show ?thesis
    using assms by (simp add: readIp_def readerIndex readBytes content_at_reader)
qed

lemma put_short_run:
  assumes "rpos b = 0" and "i + 2 \<le> length (content b)"
  shows "\<exists>b'. put_short X i v b = Inr b' \<and> rpos b' = 0 \<and> wpos b' = wpos b \<and> length (mem b') = length (mem b) \<and>
    content b' = take i (content b) @ be_list 2 (unat v) @ drop (i + 2) (content b)"
proof -
  have w: "i + 2 \<le> wpos b" "wpos b \<le> length (mem b)" using assms wpos_le by (simp_all add: content_mem)
  have "take (wpos b) (take i (mem b) @ be_list 2 (unat v) @ drop (i + 2) (mem b)) =
      take i (take (wpos b) (mem b)) @ be_list 2 (unat v) @ drop (i + 2) (take (wpos b) (mem b))"
    using take_splice [of i "be_list 2 (unat v)" "wpos b" "mem b"] w by simp
  then show ?thesis
    using assms w by (simp add: put_short_def writerIndex writeShort content_mem)
qed

lemma writeIp_run:
  assumes "rpos (il_byteBuf p) = 0" and "i + 4 \<le> length (content (il_byteBuf p))"
    and "ip2bytes ip = Inr bs" and "length bs = 4"
  shows "\<exists>b'. writeIp X i ip p = Inr (p\<lparr> il_byteBuf := b' \<rparr>) \<and> rpos b' = 0 \<and> wpos b' = wpos (il_byteBuf p) \<and>
    content b' = take i (content (il_byteBuf p)) @ bs @ drop (i + 4) (content (il_byteBuf p))"
proof -
  let ?b = "il_byteBuf p"
  have w: "i + 4 \<le> wpos ?b" "wpos ?b \<le> length (mem ?b)" using assms wpos_le by (simp_all add: content_mem)
  have "take (wpos ?b) (take i (mem ?b) @ bs @ drop (i + 4) (mem ?b)) =
      take i (take (wpos ?b) (mem ?b)) @ bs @ drop (i + 4) (take (wpos ?b) (mem ?b))"
    using take_splice [of i bs "wpos ?b" "mem ?b"] w assms(4) by simp
  then show ?thesis
    using assms w
    by (intro exI [of _ "nx_resetWriter X (put bs (at_writer i (nx_markWriter X ?b)))"])
      (simp add: writeIp_def writerIndex writeBytes content_mem)
qed

lemma slice_facts: "rpos (sliced n b) = 0 \<and> content (sliced n b) = take n (content b)"
  by simp

lemma content_share:
  assumes "rpos b = 0" and "k + length (mem s) \<le> length (content b)"
  shows "content (nx_share X k s b) = take k (content b) @ mem s @ drop (k + length (mem s)) (content b)"
proof -
  have w: "k + length (mem s) \<le> wpos b" "wpos b \<le> length (mem b)"
    using assms wpos_le by (simp_all add: content_mem)
  then have "take (wpos b) (take k (mem b) @ mem s @ drop (k + length (mem s)) (mem b)) =
      take k (take (wpos b) (mem b)) @ mem s @ drop (k + length (mem s)) (take (wpos b) (mem b))"
    by (rule take_splice)
  then show ?thesis using assms by (simp add: content_mem)
qed

lemma full_slice: "rpos s = 0 \<Longrightarrow> wpos s = length (mem s) \<Longrightarrow> content s = mem s"
  by (simp add: content_mem)

lemma reCalcIpCheckSum_run:
  assumes "rpos b = 0" and "20 \<le> length (content b)"
  shows "\<exists>b'. reCalcIpCheckSum N X b = Some (Inr b') \<and> rpos b' = 0 \<and>
    content b' = take 10 (content b) @
      be_list 2 (inet_checksum (take 10 (content b) @ [0, 0] @ take 8 (drop 12 (content b)))) @
      drop 12 (content b)"
proof -
  let ?c = "content b"
  let ?s = "sliced 20 (nb_markReader N b)"
  have s: "rpos ?s = 0" "content ?s = take 20 ?c" "wpos ?s = 20" "length (mem ?s) = 20"
    using assms(2) by simp_all
  obtain s1 where s1: "put_short X 10 0 ?s = Inr s1" "rpos s1 = 0" "wpos s1 = 20" "length (mem s1) = 20"
    "content s1 = take 10 ?c @ [0, 0] @ take 8 (drop 12 ?c)"
    using put_short_run [of ?s 10 0] s assms(2) by (auto simp: zero_word take_drop min_def)
  let ?k = "inet_checksum (content s1)"
  have l1: "length (content s1) = 20" using s1(5) assms(2) by simp
  have "calcHighLow (word_of_int (java_sum (content s1))) = of_nat ?k"
    by (rule calcHighLow_regular) (simp_all only: l1 regular_bytes_def, simp_all)
  then obtain x where x: "calcIp N s1 = Some (Inr (of_nat ?k, x))"
    using calcIp_run [of s1] by auto
  obtain s2 where s2: "put_short X 10 (of_nat ?k) s1 = Inr s2" "rpos s2 = 0" "wpos s2 = 20" "length (mem s2) = 20"
    "content s2 = take 10 ?c @ be_list 2 ?k @ take 8 (drop 12 ?c)"
    using put_short_run [of s1 10 "of_nat ?k"] s1 l1 assms(2) by auto
  have m: "mem s2 = take 10 ?c @ be_list 2 ?k @ take 8 (drop 12 ?c)"
    using full_slice [of s2] s2 by simp
  have "content (nx_share X 0 s2 b) = mem s2 @ drop 20 ?c"
    using content_share [of b 0 s2] assms s2(4) by simp
  also have "\<dots> = take 10 ?c @ be_list 2 ?k @ (take 8 (drop 12 ?c) @ drop 20 ?c)" unfolding m by simp
  also have "take 8 (drop 12 ?c) @ drop 20 ?c = drop 12 ?c"
    using append_take_drop_id [of 8 "drop 12 ?c"] by simp
  finally have "content (nx_share X 0 s2 b) = take 10 ?c @ be_list 2 ?k @ drop 12 ?c" .
  moreover have "reCalcIpCheckSum N X b = Some (Inr (nx_share X 0 s2 b))"
    using assms s1(1) s2(1) x by (simp add: reCalcIpCheckSum_def lift_res_def readSlice)
  ultimately show ?thesis using assms(1) s1(5) by simp
qed


lemma unat_head_checksum [simp]: "unat (of_nat (inet_checksum bs) :: jint) = inet_checksum bs"
  by (simp add: unat_of_nat inet_checksum_def)

lemma regular_put:
  assumes "i + 2 \<le> length c" and "regular_bytes c" and "even i"
  shows "regular_bytes (take i c @ [0, 0] @ drop (i + 2) c)"
proof (cases "drop (i + 2) c = []")
  case True
  then have "length (take i c @ [0, 0] @ drop (i + 2) c) = i + 2" using assms(1) by simp
  then show ?thesis unfolding regular_bytes_def using assms(3) by simp
next
  case False
  then have "last (take i c @ [0, 0] @ drop (i + 2) c) = last c" by (simp add: last_drop)
  moreover have "length (take i c @ [0, 0] @ drop (i + 2) c) = length c" using assms(1) by simp
  ultimately show ?thesis using assms(2) by (simp add: regular_bytes_def)
qed

lemma reCalcIcmpCheckSum_run:
  assumes "rpos b = 0" and "4 \<le> length (content b)" and "wpos b = length (mem b)"
    and "length (content b) \<le> 65535"
  shows "\<exists>b' ck. reCalcIcmpCheckSum N X b = Some (Inr b') \<and>
    mem b' = take 2 (content b) @ be_list 2 ck @ drop 4 (content b) \<and>
    (regular_bytes (content b) \<longrightarrow> inet_checksum (mem b') = 0)"
proof -
  let ?c = "content b"
  obtain s1 where s1: "put_short X 2 0 b = Inr s1" "rpos s1 = 0" "wpos s1 = length (mem s1)"
    "content s1 = take 2 ?c @ [0, 0] @ drop 4 ?c"
    using put_short_run [of b 2 0] assms by (auto simp: zero_word)
  define k where "k = (if regular_bytes ?c then inet_checksum (content s1) else unat (calcHighLow (word_of_int (java_sum (content s1)))))"
  have l1: "length (content s1) = length ?c" using s1(4) assms(2) by simp
  have "regular_bytes (content s1)" if "regular_bytes ?c" using regular_put [of 2 ?c] assms s1(4) that by simp
  then have "calcHighLow (word_of_int (java_sum (content s1))) = of_nat k"
    using l1 assms(4) calcHighLow_regular [of "content s1"] by (simp add: k_def)
  then obtain x where x: "calcIp N s1 = Some (Inr (of_nat k, x))" using calcIp_run [of s1] by auto
  have k32: "unat (of_nat k :: jint) = k" by (simp add: k_def unat_head_checksum)
  obtain s2 where s2: "put_short X 2 (of_nat k) s1 = Inr s2" "rpos s2 = 0" "wpos s2 = length (mem s2)"
    "content s2 = take 2 ?c @ be_list 2 k @ drop 4 ?c"
    using put_short_run [of s1 2 "of_nat k"] s1 l1 assms(2) k32 by auto
  have "mem s2 = take 2 ?c @ be_list 2 k @ drop 4 ?c" using full_slice [of s2] s2 by simp
  moreover have "inet_checksum (take 2 ?c @ be_list 2 k @ drop 4 ?c) = 0" if "regular_bytes ?c"
    using checksum_inserted [of "take 2 ?c" "drop 4 ?c"] assms(2) s1(4) that by (simp add: k_def)
  moreover have "reCalcIcmpCheckSum N X b = Some (Inr s2)"
    using s1(1) s2(1) x by (simp add: reCalcIcmpCheckSum_def lift_res_def)
  ultimately show ?thesis by auto
qed

lemma reCalcTcpUdp_run:
  assumes "rpos b = 0" and "off + 2 \<le> length (content b)" and "wpos b = length (mem b)" and "even off"
    and "length (content b) \<le> 65500"
    and "ip2bytes src = Inr s" "ip2bytes dst = Inr d" "length s = 4" "length d = 4"
  shows "\<exists>b' ck. reCalcTcpUdp N X off b pr src dst = Some (Inr b') \<and>
    mem b' = take off (content b) @ be_list 2 ck @ drop (off + 2) (content b) \<and>
    (regular_bytes (content b) \<longrightarrow> inet_checksum (pseudo_wire s d pr (length (content b)) @ mem b') = 0)"
proof -
  let ?c = "content b"
  let ?pw = "pseudo_wire s d pr (length ?c)"
  have pl: "even (length ?pw)" "length ?pw = 12" using assms(8,9) by (simp_all add: pseudo_wire_def)
  obtain hb where hb: "pseudo_header N src dst pr (length ?c) = Inr hb" "content hb = ?pw"
    using pseudo_header_run [OF assms(6,7), of "length ?c" pr] assms(5) by auto
  obtain x1 where x1: "calcTcpUdp N hb = Some (Inr (word_of_int (java_sum ?pw), x1))"
    using calcTcpUdp_run [of hb] hb by auto
  obtain s1 where s1: "put_short X off 0 b = Inr s1" "rpos s1 = 0" "wpos s1 = length (mem s1)"
    "content s1 = take off ?c @ [0, 0] @ drop (off + 2) ?c"
    using put_short_run [of b off 0] assms by (auto simp: zero_word)
  obtain x2 where x2: "calcTcpUdp N s1 = Some (Inr (word_of_int (java_sum (content s1)), x2))"
    using calcTcpUdp_run [of s1] by auto
  let ?sum = "word_of_int (java_sum ?pw) + word_of_int (java_sum (content s1)) :: jint"
  define k where "k = (if regular_bytes ?c then inet_checksum (?pw @ content s1) else unat (calcHighLow ?sum))"
  have l1: "length (content s1) = length ?c" using s1(4) assms(2) by simp
  have r: "regular_bytes (?pw @ content s1)" if "regular_bytes ?c"
    using regular_put [of off ?c] assms s1(4) that pl(1) by (simp add: regular_append)
  have "length (?pw @ content s1) \<le> 65535" using pl(2) l1 assms(5) by simp
  then have k: "calcHighLow ?sum = of_nat k"
    using calcHighLow_regular [OF _ r] by (simp add: java_sum_append [OF pl(1)] k_def)
  have k32: "unat (of_nat k :: jint) = k" by (simp add: k_def unat_head_checksum)
  obtain s2 where s2: "put_short X off (of_nat k) s1 = Inr s2" "rpos s2 = 0" "wpos s2 = length (mem s2)"
    "content s2 = take off ?c @ be_list 2 k @ drop (off + 2) ?c"
    using put_short_run [of s1 off "of_nat k"] s1 l1 assms(2) k32 by auto
  have m: "mem s2 = take off ?c @ be_list 2 k @ drop (off + 2) ?c" using full_slice [of s2] s2 by simp
  have "inet_checksum (?pw @ mem s2) = 0" if "regular_bytes ?c"
    using checksum_inserted [of "?pw @ take off ?c" "drop (off + 2) ?c"] assms(2,4) pl(1) s1(4) that
    by (simp add: m k_def)
  moreover have "reCalcTcpUdp N X off b pr src dst = Some (Inr s2)"
    using s1(1) s2(1) x1 x2 hb(1) k by (simp add: reCalcTcpUdp_def lift_res_def)
  ultimately show ?thesis using m by auto
qed

end

section \<open>What rebuild must achieve\<close>

definition ip_hlen :: "jbyte list \<Rightarrow> nat" where
  "ip_hlen c = 4 * (unat (c ! 0) mod 16)"

definition ck_offset :: "nat \<Rightarrow> nat" where
  "ck_offset protocol = (if protocol = 6 then 16 else if protocol = 17 then 6 else 2)"

definition transport_min :: "nat \<Rightarrow> nat" where
  "transport_min protocol = (if protocol = 6 then 18 else if protocol = 17 then 8 else if protocol = 1 then 4 else 0)"

definition transport_valid :: "nat \<Rightarrow> jbyte list \<Rightarrow> jbyte list \<Rightarrow> jbyte list \<Rightarrow> bool" where
  "transport_valid protocol s d pl \<longleftrightarrow>
     (if protocol = 6 \<or> protocol = 17
      then inet_checksum (pseudo_wire s d (of_nat protocol) (length pl) @ pl) = 0
      else protocol = 1 \<longrightarrow> inet_checksum pl = 0)"

definition same_except :: "nat set \<Rightarrow> 'a list \<Rightarrow> 'a list \<Rightarrow> bool" where
  "same_except A c c' \<longleftrightarrow> length c' = length c \<and> (\<forall>i < length c. i \<notin> A \<longrightarrow> c' ! i = c ! i)"

text \<open>A packet whose header and payload are long enough for the offsets the code uses.\<close>

definition ip_packet_ok :: "jbyte list \<Rightarrow> bool" where
  "ip_packet_ok c \<longleftrightarrow>
     20 \<le> ip_hlen c \<and> ip_hlen c + transport_min (unat (c ! 9)) \<le> length c \<and> length c \<le> 65500"

lemma same_except_patch:
  assumes "k + length xs \<le> length c"
  shows "same_except {k..<k + length xs} c (take k c @ xs @ drop (k + length xs) c)"
  using assms by (auto simp: same_except_def nth_append min_def)

lemma same_except_trans:
  "same_except A c c' \<Longrightarrow> same_except B c' c'' \<Longrightarrow> same_except (A \<union> B) c c''"
  by (auto simp: same_except_def)

lemma same_except_nth: "same_except A c c' \<Longrightarrow> i < length c \<Longrightarrow> i \<notin> A \<Longrightarrow> c' ! i = c ! i"
  by (simp add: same_except_def)

lemma same_except_slice:
  assumes "same_except A c c'" and "A \<inter> {k..<k + n} = {}"
  shows "take n (drop k c') = take n (drop k c)"
proof -
  have "c' ! (k + i) = c ! (k + i)" if "i < n" "k + i < length c" for i
    using assms that by (auto simp: same_except_def)
  then show ?thesis using assms(1) by (intro nth_equalityI) (auto simp: same_except_def)
qed

definition rebuilt :: "jbyte list \<Rightarrow> jbyte list \<Rightarrow> bool" where
  "rebuilt c c' \<longleftrightarrow>
     (let h = ip_hlen c; pr = unat (c ! 9) in
        inet_checksum (take 20 c') = 0 \<and>
        (regular_bytes (drop h c) \<longrightarrow> transport_valid pr (take 4 (drop 12 c)) (take 4 (drop 16 c)) (drop h c')) \<and>
        same_except ((\<lambda>i. h + i) ` (if pr \<in> {1, 6, 17} then {ck_offset pr..<ck_offset pr + 2} else {}) \<union> {10..<12}) c c')"

lemma same_except_tail:
  assumes "same_except A (drop h c) pl" and "h \<le> length c"
  shows "same_except ((\<lambda>i. h + i) ` A) c (take h c @ pl)"
proof -
  have "(take h c @ pl) ! i = c ! i" if "i < length c" "i \<notin> (\<lambda>i. h + i) ` A" for i
  proof (cases "i < h")
    case False
    then obtain j where j: "i = h + j" using le_Suc_ex by (meson not_less)
    then have "j \<notin> A" "j < length c - h" using that by auto
    then show ?thesis using assms j by (auto simp: same_except_def nth_append)
  qed (use that in \<open>simp add: nth_append\<close>)
  then show ?thesis using assms by (auto simp: same_except_def)
qed

lemma unat_head_len: "head_len (of_nat (unat (h :: jbyte))) = 4 * (unat h mod 16)"
proof -
  have "(of_nat (unat h) :: jint) AND 15 = take_bit 4 (of_nat (unat h))"
    by (simp add: take_bit_eq_mask mask_eq_exp_minus_1)
  also have "\<dots> = of_nat (unat h mod 16)"
    by (subst take_bit_of_nat) (simp add: take_bit_eq_mod)
  finally have "((of_nat (unat h) :: jint) AND 15) * 4 = of_nat (unat h mod 16 * 4)" by simp
  moreover have "unat h mod 16 * 4 < 2 ^ LENGTH(32)" by (rule le_less_trans [of _ 60]) simp_all
  ultimately show ?thesis unfolding head_len_def by (simp only: unat_of_nat mod_less)
qed

lemma head_len_ucast: "head_len (ucast (h :: jbyte)) = 4 * (unat h mod 16)"
  using unat_head_len [of h] by simp

lemma byte_eq_num:
  assumes "n < 256"
  shows "(of_nat (unat (b :: jbyte)) :: jint) = of_nat n \<longleftrightarrow> unat b = n"
proof
  assume "(of_nat (unat b) :: jint) = of_nat n"
  then have "unat (of_nat (unat b) :: jint) = unat (of_nat n :: jint)" by simp
  moreover have "unat b < 2 ^ LENGTH(32)" "n < 2 ^ LENGTH(32)"
    using unat_byte_bound [of b] assms by (simp_all del: unat_byte_bound)
  ultimately show "unat b = n" by (simp only: unat_of_nat mod_less)
qed simp

lemma quad_string:
  assumes "length q = 4"
  obtains ip where "bytes2ip q = Inr ip" and "ip2bytes ip = Inr q"
  using ip2bytes_bytes2ip [OF assms] by (cases "bytes2ip q") auto

text \<open>The text of an address of four bytes, and the keys of a flow.\<close>

definition the_ip :: "jbyte list \<Rightarrow> string" where
  "the_ip q = (case bytes2ip q of Inr s \<Rightarrow> s | Inl _ \<Rightarrow> [])"

definition icmp_key :: "bool \<Rightarrow> jbyte list \<Rightarrow> jbyte list \<Rightarrow> jbyte list \<Rightarrow> string" where
  "icmp_key ex s d ident =
     ''1:'' @ show_nat (be_val ident) @ '' '' @
     (if ex then the_ip d @ ''->'' @ the_ip s else the_ip s @ ''->'' @ the_ip d)"

definition flow_key :: "bool \<Rightarrow> nat \<Rightarrow> jbyte list \<Rightarrow> jbyte list \<Rightarrow> jbyte list \<Rightarrow> jbyte list \<Rightarrow> string" where
  "flow_key ex pr s sp d dp =
     (let a = the_ip s @ '':'' @ show_nat (be_val sp); b = the_ip d @ '':'' @ show_nat (be_val dp)
      in show_nat pr @ '': '' @ (if ex then b @ ''->'' @ a else a @ ''->'' @ b))"

lemma be_list_2: "be_list 2 v = [of_nat (v div 256), of_nat v]"
  by (simp add: numeral_2_eq_2 be_list_Suc)

lemma be_list_1: "be_list 1 v = [of_nat v]" "be_list (Suc 0) v = [of_nat v]"
  by (simp_all add: be_list_Suc)

lemma show_int_1: "show_int 1 = ''1''"
  by code_simp

lemma sint_be2: "sint (of_nat (be_val (take 2 xs)) :: jint) = int (be_val (take 2 xs))"
proof -
  have "be_val (take 2 xs) < 256 ^ length (take 2 xs)" by (rule be_val_bound)
  also have "\<dots> \<le> 256 ^ 2" by (rule power_increasing) simp_all
  finally have b: "be_val (take 2 xs) < 65536" by simp
  then have "unat (of_nat (be_val (take 2 xs)) :: jint) = be_val (take 2 xs)" by (simp add: unat_of_nat)
  then show ?thesis using b by (subst sint_small) simp_all
qed

context netty_indexed
begin

lemma il_getPayload_run:
  assumes "rpos b = 0" and "0 < length (content b)" and "ip_hlen (content b) \<le> length (content b)"
  shows "\<exists>s. il_getPayload N X b = Inr s \<and> rpos s = 0 \<and> content s = drop (ip_hlen (content b)) (content b) \<and>
    wpos s = length (mem s)"
proof -
  have "ip_hlen (content b) \<le> wpos b" using assms by (simp add: content_mem)
  then show ?thesis using assms
    by (simp add: il_getPayload_def read_byte_at_run head_len_ucast readerIndex ip_hlen_def [symmetric]
        readSlice content_at_reader)
qed

lemma rebuild_transport_run:
  assumes r: "rpos (il_byteBuf p) = 0" and ok: "ip_packet_ok (content (il_byteBuf p))"
  defines "c \<equiv> content (il_byteBuf p)"
  shows "\<exists>b' pl. rebuild_transport N X p = Some (Inr b') \<and> rpos b' = 0 \<and>
    content b' = take (ip_hlen c) c @ pl \<and>
    same_except (if unat (c ! 9) \<in> {1, 6, 17} then {ck_offset (unat (c ! 9))..<ck_offset (unat (c ! 9)) + 2} else {})
      (drop (ip_hlen c) c) pl \<and>
    (regular_bytes (drop (ip_hlen c) c) \<longrightarrow> transport_valid (unat (c ! 9)) (take 4 (drop 12 c)) (take 4 (drop 16 c)) pl)"
proof -
  let ?b = "il_byteBuf p" and ?h = "ip_hlen c" and ?pr = "unat (c ! 9)"
  have len: "20 \<le> ?h" "?h + transport_min ?pr \<le> length c" "length c \<le> 65500"
    using ok by (simp_all add: ip_packet_ok_def c_def)
  then have l20: "20 \<le> length c" by linarith
  have ne: "content ?b \<noteq> []" using l20 by (auto simp: c_def)
  obtain sl where sl: "il_getPayload N X ?b = Inr sl" "rpos sl = 0" "content sl = drop ?h c" "wpos sl = length (mem sl)"
    using il_getPayload_run [OF r] len l20 unfolding c_def by (metis add_leD1 le_less_trans length_greater_0_conv list.size(3) not_less zero_le zero_less_numeral)
  have lsl: "length (content sl) = length c - ?h" using sl(3) by simp
  have hd0: "read_byte_at N X 0 ?b = Inr (ucast (c ! 0))" "read_byte_at N X 9 ?b = Inr (ucast (c ! 9))"
    using read_byte_at_run [OF r, of 0] read_byte_at_run [OF r, of 9] l20 ne
    by (simp_all add: c_def)
  have hl: "head_len (ucast (c ! 0)) = ?h" by (simp only: head_len_ucast ip_hlen_def)
  obtain src where src: "bytes2ip (take 4 (drop 12 c)) = Inr src" "ip2bytes src = Inr (take 4 (drop 12 c))"
    by (rule quad_string [of "take 4 (drop 12 c)"]) (use l20 in simp)
  obtain dst where dst: "bytes2ip (take 4 (drop 16 c)) = Inr dst" "ip2bytes dst = Inr (take 4 (drop 16 c))"
    by (rule quad_string [of "take 4 (drop 16 c)"]) (use l20 in simp)
  have ips: "il_getSrcIP N X p = Inr src" "il_getDstIP N X p = Inr dst"
    using readIp_run [OF r] l20 src(1) dst(1) by (simp_all add: il_getSrcIP_def il_getDstIP_def c_def)
  have pr_eq: "(ucast (c ! 9) = Tcp) = (?pr = 6)" "(ucast (c ! 9) = Udp) = (?pr = 17)"
    "(ucast (c ! 9) = Icmp) = (?pr = 1)"
    using byte_eq_num [of 6 "c ! 9"] byte_eq_num [of 17 "c ! 9"] byte_eq_num [of 1 "c ! 9"]
    by (simp_all add: Tcp_def Udp_def Icmp_def)
  have share: "content (nx_share X ?h s ?b) = take ?h c @ mem s" if "length (mem s) = length c - ?h" for s
    using content_share [OF r, of ?h s] that len by (simp add: c_def)
  consider (tu) "?pr = 6 \<or> ?pr = 17" | (icmp) "?pr = 1" | (other) "?pr \<noteq> 6 \<and> ?pr \<noteq> 17 \<and> ?pr \<noteq> 1" by blast
  then show ?thesis
  proof cases
    case tu
    let ?o = "ck_offset ?pr"
    have o: "?o + 2 \<le> length (content sl)" "even ?o" "length (content sl) \<le> 65500"
      using tu len lsl by (auto simp: ck_offset_def transport_min_def)
    obtain s' ck where s': "reCalcTcpUdp N X ?o sl (of_nat ?pr) src dst = Some (Inr s')"
      "mem s' = take ?o (content sl) @ be_list 2 ck @ drop (?o + 2) (content sl)"
      "regular_bytes (drop ?h c) \<longrightarrow>
        inet_checksum (pseudo_wire (take 4 (drop 12 c)) (take 4 (drop 16 c)) (of_nat ?pr) (length (content sl)) @ mem s') = 0"
      using reCalcTcpUdp_run [OF sl(2) o(1) sl(4) o(2,3) src(2) dst(2), of "of_nat ?pr"] l20 sl(3) by auto
    have se: "same_except {?o..<?o + 2} (content sl) (mem s')"
      using same_except_patch [of ?o "be_list 2 ck" "content sl"] o(1) s'(2) by simp
    then have ls: "length (mem s') = length (content sl)" by (simp add: same_except_def)
    have "rebuild_transport N X p = Some (Inr (nx_share X ?h s' ?b))"
      using tu s'(1) by (auto simp: rebuild_transport_def lift_res_def Let_def hd0 sl(1) pr_eq ips hl
          reCalcTcpCheckSum_def reCalcUdpCheckSum_def ck_offset_def)
    moreover have "regular_bytes (drop ?h c) \<longrightarrow> transport_valid ?pr (take 4 (drop 12 c)) (take 4 (drop 16 c)) (mem s')"
      using tu s'(3) ls by (simp add: transport_valid_def)
    ultimately show ?thesis using share [of s'] ls lsl se sl(3) r tu by auto
  next
    case icmp
    have l4: "4 \<le> length (content sl)" "length (content sl) \<le> 65535"
      using icmp len lsl by (auto simp: transport_min_def)
    obtain s' ck where s': "reCalcIcmpCheckSum N X sl = Some (Inr s')"
      "mem s' = take 2 (content sl) @ be_list 2 ck @ drop 4 (content sl)"
      "regular_bytes (drop ?h c) \<longrightarrow> inet_checksum (mem s') = 0"
      using reCalcIcmpCheckSum_run [OF sl(2) l4(1) sl(4) l4(2)] sl(3) by auto
    have se: "same_except {2..<4} (content sl) (mem s')"
      using same_except_patch [of 2 "be_list 2 ck" "content sl"] l4(1) s'(2) by simp
    then have ls: "length (mem s') = length (content sl)" by (simp add: same_except_def)
    have "rebuild_transport N X p = Some (Inr (nx_share X ?h s' ?b))"
      using s'(1) by (simp add: rebuild_transport_def lift_res_def Let_def hd0 sl(1) pr_eq hl icmp)
    moreover have "regular_bytes (drop ?h c) \<longrightarrow> transport_valid ?pr (take 4 (drop 12 c)) (take 4 (drop 16 c)) (mem s')"
      using icmp s'(3) by (simp add: transport_valid_def)
    ultimately show ?thesis using share [of s'] ls lsl se sl(3) r icmp by (auto simp: ck_offset_def)
  next
    case other
    then have "rebuild_transport N X p = Some (Inr ?b)"
      by (simp add: rebuild_transport_def lift_res_def Let_def hd0 sl(1) pr_eq)
    then show ?thesis using other r
      by (intro exI [of _ ?b] exI [of _ "drop ?h c"])
        (simp add: transport_valid_def same_except_def c_def)
  qed
qed

lemma rebuild_run:
  assumes r: "rpos (il_byteBuf p) = 0" and ok: "ip_packet_ok (content (il_byteBuf p))" and u: "il_update p"
  defines "c \<equiv> content (il_byteBuf p)"
  shows "\<exists>b'. rebuild N X p = Some (Inr b') \<and> rebuilt c (content b')"
proof -
  let ?h = "ip_hlen c" and ?pr = "unat (c ! 9)"
  have len: "20 \<le> ?h" "?h \<le> length c" using ok by (simp_all add: ip_packet_ok_def c_def)
  let ?A = "if ?pr \<in> {1, 6, 17} then {ck_offset ?pr..<ck_offset ?pr + 2} else {}"
  obtain b1 pl where b1: "rebuild_transport N X p = Some (Inr b1)" "rpos b1 = 0" "content b1 = take ?h c @ pl"
    "same_except ?A (drop ?h c) pl"
    "regular_bytes (drop ?h c) \<longrightarrow> transport_valid ?pr (take 4 (drop 12 c)) (take 4 (drop 16 c)) pl"
    using rebuild_transport_run [OF r ok] unfolding c_def by blast
  let ?c1 = "content b1"
  have lp: "length pl = length c - ?h" using b1(4) by (simp add: same_except_def)
  then have l1: "length ?c1 = length c" "20 \<le> length ?c1" using b1(3) len by simp_all
  obtain b2 where b2: "reCalcIpCheckSum N X b1 = Some (Inr b2)"
    "content b2 = take 10 ?c1 @ be_list 2 (inet_checksum (take 10 ?c1 @ [0, 0] @ take 8 (drop 12 ?c1))) @ drop 12 ?c1"
    using reCalcIpCheckSum_run [OF b1(2) l1(2)] by auto
  let ?c2 = "content b2"
  have s2: "same_except {10..<12} ?c1 ?c2"
    using same_except_patch [of 10 "be_list 2 _" ?c1] l1 unfolding b2(2) by simp
  have s1: "same_except ((\<lambda>i. ?h + i) ` ?A) c ?c1"
    using same_except_tail [OF b1(4)] len(2) unfolding b1(3) by simp
  have "drop ?h ?c2 = drop ?h ?c1"
    unfolding b2(2) using len l1 by (simp add: drop_append)
  then have tl: "drop ?h ?c2 = pl" using b1(3) len(2) by simp
  have same: "same_except ((\<lambda>i. ?h + i) ` ?A \<union> {10..<12}) c ?c2" by (rule same_except_trans [OF s1 s2])
  have e: "?c2 ! 0 = c ! 0" "?c2 ! 9 = c ! 9"
    by (rule same_except_nth [OF same], use len in auto)+
  have d: "take 4 (drop 12 ?c2) = take 4 (drop 12 c)" "take 4 (drop 16 ?c2) = take 4 (drop 16 c)"
    by (rule same_except_slice [OF same], use len in auto)+
  have "take 20 ?c2 = take 10 ?c1 @ be_list 2 (inet_checksum (take 10 ?c1 @ [0, 0] @ take 8 (drop 12 ?c1))) @ take 8 (drop 12 ?c1)"
    unfolding b2(2) using l1 by simp
  then have "inet_checksum (take 20 ?c2) = 0"
    using checksum_inserted [of "take 10 ?c1" "take 8 (drop 12 ?c1)"] l1 by simp
  moreover have "rebuild N X p = Some (Inr b2)" using u b1(1) b2(1) by (simp add: rebuild_def)
  ultimately show ?thesis
    using same tl b1(5) e d by (auto simp: rebuilt_def ip_hlen_def Let_def)
qed

lemma setIP_run:
  assumes r: "rpos (il_byteBuf p) = 0" and i: "i + 4 \<le> 20" and l: "20 \<le> length (content (il_byteBuf p))"
    and bs: "ip2bytes ip = Inr bs" "length bs = 4"
  defines "c' \<equiv> take i (content (il_byteBuf p)) @ bs @ drop (i + 4) (content (il_byteBuf p))"
  shows "\<exists>b'. bindR (writeIp X i ip p) (\<lambda>p. Inr (p\<lparr> il_update := True \<rparr>)) = Inr \<lparr> il_byteBuf = b', il_update = True \<rparr> \<and>
    rpos b' = 0 \<and> content b' = c'"
proof -
  have "i + 4 \<le> length (content (il_byteBuf p))" using i l by linarith
  then obtain b' where "writeIp X i ip p = Inr (p\<lparr> il_byteBuf := b' \<rparr>)" "rpos b' = 0" "content b' = c'"
    using writeIp_run [OF r _ bs, of i] unfolding c'_def by blast
  then show ?thesis by (cases p) simp
qed

lemma ip_packet_ok_patch:
  assumes "ip_packet_ok c" and "10 \<le> i" and "i + length bs \<le> 20"
  shows "ip_packet_ok (take i c @ bs @ drop (i + length bs) c)"
proof -
  let ?c = "take i c @ bs @ drop (i + length bs) c"
  have l: "20 \<le> length c" "20 \<le> ip_hlen c" using assms(1) by (simp_all add: ip_packet_ok_def)
  then have same: "same_except {i..<i + length bs} c ?c" using assms by (intro same_except_patch) simp
  have e: "?c ! 0 = c ! 0" "?c ! 9 = c ! 9"
    by (rule same_except_nth [OF same], use l assms in auto)+
  then have h: "ip_hlen ?c = ip_hlen c" by (simp add: ip_hlen_def)
  moreover have "drop (ip_hlen c) ?c = drop (ip_hlen c) c" using l assms by (simp add: drop_append)
  moreover have "length ?c = length c" using same by (simp add: same_except_def)
  ultimately show ?thesis using assms(1) e by (simp only: ip_packet_ok_def)
qed

lemma rewrite_run:
  assumes r: "rpos (il_byteBuf p) = 0" and ok: "ip_packet_ok (content (il_byteBuf p))" and i: "i = 12 \<or> i = 16"
    and bs: "ip2bytes ip = Inr bs" "length bs = 4"
  defines "c' \<equiv> take i (content (il_byteBuf p)) @ bs @ drop (i + 4) (content (il_byteBuf p))"
  shows "\<exists>q b'. bindR (writeIp X i ip p) (\<lambda>p. Inr (p\<lparr> il_update := True \<rparr>)) = Inr q \<and>
    il_getSrcIP N X q = bytes2ip (take 4 (drop 12 c')) \<and> il_getDstIP N X q = bytes2ip (take 4 (drop 16 c')) \<and>
    rebuild N X q = Some (Inr b') \<and> rebuilt c' (content b')"
proof -
  have l: "20 \<le> length (content (il_byteBuf p))" using ok by (simp add: ip_packet_ok_def)
  have i4: "i + 4 \<le> 20" using i by auto
  obtain b where b: "bindR (writeIp X i ip p) (\<lambda>p. Inr (p\<lparr> il_update := True \<rparr>)) = Inr \<lparr> il_byteBuf = b, il_update = True \<rparr>"
    "rpos b = 0" "content b = c'"
    using setIP_run [OF r i4 l bs] unfolding c'_def by blast
  let ?q = "\<lparr> il_byteBuf = b, il_update = True \<rparr>"
  have ok': "ip_packet_ok c'"
    using ip_packet_ok_patch [OF ok, of i bs] i bs(2) unfolding c'_def by auto
  then have l': "20 \<le> length c'" by (simp add: ip_packet_ok_def)
  have "\<exists>b'. rebuild N X ?q = Some (Inr b') \<and> rebuilt c' (content b')"
    using rebuild_run [of ?q] b ok' by simp
  moreover have "il_getSrcIP N X ?q = bytes2ip (take 4 (drop 12 c'))" "il_getDstIP N X ?q = bytes2ip (take 4 (drop 16 c'))"
    using readIp_run [of ?q 12] readIp_run [of ?q 16] b l' by (simp_all add: il_getSrcIP_def il_getDstIP_def)
  ultimately show ?thesis using b(1) by blast
qed

lemma setPayload_run:
  assumes r: "rpos (il_byteBuf p) = 0" and h: "20 \<le> ip_hlen c" and c: "content (il_byteBuf p) = c"
    and fits: "ip_hlen c + length pl \<le> length (mem (il_byteBuf p))" and hc: "ip_hlen c \<le> length c"
    and pl: "content payload = pl"
  shows "\<exists>q. il_setPayload N X payload p = Inr q \<and> il_update q \<and> rpos (il_byteBuf q) = 0 \<and>
    content (il_byteBuf q) =
      take 2 c @ be_list 2 (unat (of_nat (ip_hlen c + length pl) :: jint)) @ take (ip_hlen c - 4) (drop 4 c) @ pl"
proof -
  let ?b = "il_byteBuf p" and ?h = "ip_hlen c"
  let ?l = "be_list 2 (unat (of_nat (?h + length pl) :: jint))"
  have w: "?h \<le> wpos ?b" "wpos ?b \<le> length (mem ?b)" and cm: "c = take (wpos ?b) (mem ?b)"
    using hc c wpos_le [of ?b] r by (auto simp: content_mem)
  let ?b1 = "put ?l (at_writer 2 (at_reader 1 (nb_markReader N ?b)))"
  let ?b2 = "put pl (at_writer ?h ?b1)"
  have m1: "mem ?b1 = take 2 (mem ?b) @ ?l @ drop 4 (mem ?b)" using w h by simp
  then have l1: "length (mem ?b1) = length (mem ?b)" using w h by simp
  have hd0: "read_byte_at N X 0 ?b = Inr (ucast (c ! 0))"
    using read_byte_at_run [OF r, of 0] hc h c by (cases c) auto
  have hl: "head_len (ucast (c ! 0)) = ?h" by (simp only: head_len_ucast ip_hlen_def)
  have "il_setPayload N X payload p = Inr (p\<lparr> il_byteBuf := nb_resetReader N ?b2, il_update := True \<rparr>)"
    unfolding il_setPayload_def hd0 using w h pl l1 fits r
    by (simp add: hl readerIndex writerIndex writeShort writeBytes readBytes)
  moreover have t: "take ?h (mem ?b1) = take 2 c @ ?l @ take (?h - 4) (drop 4 c)"
  proof -
    have "take ?h (mem ?b1) = take 2 (mem ?b) @ ?l @ take (?h - 4) (drop 4 (mem ?b))"
      unfolding m1 using w h by simp
    also have "take 2 (mem ?b) = take 2 c" using w h unfolding cm by simp
    also have "take (?h - 4) (drop 4 (mem ?b)) = take (?h - 4) (drop 4 c)"
      using w h unfolding cm by (simp add: drop_take)
    finally show ?thesis .
  qed
  moreover have "content (nb_resetReader N ?b2) = take ?h (mem ?b1) @ pl"
  proof -
    have "wpos ?b2 = ?h + length pl" "mem ?b2 = take ?h (mem ?b1) @ pl @ drop (?h + length pl) (mem ?b1)"
      using w l1 by simp_all
    then show ?thesis using w l1 r by (simp add: content_mem del: mem_put)
  qed
  moreover have "rpos (nb_resetReader N ?b2) = 0" using r by simp
  ultimately show ?thesis
    by (intro exI [of _ "p\<lparr> il_byteBuf := nb_resetReader N ?b2, il_update := True \<rparr>"]) simp
qed

lemma identifier_run:
  assumes r: "rpos (il_byteBuf p) = 0" and c: "content (il_byteBuf p) = c" and l: "24 \<le> length c"
    and icmp: "unat (c ! 9) = 1 \<Longrightarrow> 26 \<le> length c"
  shows "getIdentifier N X u ex p =
    (if unat (c ! 9) = 1 then Inr (icmp_key ex (take 4 (drop 12 c)) (take 4 (drop 16 c)) (take 2 (drop 24 c)))
     else if unat (c ! 9) = 6 \<or> unat (c ! 9) = 17
     then Inr (flow_key ex (unat (c ! 9)) (take 4 (drop 12 c)) (take 2 (drop 20 c)) (take 4 (drop 16 c)) (take 2 (drop 22 c)))
     else Inr u)"
proof -
  obtain src where src: "bytes2ip (take 4 (drop 12 c)) = Inr src"
    by (rule quad_string [of "take 4 (drop 12 c)"]) (use l in simp)
  obtain dst where dst: "bytes2ip (take 4 (drop 16 c)) = Inr dst"
    by (rule quad_string [of "take 4 (drop 16 c)"]) (use l in simp)
  have ips: "il_getSrcIP N X p = Inr src" "il_getDstIP N X p = Inr dst"
    using readIp_run [OF r] l src dst by (simp_all add: il_getSrcIP_def il_getDstIP_def c)
  have prot: "il_getProtocol N X p = Inr (ucast (c ! 9))"
    using read_byte_at_run [OF r, of 9] l by (simp add: il_getProtocol_def c)
  have ports: "il_getSrcPort N X p = Inr (of_nat (be_val (take 2 (drop 20 c))))"
    "il_getDstPort N X p = Inr (of_nat (be_val (take 2 (drop 22 c))))"
    using read_short_at_run [OF r, of 20] read_short_at_run [OF r, of 22] l
    by (simp_all add: il_getSrcPort_def il_getDstPort_def c)
  have ident: "26 \<le> length c \<Longrightarrow> read_short_at N X 24 (il_byteBuf p) = Inr (of_nat (be_val (take 2 (drop 24 c))))"
    using read_short_at_run [OF r, of 24] by (simp add: c)
  have pr_eq: "(ucast (c ! 9) = Tcp) = (unat (c ! 9) = 6)" "(ucast (c ! 9) = Udp) = (unat (c ! 9) = 17)"
    "(ucast (c ! 9) = Icmp) = (unat (c ! 9) = 1)"
    using byte_eq_num [of 6 "c ! 9"] byte_eq_num [of 17 "c ! 9"] byte_eq_num [of 1 "c ! 9"]
    by (simp_all add: Tcp_def Udp_def Icmp_def)
  have si: "sint (ucast (c ! 9) :: jint) = int (unat (c ! 9))"
  proof -
    have "unat (c ! 9) < 2 ^ 31" by (rule less_trans [OF unat_byte_bound]) simp
    moreover from this have "unat (of_nat (unat (c ! 9)) :: jint) = unat (c ! 9)"
      by (simp only: unat_of_nat) simp
    ultimately have "sint (of_nat (unat (c ! 9)) :: jint) = int (unat (c ! 9))" by (subst sint_small) simp_all
    then show ?thesis by simp
  qed
  have sp: "sint (of_nat (be_val (take 2 (drop k c))) :: jint) = int (be_val (take 2 (drop k c)))" for k
    by (rule sint_be2)
  show ?thesis
    unfolding getIdentifier_def prot
    using icmp by (simp add: pr_eq ips ports ident src dst icmp_key_def flow_key_def si sp the_ip_def show_int_1)
qed

end

section \<open>Buffers with memory\<close>

text \<open>
  The extended interface on buffers that have a memory, the two indices and their marks. The
  writer index and its mark are read within the memory, which makes the laws hold for every
  value of the type.
\<close>

record ibuf =
  ib_mem :: "jbyte list"
  ib_r :: nat
  ib_m :: nat
  ib_w :: nat
  ib_wm :: nat

definition iwpos :: "ibuf \<Rightarrow> nat" where "iwpos b = min (ib_w b) (length (ib_mem b))"
definition iwmark :: "ibuf \<Rightarrow> nat" where "iwmark b = min (ib_wm b) (length (ib_mem b))"
definition icontent :: "ibuf \<Rightarrow> jbyte list" where "icontent b = drop (ib_r b) (take (iwpos b) (ib_mem b))"
definition imarked :: "ibuf \<Rightarrow> jbyte list" where "imarked b = drop (ib_m b) (take (iwpos b) (ib_mem b))"
definition iafter :: "nat \<Rightarrow> ibuf \<Rightarrow> ibuf" where "iafter n b = b\<lparr> ib_r := ib_r b + n \<rparr>"

definition ibytes :: "jbyte list \<Rightarrow> ibuf" where
  "ibytes bs = \<lparr> ib_mem = bs, ib_r = 0, ib_m = 0, ib_w = length bs, ib_wm = 0 \<rparr>"

definition islice :: "nat \<Rightarrow> ibuf \<Rightarrow> ibuf" where "islice n b = ibytes (take n (icontent b))"

definition iread :: "nat \<Rightarrow> (jbyte list \<Rightarrow> 'a) \<Rightarrow> ibuf \<Rightarrow> ('a \<times> ibuf) res" where
  "iread n f b =
     (if n \<le> length (icontent b) then Inr (f (take n (icontent b)), iafter n b)
      else Inl IndexOutOfBoundsException)"

definition iput :: "jbyte list \<Rightarrow> ibuf \<Rightarrow> ibuf" where
  "iput bs b =
     b\<lparr> ib_mem := take (iwpos b) (ib_mem b) @ bs @ drop (iwpos b + length bs) (ib_mem b),
        ib_w := iwpos b + length bs, ib_wm := iwmark b \<rparr>"

definition iwrite :: "jbyte list \<Rightarrow> ibuf \<Rightarrow> ibuf" where
  "iwrite bs b = (if ib_r b \<le> iwpos b then iput bs b else ibytes bs)"

definition iput_within :: "jbyte list \<Rightarrow> ibuf \<Rightarrow> ibuf res" where
  "iput_within bs b =
     (if iwpos b + length bs \<le> length (ib_mem b) then Inr (iput bs b) else Inl IndexOutOfBoundsException)"

definition mem_netty :: "ibuf netty" where
  "mem_netty =
     \<lparr> nb_new = ibytes [],
       nb_readableBytes = \<lambda>b. length (icontent b),
       nb_readByte = iread 1 hd,
       nb_readUnsignedByte = iread 1 (\<lambda>l. of_nat (be_val l)),
       nb_readUnsignedShort = iread 2 (\<lambda>l. of_nat (be_val l)),
       nb_readInt = iread 4 (\<lambda>l. of_nat (be_val l)),
       nb_readUnsignedInt = iread 4 (\<lambda>l. of_nat (be_val l)),
       nb_readLong = iread 8 (\<lambda>l. of_nat (be_val l)),
       nb_readBytes = \<lambda>n. iread n (\<lambda>l. l),
       nb_skipBytes = \<lambda>n b. (if n \<le> length (icontent b) then Inr (iafter n b)
                            else Inl IndexOutOfBoundsException),
       nb_readSlice = \<lambda>k b. if k < 0 then Inl IllegalArgumentException
                          else if nat k \<le> length (icontent b) then Inr (islice (nat k) b, iafter (nat k) b)
                          else Inl IndexOutOfBoundsException,
       nb_writeByte = \<lambda>i. iwrite (be_list 1 (unat i)),
       nb_writeShort = \<lambda>i. iwrite (be_list 2 (unat i)),
       nb_writeInt = \<lambda>i. iwrite (be_list 4 (unat i)),
       nb_writeLong = \<lambda>l. iwrite (be_list 8 (unat l)),
       nb_writeBytes = iwrite,
       nb_writeBuf = \<lambda>s b. (iafter (length (icontent s)) s, iwrite (icontent s) b),
       nb_overwrite = \<lambda>s b. if length (icontent s) \<le> length (ib_mem b)
                           then Inr (iput (icontent s) (b\<lparr> ib_w := 0 \<rparr>)) else Inl IndexOutOfBoundsException,
       nb_markReader = \<lambda>b. b\<lparr> ib_m := ib_r b \<rparr>,
       nb_resetReader = \<lambda>b. b\<lparr> ib_r := ib_m b \<rparr> \<rparr>"

definition mem_index :: "ibuf netty_index" where
  "mem_index =
     \<lparr> nx_index = ib_r,
       nx_readerIndex = \<lambda>i b. if i \<le> iwpos b then Inr (b\<lparr> ib_r := i \<rparr>) else Inl IndexOutOfBoundsException,
       nx_writerIndex = \<lambda>i b. if ib_r b \<le> i \<and> i \<le> length (ib_mem b) then Inr (b\<lparr> ib_w := i \<rparr>)
                            else Inl IndexOutOfBoundsException,
       nx_markWriter = \<lambda>b. b\<lparr> ib_wm := iwpos b \<rparr>,
       nx_resetWriter = \<lambda>b. b\<lparr> ib_w := iwmark b \<rparr>,
       nx_writeShort = \<lambda>v. iput_within (be_list 2 (unat v)),
       nx_writeBytes = iput_within,
       nx_share = \<lambda>k s b. b\<lparr> ib_mem := take k (ib_mem b) @ ib_mem s @ drop (k + length (ib_mem s)) (ib_mem b),
                             ib_w := iwpos b \<rparr> \<rparr>"

lemmas ibuf_defs = mem_netty_def iread_def iafter_def islice_def ibytes_def iwpos_def iwmark_def icontent_def
  imarked_def

lemma icontent_iput: "ib_r b \<le> iwpos b \<Longrightarrow> icontent (iput bs b) = icontent b @ bs"
proof -
  assume a: "ib_r b \<le> iwpos b"
  have w: "iwpos b \<le> length (ib_mem b)" by (simp add: iwpos_def)
  then have "take (iwpos (iput bs b)) (ib_mem (iput bs b)) = take (iwpos b) (ib_mem b) @ bs"
    by (simp add: iput_def iwpos_def [of "_\<lparr> ib_mem := _, ib_w := _, ib_wm := _ \<rparr>"])
  then show ?thesis using a w by (simp add: icontent_def iput_def drop_append)
qed

lemma icontent_iwrite [simp]: "icontent (iwrite bs b) = icontent b @ bs"
proof (cases "ib_r b \<le> iwpos b")
  case True
  then show ?thesis by (simp add: iwrite_def icontent_iput)
next
  case False
  then have "icontent b = []" by (simp add: icontent_def)
  with False show ?thesis by (simp add: iwrite_def) (simp add: icontent_def ibytes_def iwpos_def)
qed

lemma iput_over:
  assumes "ib_r d = 0" "ib_m d = 0"
  shows "icontent (iput bs (d\<lparr> ib_w := 0 \<rparr>)) = bs" "imarked (iput bs (d\<lparr> ib_w := 0 \<rparr>)) = bs"
    "ib_r (iput bs (d\<lparr> ib_w := 0 \<rparr>)) = 0" "ib_m (iput bs (d\<lparr> ib_w := 0 \<rparr>)) = 0"
  using assms by (simp_all add: icontent_def imarked_def iput_def iwpos_def)

lemma icontent_ibytes [simp]: "icontent (ibytes bs) = bs"
  by (simp add: icontent_def ibytes_def iwpos_def)

lemma ibuf_views:
  "icontent (iafter n b) = drop n (icontent b)" "imarked (iafter n b) = imarked b"
  "ib_r (ibytes bs) = 0" "ib_m (ibytes bs) = 0" "icontent (islice n b) = take n (icontent b)"
  "icontent (b\<lparr> ib_m := m \<rparr>) = icontent b" "imarked (b\<lparr> ib_m := ib_r b \<rparr>) = icontent b"
  "icontent (b\<lparr> ib_r := ib_m b \<rparr>) = imarked b" "imarked (b\<lparr> ib_r := m \<rparr>) = imarked b"
  "ib_r (islice n b) = 0" "ib_m (islice n b) = 0" "ib_r (iafter n b) = ib_r b + n" "ib_m (iafter n b) = ib_m b"
  by (simp_all add: islice_def) (simp_all add: icontent_def imarked_def iafter_def ibytes_def iwpos_def add.commute)

lemma mem_overwrite: "length (icontent s) \<le> length (icontent d) \<Longrightarrow> length (icontent s) \<le> length (ib_mem d)"
  by (simp add: icontent_def)

interpretation ibuf: netty_buf mem_netty icontent imarked iafter islice ib_r ib_m
  by unfold_locales
    (auto simp: mem_netty_def iread_def take_Suc hd_conv_nth nth_take mem_overwrite ibuf_views iput_over)

interpretation ibuf: netty_indexed mem_netty icontent imarked iafter islice ib_r ib_m mem_index ib_mem iwpos iwmark
  "\<lambda>i b. b\<lparr> ib_r := i \<rparr>" "\<lambda>i b. b\<lparr> ib_w := i \<rparr>" iput
  by unfold_locales (auto simp: mem_index_def iput_within_def iwrite_def ibuf_defs iput_def)

section \<open>Properties\<close>

text \<open>
  C22: Rewriting an address of a packet and rebuilding it, for packets of at most 65500 bytes that have their
  headers (\<open>ip_packet_ok\<close>). setSrcIP and setDstIP replace the four bytes of that address and nothing else, and the
  getters see the new address. rebuild then returns the buffer with an IP header checksum that verifies (over the first
  20 bytes); apart from it and, for TCP, UDP and ICMP, the transport checksum, no byte differs. The transport
  checksum verifies, for TCP and UDP with the pseudo header of the addresses now in the packet, if the transport segment
  has an even length or a last byte below 128 (\<open>regular_bytes\<close>); for the others the code adds the last byte with
  its sign, and the checksum need not verify.
\<close>

theorem rewrite_and_rebuild:
  assumes "netty_indexed N content marked after sliced rpos mpos X mem wpos wmark at_reader at_writer put"
    and "rpos (il_byteBuf p) = 0" and "content (il_byteBuf p) = c" and "ip_packet_ok c"
    and "ip2bytes ip = Inr bs" and "length bs = 4"
  shows "(\<exists>q b'. il_setDstIP X ip p = Inr q \<and>
      il_getSrcIP N X q = bytes2ip (take 4 (drop 12 c)) \<and> il_getDstIP N X q = bytes2ip bs \<and>
      rebuild N X q = Some (Inr b') \<and> rebuilt (take 16 c @ bs @ drop 20 c) (content b')) \<and>
    (\<exists>q b'. il_setSrcIP X ip p = Inr q \<and>
      il_getSrcIP N X q = bytes2ip bs \<and> il_getDstIP N X q = bytes2ip (take 4 (drop 16 c)) \<and>
      rebuild N X q = Some (Inr b') \<and> rebuilt (take 12 c @ bs @ drop 16 c) (content b'))"
proof -
  have l: "20 \<le> length c" using assms(4) by (simp add: ip_packet_ok_def)
  have s: "take 4 (drop 12 (take 16 c @ bs @ drop 20 c)) = take 4 (drop 12 c)"
    "take 4 (drop 16 (take 16 c @ bs @ drop 20 c)) = bs"
    "take 4 (drop 12 (take 12 c @ bs @ drop 16 c)) = bs"
    "take 4 (drop 16 (take 12 c @ bs @ drop 16 c)) = take 4 (drop 16 c)"
    using l assms(6) by (simp_all add: drop_take)
  note r = netty_indexed.rewrite_run [OF assms(1,2) _ _ assms(5,6)]
  show ?thesis
    using r [of 16] r [of 12] assms(3,4) s by (simp add: il_setDstIP_def il_setSrcIP_def)
qed

text \<open>A UDP packet from 10.0.0.1:12345 to 10.0.0.2:53 with empty payload.\<close>

definition sample_packet :: "jbyte list" where
  "sample_packet = [0x45, 0, 0, 28, 0, 1, 0, 0, 64, 17, 0, 0, 10, 0, 0, 1, 10, 0, 0, 2,
                    48, 57, 0, 53, 0, 8, 0, 0]"

lemma sample_packet_ok: "ip_packet_ok sample_packet"
  by (simp add: ip_packet_ok_def ip_hlen_def transport_min_def sample_packet_def regular_bytes_def)

theorem rewrite_and_rebuild_witness:
  "\<exists>q b'. il_setDstIP mem_index (quad_str 192 168 1 9) (IpLayerPacket_new (ibytes sample_packet)) = Inr q \<and>
     rebuild mem_netty mem_index q = Some (Inr b') \<and> length (icontent b') = 28 \<and>
     inet_checksum (take 20 (icontent b')) = 0 \<and>
     inet_checksum ([10, 0, 0, 1, 192, 168, 1, 9, 0, 17, 0, 8] @ drop 20 (icontent b')) = 0"
proof -
  have "ip2bytes (quad_str 192 168 1 9) = Inr [192, 168, 1, 9]" using ip2bytes_quad_str [of 192 168 1 9] by simp
  from rewrite_and_rebuild [OF ibuf.netty_indexed_axioms _ _ sample_packet_ok this,
      of "IpLayerPacket_new (ibytes sample_packet)"]
  obtain q b' where q: "il_setDstIP mem_index (quad_str 192 168 1 9) (IpLayerPacket_new (ibytes sample_packet)) = Inr q"
    "rebuild mem_netty mem_index q = Some (Inr b')"
    "rebuilt (take 16 sample_packet @ [192, 168, 1, 9] @ drop 20 sample_packet) (icontent b')"
    by (auto simp: IpLayerPacket_new_def ibuf_views)
  then have l: "length (icontent b') = 28" by (simp add: rebuilt_def same_except_def Let_def sample_packet_def)
  then have "inet_checksum (take 20 (icontent b')) = 0"
    "inet_checksum ([10, 0, 0, 1, 192, 168, 1, 9, 0, 17, 0, 8] @ drop 20 (icontent b')) = 0"
    using q(3) by (simp_all add: rebuilt_def sample_packet_def ip_hlen_def transport_valid_def
        pseudo_wire_def be_list_2 be_list_1 regular_bytes_def)
  with q l show ?thesis by blast
qed

text \<open>
  The key of a flow is symmetric: a packet and its answer, with addresses and ports
  exchanged, have the same key when the key of the answer is computed with exchanged addresses
  (TCP and UDP; for ICMP the identifier takes the place of the ports).
\<close>

theorem getIdentifier_symmetric:
  assumes "netty_indexed N content marked after sliced rpos mpos X mem wpos wmark at_reader at_writer put"
    and "rpos (il_byteBuf p) = 0" "content (il_byteBuf p) = c" "rpos (il_byteBuf q) = 0" "content (il_byteBuf q) = c'"
    and "24 \<le> length c" "24 \<le> length c'" and "c' ! 9 = c ! 9"
    and "take 4 (drop 12 c') = take 4 (drop 16 c)" "take 4 (drop 16 c') = take 4 (drop 12 c)"
    and "unat (c ! 9) = 6 \<or> unat (c ! 9) = 17 \<Longrightarrow>
      take 2 (drop 20 c') = take 2 (drop 22 c) \<and> take 2 (drop 22 c') = take 2 (drop 20 c)"
    and "unat (c ! 9) = 1 \<Longrightarrow> 26 \<le> length c \<and> 26 \<le> length c' \<and> take 2 (drop 24 c') = take 2 (drop 24 c)"
    and "unat (c ! 9) \<in> {1, 6, 17}"
  shows "\<exists>key. getIdentifier N X u False p = Inr key \<and> getIdentifier N X u' True q = Inr key"
  using netty_indexed.identifier_run [OF assms(1,2,3,6), of u False]
    netty_indexed.identifier_run [OF assms(1,4,5,7), of u' True] assms(8-13)
  by (auto simp: icmp_key_def flow_key_def Let_def)

theorem getIdentifier_symmetric_witness:
  "\<exists>key. getIdentifier mem_netty mem_index [] False (IpLayerPacket_new (ibytes sample_packet)) = Inr key \<and>
     getIdentifier mem_netty mem_index [] True (IpLayerPacket_new (ibytes
       [0x45, 0, 0, 28, 0, 9, 0, 0, 64, 17, 0, 0, 10, 0, 0, 2, 10, 0, 0, 1, 0, 53, 48, 57, 0, 8, 0, 0])) = Inr key"
  by (rule getIdentifier_symmetric [OF ibuf.netty_indexed_axioms _ refl _ refl])
    (simp_all add: IpLayerPacket_new_def ibuf_views sample_packet_def)

text \<open>
  Replacing the payload: the header keeps its bytes except the total length, which becomes
  the header length plus the length of the new payload, the packet ends after the new payload
  (a longer old one is cut off), and getPayload returns the payload that was set.
\<close>

theorem setPayload_getPayload:
  assumes "netty_indexed N content marked after sliced rpos mpos X mem wpos wmark at_reader at_writer put"
    and "rpos (il_byteBuf p) = 0" and "content (il_byteBuf p) = c"
    and "20 \<le> ip_hlen c" "ip_hlen c \<le> length c"
    and "ip_hlen c + length (content payload) \<le> length (mem (il_byteBuf p))"
  shows "\<exists>q s. il_setPayload N X payload p = Inr q \<and> il_update q \<and>
    content (il_byteBuf q) = take 2 c @ be_list 2 (unat (of_nat (ip_hlen c + length (content payload)) :: jint)) @
      take (ip_hlen c - 4) (drop 4 c) @ content payload \<and>
    il_getPayload N X (il_byteBuf q) = Inr s \<and> content s = content payload"
proof -
  let ?l = "be_list 2 (unat (of_nat (ip_hlen c + length (content payload)) :: jint))"
  obtain q where q: "il_setPayload N X payload p = Inr q" "il_update q" "rpos (il_byteBuf q) = 0"
    "content (il_byteBuf q) = take 2 c @ ?l @ take (ip_hlen c - 4) (drop 4 c) @ content payload"
    using netty_indexed.setPayload_run [OF assms(1,2,4,3,6,5) refl] by blast
  let ?c = "content (il_byteBuf q)"
  have h: "ip_hlen ?c = ip_hlen c" using assms(4,5) by (simp add: ip_hlen_def q(4) nth_append)
  let ?hd = "take 2 c @ ?l @ take (ip_hlen c - 4) (drop 4 c)"
  have hd: "?c = ?hd @ content payload" "length ?hd = ip_hlen c" using assms(4,5) by (simp_all add: q(4))
  then have l: "ip_hlen c \<le> length ?c" "0 < length ?c" using assms(4) by (simp_all add: hd(1))
  have d: "drop (ip_hlen c) ?c = content payload" using hd by simp
  obtain s where "il_getPayload N X (il_byteBuf q) = Inr s" "content s = drop (ip_hlen ?c) ?c"
    using netty_indexed.il_getPayload_run [OF assms(1) q(3) l(2)] l(1) unfolding h by blast
  then show ?thesis using q unfolding h d by blast
qed

theorem setPayload_getPayload_witness:
  "\<exists>q s. il_setPayload mem_netty mem_index (ibytes [48, 57, 0, 53]) (IpLayerPacket_new (ibytes sample_packet)) = Inr q \<and>
     length (icontent (il_byteBuf q)) = 24 \<and> icontent (il_byteBuf q) ! 3 = 24 \<and>
     il_getPayload mem_netty mem_index (il_byteBuf q) = Inr s \<and> icontent s = [48, 57, 0, 53]"
proof -
  have "ip_hlen sample_packet = 20" by (simp add: ip_hlen_def sample_packet_def)
  then obtain q s where "il_setPayload mem_netty mem_index (ibytes [48, 57, 0, 53]) (IpLayerPacket_new (ibytes sample_packet)) = Inr q"
    "icontent (il_byteBuf q) = take 2 sample_packet @ be_list 2 24 @ take 16 (drop 4 sample_packet) @ [48, 57, 0, 53]"
    "il_getPayload mem_netty mem_index (il_byteBuf q) = Inr s" "icontent s = [48, 57, 0, 53]"
    using setPayload_getPayload [OF ibuf.netty_indexed_axioms, of "IpLayerPacket_new (ibytes sample_packet)"
        sample_packet "ibytes [48, 57, 0, 53]"]
    by (auto simp: IpLayerPacket_new_def ibuf_views) (auto simp: sample_packet_def ibytes_def)
  then show ?thesis by (simp add: sample_packet_def be_list_2)
qed

end
