(* ===== verification/VirtualRouter.thy ===== *)
theory VirtualRouter
  imports RouteRules Stun IpLayer JavaMap
begin

text \<open>
  VirtualRouter and NodeManager of sdwan-node: what happens to a packet that leaves or enters
  the node. The state holds the node's address, the routes, the two rule processors, the VNAT
  table, the cache of translated addresses and the table of known nodes. Sending to a node is
  an output of the step (IceClient carries it out). The ByteBuf operations, hutool's address
  pattern, the protobuf parser, the platform test and the random id of a packet that is neither
  TCP, UDP nor ICMP are parameters. An entry may leave the cache at any time (it expires).
  Log output is left out.
\<close>

section \<open>NodeManager\<close>

type_synonym NodeManager = "(string, NodeInfo) jmap"

definition addNode :: "string \<Rightarrow> NodeInfo \<Rightarrow> NodeManager \<Rightarrow> NodeManager" where
  "addNode vip node nodes = jput vip node nodes"

definition deleteNode :: "string \<Rightarrow> NodeManager \<Rightarrow> NodeManager" where
  "deleteNode vip nodes = jremove vip nodes"

definition getNodeList :: "NodeManager \<Rightarrow> NodeInfo list" where
  "getNodeList nodes = jvalues nodes"

definition getNode :: "NodeManager \<Rightarrow> string \<Rightarrow> NodeInfo option" where
  "getNode nodes vip = jget nodes vip"

definition NodeManager_stop :: "NodeManager \<Rightarrow> NodeManager" where
  "NodeManager_stop nodes = []"

section \<open>The state\<close>

record VirtualRouter =
  vr_netMesh :: bool
  vr_localVip :: string
  vr_maskBits :: jint
  vr_vipCidr :: string
  vr_routeList :: "Route list"
  vr_routeIn :: "RouteRulePredicateChain list"
  vr_routeOut :: "RouteRulePredicateChain list"
  vr_vnatMap :: "(string, VNAT) jmap"
  vr_vnatCache :: "(string, string) jmap"
  vr_nodes :: NodeManager

section \<open>Address translation\<close>

definition natIp :: "(string \<Rightarrow> bool) \<Rightarrow> VNAT \<Rightarrow> string \<Rightarrow> string res" where
  "natIp pat vnat ip =
     bindR (parseCidr pat (vn_src vnat)) (\<lambda>src.
     bindR (parseCidr pat (vn_dst vnat)) (\<lambda>dst. Cidr_transform ip src dst))"

fun findVNAT :: "(string, VNAT) jmap \<Rightarrow> 'p \<Rightarrow> ('p \<Rightarrow> string res) \<Rightarrow> VNAT option res" where
  "findVNAT [] packet ip_of = Inr None"
| "findVNAT ((cidr, vnat) # entries) packet ip_of =
     bindR (ip_of packet) (\<lambda>ip. bindR (Cidr_contains cidr ip) (\<lambda>b.
       if b then Inr (Some vnat) else findVNAT entries packet ip_of))"

definition processVnatIn ::
    "'b netty \<Rightarrow> 'b netty_index \<Rightarrow> string \<Rightarrow> VirtualRouter \<Rightarrow> 'b IpLayerPacket \<Rightarrow> 'b IpLayerPacket res" where
  "processVnatIn N X uuid r packet =
     bindR (getIdentifier N X uuid False packet) (\<lambda>identifier.
     case jget (vr_vnatCache r) identifier of
       Some originalIp \<Rightarrow> il_setSrcIP X originalIp packet
     | None \<Rightarrow> Inr packet)"

definition processVnatOut ::
    "'b netty \<Rightarrow> 'b netty_index \<Rightarrow> (string \<Rightarrow> bool) \<Rightarrow> string \<Rightarrow> VirtualRouter \<Rightarrow> 'b IpLayerPacket
     \<Rightarrow> (VirtualRouter \<times> 'b IpLayerPacket) res" where
  "processVnatOut N X pat uuid r packet =
     bindR (findVNAT (vr_vnatMap r) packet (il_getDstIP N X)) (\<lambda>found.
     case found of
       None \<Rightarrow> Inr (r, packet)
     | Some vnat \<Rightarrow>
         bindR (il_getDstIP N X packet) (\<lambda>dstIP.
         bindR (natIp pat vnat dstIP) (\<lambda>nat.
         bindR (il_setDstIP X nat packet) (\<lambda>packet.
         bindR (getIdentifier N X uuid True packet) (\<lambda>identifier.
           Inr (r\<lparr> vr_vnatCache := jput identifier dstIP (vr_vnatCache r) \<rparr>, packet))))))"

text \<open>The cache drops an entry when it is older than 30 minutes: at any moment, for this model.\<close>

definition vnat_expire :: "string \<Rightarrow> VirtualRouter \<Rightarrow> VirtualRouter" where
  "vnat_expire identifier r = r\<lparr> vr_vnatCache := jremove identifier (vr_vnatCache r) \<rparr>"

section \<open>Routes\<close>

text \<open>\<open>String.hashCode\<close>, \<open>Math.abs\<close> and the remainder of \<open>int\<close>, and \<open>List.get\<close>.\<close>

definition java_hash :: "string \<Rightarrow> jint" where
  "java_hash s = foldl (\<lambda>h c. 31 * h + of_nat (of_char c)) 0 s"

definition java_abs :: "jint \<Rightarrow> jint" where
  "java_abs v = (if sint v < 0 then - v else v)"

definition java_rem :: "int \<Rightarrow> int \<Rightarrow> int" where
  "java_rem a b = sgn a * (\<bar>a\<bar> mod \<bar>b\<bar>)"

definition list_get :: "'a list \<Rightarrow> int \<Rightarrow> 'a res" where
  "list_get xs i = (if i < 0 then Inl IndexOutOfBoundsException else atR xs (nat i))"

fun findRoute :: "'b netty \<Rightarrow> 'b netty_index \<Rightarrow> Route list \<Rightarrow> string \<Rightarrow> 'b IpLayerPacket \<Rightarrow> string option res" where
  "findRoute N X [] dstIP packet = Inr None"
| "findRoute N X (route # routes) dstIP packet =
     bindR (Cidr_contains (rt_destination route) dstIP) (\<lambda>b.
     if b then
       (if rt_nexthop route = [] then Inr None
        else bindR (il_getSrcIP N X packet) (\<lambda>src.
             let rand = java_rem (sint (java_abs (java_hash src))) (int (length (rt_nexthop route)))
             in bindR (list_get (rt_nexthop route) rand) (\<lambda>nexthop. Inr (Some nexthop))))
     else findRoute N X routes dstIP packet)"

section \<open>Outgoing and incoming packets\<close>

definition routeOut ::
    "'b netty \<Rightarrow> 'b netty_index \<Rightarrow> (string \<Rightarrow> bool) \<Rightarrow> string \<Rightarrow> VirtualRouter \<Rightarrow> 'b IpLayerPacket
     \<Rightarrow> (string option \<times> VirtualRouter \<times> 'b IpLayerPacket) res" where
  "routeOut N X pat uuid r packet =
     bindR (processVnatOut N X pat uuid r packet) (\<lambda>(r, packet).
     bindR (il_getDstIP N X packet) (\<lambda>dstIP.
     bindR (processor_test (vr_routeOut r) dstIP) (\<lambda>ok.
     if \<not> ok then Inr (None, r, packet)
     else bindR (Cidr_contains (vr_vipCidr r) dstIP) (\<lambda>b.
       if b then Inr (Some dstIP, r, packet)
       else bindR (findRoute N X (vr_routeList r) dstIP packet) (\<lambda>hop. Inr (hop, r, packet))))))"

definition routeIn ::
    "'b netty \<Rightarrow> 'b netty_index \<Rightarrow> string \<Rightarrow> VirtualRouter \<Rightarrow> 'b IpLayerPacket \<Rightarrow> 'b IpLayerPacket option res" where
  "routeIn N X uuid r packet =
     bindR (il_getDstIP N X packet) (\<lambda>dstIP.
     bindR (processor_test (vr_routeIn r) dstIP) (\<lambda>ok.
     if \<not> ok then Inr None
     else bindR (processVnatIn N X uuid r packet) (\<lambda>packet. Inr (Some packet))))"

definition IcsIp :: string where
  "IcsIp = ''192.168.137.1''"

definition is_broadcast :: "VirtualRouter \<Rightarrow> string \<Rightarrow> bool res" where
  "is_broadcast r ip =
     bindR (isMulticastIp ip) (\<lambda>m. if m then Inr True else Cidr_isBroadcastAddress (vr_vipCidr r) ip)"

text \<open>The message built from a packet; the packet is rebuilt for it.\<close>

definition ip_message ::
    "'b netty \<Rightarrow> 'b netty_index \<Rightarrow> 'b IpLayerPacket \<Rightarrow> IpPacketMsg res option" where
  "ip_message N X packet =
     lift_res (il_getSrcIP N X packet) (\<lambda>src.
     lift_res (il_getDstIP N X packet) (\<lambda>dst.
     res_opt (rebuild N X packet) (\<lambda>buf.
     lift_res (toBytes N buf) (\<lambda>(bytes, buf).
       Some (Inr \<lparr> ip_srcIP = src, ip_dstIP = dst, ip_payload = bytes \<rparr>)))))"

definition fix_ics ::
    "'b netty \<Rightarrow> 'b netty_index \<Rightarrow> bool \<Rightarrow> VirtualRouter \<Rightarrow> 'b IpLayerPacket \<Rightarrow> 'b IpLayerPacket res" where
  "fix_ics N X windows r packet =
     (if vr_netMesh r \<and> windows then
        bindR (il_getSrcIP N X packet) (\<lambda>src.
          if IcsIp = src then il_setSrcIP X (vr_localVip r) packet else Inr packet)
      else Inr packet)"

text \<open>Specification: the source a packet leaves with.\<close>

definition sent_source :: "bool \<Rightarrow> VirtualRouter \<Rightarrow> string \<Rightarrow> string" where
  "sent_source windows r src = (if windows \<and> vr_netMesh r \<and> src = IcsIp then vr_localVip r else src)"

text \<open>\<open>send\<close>: the messages handed to IceClient, with their target node.\<close>

definition vr_send ::
    "'b netty \<Rightarrow> 'b netty_index \<Rightarrow> (string \<Rightarrow> bool) \<Rightarrow> bool \<Rightarrow> string \<Rightarrow> VirtualRouter \<Rightarrow> 'b IpLayerPacket
     \<Rightarrow> (VirtualRouter \<times> (NodeInfo \<times> IpPacketMsg) list) res option" where
  "vr_send N X pat windows uuid r packet =
     lift_res (fix_ics N X windows r packet) (\<lambda>packet.
     lift_res (il_getDstIP N X packet) (\<lambda>dstIP.
     lift_res (is_broadcast r dstIP) (\<lambda>b.
     if b then
       res_opt (ip_message N X packet) (\<lambda>m.
         Some (Inr (r, map (\<lambda>n. (n, m)) (filter (\<lambda>n. ni_vip n \<noteq> vr_localVip r) (getNodeList (vr_nodes r))))))
     else
       lift_res (routeOut N X pat uuid r packet) (\<lambda>(dstVip, r, packet).
       case dstVip of
         None \<Rightarrow> Some (Inr (r, []))
       | Some vip \<Rightarrow>
           (case getNode (vr_nodes r) vip of
              None \<Rightarrow> Some (Inr (r, []))
            | Some nodeInfo \<Rightarrow> res_opt (ip_message N X packet) (\<lambda>m. Some (Inr (r, [(nodeInfo, m)]))))))))"

text \<open>
  \<open>recv\<close>: nothing for a message that is not a transfer; otherwise what is passed to \<open>onData\<close>,
  the packet or null when the rules reject it.
\<close>

definition vr_recv ::
    "'b netty \<Rightarrow> 'b netty_index \<Rightarrow> (jbyte list \<Rightarrow> IpPacketMsg res) \<Rightarrow> string \<Rightarrow> VirtualRouter \<Rightarrow> StunMessage
     \<Rightarrow> 'b IpLayerPacket option option res" where
  "vr_recv N X parseFrom uuid r stunMessage =
     (case getAttr AttrData stunMessage of
        None \<Rightarrow> Inl NullPointerException
      | Some (BytesAttr data) \<Rightarrow>
          (if sm_messageType stunMessage \<noteq> Some Transfer then Inr None
           else bindR (parseFrom data) (\<lambda>ipPacket.
                bindR (routeIn N X uuid r (IpLayerPacket_new (nb_writeBytes N (ip_payload ipPacket) (nb_new N)))) (\<lambda>packet.
                  Inr (Some packet))))
      | Some _ \<Rightarrow> Inl ClassCastException)"

section \<open>Registration\<close>

definition buildMergeRouteList :: "Route list \<Rightarrow> VNAT list \<Rightarrow> Route list" where
  "buildMergeRouteList routes vnats =
     routes @ map (\<lambda>e. \<lparr> rt_destination = vn_src e, rt_nexthop = vn_vipList e, rt_name = [] \<rparr>) vnats"

definition buildRouteRuleList :: "(string \<Rightarrow> bool) \<Rightarrow> RouteRule list \<Rightarrow> RouteRulePredicateChain list res" where
  "buildRouteRuleList pat rules = mapR (chain_build pat) (sort_rules rules)"

text \<open>
  The table of the translations. The source fills a \<open>ConcurrentHashMap\<close>, whose order of iteration the library leaves open;
  the model keeps the order of insertion. It only matters to \<open>findVNAT\<close>, and there only when the
  source blocks of two entries overlap; the properties name the entry that \<open>findVNAT\<close> gives.
\<close>

definition buildVNATMap :: "VNAT list \<Rightarrow> (string, VNAT) jmap" where
  "buildVNATMap vnats = fold (\<lambda>e. jput (vn_src e) e) vnats []"

text \<open>The part of \<open>start\<close> that evaluates the two answers of the controller.\<close>

definition start_router ::
    "(string \<Rightarrow> bool) \<Rightarrow> ServerConfigResp \<Rightarrow> RegistResp \<Rightarrow> VirtualRouter \<Rightarrow> VirtualRouter res" where
  "start_router pat configResp regResp r =
     (if cr_code configResp = MC_NotFound then Inl ProcessException
      else if cr_code configResp \<noteq> MC_Success then Inl ProcessException
      else if rs_code regResp \<noteq> MC_Success
      then Inl (ProcessCodeException (MessageCode_number (rs_code regResp)))
      else
        (let r = r\<lparr> vr_localVip := rs_vip regResp, vr_maskBits := rs_maskBits regResp,
                    vr_vipCidr := rs_cidr regResp,
                    vr_nodes := fold (\<lambda>e. addNode (ni_vip e) e) (rs_nodeList regResp) [],
                    vr_routeList := buildMergeRouteList (rs_routeList regResp) (rs_vnatList regResp) \<rparr>
         in bindR (buildRouteRuleList pat (rs_routeRuleList regResp)) (\<lambda>rules.
            Inr (r\<lparr> vr_routeIn := filter (\<lambda>e. ch_direction e \<in> {RD_All, RD_Input}) rules,
                     vr_routeOut := filter (\<lambda>e. ch_direction e \<in> {RD_All, RD_Output}) rules,
                     vr_vnatMap := buildVNATMap (rs_vnatList regResp) \<rparr>))))"

section \<open>Messages of the controller\<close>

datatype 'd vr_effect =
    ProcessAnswer string P2pOffer
  | CompleteTask string "'d Message"
  | OfflineTransport string

record 'd vr_parsers =
  vp_offer :: "'d \<Rightarrow> P2pOffer res"
  vp_node :: "'d \<Rightarrow> NodeInfo res"

definition vr_channelRead0 ::
    "'d vr_parsers \<Rightarrow> bool \<Rightarrow> VirtualRouter \<Rightarrow> 'd Message \<Rightarrow> (VirtualRouter \<times> 'd vr_effect list) res" where
  "vr_channelRead0 P iceRunning r msg =
     (case msg_type msg of
        P2pOfferType \<Rightarrow>
          bindR (vp_offer P (msg_data msg)) (\<lambda>offer.
            Inr (r, if iceRunning then [ProcessAnswer (msg_reqId msg) offer] else []))
      | P2pAnswerType \<Rightarrow> Inr (r, [CompleteTask (msg_reqId msg) msg])
      | NodeOnlineType \<Rightarrow>
          bindR (vp_node P (msg_data msg)) (\<lambda>nodeInfo.
            Inr (r\<lparr> vr_nodes := addNode (ni_vip nodeInfo) nodeInfo (vr_nodes r) \<rparr>, []))
      | NodeOfflineType \<Rightarrow>
          bindR (vp_node P (msg_data msg)) (\<lambda>nodeInfo.
            Inr (r\<lparr> vr_nodes := deleteNode (ni_vip nodeInfo) (vr_nodes r) \<rparr>,
                 if iceRunning then [OfflineTransport (ni_vip nodeInfo)] else []))
      | _ \<Rightarrow> Inr (r, []))"

section \<open>Addresses in packets\<close>

lemma quad_bytes:
  assumes "length q = 4"
  obtains ip where "bytes2ip q = Inr ip" and "ip2bytes ip = Inr q" and "quad_match ip"
    and "the_ip q = ip" and "ip_num ip < 2 ^ 32" and "ip = int2ip (of_nat (ip_num ip))"
proof -
  obtain b0 b1 b2 b3 where q: "q = [b0, b1, b2, b3]"
    using assms by (auto simp: numeral_eq_Suc length_Suc_conv)
  let ?ip = "quad_str (unat b0) (unat b1) (unat b2) (unat b3)"
  have l: "unat b < 256" for b :: jbyte by simp
  have m: "quad_match ?ip" using quad_match_quad_str [OF l l l l] .
  have n: "ip_num ?ip = quad_nat (unat b0) (unat b1) (unat b2) (unat b3)"
    using ip_num_quad_str [OF l l l l] .
  show thesis
  proof (rule that [of ?ip])
    show "bytes2ip q = Inr ?ip" "the_ip q = ?ip" by (simp_all add: q bytes2ip_quad the_ip_def)
    show "ip2bytes ?ip = Inr q" using ip2bytes_bytes2ip [OF assms] by (simp add: q bytes2ip_quad)
    show "ip_num ?ip < 2 ^ 32" by (rule ip2long_num(2) [OF m])
    show "?ip = int2ip (of_nat (ip_num ?ip))"
      unfolding n by (rule int2ip_quad_nat [OF l l l l, symmetric])
  qed (rule m)
qed

lemma int2ip_of_bytes:
  obtains q where "ip2bytes (int2ip w) = Inr q" and "length q = 4" and "bytes2ip q = Inr (int2ip w)" and "the_ip q = int2ip w"
proof -
  let ?o = "\<lambda>k. unat w div 2 ^ k mod 256"
  have l: "?o k < 256" for k by simp
  have i: "int2ip w = quad_str (?o 24) (?o 16) (?o 8) (unat w mod 256)" by (rule int2ip_quad)
  let ?q = "[of_nat (?o 24), of_nat (?o 16), of_nat (?o 8), of_nat (unat w mod 256)] :: jbyte list"
  have q: "ip2bytes (int2ip w) = Inr ?q" unfolding i by (rule ip2bytes_quad_str; simp)
  have u: "unat (of_nat n :: jbyte) = n" if "n < 256" for n using that by (simp add: unat_of_nat)
  have "bytes2ip ?q = Inr (int2ip w)"
    unfolding bytes2ip_quad i using l [of 24] l [of 16] l [of 8] by (simp only: u)
  then show thesis using that [OF q] by (simp add: the_ip_def)
qed

definition cidr_text :: "string \<Rightarrow> nat \<Rightarrow> nat \<Rightarrow> bool" where
  "cidr_text t b m \<longleftrightarrow>
     1 \<le> m \<and> m \<le> 32 \<and> (\<exists>p q r s. p < 256 \<and> q < 256 \<and> r < 256 \<and> s < 256 \<and>
       t = quad_str p q r s @ ''/'' @ show_nat m \<and> b = block_of m (quad_nat p q r s))"

lemma Cidr_contains_cidr_text:
  "cidr_text t b m \<Longrightarrow> quad_match ip \<Longrightarrow> Cidr_contains t ip = Inr (block_of m (ip_num ip) = b)"
  unfolding cidr_text_def using Cidr_contains_text by blast

lemma cidr_text_block: "cidr_text t b m \<Longrightarrow> is_block b m"
  unfolding cidr_text_def using is_block_block_of quad_nat_bound by blast

section \<open>Choosing the next hop\<close>

lemma sint_min: "sint (h :: jint) < 0 \<Longrightarrow> sint (- h) = (if h = 0x80000000 then - (2 ^ 31) else - sint h)"
proof -
  assume n: "sint h < 0"
  show ?thesis
  proof (cases "h = 0x80000000")
    case True
    then show ?thesis by simp
  next
    case False
    have b: "- (2 ^ 31) \<le> sint h" "sint h < 2 ^ 31" using sint_ge [of h] sint_lt [of h] by simp_all
    have "sint h \<noteq> - (2 ^ 31)"
    proof
      assume e: "sint h = - (2 ^ 31)"
      have "h = word_of_int (sint h)" by simp
      then have "h = 0x80000000" unfolding e by simp
      with False show False ..
    qed
    with b have b': "- (2 ^ 31) < sint h" by simp
    have "- h = word_of_int (- sint h)" by simp
    then have "sint (- h) = signed_take_bit 31 (- sint h)" by (simp add: sint_word_ariths)
    then show ?thesis using b' n False by (simp add: signed_take_bit_int_eq_self)
  qed
qed

lemma java_rem_nonneg: "0 \<le> a \<Longrightarrow> 0 < b \<Longrightarrow> java_rem a b = a mod b"
  by (cases "a = 0") (auto simp: java_rem_def)

lemma hop_index:
  assumes "hops \<noteq> []"
  shows "list_get hops (java_rem (sint (java_abs h)) (int (length hops))) =
    (if h = 0x80000000 \<and> \<not> int (length hops) dvd 2 ^ 31 then Inl IndexOutOfBoundsException
     else Inr (hops ! (nat (\<bar>sint h\<bar> mod int (length hops)))))"
proof (cases "h = 0x80000000")
  case True
  then have s: "sint h = - (2 ^ 31)" "sint (java_abs h) = - (2 ^ 31)" by (simp_all add: java_abs_def)
  obtain k :: int where k: "k = 2 ^ 31" by blast
  let ?r = "k mod int (length hops)"
  have r: "0 \<le> ?r" "?r < int (length hops)" using assms by simp_all
  have m: "java_rem (- k) (int (length hops)) = - ?r" by (simp add: java_rem_def k)
  have d: "?r = 0 \<longleftrightarrow> int (length hops) dvd k" by (simp only: dvd_eq_mod_eq_0)
  have "list_get hops (- ?r) = (if int (length hops) dvd k then Inr (hops ! nat ?r) else Inl IndexOutOfBoundsException)"
    proof (cases "?r = 0")
    case False
    then have "0 < ?r" using r by linarith
    then show ?thesis unfolding d [symmetric] by (simp add: list_get_def)
  qed (use assms in \<open>simp add: d [symmetric] list_get_def atR_def\<close>)
  moreover have "\<bar>- k\<bar> = k" by (simp add: k)
  ultimately show ?thesis unfolding s k [symmetric] m using True by simp
next
  case False
  then have a: "sint (java_abs h) = \<bar>sint h\<bar>" using sint_min [of h] by (auto simp: java_abs_def)
  have "0 \<le> \<bar>sint h\<bar> mod int (length hops)" "\<bar>sint h\<bar> mod int (length hops) < int (length hops)" using assms by simp_all
  then have "\<not> \<bar>sint h\<bar> mod int (length hops) < 0" "nat (\<bar>sint h\<bar> mod int (length hops)) < length hops"
    by linarith+
  then show ?thesis using False assms by (simp add: a java_rem_nonneg list_get_def atR_def)
qed

section \<open>The decisions of the router\<close>

text \<open>The routes as blocks with their next hops; the first block that contains the address decides.\<close>

definition route_block :: "Route \<Rightarrow> nat \<times> nat \<times> string list \<Rightarrow> bool" where
  "route_block rt e \<longleftrightarrow> (case e of (b, m, hops) \<Rightarrow> cidr_text (rt_destination rt) b m \<and> rt_nexthop rt = hops)"

definition pick_hop :: "string list \<Rightarrow> jint \<Rightarrow> string option" where
  "pick_hop hops h = (if hops = [] then None else Some (hops ! nat (\<bar>sint h\<bar> mod int (length hops))))"

fun route_target :: "(nat \<times> nat \<times> string list) list \<Rightarrow> nat \<Rightarrow> jint \<Rightarrow> string option" where
  "route_target [] n h = None"
| "route_target ((b, m, hops) # es) n h = (if block_of m n = b then pick_hop hops h else route_target es n h)"

definition route_decision ::
    "RouteRulePredicateChain list \<Rightarrow> nat \<times> nat \<Rightarrow> (nat \<times> nat \<times> string list) list \<Rightarrow> nat \<Rightarrow> jint \<Rightarrow> string option" where
  "route_decision rules vip routes n h =
     (if first_match rules n \<noteq> Some RS_Allow then None
      else if block_of (snd vip) n = fst vip then Some (int2ip (of_nat n))
      else route_target routes n h)"

context netty_indexed
begin

lemma getters_run:
  assumes "rpos (il_byteBuf p) = 0" and "content (il_byteBuf p) = c" and "20 \<le> length c"
  shows "il_getSrcIP N X p = bytes2ip (take 4 (drop 12 c))" "il_getDstIP N X p = bytes2ip (take 4 (drop 16 c))"
  using readIp_run [OF assms(1)] assms(2,3) by (simp_all add: il_getSrcIP_def il_getDstIP_def)

lemma findRoute_run:
  assumes "list_all2 route_block routes es" and "quad_match dstIP" and "n = ip_num dstIP"
    and "il_getSrcIP N X p = Inr src" and "java_hash src \<noteq> 0x80000000"
  shows "findRoute N X routes dstIP p = Inr (route_target es n (java_hash src))"
  using assms(1)
proof (induction routes es rule: list_all2_induct)
  case (Cons rt routes e es)
  obtain b m hops where e: "e = (b, m, hops)" by (cases e)
  with Cons have c: "cidr_text (rt_destination rt) b m" "rt_nexthop rt = hops" by (simp_all add: route_block_def)
  show ?case
    using Cons.IH c assms hop_index [of hops "java_hash src"]
    by (simp add: e Cidr_contains_cidr_text pick_hop_def Let_def)
qed simp

lemma routeOut_run:
  assumes out: "processVnatOut N X pat u r p = Inr (r', q)"
    and q: "rpos (il_byteBuf q) = 0" "content (il_byteBuf q) = c" "20 \<le> length c"
    and rules: "list_all wf_chain (vr_routeOut r')" and vip: "cidr_text (vr_vipCidr r') (fst vip) (snd vip)"
    and routes: "list_all2 route_block (vr_routeList r') es"
    and n: "n = ip_num (the_ip (take 4 (drop 16 c)))" and h: "h = java_hash (the_ip (take 4 (drop 12 c)))" "h \<noteq> 0x80000000"
  shows "routeOut N X pat u r p = Inr (route_decision (vr_routeOut r') vip es n h, r', q)"
proof -
  obtain d where d: "bytes2ip (take 4 (drop 16 c)) = Inr d" "quad_match d" "the_ip (take 4 (drop 16 c)) = d"
    "ip_num d < 2 ^ 32" "d = int2ip (of_nat (ip_num d))"
    by (rule quad_bytes [of "take 4 (drop 16 c)"]) (use q(3) in simp)
  obtain s where s: "bytes2ip (take 4 (drop 12 c)) = Inr s" "the_ip (take 4 (drop 12 c)) = s"
    by (rule quad_bytes [of "take 4 (drop 12 c)"]) (use q(3) in simp)
  have g: "il_getSrcIP N X q = Inr s" "il_getDstIP N X q = Inr d"
    using getters_run [OF q] s(1) d(1) by simp_all
  have nd: "n = ip_num d" "h = java_hash s" using n h d(3) s(2) by simp_all
  have t: "processor_test (vr_routeOut r') d = Inr (first_match (vr_routeOut r') n = Some RS_Allow)"
    using processor_test_int2ip [OF rules d(4)] d(5) nd(1) by simp
  have v: "Cidr_contains (vr_vipCidr r') d = Inr (block_of (snd vip) n = fst vip)"
    using Cidr_contains_cidr_text [OF vip d(2)] nd(1) by simp
  have f: "findRoute N X (vr_routeList r') d q = Inr (route_target es n h)"
    using findRoute_run [OF routes d(2) nd(1) g(1)] h(2) nd(2) by simp
  have "int2ip (of_nat n) = d" using d(5) nd(1) by simp
  then show ?thesis by (simp add: routeOut_def out g(2) t v f route_decision_def)
qed

end

section \<open>Address translation there and back\<close>

text \<open>The key of a TCP, UDP or ICMP packet with these bytes.\<close>

definition flow_id :: "bool \<Rightarrow> jbyte list \<Rightarrow> string" where
  "flow_id ex c =
     (if unat (c ! 9) = 1 then icmp_key ex (take 4 (drop 12 c)) (take 4 (drop 16 c)) (take 2 (drop 24 c))
      else flow_key ex (unat (c ! 9)) (take 4 (drop 12 c)) (take 2 (drop 20 c)) (take 4 (drop 16 c)) (take 2 (drop 22 c)))"

definition flow_packet :: "jbyte list \<Rightarrow> bool" where
  "flow_packet c \<longleftrightarrow> unat (c ! 9) \<in> {1, 6, 17} \<and> 24 \<le> length c \<and> (unat (c ! 9) = 1 \<longrightarrow> 26 \<le> length c)"

text \<open>\<open>a\<close> answers \<open>c\<close>: same protocol, addresses and ports exchanged, same ICMP identifier.\<close>

definition answers :: "jbyte list \<Rightarrow> jbyte list \<Rightarrow> bool" where
  "answers a c \<longleftrightarrow> flow_packet a \<and> a ! 9 = c ! 9 \<and>
     take 4 (drop 12 a) = take 4 (drop 16 c) \<and> take 4 (drop 16 a) = take 4 (drop 12 c) \<and>
     (if unat (c ! 9) = 1 then take 2 (drop 24 a) = take 2 (drop 24 c)
      else take 2 (drop 20 a) = take 2 (drop 22 c) \<and> take 2 (drop 22 a) = take 2 (drop 20 c))"

lemma flow_id_answer: "answers a c \<Longrightarrow> flow_id False a = flow_id True c"
  by (simp add: answers_def flow_id_def icmp_key_def flow_key_def Let_def split: if_splits)

lemma flow_packet_patch:
  assumes "flow_packet c" and "10 \<le> i" and "i + length bs \<le> 20"
  shows "flow_packet (take i c @ bs @ drop (i + length bs) c)"
proof -
  have l: "24 \<le> length c" using assms(1) by (simp add: flow_packet_def)
  have s: "same_except {i..<i + length bs} c (take i c @ bs @ drop (i + length bs) c)"
    using l assms by (intro same_except_patch) simp
  moreover have "(take i c @ bs @ drop (i + length bs) c) ! 9 = c ! 9"
    by (rule same_except_nth [OF s]) (use l assms in auto)
  ultimately show ?thesis using assms(1) unfolding flow_packet_def same_except_def by metis
qed

context netty_indexed
begin

lemma getIdentifier_flow:
  assumes "rpos (il_byteBuf p) = 0" and "content (il_byteBuf p) = c" and "flow_packet c"
  shows "getIdentifier N X u ex p = Inr (flow_id ex c)"
  using identifier_run [OF assms(1,2), of u ex] assms(3) by (auto simp: flow_packet_def flow_id_def)

lemma processVnatOut_run:
  assumes p: "rpos (il_byteBuf p) = 0" "content (il_byteBuf p) = c" "flow_packet c"
    and found: "findVNAT (vr_vnatMap r) p (il_getDstIP N X) = Inr (Some v)"
    and src: "parseCidr pat (vn_src v) = Inr (cidr_of b m)" "is_block b m"
    and dst: "parseCidr pat (vn_dst v) = Inr (cidr_of b' m)" "is_block b' m"
    and n: "n = ip_num (the_ip (take 4 (drop 16 c)))" "block_of m n = b"
  shows "\<exists>q nb. length nb = 4 \<and> the_ip nb = int2ip (of_nat (b' + (n - b))) \<and>
    processVnatOut N X pat u r p =
      Inr (r\<lparr> vr_vnatCache := jput (flow_id True (take 16 c @ nb @ drop 20 c)) (the_ip (take 4 (drop 16 c))) (vr_vnatCache r) \<rparr>, q) \<and>
    rpos (il_byteBuf q) = 0 \<and> content (il_byteBuf q) = take 16 c @ nb @ drop 20 c"
proof -
  have l: "20 \<le> length c" using p(3) by (simp add: flow_packet_def)
  obtain d where d: "bytes2ip (take 4 (drop 16 c)) = Inr d" "quad_match d" "the_ip (take 4 (drop 16 c)) = d"
    by (rule quad_bytes [of "take 4 (drop 16 c)"]) (use l in simp)
  have g: "il_getDstIP N X p = Inr d" using getters_run [OF p(1,2) l] d(1) by simp
  let ?k = "int2ip (of_nat (b' + (n - b)))"
  have nd: "n = ip_num d" using n(1) d(3) by simp
  have nat: "natIp pat v d = Inr ?k"
    using Cidr_transform_cidr_of [OF src(2) dst(2) d(2)] n(2) nd by (simp add: natIp_def src(1) dst(1))
  obtain nb where nb: "ip2bytes ?k = Inr nb" "length nb = 4" "the_ip nb = ?k" by (rule int2ip_of_bytes)
  let ?c = "take 16 c @ nb @ drop 20 c"
  obtain q where q: "il_setDstIP X ?k p = Inr q" "rpos (il_byteBuf q) = 0" "content (il_byteBuf q) = ?c"
    using setIP_run [OF p(1) _ _ nb(1,2), of 16] l p(2) by (auto simp: il_setDstIP_def)
  have fp: "flow_packet ?c" using flow_packet_patch [OF p(3), of 16 nb] nb(2) by simp
  show ?thesis
    using nb q fp by (intro exI [of _ q] exI [of _ nb])
      (simp add: processVnatOut_def found g nat q(1) getIdentifier_flow [OF q(2,3) fp] d(3))
qed

lemma processVnatIn_run:
  assumes a: "rpos (il_byteBuf a) = 0" "content (il_byteBuf a) = ca" "flow_packet ca"
    and hit: "jget (vr_vnatCache r) (flow_id False ca) = Some oip" and o: "ip2bytes oip = Inr ob" "length ob = 4"
  shows "\<exists>a'. processVnatIn N X u r a = Inr a' \<and> rpos (il_byteBuf a') = 0 \<and>
    content (il_byteBuf a') = take 12 ca @ ob @ drop 16 ca"
proof -
  have "20 \<le> length ca" using a(3) by (simp add: flow_packet_def)
  then show ?thesis
    using setIP_run [OF a(1) _ _ o, of 12] a(2)
    by (auto simp: processVnatIn_def getIdentifier_flow [OF a] hit il_setSrcIP_def)
qed

end

section \<open>Rules in the order of their level\<close>

text \<open>
  \<open>x\<close> is the applicable element with the smallest key, the first one of these in the list.
\<close>

definition decides :: "('a \<Rightarrow> bool) \<Rightarrow> ('a \<Rightarrow> 'k::linorder) \<Rightarrow> 'a list \<Rightarrow> 'a \<Rightarrow> bool" where
  "decides app f xs x \<longleftrightarrow> app x \<and> (\<exists>pre post. xs = pre @ x # post \<and>
     (\<forall>y \<in> set pre. app y \<longrightarrow> f x < f y) \<and> (\<forall>y \<in> set post. app y \<longrightarrow> f x \<le> f y))"

lemma decidesI:
  "app x \<Longrightarrow> xs = pre @ x # post \<Longrightarrow> \<forall>y \<in> set pre. app y \<longrightarrow> f x < f y \<Longrightarrow>
   \<forall>y \<in> set post. app y \<longrightarrow> f x \<le> f y \<Longrightarrow> decides app f xs x"
  by (auto simp: decides_def)

lemma filter_insort_first:
  "app x \<Longrightarrow> \<forall>z \<in> set zs. app z \<longrightarrow> f x \<le> f z \<Longrightarrow> filter app (insort_key f x zs) = x # filter app zs"
  by (induction zs) auto

lemma decides_first:
  assumes "decides app f xs x"
  shows "\<exists>rest. filter app (sort_key f xs) = x # rest"
proof -
  obtain pre post where xs: "xs = pre @ x # post" and x: "app x"
    and pre: "\<forall>y \<in> set pre. app y \<longrightarrow> f x < f y" and post: "\<forall>y \<in> set post. app y \<longrightarrow> f x \<le> f y"
    using assms by (auto simp: decides_def)
  have "\<exists>rest. filter app (sort_key f (pre @ x # post)) = x # rest" using pre
  proof (induction pre)
    case Nil
    show ?case using filter_insort_first [of app x "sort_key f post" f] x post by auto
  next
    case (Cons y pre)
    then obtain rest where r: "filter app (sort_key f (pre @ x # post)) = x # rest" by auto
    show ?case
    proof (cases "app y")
      case True
      have "filter app (insort_key f y (sort_key f (pre @ x # post))) =
          insort_key f y (filter app (sort_key f (pre @ x # post)))"
        by (rule filter_insort [of f _ app y, OF _ True]) simp
      then show ?thesis using r True Cons.prems by (auto simp: not_le)
    next
      case False
      then show ?thesis using r by (simp add: filter_insort_triv)
    qed
  qed
  then show ?thesis by (simp add: xs)
qed

lemma decides_exists: "\<exists>z \<in> set xs. app z \<Longrightarrow> \<exists>x. decides app f xs x"
proof (induction xs)
  case (Cons y xs)
  show ?case
  proof (cases "\<exists>z \<in> set xs. app z")
    case False
    then have "decides app f (y # xs) y" using Cons.prems by (auto simp: decides_def intro: exI [of _ "[]"])
    then show ?thesis ..
  next
    case True
    then obtain x pre post where i: "app x" "xs = pre @ x # post" "\<forall>z \<in> set pre. app z \<longrightarrow> f x < f z"
      "\<forall>z \<in> set post. app z \<longrightarrow> f x \<le> f z" using Cons.IH by (auto simp: decides_def)
    show ?thesis
    proof (cases "app y \<and> f y \<le> f x")
      case True
      then have "\<forall>z \<in> set xs. app z \<longrightarrow> f y \<le> f z" using i by (auto intro: order_trans less_imp_le)
      then have "decides app f (y # xs) y" using True by (auto simp: decides_def intro: exI [of _ "[]"])
      then show ?thesis ..
    next
      case False
      then have "decides app f (y # xs) x" using i
        by (intro decidesI [of _ x _ "y # pre" post]) (auto simp: not_le)
      then show ?thesis ..
    qed
  qed
qed simp

lemma first_match_filter:
  "first_match chs n = (case filter (\<lambda>c. chain_holds c n) chs of [] \<Rightarrow> None | c # _ \<Rightarrow> Some (ch_strategy c))"
  by (induction chs) auto

lemma mapR_map: "mapR f xs = Inr ys \<Longrightarrow> ys = map (\<lambda>x. projr (f x)) xs \<and> (\<forall>x \<in> set xs. f x = Inr (projr (f x)))"
  by (induction xs arbitrary: ys) (auto simp: res_simps)

text \<open>The rule applies to a direction in \<open>D\<close> and to the address \<open>n\<close>.\<close>

definition rule_applies ::
    "(string \<Rightarrow> bool) \<Rightarrow> RouteRuleDirectionEnum set \<Rightarrow> nat \<Rightarrow> RouteRule \<Rightarrow> bool" where
  "rule_applies pat D n rule \<longleftrightarrow>
     (\<exists>ch. chain_build pat rule = Inr ch \<and> ch_direction ch \<in> D \<and> chain_holds ch n)"

lemma rules_first_match:
  assumes "buildRouteRuleList pat rs = Inr chs"
  shows "first_match (filter (\<lambda>e. ch_direction e \<in> D) chs) n = Some RS_Allow \<longleftrightarrow>
    (\<exists>x. decides (rule_applies pat D n) (\<lambda>r. sint (rr_level r)) rs x \<and> rr_strategy x = ''Allow'')"
proof -
  let ?g = "\<lambda>r. projr (chain_build pat r)" and ?f = "\<lambda>r. sint (rr_level r)" and ?a = "rule_applies pat D n"
  have chs: "chs = map ?g (sort_key ?f rs)" and ok: "\<forall>r \<in> set rs. chain_build pat r = Inr (?g r)"
    using mapR_map [OF assms [unfolded buildRouteRuleList_def sort_rules_def]] by simp_all
  have a: "?a r \<longleftrightarrow> ch_direction (?g r) \<in> D \<and> chain_holds (?g r) n" if "r \<in> set rs" for r
    using bspec [OF ok that] by (auto simp: rule_applies_def)
  have st: "ch_strategy (?g r) = RS_Allow \<longleftrightarrow> rr_strategy r = ''Allow''" if "r \<in> set rs" for r
    using bspec [OF ok that] by (auto simp: chain_build_def res_simps strategy_valueOf_def split: if_splits)
  have "filter (\<lambda>c. chain_holds c n) (filter (\<lambda>e. ch_direction e \<in> D) chs) = map ?g (filter ?a (sort_key ?f rs))"
    unfolding chs filter_map filter_filter o_def by (intro arg_cong [of _ _ "map ?g"] filter_cong) (auto simp: a)
  then have fm: "first_match (filter (\<lambda>e. ch_direction e \<in> D) chs) n =
      (case filter ?a (sort_key ?f rs) of [] \<Rightarrow> None | r # _ \<Rightarrow> Some (ch_strategy (?g r)))"
    unfolding first_match_filter by (simp split: list.splits)
  show ?thesis
  proof (cases "\<exists>z \<in> set rs. ?a z")
    case True
    obtain x where x: "decides ?a ?f rs x" using decides_exists [OF True, of ?f] by (elim exE)
    then have xr: "x \<in> set rs" by (auto simp: decides_def)
    obtain rest where f: "filter ?a (sort_key ?f rs) = x # rest" using decides_first [OF x] by blast
    have "y = x" if "decides ?a ?f rs y" for y
      using decides_first [OF that] unfolding f by blast
    then have "(\<exists>y. decides ?a ?f rs y \<and> rr_strategy y = ''Allow'') \<longleftrightarrow> rr_strategy x = ''Allow''"
      using x by blast
    then show ?thesis unfolding fm f using st [OF xr] by simp
  next
    case False
    then have "filter ?a (sort_key ?f rs) = []" by (simp add: filter_empty_conv)
    moreover have "\<not> decides ?a ?f rs x" for x using False by (auto simp: decides_def)
    ultimately show ?thesis unfolding fm by simp
  qed
qed

section \<open>Sending and receiving\<close>

lemma natIp_int2ip: "natIp pat v d = Inr k \<Longrightarrow> \<exists>w. k = int2ip w"
  by (auto simp: natIp_def Cidr_transform_def genIpByIdx_def res_simps split: if_splits)

lemma rebuilt_addresses:
  assumes "rebuilt c c'" and "ip_packet_ok c"
  shows "take 4 (drop 12 c') = take 4 (drop 12 c)" "take 4 (drop 16 c') = take 4 (drop 16 c)"
    "length c' = length c" "c' ! 9 = c ! 9" "\<And>k n. 12 \<le> k \<Longrightarrow> k + n \<le> ip_hlen c \<Longrightarrow> take n (drop k c') = take n (drop k c)"
proof -
  let ?A = "(\<lambda>i. ip_hlen c + i) ` (if unat (c ! 9) \<in> {1, 6, 17} then {ck_offset (unat (c ! 9))..<ck_offset (unat (c ! 9)) + 2} else {}) \<union> {10..<12}"
  have s: "same_except ?A c c'" using assms(1) by (simp add: rebuilt_def Let_def)
  have h: "20 \<le> ip_hlen c" "ip_hlen c \<le> length c" using assms(2) by (simp_all add: ip_packet_ok_def)
  show k: "take n (drop k c') = take n (drop k c)" if "12 \<le> k" "k + n \<le> ip_hlen c" for k n
    by (rule same_except_slice [OF s]) (use that h in auto)
  show "take 4 (drop 12 c') = take 4 (drop 12 c)" "take 4 (drop 16 c') = take 4 (drop 16 c)"
    using k h by simp_all
  show "length c' = length c" using s by (simp add: same_except_def)
  show "c' ! 9 = c ! 9" by (rule same_except_nth [OF s]) (use h in auto)
qed

context netty_indexed
begin

lemma processVnatOut_any:
  assumes p: "rpos (il_byteBuf p) = 0" "content (il_byteBuf p) = c" "20 \<le> length c"
    and out: "processVnatOut N X pat u r p = Inr (r', q)"
  shows "\<exists>nb cache. length nb = 4 \<and> rpos (il_byteBuf q) = 0 \<and> content (il_byteBuf q) = take 16 c @ nb @ drop 20 c \<and>
    r' = r\<lparr> vr_vnatCache := cache \<rparr>"
proof (cases "findVNAT (vr_vnatMap r) p (il_getDstIP N X) = Inr None")
  case True
  then have e: "r' = r" "q = p" using out by (simp_all add: processVnatOut_def)
  have "c = take 16 c @ take 4 (drop 16 c) @ drop 20 c"
    using append_take_drop_id [of 16 c] append_take_drop_id [of 4 "drop 16 c"] by simp
  then show ?thesis using p e
    by (intro exI [of _ "take 4 (drop 16 c)"] exI [of _ "vr_vnatCache r"]) simp
next
  case False
  with out obtain v d k where k: "natIp pat v d = Inr k" "bindR (il_setDstIP X k p) (\<lambda>packet.
      bindR (getIdentifier N X u True packet) (\<lambda>identifier.
        Inr (r\<lparr> vr_vnatCache := jput identifier d (vr_vnatCache r) \<rparr>, packet))) = Inr (r', q)"
    by (auto simp: processVnatOut_def res_simps split: option.splits)
  obtain w where w: "k = int2ip w" using natIp_int2ip [OF k(1)] by blast
  obtain nb where nb: "ip2bytes k = Inr nb" "length nb = 4" unfolding w by (rule int2ip_of_bytes)
  obtain q' where q': "il_setDstIP X k p = Inr q'" "rpos (il_byteBuf q') = 0"
    "content (il_byteBuf q') = take 16 c @ nb @ drop 20 c"
    using setIP_run [OF p(1) _ _ nb, of 16] p(2,3) by (auto simp: il_setDstIP_def)
  then show ?thesis using k(2) nb(2) by (auto simp: res_simps)
qed

lemma ip_message_run:
  assumes q: "rpos (il_byteBuf q) = 0" "content (il_byteBuf q) = c" and ok: "ip_packet_ok c"
  shows "\<exists>m. ip_message N X q = Some (Inr m) \<and>
    ip_srcIP m = the_ip (take 4 (drop 12 c)) \<and> ip_dstIP m = the_ip (take 4 (drop 16 c)) \<and>
    (if il_update q then rebuilt c (ip_payload m) else ip_payload m = c)"
proof -
  have l: "20 \<le> length c" using ok by (simp add: ip_packet_ok_def)
  obtain s where s: "bytes2ip (take 4 (drop 12 c)) = Inr s" "the_ip (take 4 (drop 12 c)) = s"
    by (rule quad_bytes [of "take 4 (drop 12 c)"]) (use l in simp)
  obtain d where d: "bytes2ip (take 4 (drop 16 c)) = Inr d" "the_ip (take 4 (drop 16 c)) = d"
    by (rule quad_bytes [of "take 4 (drop 16 c)"]) (use l in simp)
  have g: "il_getSrcIP N X q = Inr s" "il_getDstIP N X q = Inr d"
    using getters_run [OF q l] s(1) d(1) by simp_all
  have tb: "toBytes N b = Inr (content b, after (length (content b)) b)" for b
    by (simp add: toBytes_def readBytes)
  obtain b' where b': "rebuild N X q = Some (Inr b')" "if il_update q then rebuilt c (content b') else content b' = c"
    using rebuild_run [OF q(1)] q(2) ok by (cases "il_update q") (auto simp: rebuild_def)
  show ?thesis
    by (intro exI [of _ "\<lparr> ip_srcIP = s, ip_dstIP = d, ip_payload = content b' \<rparr>"])
      (use b' s d g in \<open>simp add: ip_message_def lift_res_def tb split: if_splits\<close>)
qed

text \<open>The source after the step for Windows: the node's own address for that of the connection sharing.\<close>

lemma fix_ics_run:
  assumes p: "rpos (il_byteBuf p) = 0" "content (il_byteBuf p) = c" and ok: "ip_packet_ok c"
    and own: "vr_localVip r = int2ip a"
  shows "\<exists>sb q. fix_ics N X w r p = Inr q \<and> rpos (il_byteBuf q) = 0 \<and> length sb = 4 \<and>
    the_ip sb = sent_source w r (the_ip (take 4 (drop 12 c))) \<and> content (il_byteBuf q) = take 12 c @ sb @ drop 16 c \<and>
    ip_packet_ok (take 12 c @ sb @ drop 16 c)"
proof -
  have l: "20 \<le> length c" using ok by (simp add: ip_packet_ok_def)
  have self: "c = take 12 c @ take 4 (drop 12 c) @ drop 16 c"
    using append_take_drop_id [of 12 c] append_take_drop_id [of 4 "drop 12 c"] by simp
  obtain s where s: "bytes2ip (take 4 (drop 12 c)) = Inr s" "the_ip (take 4 (drop 12 c)) = s"
    by (rule quad_bytes [of "take 4 (drop 12 c)"]) (use l in simp)
  have g: "il_getSrcIP N X p = Inr s" using getters_run [OF p l] s(1) by simp
  obtain sb where sb: "ip2bytes (vr_localVip r) = Inr sb" "length sb = 4" "the_ip sb = vr_localVip r"
    unfolding own by (rule int2ip_of_bytes)
  show ?thesis
  proof (cases "w \<and> vr_netMesh r \<and> s = IcsIp")
    case True
    obtain q where q: "il_setSrcIP X (vr_localVip r) p = Inr q" "rpos (il_byteBuf q) = 0"
      "content (il_byteBuf q) = take 12 c @ sb @ drop 16 c"
      using setIP_run [OF p(1) _ _ sb(1,2), of 12] l p(2) by (auto simp: il_setSrcIP_def)
    have "ip_packet_ok (take 12 c @ sb @ drop 16 c)" using ip_packet_ok_patch [OF ok, of 12 sb] sb(2) by simp
    then show ?thesis using True q sb(2,3) g s(2)
      by (intro exI [of _ sb] exI [of _ q]) (simp add: fix_ics_def sent_source_def)
  next
    case False
    have "fix_ics N X w r p = Inr p" using False g by (auto simp: fix_ics_def)
    then show ?thesis using False p ok self l s(2)
      by (intro exI [of _ "take 4 (drop 12 c)"] exI [of _ p]) (auto simp: sent_source_def)
  qed
qed

lemma vr_send_fixed:
  "fix_ics N X w r p = Inr q \<Longrightarrow> vr_send N X pat w u r p = vr_send N X pat False u r q"
  by (simp add: vr_send_def fix_ics_def lift_res_def)

text \<open>What a message handed to a node says about the packet that was sent.\<close>

lemma vr_send_run:
  assumes p: "rpos (il_byteBuf p) = 0" "content (il_byteBuf p) = c" and ok: "ip_packet_ok c"
    and sent: "vr_send N X pat False u r p = Some (Inr (r', outs))" and nm: "(node, m) \<in> set outs"
  shows "node \<in> set (getNodeList (vr_nodes r)) \<and>
    (\<exists>nb c'. length nb = 4 \<and> c' = take 16 c @ nb @ drop 20 c \<and> ip_packet_ok c' \<and>
      ip_srcIP m = the_ip (take 4 (drop 12 c')) \<and> ip_dstIP m = the_ip (take 4 (drop 16 c')) \<and>
      (ip_payload m = c' \<or> rebuilt c' (ip_payload m)))"
proof -
  have l: "20 \<le> length c" using ok by (simp add: ip_packet_ok_def)
  have self: "c = take 16 c @ take 4 (drop 16 c) @ drop 20 c"
    using append_take_drop_id [of 16 c] append_take_drop_id [of 4 "drop 16 c"] by simp
  obtain d where d: "bytes2ip (take 4 (drop 16 c)) = Inr d"
    by (rule quad_bytes [of "take 4 (drop 16 c)"]) (use l in simp)
  have g: "il_getDstIP N X p = Inr d" using getters_run [OF p l] d by simp
  obtain b where b: "is_broadcast r d = Inr b"
    using sent by (cases "is_broadcast r d") (simp_all add: vr_send_def fix_ics_def lift_res_def g)
  show ?thesis
  proof (cases b)
    case True
    obtain m' where m': "ip_message N X p = Some (Inr m')" "ip_srcIP m' = the_ip (take 4 (drop 12 c))"
      "ip_dstIP m' = the_ip (take 4 (drop 16 c))" "if il_update p then rebuilt c (ip_payload m') else ip_payload m' = c"
      using ip_message_run [OF p ok] by blast
    have "m = m'" "node \<in> set (getNodeList (vr_nodes r))"
      using sent nm b True m'(1) by (auto simp: vr_send_def fix_ics_def lift_res_def g)
    then show ?thesis using m' self ok l
      by (intro conjI exI [of _ "take 4 (drop 16 c)"] exI [of _ c]) (simp_all split: if_splits)
  next
    case False
    obtain vip q where ro: "routeOut N X pat u r p = Inr (Some vip, r', q)" and nd: "getNode (vr_nodes r') vip = Some node"
      and im: "ip_message N X q = Some (Inr m)"
      using sent nm b False
      by (auto simp: vr_send_def fix_ics_def lift_res_def g res_opt_def split: sum.splits option.splits)
    have "processVnatOut N X pat u r p = Inr (r', q)"
      using ro by (auto simp: routeOut_def res_simps split: if_splits)
    then obtain nb cache where q: "length nb = 4" "rpos (il_byteBuf q) = 0"
      "content (il_byteBuf q) = take 16 c @ nb @ drop 20 c" "r' = r\<lparr> vr_vnatCache := cache \<rparr>"
      using processVnatOut_any [OF p l] by blast
    have ok': "ip_packet_ok (take 16 c @ nb @ drop 20 c)" using ip_packet_ok_patch [OF ok, of 16 nb] q(1) by simp
    obtain m' where m': "ip_message N X q = Some (Inr m')"
      "ip_srcIP m' = the_ip (take 4 (drop 12 (take 16 c @ nb @ drop 20 c)))"
      "ip_dstIP m' = the_ip (take 4 (drop 16 (take 16 c @ nb @ drop 20 c)))"
      "if il_update q then rebuilt (take 16 c @ nb @ drop 20 c) (ip_payload m') else ip_payload m' = take 16 c @ nb @ drop 20 c"
      using ip_message_run [OF q(2,3) ok'] by blast
    have "m' = m" using im m'(1) by simp
    moreover have "node \<in> set (getNodeList (vr_nodes r))"
      using nd q(4) by (auto simp: getNode_def getNodeList_def intro: jget_in_values)
    ultimately show ?thesis using q(1) ok' m'
      by (intro conjI exI [of _ nb] exI [of _ "take 16 c @ nb @ drop 20 c"]) (simp_all split: if_splits)
  qed
qed

end

section \<open>Properties\<close>

text \<open>
  C3: Address translation there and back. When the table has an entry whose source block contains
  the destination of an outgoing packet, the packet leaves for the address with the same offset
  in the target block, nothing else of it changes, and the answer to it, arriving while the
  cache still has the entry, is given the original destination as its source.
\<close>

theorem vnat_roundtrip:
  assumes "netty_indexed N content marked after sliced rpos mpos X mem wpos wmark at_reader at_writer put"
    and "rpos (il_byteBuf p) = 0" "content (il_byteBuf p) = c" "flow_packet c"
    and "findVNAT (vr_vnatMap r) p (il_getDstIP N X) = Inr (Some v)"
    and "parseCidr pat (vn_src v) = Inr (cidr_of b m)" "is_block b m"
    and "parseCidr pat (vn_dst v) = Inr (cidr_of b' m)" "is_block b' m"
    and "n = ip_num (the_ip (take 4 (drop 16 c)))" "block_of m n = b"
  shows "\<exists>r' q nb. processVnatOut N X pat u r p = Inr (r', q) \<and> length nb = 4 \<and>
    the_ip nb = int2ip (of_nat (b' + (n - b))) \<and> block_of m (b' + (n - b)) = b' \<and>
    content (il_byteBuf q) = take 16 c @ nb @ drop 20 c \<and>
    (\<forall>a u' r2. rpos (il_byteBuf a) = 0 \<and> answers (content (il_byteBuf a)) (content (il_byteBuf q)) \<and>
       jget (vr_vnatCache r2) (flow_id True (content (il_byteBuf q))) =
         jget (vr_vnatCache r') (flow_id True (content (il_byteBuf q))) \<longrightarrow>
       (\<exists>a'. processVnatIn N X u' r2 a = Inr a' \<and>
          content (il_byteBuf a') = take 12 (content (il_byteBuf a)) @ take 4 (drop 16 c) @ drop 16 (content (il_byteBuf a))))"
proof -
  have l: "length (take 4 (drop 16 c)) = 4" using assms(4) unfolding flow_packet_def by auto
  obtain d where d: "ip2bytes d = Inr (take 4 (drop 16 c))" "the_ip (take 4 (drop 16 c)) = d" by (rule quad_bytes [OF l])
  obtain q nb where q: "length nb = 4" "the_ip nb = int2ip (of_nat (b' + (n - b)))"
    "processVnatOut N X pat u r p =
      Inr (r\<lparr> vr_vnatCache := jput (flow_id True (take 16 c @ nb @ drop 20 c)) (the_ip (take 4 (drop 16 c))) (vr_vnatCache r) \<rparr>, q)"
    "content (il_byteBuf q) = take 16 c @ nb @ drop 20 c"
    using netty_indexed.processVnatOut_run [OF assms(1-4) assms(5-11)] by blast
  have t: "block_of m (b' + (n - b)) = b'" by (rule transform_target(1) [OF assms(7,9,11)])
  have "\<exists>a'. processVnatIn N X u' r2 a = Inr a' \<and>
      content (il_byteBuf a') = take 12 (content (il_byteBuf a)) @ take 4 (drop 16 c) @ drop 16 (content (il_byteBuf a))"
    if a: "rpos (il_byteBuf a) = 0" "answers (content (il_byteBuf a)) (take 16 c @ nb @ drop 20 c)"
      and hit: "jget (vr_vnatCache r2) (flow_id True (take 16 c @ nb @ drop 20 c)) = Some d" for a u' r2
  proof -
    have "flow_packet (content (il_byteBuf a))" using a(2) by (simp add: answers_def)
    then show ?thesis
      using netty_indexed.processVnatIn_run [OF assms(1) a(1) refl _ _ d(1) l, of r2 u'] hit flow_id_answer [OF a(2)] by auto
  qed
  then show ?thesis using q t d(2) by (intro exI [of _ q] exI [of _ nb] exI) auto
qed

text \<open>A router of the network 10.0.0.0/24 that translates it to 192.168.5.0/24.\<close>

definition sample_vnat :: VNAT where
  "sample_vnat = \<lparr> vn_vip = [], vn_src = quad_str 10 0 0 0 @ ''/'' @ show_nat 24,
     vn_dst = quad_str 192 168 5 0 @ ''/'' @ show_nat 24, vn_vipList = [], vn_name = [] \<rparr>"

definition sample_router :: VirtualRouter where
  "sample_router = \<lparr> vr_netMesh = False, vr_localVip = quad_str 10 0 0 1, vr_maskBits = 24,
     vr_vipCidr = quad_str 10 0 0 0 @ ''/'' @ show_nat 24,
     vr_routeList = [\<lparr> rt_destination = quad_str 10 0 0 0 @ ''/'' @ show_nat 24,
        rt_nexthop = [''a'', ''b'', ''c''], rt_name = [] \<rparr>],
     vr_routeIn = [], vr_routeOut = [\<lparr> ch_name = [], ch_strategy = RS_Allow, ch_direction = RD_All,
        ch_predicateList = [Ipv4RangeRouteRulePredicate 0 (of_nat (2 ^ 32 - 1))] \<rparr>],
     vr_vnatMap = [(vn_src sample_vnat, sample_vnat)], vr_vnatCache = [], vr_nodes = [] \<rparr>"

lemma sample_cidr:
  "cidr_text (quad_str 10 0 0 0 @ ''/'' @ show_nat 24) (quad_nat 10 0 0 0) 24"
  unfolding cidr_text_def
  by (intro conjI exI [of _ 10] exI [of _ 0]) (simp_all add: block_of_def quad_nat_def)

lemma sample_addresses:
  "the_ip (take 4 (drop 12 sample_packet)) = quad_str 10 0 0 1"
  "the_ip (take 4 (drop 16 sample_packet)) = quad_str 10 0 0 2"
  "ip_num (quad_str 10 0 0 2) = quad_nat 10 0 0 2"
  by (simp_all add: sample_packet_def the_ip_def bytes2ip_quad ip_num_quad_str)

lemma sample_flow: "flow_packet sample_packet"
  by (simp add: flow_packet_def sample_packet_def)

lemma sample_new: "ib_r (il_byteBuf (IpLayerPacket_new (ibytes bs))) = 0"
  "icontent (il_byteBuf (IpLayerPacket_new (ibytes bs))) = bs"
  by (simp_all add: IpLayerPacket_new_def ibuf_views)

lemma sample_getDst: "il_getDstIP mem_netty mem_index (IpLayerPacket_new (ibytes sample_packet)) = Inr (quad_str 10 0 0 2)"
proof -
  have "20 \<le> length sample_packet" by (simp add: sample_packet_def)
  from ibuf.getters_run(2) [OF sample_new this]
  show ?thesis by (simp add: sample_packet_def bytes2ip_quad)
qed

theorem vnat_roundtrip_witness:
  "\<exists>r' q. processVnatOut mem_netty mem_index isIPv4 [] sample_router (IpLayerPacket_new (ibytes sample_packet)) = Inr (r', q) \<and>
     the_ip (take 4 (drop 16 (icontent (il_byteBuf q)))) = quad_str 192 168 5 2"
proof -
  note p = ipv4_pattern.parseCidr_text [OF own_pattern.ipv4_pattern_axioms]
  have b: "block_of 24 (quad_nat 10 0 0 0) = quad_nat 10 0 0 0" "block_of 24 (quad_nat 192 168 5 0) = quad_nat 192 168 5 0"
    "block_of 24 (quad_nat 10 0 0 2) = quad_nat 10 0 0 0" by (simp_all add: block_of_def quad_nat_def)
  have blk: "is_block (quad_nat 10 0 0 0) 24" "is_block (quad_nat 192 168 5 0) 24"
    using b by (simp_all add: is_block_def) (simp_all add: quad_nat_def)
  have f: "findVNAT (vr_vnatMap sample_router) (IpLayerPacket_new (ibytes sample_packet)) (il_getDstIP mem_netty mem_index) =
      Inr (Some sample_vnat)"
    using Cidr_contains_cidr_text [OF sample_cidr quad_match_quad_str, of 10 0 0 2] b(3) sample_addresses(3)
    by (simp add: sample_router_def sample_vnat_def sample_getDst)
  have s: "parseCidr isIPv4 (vn_src sample_vnat) = Inr (cidr_of (quad_nat 10 0 0 0) 24)"
    "parseCidr isIPv4 (vn_dst sample_vnat) = Inr (cidr_of (quad_nat 192 168 5 0) 24)"
    using p [of 10 0 0 0 24] p [of 192 168 5 0 24] b by (simp_all add: sample_vnat_def)
  have n: "quad_nat 10 0 0 2 = ip_num (the_ip (take 4 (drop 16 sample_packet)))" using sample_addresses by simp
  have k: "quad_nat 192 168 5 0 + (quad_nat 10 0 0 2 - quad_nat 10 0 0 0) = quad_nat 192 168 5 2" by (simp add: quad_nat_def)
  obtain r' q nb where q: "processVnatOut mem_netty mem_index isIPv4 [] sample_router (IpLayerPacket_new (ibytes sample_packet)) = Inr (r', q)"
    "length nb = 4" "the_ip nb = int2ip (of_nat (quad_nat 192 168 5 2))"
    "icontent (il_byteBuf q) = take 16 sample_packet @ nb @ drop 20 sample_packet"
    using vnat_roundtrip [OF ibuf.netty_indexed_axioms sample_new sample_flow f s(1) blk(1) s(2) blk(2) n b(3), of "[]"]
    unfolding k by blast
  have "take 4 (drop 16 (icontent (il_byteBuf q))) = nb" using q(2) by (simp add: q(4) sample_packet_def)
  then show ?thesis using q(1,3) by (simp add: int2ip_quad_nat)
qed

text \<open>
  C5: The decision of routeOut after translation: no route when the first matching rule is not
  an allow, the destination itself when it lies in the network of the node, otherwise a next
  hop of the first route whose block contains the destination, chosen by the hash of the
  source; no route when that route has no next hop or no route matches.
\<close>

theorem routeOut_decides:
  assumes "netty_indexed N content marked after sliced rpos mpos X mem wpos wmark at_reader at_writer put"
    and "processVnatOut N X pat u r p = Inr (r', q)"
    and "rpos (il_byteBuf q) = 0" "content (il_byteBuf q) = c" "20 \<le> length c"
    and "list_all wf_chain (vr_routeOut r')" and "cidr_text (vr_vipCidr r') (fst vip) (snd vip)"
    and "list_all2 route_block (vr_routeList r') es"
    and "n = ip_num (the_ip (take 4 (drop 16 c)))" and "h = java_hash (the_ip (take 4 (drop 12 c)))" "h \<noteq> 0x80000000"
  shows "routeOut N X pat u r p = Inr (route_decision (vr_routeOut r') vip es n h, r', q)"
  by (rule netty_indexed.routeOut_run [OF assms])

theorem routeOut_decides_witness:
  "routeOut mem_netty mem_index isIPv4 [] (sample_router\<lparr> vr_vnatMap := [] \<rparr>) (IpLayerPacket_new (ibytes sample_packet)) =
     Inr (Some (quad_str 10 0 0 2), sample_router\<lparr> vr_vnatMap := [] \<rparr>, IpLayerPacket_new (ibytes sample_packet))"
proof -
  let ?r = "sample_router\<lparr> vr_vnatMap := [] \<rparr>" and ?p = "IpLayerPacket_new (ibytes sample_packet)"
  have o: "processVnatOut mem_netty mem_index isIPv4 [] ?r ?p = Inr (?r, ?p)" by (simp add: processVnatOut_def)
  have l: "20 \<le> length sample_packet" by (simp add: sample_packet_def)
  have w: "list_all wf_chain (vr_routeOut ?r)" by (simp add: sample_router_def wf_chain_def)
  have v: "cidr_text (vr_vipCidr ?r) (fst (quad_nat 10 0 0 0, 24)) (snd (quad_nat 10 0 0 0, 24))"
    using sample_cidr by (simp add: sample_router_def)
  have es: "list_all2 route_block (vr_routeList ?r) [(quad_nat 10 0 0 0, 24, [''a'', ''b'', ''c''])]"
    using sample_cidr by (simp add: sample_router_def route_block_def)
  have n: "quad_nat 10 0 0 2 = ip_num (the_ip (take 4 (drop 16 sample_packet)))" using sample_addresses by simp
  have s: "quad_str 10 0 0 1 = ''10.0.0.1''" by code_simp
  have h: "java_hash (the_ip (take 4 (drop 12 sample_packet))) \<noteq> 0x80000000"
    unfolding sample_addresses s by (simp add: java_hash_def)
  have d: "route_decision (vr_routeOut ?r) (quad_nat 10 0 0 0, 24) [(quad_nat 10 0 0 0, 24, [''a'', ''b'', ''c''])]
      (quad_nat 10 0 0 2) (java_hash (the_ip (take 4 (drop 12 sample_packet)))) = Some (quad_str 10 0 0 2)"
    by (simp add: route_decision_def sample_router_def chain_holds_def int2ip_quad_nat)
      (simp add: block_of_def quad_nat_def)
  show ?thesis
    using routeOut_decides [OF ibuf.netty_indexed_axioms o sample_new l w v es n refl h] unfolding d .
qed

text \<open>
  C20: The next hop of a matching route: its index is the hash of the source address modulo the
  number of next hops. For the one hash whose absolute value is negative, Integer.MIN_VALUE,
  the look-up raises an exception unless the number of next hops divides it.
\<close>

theorem findRoute_hop:
  assumes "netty_indexed N content marked after sliced rpos mpos X mem wpos wmark at_reader at_writer put"
    and "rpos (il_byteBuf p) = 0" "content (il_byteBuf p) = c" "20 \<le> length c"
    and "cidr_text (rt_destination rt) b m" "quad_match dst" "block_of m (ip_num dst) = b" and "rt_nexthop rt \<noteq> []"
    and "h = java_hash (the_ip (take 4 (drop 12 c)))"
  shows "findRoute N X (rt # rts) dst p =
    (if h = 0x80000000 \<and> \<not> int (length (rt_nexthop rt)) dvd 2 ^ 31 then Inl IndexOutOfBoundsException
     else Inr (Some (rt_nexthop rt ! nat (\<bar>sint h\<bar> mod int (length (rt_nexthop rt))))))"
proof -
  have l: "length (take 4 (drop 12 c)) = 4" using assms(4) by auto
  obtain s where s: "bytes2ip (take 4 (drop 12 c)) = Inr s" "the_ip (take 4 (drop 12 c)) = s" by (rule quad_bytes [OF l])
  have "il_getSrcIP N X p = Inr s" using netty_indexed.getters_run(1) [OF assms(1-4)] s(1) by simp
  then show ?thesis
    using hop_index [OF assms(8), of h] Cidr_contains_cidr_text [OF assms(5,6)] assms(7-9) s(2)
    by (simp add: Let_def)
qed

text \<open>The address 52.13.35.254 has this hash: with three next hops its packets are lost.\<close>

theorem findRoute_hop_witness:
  "findRoute mem_netty mem_index (vr_routeList sample_router) (quad_str 10 0 0 2)
     (IpLayerPacket_new (ibytes (take 12 sample_packet @ [52, 13, 35, 254] @ drop 16 sample_packet)))
   = Inl IndexOutOfBoundsException"
proof -
  let ?c = "take 12 sample_packet @ [52, 13, 35, 254] @ drop 16 sample_packet"
  have l: "20 \<le> length ?c" by (simp add: sample_packet_def)
  have a: "the_ip (take 4 (drop 12 ?c)) = quad_str 52 13 35 254" by (simp add: sample_packet_def the_ip_def bytes2ip_quad)
  have s: "quad_str 52 13 35 254 = ''52.13.35.254''" by code_simp
  have h: "(0x80000000 :: jint) = java_hash (the_ip (take 4 (drop 12 ?c)))" unfolding a s by (simp add: java_hash_def)
  have b: "block_of 24 (ip_num (quad_str 10 0 0 2)) = quad_nat 10 0 0 0"
    unfolding sample_addresses by (simp add: block_of_def quad_nat_def)
  let ?rt = "\<lparr> rt_destination = quad_str 10 0 0 0 @ ''/'' @ show_nat 24, rt_nexthop = [''a'', ''b'', ''c''], rt_name = [] \<rparr>"
  have c: "cidr_text (rt_destination ?rt) (quad_nat 10 0 0 0) 24" "rt_nexthop ?rt \<noteq> []" using sample_cidr by simp_all
  have "vr_routeList sample_router = [?rt]" by (simp add: sample_router_def)
  then show ?thesis
    using findRoute_hop [OF ibuf.netty_indexed_axioms sample_new l c(1) _ b c(2) h, of "[]"] by simp
qed

text \<open>
  C31: The rules of a started router. Registration splits the rules by direction and orders them
  by level; a packet is let in (out) exactly when, among the rules for its direction that
  contain the address, the one with the smallest level, the first of these in the received
  list, is an allow.
\<close>

theorem router_rules_by_level:
  assumes "ipv4_pattern pat" and "start_router pat configResp regResp r0 = Inr r" and "n < 2 ^ 32"
  shows "processor_test (vr_routeIn r) (int2ip (of_nat n)) =
      Inr (\<exists>x. decides (rule_applies pat {RD_All, RD_Input} n) (\<lambda>r. sint (rr_level r)) (rs_routeRuleList regResp) x \<and>
             rr_strategy x = ''Allow'') \<and>
    processor_test (vr_routeOut r) (int2ip (of_nat n)) =
      Inr (\<exists>x. decides (rule_applies pat {RD_All, RD_Output} n) (\<lambda>r. sint (rr_level r)) (rs_routeRuleList regResp) x \<and>
             rr_strategy x = ''Allow'')"
proof -
  obtain chs where b: "buildRouteRuleList pat (rs_routeRuleList regResp) = Inr chs"
    and r: "vr_routeIn r = filter (\<lambda>e. ch_direction e \<in> {RD_All, RD_Input}) chs"
      "vr_routeOut r = filter (\<lambda>e. ch_direction e \<in> {RD_All, RD_Output}) chs"
    using assms(2) by (auto simp: start_router_def Let_def res_simps split: if_splits)
  have "list_all wf_chain chs"
    using ipv4_pattern.chain_builds_wf [OF assms(1)] b by (simp add: buildRouteRuleList_def)
  then have w: "list_all wf_chain (filter P chs)" for P by (simp add: list_all_iff)
  show ?thesis unfolding r processor_test_int2ip [OF w assms(3)] rules_first_match [OF b] by simp
qed

theorem router_rules_by_level_witness:
  "\<exists>r. start_router isIPv4 \<lparr> cr_code = MC_Success, cr_stunServers = [], cr_relayServers = [], cr_stunServer = '''', cr_relayServer = '''' \<rparr>
     \<lparr> rs_code = MC_Success, rs_vip = [], rs_maskBits = 24, rs_nodeList = [], rs_routeList = [], rs_vnatList = [],
       rs_routeRuleList = [], rs_cidr = [] \<rparr> sample_router = Inr r \<and>
     processor_test (vr_routeIn r) (int2ip (of_nat 7)) = Inr False"
proof -
  let ?reg = "\<lparr> rs_code = MC_Success, rs_vip = [], rs_maskBits = 24, rs_nodeList = [], rs_routeList = [], rs_vnatList = [],
       rs_routeRuleList = [], rs_cidr = [] \<rparr>"
  obtain r where r: "start_router isIPv4 \<lparr> cr_code = MC_Success, cr_stunServers = [], cr_relayServers = [], cr_stunServer = '''', cr_relayServer = '''' \<rparr> ?reg sample_router = Inr r"
    by (simp add: start_router_def Let_def buildRouteRuleList_def sort_rules_def)
  have "\<not> decides A f [] x" for A and f :: "RouteRule \<Rightarrow> int" and x by (simp add: decides_def)
  then show ?thesis
    using router_rules_by_level [OF own_pattern.ipv4_pattern_axioms r, of 7] r by simp
qed

text \<open>The messages of the controller, one after the other, with the effects in order.\<close>

fun vr_messages ::
    "'d vr_parsers \<Rightarrow> bool \<Rightarrow> VirtualRouter \<Rightarrow> 'd Message list \<Rightarrow> (VirtualRouter \<times> 'd vr_effect list) res" where
  "vr_messages P ice r [] = Inr (r, [])"
| "vr_messages P ice r (m # ms) =
     bindR (vr_channelRead0 P ice r m) (\<lambda>(r, e1). bindR (vr_messages P ice r ms) (\<lambda>(r, e2). Inr (r, e1 @ e2)))"

text \<open>What a message does to the table of nodes.\<close>

fun node_event :: "'d vr_parsers \<Rightarrow> 'd Message \<Rightarrow> (string \<times> NodeInfo option) list" where
  "node_event P m =
     (case msg_type m of
        NodeOnlineType \<Rightarrow> (case vp_node P (msg_data m) of Inr i \<Rightarrow> [(ni_vip i, Some i)] | Inl _ \<Rightarrow> [])
      | NodeOfflineType \<Rightarrow> (case vp_node P (msg_data m) of Inr i \<Rightarrow> [(ni_vip i, None)] | Inl _ \<Rightarrow> [])
      | _ \<Rightarrow> [])"

lemma channelRead0_nodes:
  "vr_channelRead0 P ice r m = Inr (r', es) \<Longrightarrow> r' = r\<lparr> vr_nodes := fold jmap.apply_op (node_event P m) (vr_nodes r) \<rparr>"
  by (cases "msg_type m") (auto simp: vr_channelRead0_def res_simps addNode_def deleteNode_def)

lemma vr_messages_nodes:
  "vr_messages P ice r ms = Inr (r', es) \<Longrightarrow>
    r' = r\<lparr> vr_nodes := fold jmap.apply_op (concat (map (node_event P) ms)) (vr_nodes r) \<rparr>"
proof (induction ms arbitrary: r r' es)
  case (Cons m ms)
  from Cons.prems obtain r1 e1 e2 where 1: "vr_channelRead0 P ice r m = Inr (r1, e1)" "vr_messages P ice r1 ms = Inr (r', e2)"
    by (auto simp: res_simps)
  show ?case using Cons.IH [OF 1(2)] channelRead0_nodes [OF 1(1)] by simp
qed simp

text \<open>
  C21: The table of nodes follows the controller: after any sequence of messages that parse, a
  look-up gives the node announced by the last online message for that address with no offline
  message after it, nothing when the last one was an offline message, and the entry from before
  when no message named the address; nothing else of the state changes.
\<close>

theorem node_table_follows:
  assumes "wf_jmap (vr_nodes r)" and "vr_messages P ice r ms = Inr (r', es)"
  shows "getNode (vr_nodes r') vip =
      (case map_of (rev (concat (map (node_event P) ms))) vip of Some w \<Rightarrow> w | None \<Rightarrow> getNode (vr_nodes r) vip) \<and>
    wf_jmap (vr_nodes r') \<and> r' = r\<lparr> vr_nodes := vr_nodes r' \<rparr>"
  unfolding getNode_def
  using vr_messages_nodes [OF assms(2)] jmap.get_history [OF assms(1)] jmap.wf_history [OF assms(1)] by simp

theorem node_table_follows_witness:
  "\<exists>r' es. vr_messages \<lparr> vp_offer = \<lambda>_. Inl InvalidProtocolBufferException, vp_node = Inr \<rparr> True sample_router
     [\<lparr> msg_reqId = [], msg_mode = Push, msg_type = NodeOnlineType, msg_data = \<lparr> ni_vip = ''a'', ni_addressUri = [] \<rparr> \<rparr>,
      \<lparr> msg_reqId = [], msg_mode = Push, msg_type = NodeOfflineType, msg_data = \<lparr> ni_vip = ''a'', ni_addressUri = [] \<rparr> \<rparr>]
     = Inr (r', es) \<and> getNode (vr_nodes r') ''a'' = None"
proof -
  let ?ms = "[\<lparr> msg_reqId = [], msg_mode = Push, msg_type = NodeOnlineType, msg_data = \<lparr> ni_vip = ''a'', ni_addressUri = [] \<rparr> \<rparr>,
      \<lparr> msg_reqId = [], msg_mode = Push, msg_type = NodeOfflineType, msg_data = \<lparr> ni_vip = ''a'', ni_addressUri = [] \<rparr> \<rparr>]"
  let ?P = "\<lparr> vp_offer = \<lambda>_. Inl InvalidProtocolBufferException, vp_node = Inr \<rparr>"
  obtain r' es where "vr_messages ?P True sample_router ?ms = Inr (r', es)"
    by (simp add: vr_channelRead0_def)
  moreover have "wf_jmap (vr_nodes sample_router)" by (simp add: sample_router_def)
  ultimately show ?thesis using node_table_follows [of sample_router ?P True ?ms r' es "''a''"] by auto
qed

text \<open>
  C7: From send to recv. Every message that send hands over goes to a node of the table and
  carries the packet. Its destination may have been translated; its source is the one it came
  with, except that on Windows a node of a mesh sends packets of the internet connection sharing
  (source 192.168.137.1) under its own address; nothing else of it changes. The payload is that
  packet, or, when it was changed, the rebuilt one. A receiving node whose rules let the
  destination in, and which has no translation for the flow, passes exactly these bytes on. The
  packet is a TCP, UDP or ICMP packet of at most 65500 bytes with its header complete, and the
  node's own address is one in the dotted form the controller hands out. A rebuilt packet has a
  header checksum that verifies (over the first 20 bytes), and a transport checksum that does unless the payload has an
  odd length and a last byte of 128 or more (the exception \<open>calcIp_correct\<close> is about).
\<close>

theorem send_recv:
  assumes "netty_indexed N content marked after sliced rpos mpos X mem wpos wmark at_reader at_writer put"
    and "rpos (il_byteBuf p) = 0" "content (il_byteBuf p) = c" and "ip_packet_ok c" "flow_packet c"
    and "vr_localVip r = int2ip a"
    and "vr_send N X pat w u r p = Some (Inr (r', outs))" and "(node, m) \<in> set outs"
    and "parseFrom data = Inr m"
    and "sm_messageType msg = Some Transfer" "getAttr AttrData msg = Some (BytesAttr data)"
    and "processor_test (vr_routeIn rB) (ip_dstIP m) = Inr True"
    and "jget (vr_vnatCache rB) (flow_id False (ip_payload m)) = None"
  shows "node \<in> set (getNodeList (vr_nodes r)) \<and>
    (\<exists>sb nb c' q. length sb = 4 \<and> length nb = 4 \<and> the_ip sb = sent_source w r (the_ip (take 4 (drop 12 c))) \<and>
      c' = take 12 c @ sb @ nb @ drop 20 c \<and> (ip_payload m = c' \<or> rebuilt c' (ip_payload m)) \<and>
      ip_srcIP m = the_ip sb \<and> ip_dstIP m = the_ip nb \<and>
      ip_srcIP m = the_ip (take 4 (drop 12 (ip_payload m))) \<and> ip_dstIP m = the_ip (take 4 (drop 16 (ip_payload m))) \<and>
      vr_recv N X parseFrom u' rB msg = Inr (Some (Some q)) \<and> content (il_byteBuf q) = ip_payload m)"
proof -
  let ?pl = "ip_payload m"
  have lc: "20 \<le> length c" using assms(4) by (simp add: ip_packet_ok_def)
  obtain sb p' where f: "fix_ics N X w r p = Inr p'" "rpos (il_byteBuf p') = 0" "length sb = 4"
    "the_ip sb = sent_source w r (the_ip (take 4 (drop 12 c)))"
    "content (il_byteBuf p') = take 12 c @ sb @ drop 16 c" "ip_packet_ok (take 12 c @ sb @ drop 16 c)"
    using netty_indexed.fix_ics_run [OF assms(1-4,6), of w] by blast
  have sent: "vr_send N X pat False u r p' = Some (Inr (r', outs))" using assms(7) netty_indexed.vr_send_fixed [OF assms(1) f(1)] by simp
  obtain nb c' where s: "node \<in> set (getNodeList (vr_nodes r))" "length nb = 4"
    "c' = take 16 (take 12 c @ sb @ drop 16 c) @ nb @ drop 20 (take 12 c @ sb @ drop 16 c)" "ip_packet_ok c'"
    "ip_srcIP m = the_ip (take 4 (drop 12 c'))" "ip_dstIP m = the_ip (take 4 (drop 16 c'))" "?pl = c' \<or> rebuilt c' ?pl"
    using netty_indexed.vr_send_run [OF assms(1) f(2,5,6) sent assms(8)] by blast
  have c': "c' = take 12 c @ sb @ nb @ drop 20 c" unfolding s(3) using lc f(3) by simp
  have fs: "flow_packet (take 12 c @ sb @ drop 16 c)" using flow_packet_patch [OF assms(5), of 12 sb] f(3) by simp
  have fc: "flow_packet c'" using flow_packet_patch [OF fs, of 16 nb] s(2,3) by simp
  have at: "take 4 (drop 12 c') = sb" "take 4 (drop 16 c') = nb" unfolding c' using lc f(3) s(2) by simp_all
  have e: "take 4 (drop 12 ?pl) = take 4 (drop 12 c')" "take 4 (drop 16 ?pl) = take 4 (drop 16 c')"
    "length ?pl = length c'" "?pl ! 9 = c' ! 9"
    using s(7) rebuilt_addresses(1-4) [OF _ s(4)] by auto
  have fp: "flow_packet ?pl" using fc e(3,4) by (simp add: flow_packet_def)
  then have l: "20 \<le> length ?pl" by (simp add: flow_packet_def)
  let ?q = "IpLayerPacket_new (nb_writeBytes N ?pl (nb_new N))"
  have nb: "netty_buf N content marked after sliced rpos mpos" using assms(1) by (rule netty_indexed.axioms(1))
  have q: "rpos (il_byteBuf ?q) = 0" "content (il_byteBuf ?q) = ?pl"
    by (simp_all add: IpLayerPacket_new_def netty_indexed.rpos_writeBytes [OF assms(1)] netty_indexed.rpos_new [OF assms(1)]
        netty_buf.content_writeBytes [OF nb] netty_buf.content_new [OF nb])
  have l4: "length (take 4 (drop 16 ?pl)) = 4" using l by auto
  obtain d where d: "bytes2ip (take 4 (drop 16 ?pl)) = Inr d" "the_ip (take 4 (drop 16 ?pl)) = d" by (rule quad_bytes [OF l4])
  have "il_getDstIP N X ?q = Inr (ip_dstIP m)"
    using netty_indexed.getters_run(2) [OF assms(1) q l] d s(6) e(2) by simp
  moreover have "getIdentifier N X u' False ?q = Inr (flow_id False ?pl)"
    by (rule netty_indexed.getIdentifier_flow [OF assms(1) q fp])
  ultimately have "vr_recv N X parseFrom u' rB msg = Inr (Some (Some ?q))"
    using assms(9-13) by (simp add: vr_recv_def routeIn_def processVnatIn_def)
  moreover have "ip_srcIP m = the_ip (take 4 (drop 12 ?pl))" "ip_dstIP m = the_ip (take 4 (drop 16 ?pl))"
    using s(5,6) e(1,2) by simp_all
  moreover have "ip_srcIP m = the_ip sb" "ip_dstIP m = the_ip nb" using s(5,6) at by simp_all
  ultimately show ?thesis using s(1,2,7) c' f(3,4) q(2) by blast
qed

definition sample_node :: NodeInfo where
  "sample_node = \<lparr> ni_vip = quad_str 10 0 0 2, ni_addressUri = [] \<rparr>"

definition sample_msg :: StunMessage where
  "sample_msg = \<lparr> sm_messageType = Some Transfer, sm_tranId = ''0123456789ab'', sm_attrs = [(AttrData, BytesAttr [])] \<rparr>"

theorem send_recv_witness:
  "\<exists>r' m q. vr_send mem_netty mem_index isIPv4 False []
       (sample_router\<lparr> vr_vnatMap := [], vr_nodes := [(quad_str 10 0 0 2, sample_node)] \<rparr>)
       (IpLayerPacket_new (ibytes sample_packet)) = Some (Inr (r', [(sample_node, m)])) \<and>
     vr_recv mem_netty mem_index (\<lambda>_. Inr m) [] (sample_router\<lparr> vr_routeIn := vr_routeOut sample_router \<rparr>) sample_msg =
       Inr (Some (Some q)) \<and> icontent (il_byteBuf q) = sample_packet"
proof -
  let ?r = "sample_router\<lparr> vr_vnatMap := [], vr_nodes := [(quad_str 10 0 0 2, sample_node)] \<rparr>"
  let ?p = "IpLayerPacket_new (ibytes sample_packet)" and ?rB = "sample_router\<lparr> vr_routeIn := vr_routeOut sample_router \<rparr>"
  have o: "processVnatOut mem_netty mem_index isIPv4 [] ?r ?p = Inr (?r, ?p)" by (simp add: processVnatOut_def)
  have l: "20 \<le> length sample_packet" by (simp add: sample_packet_def)
  have w: "list_all wf_chain (vr_routeOut sample_router)" by (simp add: sample_router_def wf_chain_def)
  then have w': "list_all wf_chain (vr_routeOut ?r)" by simp
  have v: "cidr_text (vr_vipCidr ?r) (fst (quad_nat 10 0 0 0, 24)) (snd (quad_nat 10 0 0 0, 24))"
    using sample_cidr by (simp add: sample_router_def)
  have es: "list_all2 route_block (vr_routeList ?r) [(quad_nat 10 0 0 0, 24, [''a'', ''b'', ''c''])]"
    using sample_cidr by (simp add: sample_router_def route_block_def)
  have n: "quad_nat 10 0 0 2 = ip_num (the_ip (take 4 (drop 16 sample_packet)))" using sample_addresses by simp
  have s: "quad_str 10 0 0 1 = ''10.0.0.1''" by code_simp
  have h: "java_hash (the_ip (take 4 (drop 12 sample_packet))) \<noteq> 0x80000000"
    unfolding sample_addresses s by (simp add: java_hash_def)
  have d: "route_decision (vr_routeOut ?r) (quad_nat 10 0 0 0, 24) [(quad_nat 10 0 0 0, 24, [''a'', ''b'', ''c''])]
      (quad_nat 10 0 0 2) (java_hash (the_ip (take 4 (drop 12 sample_packet)))) = Some (quad_str 10 0 0 2)"
    by (simp add: route_decision_def sample_router_def chain_holds_def int2ip_quad_nat)
      (simp add: block_of_def quad_nat_def)
  have ro: "routeOut mem_netty mem_index isIPv4 [] ?r ?p = Inr (Some (quad_str 10 0 0 2), ?r, ?p)"
    using ibuf.routeOut_run [OF o sample_new l w' v es n refl h] unfolding d .
  have "ip_num (quad_str 10 0 0 2) \<noteq> ip_num (quad_str 10 0 0 255)"
    using ip_num_quad_str [of 10 0 0 2] ip_num_quad_str [of 10 0 0 255] by (simp add: quad_nat_def)
  then have ne: "quad_str 10 0 0 2 \<noteq> quad_str 10 0 0 255" by metis
  have bb: "int2ip (255 + of_nat (block_of 24 (quad_nat 10 0 0 0))) = quad_str 10 0 0 255"
    using int2ip_quad_nat [of 10 0 0 255] by (simp add: block_of_def quad_nat_def)
  have bc: "is_broadcast ?r (quad_str 10 0 0 2) = Inr False"
    using Cidr_isBroadcastAddress_text [of 10 0 0 0 24 "quad_str 10 0 0 2"]
    by (simp add: is_broadcast_def isMulticastIp_quad_str sample_router_def cidr_of_def bb ne)
  obtain m where m: "ip_message mem_netty mem_index ?p = Some (Inr m)" "ip_dstIP m = quad_str 10 0 0 2" "ip_payload m = sample_packet"
    using ibuf.ip_message_run [OF sample_new sample_packet_ok] sample_addresses(2) by (auto simp: IpLayerPacket_new_def)
  have sent: "vr_send mem_netty mem_index isIPv4 False [] ?r ?p = Some (Inr (?r, [(sample_node, m)]))"
    using ro bc sample_getDst m(1)
    by (simp add: vr_send_def fix_ics_def lift_res_def getNode_def jget_def res_opt_def)
  have t: "processor_test (vr_routeIn ?rB) (ip_dstIP m) = Inr True"
    using processor_test_int2ip [OF w, of "quad_nat 10 0 0 2"] m(2)
    by (simp add: int2ip_quad_nat) (simp add: sample_router_def quad_nat_def chain_holds_def)
  have c: "jget (vr_vnatCache ?rB) (flow_id False (ip_payload m)) = None" by (simp add: sample_router_def)
  have a: "sm_messageType sample_msg = Some Transfer" "getAttr AttrData sample_msg = Some (BytesAttr [])"
    by (simp_all add: sample_msg_def getAttr_def)
  have i: "(sample_node, m) \<in> set [(sample_node, m)]" by simp
  have own: "vr_localVip ?r = int2ip (of_nat (quad_nat 10 0 0 1))"
    by (simp add: sample_router_def int2ip_quad_nat)
  obtain q where "vr_recv mem_netty mem_index (\<lambda>_. Inr m) [] ?rB sample_msg = Inr (Some (Some q))"
    "icontent (il_byteBuf q) = ip_payload m"
    using send_recv [OF ibuf.netty_indexed_axioms sample_new sample_packet_ok sample_flow own sent i refl a t c, of "[]"]
    by (elim conjE exE) (rule that)
  then show ?thesis using sent m(3) by (intro exI [of _ ?r] exI [of _ m] exI [of _ q]) simp
qed

end
