(* ===== verification/Relay.thy ===== *)
theory Relay
  imports Stun JavaMap
begin

text \<open>
  The servers that answer in UDP datagrams, \<open>RelayServer\<close> and \<open>StunServer\<close> of \<open>sdwan-core\<close>, the
  requests of their client (\<open>RelayClient\<close>) and the answer of a node to a ping (\<open>IceClient\<close>). A handler
  takes the server's state and a packet and gives the new state with the packets it
  writes, or the exception it raises; the time and a new token are arguments. The relay is a
  state machine over received packets and ticks of its timer: all of them run on the one event
  loop of its socket. The lemmas show that the two maps of the relay stay inverse to each other as long
  as the tokens it draws are new, and from that where every packet goes.
\<close>

section \<open>Endpoints and packets\<close>

text \<open>An \<open>InetSocketAddress\<close> without a host name: the text of its address and its port.\<close>

record endpoint =
  ep_host :: string
  ep_port :: jint

definition endpoint_toString :: "endpoint \<Rightarrow> string" where
  "endpoint_toString e = CHR ''/'' # ep_host e @ CHR '':'' # show_int (sint (ep_port e))"

text \<open>\<open>SocketAddressUtil.toAddress\<close>: a leading slash is removed.\<close>

definition toAddress :: "endpoint \<Rightarrow> string" where
  "toAddress e = (case endpoint_toString e of
     [] \<Rightarrow> [] | c # t \<Rightarrow> if c = CHR ''/'' then t else c # t)"

text \<open>A datagram with its message; the sender is known for received packets only.\<close>

record StunPacket =
  pk_content :: StunMessage
  pk_recipient :: endpoint
  pk_sender :: "endpoint option"

definition StunPacket_new :: "StunMessage \<Rightarrow> endpoint \<Rightarrow> StunPacket" where
  "StunPacket_new m r = \<lparr>pk_content = m, pk_recipient = r, pk_sender = None\<rparr>"

text \<open>What a handler does with its channel: write a packet, or pass the message on to the next handler.\<close>

datatype out = Send StunPacket | FireChannelRead StunPacket

text \<open>The casts of \<open>getAttr\<close> at its use, and \<open>AddressAttr.getAddress\<close>.\<close>

fun string_attr :: "Attr option \<Rightarrow> string res" where
  "string_attr None = Inl NullPointerException"
| "string_attr (Some (StringAttr s)) = Inr s"
| "string_attr (Some _) = Inl ClassCastException"

fun address_attr :: "Attr option \<Rightarrow> endpoint res" where
  "address_attr None = Inl NullPointerException"
| "address_attr (Some (AddressAttr f ip port)) =
     (if 0 \<le> sint port \<and> sint port \<le> 65535 then Inr \<lparr>ep_host = ip, ep_port = port\<rparr> else Inl IllegalArgumentException)"
| "address_attr (Some _) = Inl ClassCastException"

section \<open>The relay\<close>

record Heart =
  ht_lastHeartTime :: jlong
  ht_token :: string

record RelayServer =
  rl_transferMap :: "(string, endpoint) jmap"
  rl_clientTokenMap :: "(string, Heart) jmap"

definition RelayServer_new :: RelayServer where
  "RelayServer_new = \<lparr>rl_transferMap = [], rl_clientTokenMap = []\<rparr>"

definition bind_heart :: "jlong \<Rightarrow> string \<Rightarrow> endpoint \<Rightarrow> RelayServer \<Rightarrow> Heart \<times> RelayServer" where
  "bind_heart now token sender s =
     (case jget (rl_clientTokenMap s) (toAddress sender) of
        Some heart \<Rightarrow> (heart, s)
      | None \<Rightarrow>
          (let heart = \<lparr>ht_lastHeartTime = now, ht_token = token\<rparr>
           in (heart, s\<lparr>rl_transferMap := jput token sender (rl_transferMap s),
                        rl_clientTokenMap := jput (toAddress sender) heart (rl_clientTokenMap s)\<rparr>)))"

definition processBindRelayRequest :: "jlong \<Rightarrow> string \<Rightarrow> RelayServer \<Rightarrow> StunPacket \<Rightarrow> RelayServer \<times> out list res" where
  "processBindRelayRequest now token s request =
     (case pk_sender request of
        None \<Rightarrow> (s, Inl NullPointerException)
      | Some sender \<Rightarrow>
          (let (heart, s) = bind_heart now token sender s;
               s = s\<lparr>rl_clientTokenMap := jput (toAddress sender) (heart\<lparr>ht_lastHeartTime := now\<rparr>) (rl_clientTokenMap s)\<rparr>
           in (s, bindR (StunMessage_new (Some BindRelayResponse) (sm_tranId (pk_content request))) (\<lambda>m.
                    Inr [Send (StunPacket_new (setAttr RelayToken (StringAttr (ht_token heart)) m) sender)]))))"

definition processPingRequest :: "RelayServer \<Rightarrow> StunPacket \<Rightarrow> out list res" where
  "processPingRequest s request =
     bindR (string_attr (getAttr RelayToken (pk_content request))) (\<lambda>token.
       case jget (rl_transferMap s) token of
         None \<Rightarrow> Inr []
       | Some address \<Rightarrow>
           (case pk_sender request of
              None \<Rightarrow> Inl NullPointerException
            | Some sender \<Rightarrow>
                Inr [Send (StunPacket_new (setAttr SourceAddress (AddressAttr (Some PF_IPv4) (ep_host sender) (ep_port sender)) (pk_content request)) address)]))"

definition processPingResponse :: "StunPacket \<Rightarrow> out list res" where
  "processPingResponse request =
     bindR (address_attr (getAttr SourceAddress (pk_content request))) (\<lambda>address.
       Inr [Send (StunPacket_new (pk_content request) address)])"

definition processTransfer :: "RelayServer \<Rightarrow> StunPacket \<Rightarrow> out list res" where
  "processTransfer s request =
     bindR (string_attr (getAttr RelayToken (pk_content request))) (\<lambda>token.
       case jget (rl_transferMap s) token of
         None \<Rightarrow> Inr []
       | Some address \<Rightarrow> Inr [Send (StunPacket_new (pk_content request) address)])"

definition relay_channelRead0 :: "jlong \<Rightarrow> string \<Rightarrow> RelayServer \<Rightarrow> StunPacket \<Rightarrow> RelayServer \<times> out list res" where
  "relay_channelRead0 now token s packet =
     (case sm_messageType (pk_content packet) of
        Some BindRelayRequest \<Rightarrow> processBindRelayRequest now token s packet
      | Some PingRequest \<Rightarrow> (s, processPingRequest s packet)
      | Some PingResponse \<Rightarrow> (s, processPingResponse packet)
      | Some Transfer \<Rightarrow> (s, processTransfer s packet)
      | _ \<Rightarrow> (s, Inr [FireChannelRead packet]))"

text \<open>The timer: entries silent for more than the timeout go, with their token.\<close>

definition relay_expire :: "jlong \<Rightarrow> jlong \<Rightarrow> string \<times> Heart \<Rightarrow> RelayServer \<Rightarrow> RelayServer" where
  "relay_expire heartTimeout now e s =
     (if sint heartTimeout < sint (now - ht_lastHeartTime (snd e))
      then s\<lparr>rl_clientTokenMap := jremove (fst e) (rl_clientTokenMap s),
             rl_transferMap := jremove (ht_token (snd e)) (rl_transferMap s)\<rparr>
      else s)"

definition relay_run :: "jlong \<Rightarrow> jlong \<Rightarrow> RelayServer \<Rightarrow> RelayServer" where
  "relay_run heartTimeout now s = fold (relay_expire heartTimeout now) (rl_clientTokenMap s) s"

text \<open>The events of the relay's event loop, and its state after a sequence of them.\<close>

datatype relay_event = Receive jlong string StunPacket | Tick jlong

fun relay_step :: "jlong \<Rightarrow> relay_event \<Rightarrow> RelayServer \<Rightarrow> RelayServer \<times> out list res" where
  "relay_step T (Receive now token p) s = relay_channelRead0 now token s p"
| "relay_step T (Tick now) s = (relay_run T now s, Inr [])"

definition relay_trace :: "jlong \<Rightarrow> relay_event list \<Rightarrow> RelayServer \<Rightarrow> RelayServer" where
  "relay_trace T evs s = fold (\<lambda>ev s. fst (relay_step T ev s)) evs s"

section \<open>The clients of the relay\<close>

text \<open>\<open>RelayClient\<close>: the requests it writes and what it reads from the answer to a binding.\<close>

definition rc_sendBindOneWay :: "endpoint \<Rightarrow> string \<Rightarrow> StunPacket res" where
  "rc_sendBindOneWay a tranId = bindR (StunMessage_new (Some BindRelayRequest) tranId) (\<lambda>m. Inr (StunPacket_new m a))"

definition rc_sendPingOneWay :: "jlong \<Rightarrow> endpoint \<Rightarrow> string \<Rightarrow> string \<Rightarrow> StunPacket res" where
  "rc_sendPingOneWay now a token tranId =
     bindR (StunMessage_new (Some PingRequest) tranId) (\<lambda>m.
       Inr (StunPacket_new (setAttr AttrTime (LongAttr now) (setAttr RelayToken (StringAttr token) m)) a))"

definition rc_transfer :: "string \<Rightarrow> string \<Rightarrow> string \<Rightarrow> endpoint \<Rightarrow> string \<Rightarrow> jbyte list \<Rightarrow> StunPacket res" where
  "rc_transfer tranId vip type a token bytes =
     bindR (StunMessage_new (Some Transfer) tranId) (\<lambda>m.
       Inr (StunPacket_new
         (setAttr AttrData (BytesAttr bytes)
           (setAttr SrcVip (StringAttr vip)
             (setAttr RelayToken (StringAttr token)
               (setAttr TransferType (StringAttr type) m)))) a))"

definition rc_regist_result :: "StunPacket \<Rightarrow> string res" where
  "rc_regist_result result = string_attr (getAttr RelayToken (pk_content result))"

text \<open>\<open>IceClient.processPingRequest\<close>: the request becomes the answer and goes back to its sender.\<close>

definition ice_processPingRequest :: "StunPacket \<Rightarrow> StunPacket res" where
  "ice_processPingRequest packet =
     (case pk_sender packet of
        None \<Rightarrow> Inl ProcessException
      | Some sender \<Rightarrow> Inr (StunPacket_new ((pk_content packet)\<lparr>sm_messageType := Some PingResponse\<rparr>) sender))"

section \<open>The STUN server\<close>

definition stun_processBindRequest :: "endpoint \<Rightarrow> StunPacket \<Rightarrow> out list res" where
  "stun_processBindRequest bindAddr request =
     (case pk_sender request of
        None \<Rightarrow> Inl NullPointerException
      | Some sender \<Rightarrow>
          if \<not> isIPv4 (ep_host sender) then Inl UnsupportedOperationException
          else bindR (StunMessage_new (Some BindResponse) (sm_tranId (pk_content request))) (\<lambda>m.
            Inr [Send (StunPacket_new
              (setAttr ChangedAddress (AddressAttr (Some PF_IPv4) (ep_host bindAddr) (ep_port bindAddr))
                (setAttr MappedAddress (AddressAttr (Some PF_IPv4) (ep_host sender) (ep_port sender)) m)) sender)]))"

definition stun_channelRead0 :: "endpoint \<Rightarrow> StunPacket \<Rightarrow> out list res" where
  "stun_channelRead0 bindAddr packet =
     (if sm_messageType (pk_content packet) = Some BindRequest then stun_processBindRequest bindAddr packet
      else Inr [FireChannelRead packet])"

section \<open>Addresses as keys\<close>

lemma toAddress_eq: "toAddress e = ep_host e @ CHR '':'' # show_int (sint (ep_port e))"
  by (simp add: toAddress_def endpoint_toString_def)

lemma show_int_inj: "show_int i = show_int j \<longleftrightarrow> i = j"
proof -
  have "show_nat n \<noteq> CHR ''-'' # t" for n t using hd_show_nat [of n "CHR ''-''" t] by auto
  then show ?thesis by (auto simp: show_int_def show_nat_inj eq_commute [of "CHR ''-'' # _"])
qed

lemma no_colon_show_int: "CHR '':'' \<notin> set (show_int i)"
  by (simp add: show_int_def is_digit_def)

lemma append_Cons_last_eq:
  assumes "xs @ c # ys = xs' @ c # ys'" "c \<notin> set ys" "c \<notin> set ys'"
  shows "xs = xs' \<and> ys = ys'"
proof -
  have t: "takeWhile (\<lambda>x. x \<noteq> c) (rev zs @ c # us) = rev zs" if "c \<notin> set zs" for zs us
    using that by (subst takeWhile_append2) auto
  have "rev (xs @ c # ys) = rev (xs' @ c # ys')" using assms(1) by (rule arg_cong)
  then have "rev ys @ c # rev xs = rev ys' @ c # rev xs'" by simp
  then have "rev ys = rev ys'" using t [OF assms(2), of "rev xs"] t [OF assms(3), of "rev xs'"] by metis
  with assms(1) show ?thesis by simp
qed

lemma toAddress_inj [simp]: "toAddress e = toAddress e' \<longleftrightarrow> e = e'"
proof
  assume "toAddress e = toAddress e'"
  then have "ep_host e = ep_host e' \<and> show_int (sint (ep_port e)) = show_int (sint (ep_port e'))"
    unfolding toAddress_eq by (rule append_Cons_last_eq) (simp_all add: no_colon_show_int)
  then have h: "ep_host e = ep_host e'" and "sint (ep_port e) = sint (ep_port e')" by (simp_all add: show_int_inj)
  then have "(word_of_int (sint (ep_port e)) :: jint) = word_of_int (sint (ep_port e'))" by simp
  with h show "e = e'" by simp
qed simp

section \<open>Tokens and clients\<close>

text \<open>
  The two maps of a relay describe one relation: a token leads to an endpoint exactly when the
  entry of that endpoint holds the token.
\<close>

definition relay_inv :: "RelayServer \<Rightarrow> bool" where
  "relay_inv s \<longleftrightarrow> wf_jmap (rl_transferMap s) \<and> wf_jmap (rl_clientTokenMap s) \<and>
     (\<forall>t e. jget (rl_transferMap s) t = Some e \<longleftrightarrow>
            (\<exists>h. jget (rl_clientTokenMap s) (toAddress e) = Some h \<and> ht_token h = t)) \<and>
     (\<forall>a h. jget (rl_clientTokenMap s) a = Some h \<longrightarrow> (\<exists>e. a = toAddress e))"

lemma relay_invD:
  assumes "relay_inv s"
  shows "wf_jmap (rl_transferMap s)" "wf_jmap (rl_clientTokenMap s)"
    "jget (rl_transferMap s) t = Some e \<longleftrightarrow> (\<exists>h. jget (rl_clientTokenMap s) (toAddress e) = Some h \<and> ht_token h = t)"
    "jget (rl_clientTokenMap s) a = Some h \<Longrightarrow> \<exists>e. a = toAddress e"
  using assms by (auto simp: relay_inv_def)

lemma relay_inv_new [simp]: "relay_inv RelayServer_new"
  by (simp add: relay_inv_def RelayServer_new_def)

text \<open>A token belongs to one client.\<close>

lemma token_owner:
  assumes "relay_inv s" "jget (rl_clientTokenMap s) (toAddress e) = Some h" "jget (rl_clientTokenMap s) (toAddress e') = Some h'"
    and "ht_token h = ht_token h'"
  shows "e = e'"
  using relay_invD(3) [OF assms(1)] assms(2,3,4) by (metis option.inject)

definition touch :: "jlong \<Rightarrow> string \<Rightarrow> endpoint \<Rightarrow> RelayServer \<Rightarrow> RelayServer" where
  "touch now token sender s =
     (let (heart, s) = bind_heart now token sender s
      in s\<lparr>rl_clientTokenMap := jput (toAddress sender) (heart\<lparr>ht_lastHeartTime := now\<rparr>) (rl_clientTokenMap s)\<rparr>)"

lemma relay_invI:
  assumes "wf_jmap (rl_transferMap s)" "wf_jmap (rl_clientTokenMap s)"
    and "\<And>t e. jget (rl_transferMap s) t = Some e \<Longrightarrow> \<exists>h. jget (rl_clientTokenMap s) (toAddress e) = Some h \<and> ht_token h = t"
    and "\<And>e h. jget (rl_clientTokenMap s) (toAddress e) = Some h \<Longrightarrow> jget (rl_transferMap s) (ht_token h) = Some e"
    and "\<And>a h. jget (rl_clientTokenMap s) a = Some h \<Longrightarrow> \<exists>e. a = toAddress e"
  shows "relay_inv s"
  using assms unfolding relay_inv_def by blast

lemma relay_inv_touch:
  assumes i: "relay_inv s" and f: "token \<notin> set (jkeys (rl_transferMap s))"
  shows "relay_inv (touch now token e s)"
proof -
  note I = relay_invD [OF i]
  have n: "jget (rl_transferMap s) token = None" using f by (simp add: jget_None_keys)
  have new: "ht_token h \<noteq> token" if "jget (rl_clientTokenMap s) (toAddress e') = Some h" for e' h
    using I(3) [of "ht_token h" e'] n that by auto
  show ?thesis
  proof (cases "jget (rl_clientTokenMap s) (toAddress e)")
    case None
    have m: "rl_transferMap (touch now token e s) = jput token e (rl_transferMap s)"
      "jget (rl_clientTokenMap (touch now token e s)) a =
        (if a = toAddress e then Some \<lparr>ht_lastHeartTime = now, ht_token = token\<rparr> else jget (rl_clientTokenMap s) a)"
      "wf_jmap (rl_clientTokenMap (touch now token e s))" for a
      using I(2) None by (simp_all add: touch_def bind_heart_def Let_def)
    show ?thesis
    proof (rule relay_invI)
      show "\<exists>h. jget (rl_clientTokenMap (touch now token e s)) (toAddress e') = Some h \<and> ht_token h = t"
        if "jget (rl_transferMap (touch now token e s)) t = Some e'" for t e'
        using that None I(3) [of t e'] by (auto simp: m split: if_splits)
      show "jget (rl_transferMap (touch now token e s)) (ht_token h) = Some e'"
        if "jget (rl_clientTokenMap (touch now token e s)) (toAddress e') = Some h" for e' h
        using that new [of e' h] I(3) [of "ht_token h" e'] by (auto simp: m split: if_splits)
    qed (use I m in \<open>auto split: if_splits\<close>)
  next
    case (Some h0)
    have m: "rl_transferMap (touch now token e s) = rl_transferMap s"
      "jget (rl_clientTokenMap (touch now token e s)) a =
        (if a = toAddress e then Some (h0\<lparr>ht_lastHeartTime := now\<rparr>) else jget (rl_clientTokenMap s) a)"
      "wf_jmap (rl_clientTokenMap (touch now token e s))" for a
      using I(2) Some by (simp_all add: touch_def bind_heart_def Let_def)
    show ?thesis
    proof (rule relay_invI)
      show "\<exists>h. jget (rl_clientTokenMap (touch now token e s)) (toAddress e') = Some h \<and> ht_token h = t"
        if "jget (rl_transferMap (touch now token e s)) t = Some e'" for t e'
        using that Some I(3) [of t e'] by (auto simp: m split: if_splits)
      show "jget (rl_transferMap (touch now token e s)) (ht_token h) = Some e'"
        if "jget (rl_clientTokenMap (touch now token e s)) (toAddress e') = Some h" for e' h
        using that Some I(3) [of "ht_token h" e'] by (auto simp: m split: if_splits)
    qed (use I m in \<open>auto split: if_splits\<close>)
  qed
qed

lemma relay_inv_expire:
  assumes i: "relay_inv s" and e: "jget (rl_clientTokenMap s) (fst x) = Some (snd x)"
  shows "relay_inv (relay_expire T now x s)"
proof (cases "sint T < sint (now - ht_lastHeartTime (snd x))")
  case True
  note I = relay_invD [OF i]
  obtain e0 where e0: "fst x = toAddress e0" using I(4) [OF e] by blast
  let ?s = "relay_expire T now x s"
  have m: "jget (rl_transferMap ?s) t = (if t = ht_token (snd x) then None else jget (rl_transferMap s) t)"
    "jget (rl_clientTokenMap ?s) a = (if a = toAddress e0 then None else jget (rl_clientTokenMap s) a)"
    "wf_jmap (rl_transferMap ?s)" "wf_jmap (rl_clientTokenMap ?s)" for t a
    using True I(1,2) by (simp_all add: relay_expire_def e0)
  have own: "e' = e0" if "jget (rl_clientTokenMap s) (toAddress e') = Some h" "ht_token h = ht_token (snd x)" for e' h
    using token_owner [OF i that(1), of e0 "snd x"] that(2) e e0 by simp
  show ?thesis
  proof (rule relay_invI)
    show "\<exists>h. jget (rl_clientTokenMap ?s) (toAddress e') = Some h \<and> ht_token h = t"
      if "jget (rl_transferMap ?s) t = Some e'" for t e'
      using that e e0 I(3) [of t e'] by (auto simp: m split: if_splits)
    show "jget (rl_transferMap ?s) (ht_token h) = Some e'"
      if "jget (rl_clientTokenMap ?s) (toAddress e') = Some h" for e' h
      using that own [of e' h] I(3) [of "ht_token h" e'] by (auto simp: m split: if_splits)
  qed (use I m in \<open>auto split: if_splits\<close>)
qed (use i in \<open>simp add: relay_expire_def\<close>)

section \<open>The sweep\<close>

definition silent :: "jlong \<Rightarrow> jlong \<Rightarrow> Heart \<Rightarrow> bool" where
  "silent T now h \<longleftrightarrow> sint T < sint (now - ht_lastHeartTime h)"

lemma relay_expire_clients:
  "jget (rl_clientTokenMap (relay_expire T now x s)) a =
     (if silent T now (snd x) \<and> a = fst x then None else jget (rl_clientTokenMap s) a)"
  by (simp add: relay_expire_def silent_def)

lemma relay_fold_expire:
  "distinct (map fst es) \<Longrightarrow> relay_inv s \<Longrightarrow> (\<And>a h. (a, h) \<in> set es \<Longrightarrow> jget (rl_clientTokenMap s) a = Some h) \<Longrightarrow>
     relay_inv (fold (relay_expire T now) es s) \<and>
     jget (rl_clientTokenMap (fold (relay_expire T now) es s)) a =
       (if \<exists>h. (a, h) \<in> set es \<and> silent T now h then None else jget (rl_clientTokenMap s) a)"
proof (induction es arbitrary: s)
  case (Cons x es)
  let ?s = "relay_expire T now x s"
  have i: "relay_inv ?s" by (rule relay_inv_expire [OF Cons.prems(2)]) (simp add: Cons.prems(3))
  have k: "jget (rl_clientTokenMap ?s) b = Some h" if "(b, h) \<in> set es" for b h
    using that Cons.prems(1,3) by (force simp: relay_expire_clients image_iff)
  show ?case
    using Cons.IH [OF _ i k] Cons.prems(1) by (cases x) (auto simp: relay_expire_clients image_iff)
qed simp

lemma relay_inv_run: "relay_inv s \<Longrightarrow> relay_inv (relay_run T now s)"
  and relay_run_clients: "relay_inv s \<Longrightarrow>
    jget (rl_clientTokenMap (relay_run T now s)) a =
      (case jget (rl_clientTokenMap s) a of None \<Rightarrow> None | Some h \<Rightarrow> if silent T now h then None else Some h)"
proof -
  assume i: "relay_inv s"
  have d: "distinct (map fst (rl_clientTokenMap s))"
    using relay_invD(2) [OF i] by (simp add: wf_jmap_def jkeys_def)
  have m: "(a, h) \<in> set (rl_clientTokenMap s) \<longleftrightarrow> jget (rl_clientTokenMap s) a = Some h" for a h
    using d by (simp add: jget_def map_of_eq_Some_iff)
  note f = relay_fold_expire [OF d i, of T now]
  show "relay_inv (relay_run T now s)" unfolding relay_run_def using f m by blast
  show "jget (rl_clientTokenMap (relay_run T now s)) a =
      (case jget (rl_clientTokenMap s) a of None \<Rightarrow> None | Some h \<Rightarrow> if silent T now h then None else Some h)"
    unfolding relay_run_def using f [of a] m by (auto split: option.splits)
qed

section \<open>Runs\<close>

text \<open>Every token that the relay draws in a run is new to it; \<open>ShortUUID.gen\<close> draws it at random.\<close>

fun fresh_run :: "jlong \<Rightarrow> relay_event list \<Rightarrow> RelayServer \<Rightarrow> bool" where
  "fresh_run T [] s \<longleftrightarrow> True"
| "fresh_run T (ev # evs) s \<longleftrightarrow>
     (case ev of Receive now token p \<Rightarrow> token \<notin> set (jkeys (rl_transferMap s)) | Tick now \<Rightarrow> True) \<and>
     fresh_run T evs (fst (relay_step T ev s))"

definition is_bind :: "endpoint \<Rightarrow> StunPacket \<Rightarrow> bool" where
  "is_bind e p \<longleftrightarrow> sm_messageType (pk_content p) = Some BindRelayRequest \<and> pk_sender p = Some e"

text \<open>
  The last sign of life of an endpoint that held a token at time \<open>l\<close>, none when a tick in between
  found it silent.
\<close>

fun heart_of :: "jlong \<Rightarrow> endpoint \<Rightarrow> jlong \<Rightarrow> relay_event list \<Rightarrow> jlong option" where
  "heart_of T e l [] = Some l"
| "heart_of T e l (Receive now token p # evs) = heart_of T e (if is_bind e p then now else l) evs"
| "heart_of T e l (Tick now # evs) = (if sint T < sint (now - l) then None else heart_of T e l evs)"

lemma bind_state:
  "fst (processBindRelayRequest now token s p) = (case pk_sender p of None \<Rightarrow> s | Some e \<Rightarrow> touch now token e s)"
  by (auto simp: processBindRelayRequest_def touch_def split: option.splits prod.splits)

lemma receive_state:
  "fst (relay_channelRead0 now token s p) =
     (if sm_messageType (pk_content p) = Some BindRelayRequest
      then case pk_sender p of None \<Rightarrow> s | Some e \<Rightarrow> touch now token e s else s)"
  by (auto simp: relay_channelRead0_def bind_state split: option.splits MessageType.splits)

lemma relay_inv_step:
  assumes "relay_inv s" and "fresh_run T [ev] s"
  shows "relay_inv (fst (relay_step T ev s))"
  using assms by (cases ev) (auto simp: receive_state relay_inv_touch relay_inv_run split: option.splits)

lemma relay_inv_trace: "relay_inv s \<Longrightarrow> fresh_run T evs s \<Longrightarrow> relay_inv (relay_trace T evs s)"
proof (induction evs arbitrary: s)
  case (Cons ev evs)
  then show ?case using relay_inv_step [of s T ev] by (simp add: relay_trace_def)
qed (simp add: relay_trace_def)

lemma fresh_run_append: "fresh_run T (xs @ ys) s \<longleftrightarrow> fresh_run T xs s \<and> fresh_run T ys (relay_trace T xs s)"
  by (induction xs arbitrary: s) (simp_all add: relay_trace_def)

lemma relay_trace_append: "relay_trace T (xs @ ys) s = relay_trace T ys (relay_trace T xs s)"
  by (simp add: relay_trace_def)

lemma touch_clients:
  "jget (rl_clientTokenMap (touch now token e s)) a =
     (if a = toAddress e
      then Some \<lparr>ht_lastHeartTime = now,
                 ht_token = (case jget (rl_clientTokenMap s) (toAddress e) of None \<Rightarrow> token | Some h \<Rightarrow> ht_token h)\<rparr>
      else jget (rl_clientTokenMap s) a)"
  by (auto simp: touch_def bind_heart_def Let_def split: option.splits)

lemma heart_of_trace:
  "relay_inv s \<Longrightarrow> fresh_run T evs s \<Longrightarrow>
   jget (rl_clientTokenMap s) (toAddress e) = Some \<lparr>ht_lastHeartTime = l, ht_token = tok\<rparr> \<Longrightarrow>
   heart_of T e l evs = Some l' \<Longrightarrow>
   jget (rl_clientTokenMap (relay_trace T evs s)) (toAddress e) = Some \<lparr>ht_lastHeartTime = l', ht_token = tok\<rparr>"
proof (induction T e l evs arbitrary: s rule: heart_of.induct)
  case (2 T e l now token p evs)
  have "jget (rl_clientTokenMap (fst (relay_channelRead0 now token s p))) (toAddress e) =
      Some \<lparr>ht_lastHeartTime = (if is_bind e p then now else l), ht_token = tok\<rparr>"
    using 2(4) by (auto simp: receive_state is_bind_def touch_clients split: option.splits)
  moreover have "relay_inv (fst (relay_step T (Receive now token p) s))"
    using 2(2,3) by (intro relay_inv_step) simp_all
  ultimately show ?case using 2(1) [of "fst (relay_channelRead0 now token s p)"] 2(3,5) by (simp add: relay_trace_def)
next
  case (3 T e l now evs)
  then have n: "\<not> sint T < sint (now - l)" by (auto split: if_splits)
  then have "jget (rl_clientTokenMap (relay_run T now s)) (toAddress e) = Some \<lparr>ht_lastHeartTime = l, ht_token = tok\<rparr>"
    using 3(2,4) by (simp add: relay_run_clients silent_def)
  then show ?case using 3(1) [OF n, of "relay_run T now s"] 3(2,3,5) n by (simp add: relay_trace_def relay_inv_run)
qed (simp add: relay_trace_def)

section \<open>Where packets go\<close>

lemma ping_out:
  "string_attr (getAttr RelayToken (pk_content m)) = Inr tok \<Longrightarrow> sm_messageType (pk_content m) = Some PingRequest \<Longrightarrow>
   pk_sender m = Some e2 \<Longrightarrow> jget (rl_transferMap s) tok = Some e \<Longrightarrow>
   relay_step T (Receive n u m) s =
     (s, Inr [Send (StunPacket_new (setAttr SourceAddress (AddressAttr (Some PF_IPv4) (ep_host e2) (ep_port e2)) (pk_content m)) e)])"
  by (simp add: relay_channelRead0_def processPingRequest_def)

lemma getAttr_setAttr [simp]: "getAttr t (setAttr t' a m) = (if t = t' then Some a else getAttr t m)"
  using jget_jput [of t' a "sm_attrs m" t] by (simp add: getAttr_def setAttr_def jget_def)

lemma setAttr_other [simp]:
  "sm_messageType (setAttr t a m) = sm_messageType m" "sm_tranId (setAttr t a m) = sm_tranId m"
  by (simp_all add: setAttr_def)

definition port_ok :: "endpoint \<Rightarrow> bool" where
  "port_ok e \<longleftrightarrow> 0 \<le> sint (ep_port e) \<and> sint (ep_port e) \<le> 65535"

lemma pong_out:
  assumes "port_ok e2" and "sm_messageType m = Some PingRequest"
    and "getAttr SourceAddress m = Some (AddressAttr (Some PF_IPv4) (ep_host e2) (ep_port e2))"
  shows "\<exists>a. ice_processPingRequest \<lparr>pk_content = m, pk_recipient = r, pk_sender = Some relay\<rparr> = Inr a \<and> pk_recipient a = relay \<and>
     pk_content a = m\<lparr>sm_messageType := Some PingResponse\<rparr> \<and>
     relay_step T (Receive n u (a\<lparr>pk_sender := x\<rparr>)) s = (s, Inr [Send (StunPacket_new (pk_content a) e2)])"
  using assms
  by (simp add: ice_processPingRequest_def StunPacket_new_def relay_channelRead0_def processPingResponse_def port_ok_def getAttr_def)

lemma bind_out:
  assumes "is_bind e b" and "length (sm_tranId (pk_content b)) = 12"
    and "jget (rl_clientTokenMap (touch now token e s)) (toAddress e) = Some \<lparr>ht_lastHeartTime = now, ht_token = tok\<rparr>"
  shows "relay_step T (Receive now token b) s = (touch now token e s,
     Inr [Send (StunPacket_new \<lparr>sm_messageType = Some BindRelayResponse, sm_tranId = sm_tranId (pk_content b),
       sm_attrs = [(RelayToken, StringAttr tok)]\<rparr> e)])"
  using assms
  by (auto simp: is_bind_def relay_channelRead0_def processBindRelayRequest_def touch_def Let_def StunMessage_new_def setAttr_def
      split: prod.splits dest!: arg_cong [where f = ht_token])

section \<open>Properties\<close>

text \<open>
  C32: The maps of the relay are inverse to each other, whatever packets and ticks it handles: a token leads
  to an endpoint exactly when the endpoint's entry holds that token, and no two endpoints hold the same
  token. The tokens that the relay draws are assumed new when they are drawn.
\<close>

theorem relay_tokens_exact:
  assumes "fresh_run T evs RelayServer_new"
  shows "wf_jmap (rl_transferMap (relay_trace T evs RelayServer_new)) \<and>
     wf_jmap (rl_clientTokenMap (relay_trace T evs RelayServer_new)) \<and>
     (\<forall>t e. jget (rl_transferMap (relay_trace T evs RelayServer_new)) t = Some e \<longleftrightarrow>
        (\<exists>h. jget (rl_clientTokenMap (relay_trace T evs RelayServer_new)) (toAddress e) = Some h \<and> ht_token h = t)) \<and>
     (\<forall>e e' h h'. jget (rl_clientTokenMap (relay_trace T evs RelayServer_new)) (toAddress e) = Some h \<longrightarrow>
        jget (rl_clientTokenMap (relay_trace T evs RelayServer_new)) (toAddress e') = Some h' \<longrightarrow>
        ht_token h = ht_token h' \<longrightarrow> e = e')"
proof -
  have i: "relay_inv (relay_trace T evs RelayServer_new)" by (rule relay_inv_trace [OF relay_inv_new assms])
  show ?thesis using relay_invD(1,2,3) [OF i] token_owner [OF i] by blast
qed

text \<open>A binding request of a client, and the facts that run it in the witnesses.\<close>

definition sample_bind :: "endpoint \<Rightarrow> StunPacket" where
  "sample_bind e = \<lparr>pk_content = \<lparr>sm_messageType = Some BindRelayRequest, sm_tranId = ''abcdefghijkl'', sm_attrs = []\<rparr>,
     pk_recipient = \<lparr>ep_host = ''9.9.9.9'', ep_port = 2478\<rparr>, pk_sender = Some e\<rparr>"

lemmas relay_sample = sample_bind_def receive_state relay_trace_def RelayServer_new_def touch_def bind_heart_def relay_run_def
  relay_expire_def jget_def jkeys_def jremove_def is_bind_def

lemma relay_tokens_exact_witness:
  "let a = \<lparr>ep_host = ''1.1.1.1'', ep_port = 5000\<rparr>; b = \<lparr>ep_host = ''2.2.2.2'', ep_port = 5000\<rparr>;
       s = relay_trace 15000 [Receive 0 ''t'' (sample_bind a), Receive 9000 ''u'' (sample_bind b), Tick 20000] RelayServer_new
   in (\<exists>h. jget (rl_clientTokenMap s) (toAddress b) = Some h \<and> ht_token h = ''u'')"
proof -
  let ?a = "\<lparr>ep_host = ''1.1.1.1'', ep_port = 5000\<rparr>" and ?b = "\<lparr>ep_host = ''2.2.2.2'', ep_port = 5000\<rparr>"
  let ?evs = "[Receive 0 ''t'' (sample_bind ?a), Receive 9000 ''u'' (sample_bind ?b), Tick 20000]"
  have f: "fresh_run 15000 ?evs RelayServer_new" by (simp add: relay_sample Let_def)
  have "jget (rl_transferMap (relay_trace 15000 ?evs RelayServer_new)) ''u'' = Some ?b" by (simp add: relay_sample Let_def)
  then show ?thesis unfolding Let_def using relay_tokens_exact [OF f] by blast
qed

text \<open>
  C11: What the relay delivers. The answer to a binding of an endpoint names a token, and as long as no tick
  finds the endpoint silent for more than the timeout, everything sent with the token goes to that
  endpoint and to no other: a transfer as it came, a ping with the address of its sender in place of any
  source address it has, its transaction id and all other attributes kept. The answer the endpoint's
  client makes of that ping, sent to the relay, goes to the sender of the ping, with the same transaction id and
  attributes. After the first tick that finds the endpoint silent the token leads nowhere. (Every token the relay
  draws is one it does not hold, and the sender's port is between 0 and 65535.)
\<close>

theorem relay_delivers:
  fixes T now token b evs evs'
  defines "s' \<equiv> relay_trace T (evs @ Receive now token b # evs') RelayServer_new"
  assumes "fresh_run T (evs @ Receive now token b # evs') RelayServer_new"
    and "is_bind e b" and "length (sm_tranId (pk_content b)) = 12"
    and "heart_of T e now evs' = Some l"
  shows "\<exists>tok.
     snd (relay_step T (Receive now token b) (relay_trace T evs RelayServer_new)) =
       Inr [Send (StunPacket_new \<lparr>sm_messageType = Some BindRelayResponse, sm_tranId = sm_tranId (pk_content b),
         sm_attrs = [(RelayToken, StringAttr tok)]\<rparr> e)] \<and>
     (\<forall>n u m. sm_messageType (pk_content m) = Some Transfer \<and> getAttr RelayToken (pk_content m) = Some (StringAttr tok) \<longrightarrow>
       relay_step T (Receive n u m) s' = (s', Inr [Send (StunPacket_new (pk_content m) e)])) \<and>
     (\<forall>n u m e2 relay r x. sm_messageType (pk_content m) = Some PingRequest \<and>
         getAttr RelayToken (pk_content m) = Some (StringAttr tok) \<and> pk_sender m = Some e2 \<and> port_ok e2 \<longrightarrow>
       (\<exists>q a. relay_step T (Receive n u m) s' = (s', Inr [Send (StunPacket_new q e)]) \<and>
          sm_messageType q = Some PingRequest \<and> sm_tranId q = sm_tranId (pk_content m) \<and>
          (\<forall>ty. getAttr ty q = (if ty = SourceAddress then Some (AddressAttr (Some PF_IPv4) (ep_host e2) (ep_port e2))
             else getAttr ty (pk_content m))) \<and>
          ice_processPingRequest \<lparr>pk_content = q, pk_recipient = r, pk_sender = Some relay\<rparr> = Inr a \<and> pk_recipient a = relay \<and>
          pk_content a = q\<lparr>sm_messageType := Some PingResponse\<rparr> \<and>
          relay_step T (Receive n u (a\<lparr>pk_sender := x\<rparr>)) s' = (s', Inr [Send (StunPacket_new (pk_content a) e2)]))) \<and>
     (\<forall>n k u m. sint T < sint (n - l) \<and> sm_messageType (pk_content m) = Some Transfer \<and>
         getAttr RelayToken (pk_content m) = Some (StringAttr tok) \<longrightarrow>
       snd (relay_step T (Receive k u m) (fst (relay_step T (Tick n) s'))) = Inr [])"
proof -
  let ?s = "relay_trace T evs RelayServer_new"
  define s1 where "s1 = touch now token e ?s"
  obtain tok where tok: "jget (rl_clientTokenMap s1) (toAddress e) = Some \<lparr>ht_lastHeartTime = now, ht_token = tok\<rparr>"
    by (simp add: s1_def touch_clients)
  note out = bind_out [OF assms(3,4) tok [unfolded s1_def], of T, folded s1_def]
  have f: "fresh_run T evs RelayServer_new" "fresh_run T [Receive now token b] ?s" "fresh_run T evs' s1"
    using assms(2) out by (simp_all add: fresh_run_append)
  have i1: "relay_inv s1"
    using relay_inv_step [OF relay_inv_trace [OF relay_inv_new f(1)] f(2)] out by simp
  have s': "s' = relay_trace T evs' s1"
    using out by (simp add: s'_def relay_trace_def)
  have i: "relay_inv s'" unfolding s' by (rule relay_inv_trace [OF i1 f(3)])
  have c: "jget (rl_clientTokenMap s') (toAddress e) = Some \<lparr>ht_lastHeartTime = l, ht_token = tok\<rparr>"
    unfolding s' by (rule heart_of_trace [OF i1 f(3) tok assms(5)])
  have t: "jget (rl_transferMap s') tok = Some e" using relay_invD(3) [OF i] c by fastforce
  have gone: "jget (rl_transferMap (relay_run T n s')) tok = None" if "sint T < sint (n - l)" for n
  proof (rule ccontr)
    assume "jget (rl_transferMap (relay_run T n s')) tok \<noteq> None"
    then obtain e' h where e': "jget (rl_clientTokenMap (relay_run T n s')) (toAddress e') = Some h" "ht_token h = tok"
      using relay_invD(3) [OF relay_inv_run [OF i]] by blast
    then have h: "jget (rl_clientTokenMap s') (toAddress e') = Some h" "\<not> silent T n h"
      by (auto simp: relay_run_clients [OF i] split: option.splits if_splits)
    then show False using token_owner [OF i h(1) c] e'(2) c that by (auto simp: silent_def)
  qed
  show ?thesis
  proof (intro exI [of _ tok] conjI allI impI)
    fix n u and m :: StunPacket and e2 relay r x
    assume m: "sm_messageType (pk_content m) = Some PingRequest \<and>
         getAttr RelayToken (pk_content m) = Some (StringAttr tok) \<and> pk_sender m = Some e2 \<and> port_ok e2"
    let ?q = "setAttr SourceAddress (AddressAttr (Some PF_IPv4) (ep_host e2) (ep_port e2)) (pk_content m)"
    show "\<exists>q a. relay_step T (Receive n u m) s' = (s', Inr [Send (StunPacket_new q e)]) \<and>
          sm_messageType q = Some PingRequest \<and> sm_tranId q = sm_tranId (pk_content m) \<and>
          (\<forall>ty. getAttr ty q = (if ty = SourceAddress then Some (AddressAttr (Some PF_IPv4) (ep_host e2) (ep_port e2))
             else getAttr ty (pk_content m))) \<and>
          ice_processPingRequest \<lparr>pk_content = q, pk_recipient = r, pk_sender = Some relay\<rparr> = Inr a \<and> pk_recipient a = relay \<and>
          pk_content a = q\<lparr>sm_messageType := Some PingResponse\<rparr> \<and>
          relay_step T (Receive n u (a\<lparr>pk_sender := x\<rparr>)) s' = (s', Inr [Send (StunPacket_new (pk_content a) e2)])"
      using ping_out [of m tok e2 s' e T n u] pong_out [of e2 ?q r relay T n u x s'] m t by (intro exI [of _ ?q]) auto
  qed (use out t gone in \<open>auto simp: relay_channelRead0_def processTransfer_def\<close>)
qed

lemma relay_delivers_witness:
  "\<exists>tok. let a = \<lparr>ep_host = ''1.1.1.1'', ep_port = 5000\<rparr> in
     snd (relay_step 15000 (Receive 0 ''t'' (sample_bind a)) (relay_trace 15000 [] RelayServer_new)) =
       Inr [Send (StunPacket_new \<lparr>sm_messageType = Some BindRelayResponse, sm_tranId = ''abcdefghijkl'', sm_attrs = [(RelayToken, StringAttr tok)]\<rparr> a)]"
proof -
  let ?a = "\<lparr>ep_host = ''1.1.1.1'', ep_port = 5000\<rparr>"
  have f: "fresh_run 15000 ([] @ Receive 0 ''t'' (sample_bind ?a) # [Tick 10000, Receive 14000 ''v'' (sample_bind ?a), Tick 25000]) RelayServer_new"
    by (simp add: relay_sample Let_def)
  have h: "heart_of 15000 ?a 0 [Tick 10000, Receive 14000 ''v'' (sample_bind ?a), Tick 25000] = Some 14000" by (simp add: relay_sample Let_def)
  have b: "is_bind ?a (sample_bind ?a)" "length (sm_tranId (pk_content (sample_bind ?a))) = 12"
    by (simp_all add: is_bind_def sample_bind_def)
  have t: "sm_tranId (pk_content (sample_bind ?a)) = ''abcdefghijkl''" by (simp add: sample_bind_def)
  show ?thesis unfolding Let_def using relay_delivers [OF f b h] unfolding t by blast
qed

section \<open>The STUN server's answer on the wire\<close>

definition quad_ep :: "endpoint \<Rightarrow> bool" where
  "quad_ep e \<longleftrightarrow> (\<exists>a < 256. \<exists>b < 256. \<exists>c < 256. \<exists>d < 256. ep_host e = quad_str a b c d) \<and> unat (ep_port e) < 65536"

lemma quad_ep_bytes: "quad_ep e \<Longrightarrow> length (attr_bytes cs (AddressAttr (Some PF_IPv4) (ep_host e) (ep_port e))) = 8"
  by (auto simp: quad_ep_def ip2bytes_quad_str)

lemma quad_ep_isIPv4: "quad_ep e \<Longrightarrow> isIPv4 (ep_host e)"
  by (auto simp: quad_ep_def isIPv4_quad_str)

lemma quad_ep_port: "quad_ep e \<Longrightarrow> port_ok e"
proof -
  assume "quad_ep e"
  then have "unat (ep_port e) < 65536" by (simp add: quad_ep_def)
  then have "sint (ep_port e) = int (unat (ep_port e))" by (simp add: sint_small)
  with \<open>unat (ep_port e) < 65536\<close> show "port_ok e" unfolding port_ok_def by linarith
qed

lemma address_ok:
  "quad_ep e \<Longrightarrow> AttrType_decode t = DecAddress \<Longrightarrow> t \<noteq> OtherAddress \<Longrightarrow>
   entry_ok cs (t, AddressAttr (Some PF_IPv4) (ep_host e) (ep_port e))"
  using quad_ep_bytes [of e cs] by (simp add: entry_ok_def quad_ep_def)


text \<open>
  A node learns its public address. The STUN server answers every binding request from an IPv4 endpoint
  to that endpoint, and what the node decodes from the bytes of the answer has the request's transaction
  id, the endpoint as its mapped address and the server's own address as the changed address. A request
  from another kind of address is refused.
\<close>

theorem stun_public_address:
  assumes "netty_buf N content marked after sliced rpos mpos" and "charset_laws cs"
    and "sm_messageType (pk_content r) = Some BindRequest" and "pk_sender r = Some e"
    and "length (sm_tranId (pk_content r)) = 12" and "ascii (sm_tranId (pk_content r))" and "quad_ep own"
  shows "if isIPv4 (ep_host e)
    then quad_ep e \<longrightarrow> (\<exists>p b m. stun_channelRead0 own r = Inr [Send p] \<and> pk_recipient p = e \<and>
      StunEncoder_encode N cs (pk_content p) = Inr b \<and> StunDecoder_decode N cs b = Some (Inr m) \<and>
      sm_messageType m = Some BindResponse \<and> sm_tranId m = sm_tranId (pk_content r) \<and>
      address_attr (getAttr MappedAddress m) = Inr e \<and> address_attr (getAttr ChangedAddress m) = Inr own)
    else stun_channelRead0 own r = Inl UnsupportedOperationException"
proof -
  let ?m = "\<lparr>sm_messageType = Some BindResponse, sm_tranId = sm_tranId (pk_content r),
      sm_attrs = [(MappedAddress, AddressAttr (Some PF_IPv4) (ep_host e) (ep_port e)),
                  (ChangedAddress, AddressAttr (Some PF_IPv4) (ep_host own) (ep_port own))]\<rparr>"
  have "\<exists>p b m. stun_channelRead0 own r = Inr [Send p] \<and> pk_recipient p = e \<and>
      StunEncoder_encode N cs (pk_content p) = Inr b \<and> StunDecoder_decode N cs b = Some (Inr m) \<and>
      sm_messageType m = Some BindResponse \<and> sm_tranId m = sm_tranId (pk_content r) \<and>
      address_attr (getAttr MappedAddress m) = Inr e \<and> address_attr (getAttr ChangedAddress m) = Inr own"
    if q: "quad_ep e"
  proof -
    have "message_ok cs ?m"
      using address_ok [OF q, of MappedAddress cs] address_ok [OF assms(7), of ChangedAddress cs] assms(5,6)
        quad_ep_bytes [OF q, of cs] quad_ep_bytes [OF assms(7), of cs]
      by (simp add: message_ok_def entry_bytes_def)
    then obtain b where b: "StunEncoder_encode N cs ?m = Inr b" "StunDecoder_decode N cs b = Some (Inr ?m)"
      using stun_codec.encode_run [OF stun_codec.intro [OF assms(1,2)]] stun_codec.decode_run [OF stun_codec.intro [OF assms(1,2)]]
      by blast
    have "stun_channelRead0 own r = Inr [Send (StunPacket_new ?m e)]"
      using assms(3,4,5) quad_ep_isIPv4 [OF q]
      by (simp add: stun_channelRead0_def stun_processBindRequest_def StunMessage_new_def setAttr_def)
    then show ?thesis
      using b quad_ep_port [OF q] quad_ep_port [OF assms(7)] by (auto simp: StunPacket_new_def getAttr_def port_ok_def)
  qed
  then show ?thesis using assms(3,4) by (auto simp: stun_channelRead0_def stun_processBindRequest_def)
qed

lemma stun_public_address_witness:
  "\<exists>p b m. stun_channelRead0 \<lparr>ep_host = quad_str 9 9 9 9, ep_port = 3478\<rparr>
      \<lparr>pk_content = \<lparr>sm_messageType = Some BindRequest, sm_tranId = ''abcdefghijkl'', sm_attrs = []\<rparr>,
       pk_recipient = \<lparr>ep_host = quad_str 9 9 9 9, ep_port = 3478\<rparr>, pk_sender = Some \<lparr>ep_host = quad_str 1 2 3 4, ep_port = 50000\<rparr>\<rparr>
      = Inr [Send p] \<and> StunEncoder_encode list_netty latin1 (pk_content p) = Inr b \<and>
    StunDecoder_decode list_netty latin1 b = Some (Inr m) \<and>
    address_attr (getAttr MappedAddress m) = Inr \<lparr>ep_host = quad_str 1 2 3 4, ep_port = 50000\<rparr>"
proof -
  have q: "quad_ep \<lparr>ep_host = quad_str a b c d, ep_port = p\<rparr>" if "a < 256" "b < 256" "c < 256" "d < 256" "unat p < 65536" for a b c d p
    using that by (auto simp: quad_ep_def)
  define r :: StunPacket where "r = \<lparr>pk_content = \<lparr>sm_messageType = Some BindRequest, sm_tranId = ''abcdefghijkl'', sm_attrs = []\<rparr>,
     pk_recipient = \<lparr>ep_host = quad_str 9 9 9 9, ep_port = 3478\<rparr>, pk_sender = Some \<lparr>ep_host = quad_str 1 2 3 4, ep_port = 50000\<rparr>\<rparr>"
  have o: "quad_ep \<lparr>ep_host = quad_str 9 9 9 9, ep_port = 3478\<rparr>" by (rule q) simp_all
  have e: "quad_ep \<lparr>ep_host = quad_str 1 2 3 4, ep_port = 50000\<rparr>" by (rule q) simp_all
  have i: "isIPv4 (ep_host \<lparr>ep_host = quad_str 1 2 3 4, ep_port = 50000\<rparr>)" by simp
  have "sm_messageType (pk_content r) = Some BindRequest" "pk_sender r = Some \<lparr>ep_host = quad_str 1 2 3 4, ep_port = 50000\<rparr>"
    "length (sm_tranId (pk_content r)) = 12" "ascii (sm_tranId (pk_content r))"
    by (simp_all add: r_def ascii_def)
  from stun_public_address [OF lbuf.netty_buf_axioms latin1.charset_laws_axioms this o]
  show ?thesis unfolding if_P [OF i] r_def [symmetric] using e by blast
qed

end
