(* ===== verification/TenantData.thy ===== *)
theory TenantData
  imports RouteRules JavaMap
begin

text \<open>
  What the controller asks about tenants: the interface \<open>SdWanDataService\<close> of \<open>sdwan-core\<close> as a record of
  operations, and its implementation over a configuration file, \<open>LocalConfigSdWanDataService\<close>. A reference
  that may be null is an option; a listener that an implementation adds to the close future of the
  channel is the key it needs to undo the assignment. The laws of the assignment of addresses are the locale
  \<open>vip_service\<close>; the configured service satisfies them. Java's concurrent maps iterate in an order of
  their own: the lists here stand for any such order and no lemma depends on it.
\<close>

section \<open>Configurations\<close>

record RouteConfig =
  rc_name :: "string option"
  rc_destination :: "string option"
  rc_nexthop :: "string list option"

record VNATConfig =
  vc_name :: "string option"
  vc_srcCidr :: "string option"
  vc_dstCidr :: "string option"
  vc_vipList :: "string list option"

record RouteRuleConfig =
  uc_name :: "string option"
  uc_strategy :: "RouteRuleStrategyEnum option"
  uc_direction :: "RouteRuleDirectionEnum option"
  uc_ruleList :: "string list option"
  uc_level :: "jint option"

record NodeConfig =
  nc_mac :: string
  nc_vip :: string
  nc_routeConfigList :: "RouteConfig list"
  nc_routeRuleConfigList :: "RouteRuleConfig list"
  nc_vnatConfigList :: "VNATConfig list"

record TenantConfig =
  tc_ipPool :: Cidr
  tc_stunServerList :: "string list"
  tc_relayServerList :: "string list"

text \<open>A reference that must not be null.\<close>

definition nonnull :: "'a option \<Rightarrow> 'a res" where
  "nonnull x = (case x of None \<Rightarrow> Inl NullPointerException | Some v \<Rightarrow> Inr v)"

section \<open>The interface\<close>

type_synonym vip_key = "string \<times> string"

text \<open>
  \<open>ds_assignNodeInfo\<close> takes the channel and gives, beside the new state, the key of the listener that it
  added to the channel's close future, if any; \<open>ds_onClose\<close> is what that listener does.
\<close>

record 's data_service =
  ds_hasTenant :: "'s \<Rightarrow> string \<Rightarrow> bool"
  ds_getTenantConfig :: "'s \<Rightarrow> string \<Rightarrow> TenantConfig option"
  ds_assignNodeInfo :: "nat \<Rightarrow> RegistReq \<Rightarrow> 's \<Rightarrow> 's \<times> vip_key option \<times> NodeConfig res"
  ds_onClose :: "vip_key \<Rightarrow> 's \<Rightarrow> 's"

locale vip_service =
  fixes S :: "'s data_service"
    and holder :: "'s \<Rightarrow> vip_key \<Rightarrow> nat option"
    and inv :: "'s \<Rightarrow> bool"
  assumes assign_inv: "inv s \<Longrightarrow> inv (fst (ds_assignNodeInfo S c req s))"
    and close_inv: "inv s \<Longrightarrow> inv (ds_onClose S k s)"
    and assign_ok: "inv s \<Longrightarrow> ds_assignNodeInfo S c req s = (s', l, Inr nc) \<Longrightarrow>
      l = Some (rq_tenantId req, nc_vip nc) \<and> holder s (rq_tenantId req, nc_vip nc) = None \<and>
      holder s' = (holder s)((rq_tenantId req, nc_vip nc) \<mapsto> c)"
    and assign_error: "inv s \<Longrightarrow> ds_assignNodeInfo S c req s = (s', l, Inl e) \<Longrightarrow> l = None \<and> holder s' = holder s"
    and close_holder: "inv s \<Longrightarrow> holder (ds_onClose S k s) = (holder s)(k := None)"

section \<open>The configured service\<close>

text \<open>\<open>ControllerServerConfig\<close>: the tenants of the configuration file.\<close>

record RouteEntry =
  re_destination :: "string option"
  re_nexthop :: "string list option"

record RouteRuleEntry =
  ue_strategy :: "RouteRuleStrategyEnum option"
  ue_direction :: "RouteRuleDirectionEnum option"
  ue_ruleList :: "string list option"
  ue_level :: "jint option"

record VNATEntry =
  ve_src :: "string option"
  ve_dst :: "string option"
  ve_vipList :: "string list option"

record TenantEntry =
  te_stunServerList :: "string list"
  te_relayServerList :: "string list"
  te_vipCidr :: string
  te_fixedVipList :: "(string \<times> string) list"
  te_routeList :: "RouteEntry list"
  te_routeRuleList :: "RouteRuleEntry list"
  te_vnatList :: "VNATEntry list"

text \<open>\<open>LocalConfigSdWanDataService.TenantSpace\<close>; an address is bound to a channel or to null.\<close>

record TenantSpace =
  ts_stunServerList :: "string list"
  ts_relayServerList :: "string list"
  ts_ipPool :: Cidr
  ts_fixedVipMap :: "(string, string) jmap"
  ts_routeList :: "RouteConfig list"
  ts_routeRuleList :: "RouteRuleConfig list"
  ts_vnatList :: "VNATConfig list"
  ts_bindIPMap :: "(string, nat option) jmap"

type_synonym LocalConfig = "(string, TenantSpace) jmap"

text \<open>\<open>Collectors.toMap\<close> refuses a key that occurs twice.\<close>

fun toMap :: "('k \<times> 'v) list \<Rightarrow> ('k, 'v) jmap \<Rightarrow> ('k, 'v) jmap res" where
  "toMap [] m = Inr m"
| "toMap ((k, v) # es) m = (if jget m k \<noteq> None then Inl IllegalStateException else toMap es (jput k v m))"

text \<open>
  The constructor, tenant by tenant. An address pool whose enumeration does not return makes the
  constructor not return: \<open>None\<close>.
\<close>

definition tenant_space :: "(string \<Rightarrow> bool) \<Rightarrow> TenantEntry \<Rightarrow> TenantSpace res option" where
  "tenant_space pat config =
     (case toMap (te_fixedVipList config) [] of
        Inl e \<Rightarrow> Some (Inl e)
      | Inr fixed \<Rightarrow>
     (case parseCidr pat (te_vipCidr config) of
        Inl e \<Rightarrow> Some (Inl e)
      | Inr ipPool \<Rightarrow>
     (case availableIpList ipPool of
        Inl e \<Rightarrow> Some (Inl e)
      | Inr None \<Rightarrow> None
      | Inr (Some vips) \<Rightarrow>
          Some (Inr \<lparr>ts_stunServerList = te_stunServerList config,
                     ts_relayServerList = te_relayServerList config,
                     ts_ipPool = ipPool,
                     ts_fixedVipMap = fixed,
                     ts_routeList = map (\<lambda>e. \<lparr>rc_name = None, rc_destination = re_destination e, rc_nexthop = re_nexthop e\<rparr>)
                       (te_routeList config),
                     ts_routeRuleList = map (\<lambda>e. \<lparr>uc_name = None, uc_strategy = ue_strategy e, uc_direction = ue_direction e,
                       uc_ruleList = ue_ruleList e, uc_level = ue_level e\<rparr>) (te_routeRuleList config),
                     ts_vnatList = map (\<lambda>e. \<lparr>vc_name = None, vc_srcCidr = ve_src e, vc_dstCidr = ve_dst e, vc_vipList = ve_vipList e\<rparr>)
                       (te_vnatList config),
                     ts_bindIPMap = fold (\<lambda>vip. jput vip None) vips []\<rparr>))))"

fun LocalConfig_new :: "(string \<Rightarrow> bool) \<Rightarrow> (string \<times> TenantEntry) list \<Rightarrow> LocalConfig \<Rightarrow> LocalConfig res option" where
  "LocalConfig_new pat [] m = Some (Inr m)"
| "LocalConfig_new pat ((key, config) # cs) m =
     (case tenant_space pat config of
        None \<Rightarrow> None
      | Some (Inl e) \<Rightarrow> Some (Inl e)
      | Some (Inr space) \<Rightarrow> LocalConfig_new pat cs (jput key space m))"

definition lc_hasTenant :: "LocalConfig \<Rightarrow> string \<Rightarrow> bool" where
  "lc_hasTenant m tenantCode \<longleftrightarrow> jget m tenantCode \<noteq> None"

definition lc_getTenantConfig :: "LocalConfig \<Rightarrow> string \<Rightarrow> TenantConfig option" where
  "lc_getTenantConfig m tenantCode =
     (case jget m tenantCode of
        None \<Rightarrow> None
      | Some space \<Rightarrow> Some \<lparr>tc_ipPool = ts_ipPool space, tc_stunServerList = ts_stunServerList space,
                            tc_relayServerList = ts_relayServerList space\<rparr>)"

definition lc_getStunServerList :: "LocalConfig \<Rightarrow> string \<Rightarrow> string list res" where
  "lc_getStunServerList m tenantCode =
     (case jget m tenantCode of None \<Rightarrow> Inl ProcessException | Some space \<Rightarrow> Inr (ts_stunServerList space))"

definition lc_getRelayServerList :: "LocalConfig \<Rightarrow> string \<Rightarrow> string list res" where
  "lc_getRelayServerList m tenantCode =
     (case jget m tenantCode of None \<Rightarrow> Inl ProcessException | Some space \<Rightarrow> Inr (ts_relayServerList space))"

text \<open>\<open>compareAndSet(null, channel)\<close> on the first free address of the map.\<close>

fun bind_first :: "nat \<Rightarrow> (string, nat option) jmap \<Rightarrow> (string \<times> (string, nat option) jmap) option" where
  "bind_first c [] = None"
| "bind_first c ((vip, ref) # m) =
     (case ref of
        None \<Rightarrow> Some (vip, (vip, Some c) # m)
      | Some _ \<Rightarrow> map_option (\<lambda>(v, m'). (v, (vip, ref) # m')) (bind_first c m))"

definition assignVip :: "nat \<Rightarrow> string \<Rightarrow> TenantSpace \<Rightarrow> (string \<times> TenantSpace) res" where
  "assignVip c macAddress space =
     (case jget (ts_fixedVipMap space) macAddress of
        Some fixedIp \<Rightarrow>
          (case jget (ts_bindIPMap space) fixedIp of
             None \<Rightarrow> Inl NullPointerException
           | Some (Some _) \<Rightarrow> Inl (ProcessCodeException (MessageCode_number MC_VipBound))
           | Some None \<Rightarrow> Inr (fixedIp, space\<lparr>ts_bindIPMap := jput fixedIp (Some c) (ts_bindIPMap space)\<rparr>))
      | None \<Rightarrow>
          (case bind_first c (ts_bindIPMap space) of
             None \<Rightarrow> Inl (ProcessCodeException (MessageCode_number MC_NotEnough))
           | Some (vip, m) \<Rightarrow> Inr (vip, space\<lparr>ts_bindIPMap := m\<rparr>)))"

definition lc_assignNodeInfo :: "nat \<Rightarrow> RegistReq \<Rightarrow> LocalConfig \<Rightarrow> LocalConfig \<times> vip_key option \<times> NodeConfig res" where
  "lc_assignNodeInfo c req m =
     (case jget m (rq_tenantId req) of
        None \<Rightarrow> (m, None, Inl ProcessException)
      | Some space \<Rightarrow>
          (case assignVip c (rq_macAddress req) space of
             Inl e \<Rightarrow> (m, None, Inl e)
           | Inr (vip, space') \<Rightarrow>
               (jput (rq_tenantId req) space' m, Some (rq_tenantId req, vip),
                Inr \<lparr>nc_mac = rq_macAddress req, nc_vip = vip, nc_routeConfigList = ts_routeList space,
                     nc_routeRuleConfigList = ts_routeRuleList space, nc_vnatConfigList = ts_vnatList space\<rparr>)))"

definition lc_onClose :: "vip_key \<Rightarrow> LocalConfig \<Rightarrow> LocalConfig" where
  "lc_onClose k m =
     (case jget m (fst k) of
        None \<Rightarrow> m
      | Some space \<Rightarrow>
          (case jget (ts_bindIPMap space) (snd k) of
             None \<Rightarrow> m
           | Some _ \<Rightarrow> jput (fst k) (space\<lparr>ts_bindIPMap := jput (snd k) None (ts_bindIPMap space)\<rparr>) m))"

definition local_service :: "LocalConfig data_service" where
  "local_service = \<lparr>ds_hasTenant = lc_hasTenant, ds_getTenantConfig = lc_getTenantConfig,
     ds_assignNodeInfo = lc_assignNodeInfo, ds_onClose = lc_onClose\<rparr>"

section \<open>The laws of the configured service\<close>

definition lc_holder :: "LocalConfig \<Rightarrow> vip_key \<Rightarrow> nat option" where
  "lc_holder m k = (case jget m (fst k) of None \<Rightarrow> None | Some space \<Rightarrow>
     (case jget (ts_bindIPMap space) (snd k) of None \<Rightarrow> None | Some r \<Rightarrow> r))"

text \<open>The constructor gives no entry a name, although the entries have a field for it.\<close>

definition nameless :: "TenantSpace \<Rightarrow> bool" where
  "nameless space \<longleftrightarrow> (\<forall>e \<in> set (ts_routeList space). rc_name e = None) \<and>
     (\<forall>e \<in> set (ts_routeRuleList space). uc_name e = None) \<and> (\<forall>e \<in> set (ts_vnatList space). vc_name e = None)"

definition lc_inv :: "LocalConfig \<Rightarrow> bool" where
  "lc_inv m \<longleftrightarrow> (\<forall>t space. jget m t = Some space \<longrightarrow> wf_jmap (ts_bindIPMap space) \<and> nameless space)"

lemma bind_first_Some:
  "wf_jmap m \<Longrightarrow> bind_first c m = Some (v, m') \<Longrightarrow>
   jget m v = Some None \<and> jkeys m' = jkeys m \<and> (\<forall>w. jget m' w = (if w = v then Some (Some c) else jget m w))"
proof (induction c m arbitrary: m' rule: bind_first.induct)
  case (2 c vip ref m)
  show ?case
  proof (cases ref)
    case None
    then show ?thesis using 2(3) by (auto simp: jget_def jkeys_def)
  next
    case (Some x)
    then obtain m1 where m1: "bind_first c m = Some (v, m1)" "m' = (vip, ref) # m1" using 2(3) by auto
    have "wf_jmap m" "vip \<notin> set (jkeys m)" using 2(2) by (auto simp: wf_jmap_def jkeys_def)
    with 2(1) [OF Some \<open>wf_jmap m\<close> m1(1)] have ih: "jget m v = Some None" "jkeys m1 = jkeys m"
      "\<And>w. jget m1 w = (if w = v then Some (Some c) else jget m w)" by auto
    then have "v \<noteq> vip" using \<open>vip \<notin> set (jkeys m)\<close> jget_keys [of m v] by auto
    then show ?thesis using ih by (auto simp: m1(2) jget_def jkeys_def)
  qed
qed simp

lemma bind_first_None: "bind_first c m = None \<longleftrightarrow> (\<forall>(v, r) \<in> set m. r \<noteq> None)"
  by (induction c m rule: bind_first.induct) (auto split: option.splits)

lemma assignVip_ok:
  assumes "wf_jmap (ts_bindIPMap space)" and "assignVip c mac space = Inr (v, space')"
  shows "\<exists>m. space' = space\<lparr>ts_bindIPMap := m\<rparr> \<and> jget (ts_bindIPMap space) v = Some None \<and> wf_jmap m \<and>
    (\<forall>w. jget m w = (if w = v then Some (Some c) else jget (ts_bindIPMap space) w))"
proof (cases "jget (ts_fixedVipMap space) mac")
  case None
  then obtain m where "bind_first c (ts_bindIPMap space) = Some (v, m)" "space' = space\<lparr>ts_bindIPMap := m\<rparr>"
    using assms(2) by (auto simp: assignVip_def split: option.splits)
  then show ?thesis using bind_first_Some [OF assms(1)] assms(1) by (auto simp: wf_jmap_def)
next
  case (Some f)
  then show ?thesis using assms by (auto simp: assignVip_def split: option.splits)
qed

lemma fold_jput_None: "jget (fold (\<lambda>vip. jput vip None) vs m) v = (if v \<in> set vs then Some None else jget m v)"
  by (induction vs arbitrary: m) auto

lemma wf_fold_jput: "wf_jmap m \<Longrightarrow> wf_jmap (fold (\<lambda>vip. jput vip None) vs m)"
  by (induction vs arbitrary: m) auto

lemma tenant_space_new:
  assumes "tenant_space pat config = Some (Inr space)"
  shows "wf_jmap (ts_bindIPMap space)" "\<And>v. jget (ts_bindIPMap space) v \<in> {None, Some None}"
    "nameless space"
  using assms
  by (auto simp: tenant_space_def fold_jput_None wf_fold_jput nameless_def split: option.splits sum.splits if_splits)

lemma LocalConfig_new_inv:
  "LocalConfig_new pat cs m = Some (Inr m') \<Longrightarrow> lc_inv m \<Longrightarrow> (\<And>k. lc_holder m k = None) \<Longrightarrow>
   lc_inv m' \<and> (\<forall>k. lc_holder m' k = None)"
proof (induction pat cs m rule: LocalConfig_new.induct)
  case (2 pat key config cs m)
  then obtain space where s: "tenant_space pat config = Some (Inr space)" "LocalConfig_new pat cs (jput key space m) = Some (Inr m')"
    by (auto split: option.splits sum.splits)
  have "lc_inv (jput key space m)" using 2(3) tenant_space_new(1,3) [OF s(1)] by (simp add: lc_inv_def)
  moreover have "lc_holder (jput key space m) k = None" for k
    using 2(4) [of k] tenant_space_new(2) [OF s(1), of "snd k"] by (auto simp: lc_holder_def split: option.splits)
  ultimately show ?case using 2(1) [OF s(1)] s(2) by simp
qed auto

interpretation local_vips: vip_service local_service lc_holder lc_inv
proof
  fix s s' :: LocalConfig and c req k l nc e
  assume i: "lc_inv s"
  have w: "jget s t = Some space \<Longrightarrow> wf_jmap (ts_bindIPMap space)" "jget s t = Some space \<Longrightarrow> nameless space" for t space
    using i by (auto simp: lc_inv_def)
  have nl: "nameless (space\<lparr>ts_bindIPMap := m\<rparr>) = nameless space" for space m by (simp add: nameless_def)
  show "lc_inv (fst (ds_assignNodeInfo local_service c req s))"
    using i w by (auto simp: local_service_def lc_assignNodeInfo_def lc_inv_def nl split: option.splits sum.splits dest!: assignVip_ok [rotated])
  show "lc_inv (ds_onClose local_service k s)"
    using i w by (auto simp: local_service_def lc_onClose_def lc_inv_def nl split: option.splits)
  show "lc_holder (ds_onClose local_service k s) = (lc_holder s)(k := None)"
    by (rule ext, cases k) (auto simp: local_service_def lc_onClose_def lc_holder_def split: option.splits)
  show "l = None \<and> lc_holder s' = lc_holder s" if "ds_assignNodeInfo local_service c req s = (s', l, Inl e)"
    using that by (auto simp: local_service_def lc_assignNodeInfo_def split: option.splits sum.splits)
  show "l = Some (rq_tenantId req, nc_vip nc) \<and> lc_holder s (rq_tenantId req, nc_vip nc) = None \<and>
      lc_holder s' = (lc_holder s)((rq_tenantId req, nc_vip nc) \<mapsto> c)"
    if a: "ds_assignNodeInfo local_service c req s = (s', l, Inr nc)"
  proof -
    from a obtain space v space' where sp: "jget s (rq_tenantId req) = Some space"
      "assignVip c (rq_macAddress req) space = Inr (v, space')" and s': "s' = jput (rq_tenantId req) space' s"
      "l = Some (rq_tenantId req, v)" "nc_vip nc = v"
      by (auto simp: local_service_def lc_assignNodeInfo_def split: option.splits sum.splits)
    from assignVip_ok [OF w(1) [OF sp(1)] sp(2)] obtain m where m: "space' = space\<lparr>ts_bindIPMap := m\<rparr>"
      "jget (ts_bindIPMap space) v = Some None"
      "\<And>u. jget m u = (if u = v then Some (Some c) else jget (ts_bindIPMap space) u)" by blast
    have "lc_holder s' k = (if k = (rq_tenantId req, v) then Some c else lc_holder s k)" for k
      using sp(1) by (cases k) (auto simp: lc_holder_def s'(1) m)
    then show ?thesis using s' m(2) sp(1) by (auto simp: lc_holder_def fun_eq_iff)
  qed
qed

end
