(* ===== verification/Controller.thy ===== *)
theory Controller
  imports TenantData
begin

text \<open>
  The controller, \<open>ControllerServer\<close> of \<open>sdwan-core\<close>, with its \<open>ChannelSpace\<close>s: the channels of the nodes, their
  registration, and the messages it answers and passes on. A channel is a number; its attributes and
  the listeners of its close future are part of the state. A handler gives the new state and the
  messages it writes, with their channels, in order. Closing is not atomic: a channel is closed
  first, and then its listeners run one by one, between the handlers of the other channels, as the
  channels live on different event loops. The states that such runs reach are an inductive predicate, and
  the invariants are proved over it for every service that satisfies the laws of \<open>vip_service\<close>.
\<close>

section \<open>Channels\<close>

record ChannelAttributes =
  at_tenantId :: "string option"
  at_vip :: "string option"
  at_lastHeartTime :: "jlong option"
  at_macAddress :: "string option"
  at_addressUriList :: "string list"

definition attributes_new :: ChannelAttributes where
  "attributes_new = \<lparr>at_tenantId = None, at_vip = None, at_lastHeartTime = None, at_macAddress = None, at_addressUriList = []\<rparr>"

datatype listener =
    RemoveChannel
  | RemoveRegist
  | ServiceClose vip_key
  | RemoveFromSpace vip_key
  | SendOffline

datatype conn_state = Idle | Active | Closed

record conn =
  cn_state :: conn_state
  cn_attr :: ChannelAttributes
  cn_listeners :: "listener list"

section \<open>The server's state\<close>

type_synonym ChannelSpace = "(string, nat) jmap"

record 's ControllerServer =
  cs_service :: 's
  cs_channelMap :: "(string, nat) jmap"
  cs_registChannelMap :: "(nat, NodeConfig) jmap"
  cs_channelSpaceMap :: "(string, ChannelSpace) jmap"
  cs_conns :: "nat \<Rightarrow> conn"

definition ControllerServer_new :: "'s \<Rightarrow> 's ControllerServer" where
  "ControllerServer_new svc = \<lparr>cs_service = svc, cs_channelMap = [], cs_registChannelMap = [], cs_channelSpaceMap = [],
     cs_conns = (\<lambda>_. \<lparr>cn_state = Idle, cn_attr = attributes_new, cn_listeners = []\<rparr>)\<rparr>"

definition upd_conn :: "nat \<Rightarrow> (conn \<Rightarrow> conn) \<Rightarrow> 's ControllerServer \<Rightarrow> 's ControllerServer" where
  "upd_conn c f s = s\<lparr>cs_conns := (cs_conns s)(c := f (cs_conns s c))\<rparr>"

abbreviation attr :: "'s ControllerServer \<Rightarrow> nat \<Rightarrow> ChannelAttributes" where
  "attr s c \<equiv> cn_attr (cs_conns s c)"

abbreviation listeners :: "'s ControllerServer \<Rightarrow> nat \<Rightarrow> listener list" where
  "listeners s c \<equiv> cn_listeners (cs_conns s c)"

definition set_attr :: "nat \<Rightarrow> (ChannelAttributes \<Rightarrow> ChannelAttributes) \<Rightarrow> 's ControllerServer \<Rightarrow> 's ControllerServer" where
  "set_attr c f s = upd_conn c (\<lambda>n. n\<lparr>cn_attr := f (cn_attr n)\<rparr>) s"

definition addListener :: "nat \<Rightarrow> listener \<Rightarrow> 's ControllerServer \<Rightarrow> 's ControllerServer" where
  "addListener c l s = upd_conn c (\<lambda>n. n\<lparr>cn_listeners := cn_listeners n @ [l]\<rparr>) s"

definition close :: "nat \<Rightarrow> 's ControllerServer \<Rightarrow> 's ControllerServer" where
  "close c s = (if cn_state (cs_conns s c) = Active then upd_conn c (\<lambda>n. n\<lparr>cn_state := Closed\<rparr>) s else s)"

section \<open>Messages\<close>

text \<open>The generated parsers and serialisers are a parameter.\<close>

record 'd codec =
  cd_nodeInfoReq :: "'d \<Rightarrow> NodeInfoReq res"
  cd_configReq :: "'d \<Rightarrow> ServerConfigReq res"
  cd_registReq :: "'d \<Rightarrow> RegistReq res"
  cd_offer :: "'d \<Rightarrow> P2pOffer res"
  cd_answer :: "'d \<Rightarrow> P2pAnswer res"
  cd_of_nodeInfo :: "NodeInfo \<Rightarrow> 'd"
  cd_of_configResp :: "ServerConfigResp \<Rightarrow> 'd"
  cd_of_registResp :: "RegistResp \<Rightarrow> 'd"
  cd_of_offer :: "P2pOffer \<Rightarrow> 'd"
  cd_of_answer :: "P2pAnswer \<Rightarrow> 'd"

type_synonym 'd outgoing = "nat \<times> 'd Message"

definition push :: "nat \<Rightarrow> string \<Rightarrow> MessageTypeCode \<Rightarrow> 'd \<Rightarrow> 'd outgoing" where
  "push c reqId t d = (c, \<lparr>msg_reqId = reqId, msg_mode = Push, msg_type = t, msg_data = d\<rparr>)"

definition reply :: "nat \<Rightarrow> 'd Message \<Rightarrow> MessageTypeCode \<Rightarrow> 'd option \<Rightarrow> 'd outgoing" where
  "reply c msg t d = (c, msg\<lparr>msg_type := t, msg_data := (case d of None \<Rightarrow> msg_data msg | Some d \<Rightarrow> d)\<rparr>)"

text \<open>Answers of which only the code is set.\<close>

definition regist_code :: "MessageCode \<Rightarrow> RegistResp" where
  "regist_code c = \<lparr>rs_code = c, rs_vip = [], rs_maskBits = 0, rs_nodeList = [], rs_routeList = [], rs_vnatList = [],
     rs_routeRuleList = [], rs_cidr = []\<rparr>"

definition config_code :: "MessageCode \<Rightarrow> ServerConfigResp" where
  "config_code c = \<lparr>cr_code = c, cr_stunServers = [], cr_relayServers = [], cr_stunServer = [], cr_relayServer = []\<rparr>"

definition MessageCode_forNumber :: "int \<Rightarrow> MessageCode option" where
  "MessageCode_forNumber n =
     find (\<lambda>c. MessageCode_number c = n)
       [MC_Success, MC_Failed, MC_SysError, MC_NotEnough, MC_VipBound, MC_NotFound, MC_NotGrant, MC_Disabled]"

section \<open>Configuration for the nodes\<close>

definition buildRouteList :: "RouteConfig list \<Rightarrow> Route list res" where
  "buildRouteList list = mapR (\<lambda>e.
     bindR (nonnull (rc_name e)) (\<lambda>name. bindR (nonnull (rc_destination e)) (\<lambda>destination.
     bindR (nonnull (rc_nexthop e)) (\<lambda>nexthop.
       Inr \<lparr>rt_destination = destination, rt_nexthop = nexthop, rt_name = name\<rparr>)))) list"

definition buildVNATList :: "VNATConfig list \<Rightarrow> VNAT list res" where
  "buildVNATList list = mapR (\<lambda>e.
     let vip = (case vc_vipList e of Some (v # _) \<Rightarrow> v | _ \<Rightarrow> []) in
     bindR (nonnull (vc_name e)) (\<lambda>name. bindR (nonnull (vc_srcCidr e)) (\<lambda>src.
     bindR (nonnull (vc_dstCidr e)) (\<lambda>dst. bindR (nonnull (vc_vipList e)) (\<lambda>vipList.
       Inr \<lparr>vn_vip = vip, vn_src = src, vn_dst = dst, vn_vipList = vipList, vn_name = name\<rparr>))))) list"

definition strategy_name :: "RouteRuleStrategyEnum \<Rightarrow> string" where
  "strategy_name s = (case s of RS_Allow \<Rightarrow> ''Allow'' | RS_Reject \<Rightarrow> ''Reject'')"

definition direction_name :: "RouteRuleDirectionEnum \<Rightarrow> string" where
  "direction_name d = (case d of RD_All \<Rightarrow> ''All'' | RD_Input \<Rightarrow> ''Input'' | RD_Output \<Rightarrow> ''Output'')"

text \<open>
  The rules are sorted by their level, stably and in place; sorting again does not change the list. The
  comparator unboxes the levels, and so does the builder: a missing level is an exception either way.
\<close>

definition resp_buildRouteRuleList :: "RouteRuleConfig list \<Rightarrow> RouteRule list res" where
  "resp_buildRouteRuleList list =
     (if \<exists>e \<in> set list. uc_level e = None then Inl NullPointerException
      else mapR (\<lambda>e.
        bindR (nonnull (uc_name e)) (\<lambda>name. bindR (nonnull (uc_strategy e)) (\<lambda>strategy.
        bindR (nonnull (uc_direction e)) (\<lambda>direction. bindR (nonnull (uc_level e)) (\<lambda>level.
        bindR (nonnull (uc_ruleList e)) (\<lambda>ruleList.
          Inr \<lparr>rr_strategy = strategy_name strategy, rr_direction = direction_name direction, rr_level = level,
                rr_ruleList = ruleList, rr_name = name\<rparr>)))))) (sort_key (\<lambda>e. sint (the (uc_level e))) list))"

section \<open>Telling all nodes\<close>

definition node_info :: "'s ControllerServer \<Rightarrow> nat \<Rightarrow> NodeInfo res" where
  "node_info s c = bindR (nonnull (at_vip (attr s c))) (\<lambda>vip. Inr \<lparr>ni_vip = vip, ni_addressUri = at_addressUriList (attr s c)\<rparr>)"

definition push_all :: "(nat \<Rightarrow> string) \<Rightarrow> 's ControllerServer \<Rightarrow> MessageTypeCode \<Rightarrow> 'd \<Rightarrow> 'd outgoing list" where
  "push_all gen s t d = map (\<lambda>item. push item (gen item) t d) (jkeys (cs_registChannelMap s))"

definition updateNodeInfoToAllChannel :: "'d codec \<Rightarrow> (nat \<Rightarrow> string) \<Rightarrow> nat \<Rightarrow> 's ControllerServer \<Rightarrow> 'd outgoing list res" where
  "updateNodeInfoToAllChannel D gen c s = bindR (node_info s c) (\<lambda>i. Inr (push_all gen s NodeOnlineType (cd_of_nodeInfo D i)))"

definition sendAllChannelNodeOffline :: "'d codec \<Rightarrow> (nat \<Rightarrow> string) \<Rightarrow> nat \<Rightarrow> 's ControllerServer \<Rightarrow> 'd outgoing list res" where
  "sendAllChannelNodeOffline D gen c s = bindR (node_info s c) (\<lambda>i. Inr (push_all gen s NodeOfflineType (cd_of_nodeInfo D i)))"

section \<open>Handlers\<close>

definition getChannelSpace :: "'s data_service \<Rightarrow> string \<Rightarrow> 's ControllerServer \<Rightarrow> 's ControllerServer res" where
  "getChannelSpace S tenantId s =
     (case jget (cs_channelSpaceMap s) tenantId of
        Some _ \<Rightarrow> Inr s
      | None \<Rightarrow>
          if \<not> ds_hasTenant S (cs_service s) tenantId then Inl ProcessException
          else Inr (s\<lparr>cs_channelSpaceMap := jput tenantId [] (cs_channelSpaceMap s)\<rparr>))"

definition space_channel :: "'s ControllerServer \<Rightarrow> string \<Rightarrow> string \<Rightarrow> nat option" where
  "space_channel s tenantId vip = (case jget (cs_channelSpaceMap s) tenantId of None \<Rightarrow> None | Some space \<Rightarrow> jget space vip)"

definition upd_space :: "string \<Rightarrow> (ChannelSpace \<Rightarrow> ChannelSpace) \<Rightarrow> 's ControllerServer \<Rightarrow> 's ControllerServer" where
  "upd_space t f s =
     (case jget (cs_channelSpaceMap s) t of
        None \<Rightarrow> s
      | Some space \<Rightarrow> s\<lparr>cs_channelSpaceMap := jput t (f space) (cs_channelSpaceMap s)\<rparr>)"

text \<open>\<open>ChannelSpace.addChannel\<close>\<close>

definition addChannel :: "string \<Rightarrow> string \<Rightarrow> nat \<Rightarrow> 's ControllerServer \<Rightarrow> 's ControllerServer" where
  "addChannel t vip c s = upd_space t (jput vip c) (addListener c (RemoveFromSpace (t, vip)) s)"

definition processUpdateNodeInfo ::
    "'d codec \<Rightarrow> (nat \<Rightarrow> string) \<Rightarrow> nat \<Rightarrow> 'd Message \<Rightarrow> 's ControllerServer \<Rightarrow> 's ControllerServer \<times> 'd outgoing list" where
  "processUpdateNodeInfo D gen c msg s =
     (let failed = [reply c msg ConfigRespTpe (Some (cd_of_configResp D (config_code MC_SysError)))] in
      case cd_nodeInfoReq D (msg_data msg) of
        Inl e \<Rightarrow> (s, failed)
      | Inr req \<Rightarrow>
          (let s = set_attr c (\<lambda>a. a\<lparr>at_addressUriList := nr_addressUri req\<rparr>) s in
           case updateNodeInfoToAllChannel D gen c s of
             Inl e \<Rightarrow> (s, failed)
           | Inr ws \<Rightarrow> (s, ws)))"

definition config_resp :: "TenantConfig \<Rightarrow> ServerConfigResp res" where
  "config_resp t =
     bindR (atR (tc_stunServerList t) 0) (\<lambda>stun. bindR (atR (tc_relayServerList t) 0) (\<lambda>relay.
       Inr \<lparr>cr_code = MC_Success, cr_stunServers = tc_stunServerList t, cr_relayServers = tc_relayServerList t,
             cr_stunServer = stun, cr_relayServer = relay\<rparr>))"

definition processConfig :: "'s data_service \<Rightarrow> 'd codec \<Rightarrow> nat \<Rightarrow> 'd Message \<Rightarrow> 's ControllerServer \<Rightarrow> 'd outgoing list" where
  "processConfig S D c msg s =
     (let answer = (\<lambda>r. [reply c msg ConfigRespTpe (Some (cd_of_configResp D r))]) in
      case cd_configReq D (msg_data msg) of
        Inl e \<Rightarrow> answer (config_code MC_SysError)
      | Inr req \<Rightarrow>
          (case ds_getTenantConfig S (cs_service s) (cq_tenantId req) of
             None \<Rightarrow> answer (config_code MC_NotFound)
           | Some t \<Rightarrow> (case config_resp t of Inl e \<Rightarrow> answer (config_code MC_SysError) | Inr r \<Rightarrow> answer r)))"

text \<open>\<open>processP2pOffer\<close> and \<open>processP2pAnswer\<close>: the message goes to the channel of its destination.\<close>

definition relay_p2p ::
    "'s data_service \<Rightarrow> 'd codec \<Rightarrow> MessageTypeCode \<Rightarrow> (string \<times> string \<times> 'd) res \<Rightarrow> nat \<Rightarrow> 'd Message \<Rightarrow> 's ControllerServer \<Rightarrow>
     's ControllerServer \<times> 'd outgoing list" where
  "relay_p2p S D t parsed c msg s =
     (let failed = [reply c msg t (Some (cd_of_registResp D (regist_code MC_SysError)))] in
      case parsed of
        Inl e \<Rightarrow> (s, failed)
      | Inr (tenantId, dstVIP, d) \<Rightarrow>
          (case getChannelSpace S tenantId s of
             Inl e \<Rightarrow> (s, failed)
           | Inr s \<Rightarrow>
               (s, case space_channel s tenantId dstVIP of
                     None \<Rightarrow> []
                   | Some channel \<Rightarrow> [push channel (msg_reqId msg) t d])))"

definition processP2pOffer :: "'s data_service \<Rightarrow> 'd codec \<Rightarrow> nat \<Rightarrow> 'd Message \<Rightarrow> 's ControllerServer \<Rightarrow> 's ControllerServer \<times> 'd outgoing list" where
  "processP2pOffer S D c msg s =
     relay_p2p S D P2pOfferType
       (bindR (cd_offer D (msg_data msg)) (\<lambda>o'. Inr (po_tenantId o', po_dstVIP o', cd_of_offer D o'))) c msg s"

definition processP2pAnswer :: "'s data_service \<Rightarrow> 'd codec \<Rightarrow> nat \<Rightarrow> 'd Message \<Rightarrow> 's ControllerServer \<Rightarrow> 's ControllerServer \<times> 'd outgoing list" where
  "processP2pAnswer S D c msg s =
     relay_p2p S D P2pAnswerType
       (bindR (cd_answer D (msg_data msg)) (\<lambda>a. Inr (pa_tenantId a, pa_dstVIP a, cd_of_answer D a))) c msg s"

text \<open>Registration: the first request of a channel computes its entry, later ones find it.\<close>

definition compute_regist ::
    "'s data_service \<Rightarrow> nat \<Rightarrow> RegistReq \<Rightarrow> 's ControllerServer \<Rightarrow> 's ControllerServer \<times> NodeConfig res" where
  "compute_regist S c req s =
     (case jget (cs_registChannelMap s) c of
        Some nodeConfig \<Rightarrow> (s, Inr nodeConfig)
      | None \<Rightarrow>
          (let s = addListener c RemoveRegist s;
               (svc, l, r) = ds_assignNodeInfo S c req (cs_service s);
               s = (case l of None \<Rightarrow> s | Some k \<Rightarrow> addListener c (ServiceClose k) s)\<lparr>cs_service := svc\<rparr>
           in case r of
                Inl e \<Rightarrow> (s, Inl e)
              | Inr nodeConfig \<Rightarrow>
                  (let s = set_attr c (\<lambda>a. a\<lparr>at_vip := Some (nc_vip nodeConfig)\<rparr>) s;
                       s = addChannel (rq_tenantId req) (nc_vip nodeConfig) c s
                   in (s\<lparr>cs_registChannelMap := jput c nodeConfig (cs_registChannelMap s)\<rparr>, Inr nodeConfig))))"

definition regist_resp :: "TenantConfig option \<Rightarrow> NodeConfig \<Rightarrow> 's ControllerServer \<Rightarrow> RegistResp res" where
  "regist_resp tenantConfig nodeConfig s =
     bindR (mapR (node_info s) (jkeys (cs_registChannelMap s))) (\<lambda>nodes.
     bindR (nonnull tenantConfig) (\<lambda>t.
     bindR (buildRouteList (nc_routeConfigList nodeConfig)) (\<lambda>routes.
     bindR (buildVNATList (nc_vnatConfigList nodeConfig)) (\<lambda>vnats.
     bindR (resp_buildRouteRuleList (nc_routeRuleConfigList nodeConfig)) (\<lambda>rules.
       Inr \<lparr>rs_code = MC_Success, rs_vip = nc_vip nodeConfig, rs_maskBits = maskBits (tc_ipPool t),
             rs_nodeList = nodes, rs_routeList = routes, rs_vnatList = vnats, rs_routeRuleList = rules,
             rs_cidr = networkIdentifier (tc_ipPool t) @ ''/'' @ show_int (sint (maskBits (tc_ipPool t)))\<rparr>)))))"

text \<open>The answer to a failed registration; the code of a \<open>ProcessCodeException\<close> must be one of the enumeration.\<close>

definition regist_error :: "'d codec \<Rightarrow> nat \<Rightarrow> 'd Message \<Rightarrow> error \<Rightarrow> 'd outgoing list res" where
  "regist_error D c msg e =
     (let answer = (\<lambda>code. [reply c msg RegistRespType (Some (cd_of_registResp D (regist_code code)))]) in
      case e of
        ProcessCodeException n \<Rightarrow>
          (case MessageCode_forNumber n of None \<Rightarrow> Inl NullPointerException | Some code \<Rightarrow> Inr (answer code))
      | _ \<Rightarrow> Inr (answer MC_SysError))"

definition processRegist ::
    "'s data_service \<Rightarrow> 'd codec \<Rightarrow> (nat \<Rightarrow> string) \<Rightarrow> nat \<Rightarrow> 'd Message \<Rightarrow> 's ControllerServer \<Rightarrow>
     's ControllerServer \<times> 'd outgoing list res" where
  "processRegist S D gen c msg s =
     (case cd_registReq D (msg_data msg) of
        Inl e \<Rightarrow> (s, regist_error D c msg e)
      | Inr req \<Rightarrow>
     (case getChannelSpace S (rq_tenantId req) s of
        Inl e \<Rightarrow> (s, regist_error D c msg e)
      | Inr s \<Rightarrow>
     (let tenantConfig = ds_getTenantConfig S (cs_service s) (rq_tenantId req) in
      case compute_regist S c req s of
        (s, Inl e) \<Rightarrow> (s, regist_error D c msg e)
      | (s, Inr nodeConfig) \<Rightarrow>
     (let s = set_attr c (\<lambda>a. a\<lparr>at_tenantId := Some (rq_tenantId req), at_macAddress := Some (rq_macAddress req),
                                at_addressUriList := rq_addressUri req\<rparr>) s in
      case regist_resp tenantConfig nodeConfig s of
        Inl e \<Rightarrow> (s, regist_error D c msg e)
      | Inr resp \<Rightarrow>
     (let answer = reply c msg RegistRespType (Some (cd_of_registResp D resp)) in
      case updateNodeInfoToAllChannel D gen c s of
        Inl e \<Rightarrow> (s, bindR (regist_error D c msg e) (\<lambda>ws. Inr (answer # ws)))
      | Inr ws \<Rightarrow> (addListener c SendOffline s, Inr (answer # ws)))))))"

definition processMsg ::
    "'s data_service \<Rightarrow> 'd codec \<Rightarrow> (nat \<Rightarrow> string) \<Rightarrow> jlong \<Rightarrow> nat \<Rightarrow> 'd Message \<Rightarrow> 's ControllerServer \<Rightarrow>
     's ControllerServer \<times> 'd outgoing list res" where
  "processMsg S D gen now c msg s =
     (case msg_type msg of
        HeartType \<Rightarrow> (set_attr c (\<lambda>a. a\<lparr>at_lastHeartTime := Some now\<rparr>) s, Inr [reply c msg HeartType None])
      | UpdateNodeInfoType \<Rightarrow> map_prod id Inr (processUpdateNodeInfo D gen c msg s)
      | ConfigReqType \<Rightarrow> (s, Inr (processConfig S D c msg s))
      | RegistReqType \<Rightarrow> processRegist S D gen c msg s
      | P2pOfferType \<Rightarrow> map_prod id Inr (processP2pOffer S D c msg s)
      | P2pAnswerType \<Rightarrow> map_prod id Inr (processP2pAnswer S D c msg s)
      | _ \<Rightarrow> (s, Inr []))"

section \<open>Life cycle of channels, and the operations of the server\<close>

text \<open>\<open>shortId\<close> is Netty's short text of a channel's id.\<close>

definition channelActive :: "(nat \<Rightarrow> string) \<Rightarrow> jlong \<Rightarrow> nat \<Rightarrow> 's ControllerServer \<Rightarrow> 's ControllerServer" where
  "channelActive shortId now c s =
     (let s = upd_conn c (\<lambda>n. n\<lparr>cn_state := Active\<rparr>) s;
          s = set_attr c (\<lambda>a. a\<lparr>at_lastHeartTime := Some now\<rparr>) s;
          s = addListener c RemoveChannel s
      in s\<lparr>cs_channelMap := jput (shortId c) c (cs_channelMap s)\<rparr>)"

definition run_listener ::
    "'s data_service \<Rightarrow> 'd codec \<Rightarrow> (nat \<Rightarrow> string) \<Rightarrow> (nat \<Rightarrow> string) \<Rightarrow> nat \<Rightarrow> listener \<Rightarrow> 's ControllerServer \<Rightarrow>
     's ControllerServer \<times> 'd outgoing list" where
  "run_listener S D shortId gen c l s =
     (case l of
        RemoveChannel \<Rightarrow> (s\<lparr>cs_channelMap := jremove (shortId c) (cs_channelMap s)\<rparr>, [])
      | RemoveRegist \<Rightarrow> (s\<lparr>cs_registChannelMap := jremove c (cs_registChannelMap s)\<rparr>, [])
      | ServiceClose k \<Rightarrow> (s\<lparr>cs_service := ds_onClose S k (cs_service s)\<rparr>, [])
      | RemoveFromSpace (t, vip) \<Rightarrow> (upd_space t (jremove vip) s, [])
      | SendOffline \<Rightarrow> (s, case sendAllChannelNodeOffline D gen c s of Inl e \<Rightarrow> [] | Inr ws \<Rightarrow> ws))"

text \<open>The timer closes silent channels and forgets them; an exception skips the channel.\<close>

definition timer_entry :: "jlong \<Rightarrow> jlong \<Rightarrow> string \<times> nat \<Rightarrow> 's ControllerServer \<Rightarrow> 's ControllerServer" where
  "timer_entry heartTimeout now e s =
     (case at_lastHeartTime (attr s (snd e)) of
        None \<Rightarrow> s
      | Some lastTime \<Rightarrow>
          if sint heartTimeout < sint (now - lastTime)
          then (close (snd e) s)\<lparr>cs_channelMap := jremove (fst e) (cs_channelMap s)\<rparr> else s)"

definition controller_run :: "jlong \<Rightarrow> jlong \<Rightarrow> 's ControllerServer \<Rightarrow> 's ControllerServer" where
  "controller_run heartTimeout now s = fold (timer_entry heartTimeout now) (cs_channelMap s) s"

definition offlineChannel :: "string \<Rightarrow> string \<Rightarrow> 's ControllerServer \<Rightarrow> 's ControllerServer" where
  "offlineChannel t vip s = (case space_channel s t vip of None \<Rightarrow> s | Some c \<Rightarrow> close c s)"

definition offlineChannelList :: "string \<Rightarrow> 's ControllerServer \<Rightarrow> 's ControllerServer" where
  "offlineChannelList t s =
     (case jget (cs_channelSpaceMap s) t of None \<Rightarrow> s | Some space \<Rightarrow> fold close (jvalues space) s)"

definition getOnlineChannel :: "string \<Rightarrow> 's ControllerServer \<Rightarrow> nat" where
  "getOnlineChannel t s = (case jget (cs_channelSpaceMap s) t of None \<Rightarrow> 0 | Some space \<Rightarrow> length space)"

section \<open>Steps\<close>

datatype 'd event =
    Connect nat jlong
  | Read nat jlong "nat \<Rightarrow> string" "'d Message"
  | Disconnect nat
  | Listen nat "nat \<Rightarrow> string"
  | Timer jlong
  | Offline string string
  | OfflineAll string

definition enabled :: "'s ControllerServer \<Rightarrow> 'd event \<Rightarrow> bool" where
  "enabled s ev =
     (case ev of
        Connect c now \<Rightarrow> cn_state (cs_conns s c) = Idle
      | Read c now gen msg \<Rightarrow> cn_state (cs_conns s c) = Active
      | Disconnect c \<Rightarrow> cn_state (cs_conns s c) = Active
      | Listen c gen \<Rightarrow> cn_state (cs_conns s c) = Closed \<and> listeners s c \<noteq> []
      | _ \<Rightarrow> True)"

text \<open>An exception out of a handler reaches \<open>exceptionCaught\<close>, which closes the channel.\<close>

definition step ::
    "'s data_service \<Rightarrow> 'd codec \<Rightarrow> (nat \<Rightarrow> string) \<Rightarrow> jlong \<Rightarrow> 'd event \<Rightarrow> 's ControllerServer \<Rightarrow>
     's ControllerServer \<times> 'd outgoing list" where
  "step S D shortId T ev s =
     (case ev of
        Connect c now \<Rightarrow> (channelActive shortId now c s, [])
      | Read c now gen msg \<Rightarrow>
          (case processMsg S D gen now c msg s of (s, Inl e) \<Rightarrow> (close c s, []) | (s, Inr ws) \<Rightarrow> (s, ws))
      | Disconnect c \<Rightarrow> (close c s, [])
      | Listen c gen \<Rightarrow>
          run_listener S D shortId gen c (hd (listeners s c)) (upd_conn c (\<lambda>n. n\<lparr>cn_listeners := tl (cn_listeners n)\<rparr>) s)
      | Timer now \<Rightarrow> (controller_run T now s, [])
      | Offline t vip \<Rightarrow> (offlineChannel t vip s, [])
      | OfflineAll t \<Rightarrow> (offlineChannelList t s, []))"

inductive reached :: "'s data_service \<Rightarrow> 'd codec \<Rightarrow> (nat \<Rightarrow> string) \<Rightarrow> jlong \<Rightarrow> 's \<Rightarrow> 's ControllerServer \<Rightarrow> bool"
  for S :: "'s data_service" and D :: "'d codec" and shortId :: "nat \<Rightarrow> string" and T :: jlong and svc :: 's where
  reached_new: "reached S D shortId T svc (ControllerServer_new svc)"
| reached_step: "reached S D shortId T svc s \<Longrightarrow> enabled s ev \<Longrightarrow> reached S D shortId T svc (fst (step S D shortId T ev s))"

section \<open>Lemmas on the state\<close>

named_theorems ctl_simps \<open>the components of the state under the elementary operations\<close>

lemma upd_conn_simps [ctl_simps]:
  "cs_service (upd_conn c f s) = cs_service s" "cs_channelMap (upd_conn c f s) = cs_channelMap s"
  "cs_registChannelMap (upd_conn c f s) = cs_registChannelMap s" "cs_channelSpaceMap (upd_conn c f s) = cs_channelSpaceMap s"
  "cs_conns (upd_conn c f s) d = (if d = c then f (cs_conns s c) else cs_conns s d)"
  by (simp_all add: upd_conn_def)

lemma set_attr_simps [ctl_simps]:
  "cs_service (set_attr c f s) = cs_service s" "cs_channelMap (set_attr c f s) = cs_channelMap s"
  "cs_registChannelMap (set_attr c f s) = cs_registChannelMap s" "cs_channelSpaceMap (set_attr c f s) = cs_channelSpaceMap s"
  "cn_state (cs_conns (set_attr c f s) d) = cn_state (cs_conns s d)" "listeners (set_attr c f s) d = listeners s d"
  "attr (set_attr c f s) d = (if d = c then f (attr s c) else attr s d)"
  by (simp_all add: set_attr_def ctl_simps)

lemma addListener_simps [ctl_simps]:
  "cs_service (addListener c l s) = cs_service s" "cs_channelMap (addListener c l s) = cs_channelMap s"
  "cs_registChannelMap (addListener c l s) = cs_registChannelMap s" "cs_channelSpaceMap (addListener c l s) = cs_channelSpaceMap s"
  "cn_state (cs_conns (addListener c l s) d) = cn_state (cs_conns s d)" "attr (addListener c l s) d = attr s d"
  "listeners (addListener c l s) d = (if d = c then listeners s c @ [l] else listeners s d)"
  by (simp_all add: addListener_def ctl_simps)

lemma close_simps [ctl_simps]:
  "cs_service (close c s) = cs_service s" "cs_channelMap (close c s) = cs_channelMap s"
  "cs_registChannelMap (close c s) = cs_registChannelMap s" "cs_channelSpaceMap (close c s) = cs_channelSpaceMap s"
  "attr (close c s) d = attr s d" "listeners (close c s) d = listeners s d"
  "cn_state (cs_conns (close c s) d) = (if d = c \<and> cn_state (cs_conns s c) = Active then Closed else cn_state (cs_conns s d))"
  by (auto simp: close_def ctl_simps)

lemma upd_space_simps [ctl_simps]:
  "cs_service (upd_space t f s) = cs_service s" "cs_channelMap (upd_space t f s) = cs_channelMap s"
  "cs_registChannelMap (upd_space t f s) = cs_registChannelMap s" "cs_conns (upd_space t f s) = cs_conns s"
  "space_channel (upd_space t f s) t' v =
     (if t' = t then case jget (cs_channelSpaceMap s) t of None \<Rightarrow> None | Some space \<Rightarrow> jget (f space) v else space_channel s t' v)"
  by (auto simp: upd_space_def space_channel_def split: option.splits)

lemma space_channel_cong: "cs_channelSpaceMap s = cs_channelSpaceMap s' \<Longrightarrow> space_channel s = space_channel s'"
  by (simp add: space_channel_def fun_eq_iff)

fun service_keys :: "listener list \<Rightarrow> vip_key list" where
  "service_keys [] = []"
| "service_keys (ServiceClose k # ls) = k # service_keys ls"
| "service_keys (_ # ls) = service_keys ls"

text \<open>Before an address is given back, the registration is removed.\<close>

fun guarded :: "bool \<Rightarrow> listener list \<Rightarrow> bool" where
  "guarded g [] \<longleftrightarrow> True"
| "guarded g (ServiceClose k # ls) \<longleftrightarrow> g \<and> guarded g ls"
| "guarded g (RemoveRegist # ls) \<longleftrightarrow> guarded True ls"
| "guarded g (_ # ls) \<longleftrightarrow> guarded g ls"

lemma service_keys_append [simp]: "service_keys (xs @ ys) = service_keys xs @ service_keys ys"
  by (induction xs rule: service_keys.induct) simp_all

lemma set_service_keys: "k \<in> set (service_keys ls) \<longleftrightarrow> ServiceClose k \<in> set ls"
  by (induction ls rule: service_keys.induct) auto

lemma guarded_mono: "guarded g ls \<Longrightarrow> guarded True ls"
  by (induction g ls rule: guarded.induct) auto

lemma guarded_append: "guarded g xs \<Longrightarrow> RemoveRegist \<in> set xs \<or> g \<Longrightarrow> guarded True ys \<Longrightarrow> guarded g (xs @ ys)"
  by (induction g xs rule: guarded.induct) (auto intro: guarded_mono)

lemma guarded_snoc: "guarded g xs \<Longrightarrow> (\<forall>k. l \<noteq> ServiceClose k) \<Longrightarrow> guarded g (xs @ [l])"
  by (induction g xs rule: guarded.induct) (cases l; auto)+

lemma guarded_no_keys: "service_keys xs = [] \<Longrightarrow> guarded g xs"
  by (induction g xs rule: guarded.induct) auto

section \<open>The invariant\<close>

context vip_service
begin

definition ctl_inv :: "'s ControllerServer \<Rightarrow> bool" where
  "ctl_inv s \<longleftrightarrow>
     inv (cs_service s) \<and>
     (\<forall>k c. holder (cs_service s) k = Some c \<longleftrightarrow> ServiceClose k \<in> set (listeners s c)) \<and>
     (\<forall>c. length (service_keys (listeners s c)) \<le> 1) \<and>
     (\<forall>c nc. jget (cs_registChannelMap s) c = Some nc \<longrightarrow>
        (\<exists>t. ServiceClose (t, nc_vip nc) \<in> set (listeners s c)) \<and> guarded False (listeners s c) \<and>
        cn_state (cs_conns s c) \<noteq> Idle \<and> at_vip (attr s c) = Some (nc_vip nc)) \<and>
     (\<forall>c. jget (cs_registChannelMap s) c = None \<longrightarrow> cn_state (cs_conns s c) \<noteq> Closed \<longrightarrow> service_keys (listeners s c) = []) \<and>
     (\<forall>t v c. space_channel s t v = Some c \<longrightarrow> RemoveFromSpace (t, v) \<in> set (listeners s c)) \<and>
     (\<forall>c k. cn_state (cs_conns s c) = Active \<longrightarrow> RemoveFromSpace k \<in> set (listeners s c) \<longrightarrow> ServiceClose k \<in> set (listeners s c)) \<and>
     (\<forall>c. cn_state (cs_conns s c) = Idle \<longrightarrow> listeners s c = [])"

lemma ctl_invD:
  assumes "ctl_inv s"
  shows "inv (cs_service s)" "holder (cs_service s) k = Some c \<longleftrightarrow> ServiceClose k \<in> set (listeners s c)"
    "length (service_keys (listeners s c)) \<le> 1"
    "jget (cs_registChannelMap s) c = Some nc \<Longrightarrow> \<exists>t. ServiceClose (t, nc_vip nc) \<in> set (listeners s c)"
    "jget (cs_registChannelMap s) c = Some nc \<Longrightarrow> guarded False (listeners s c)"
    "jget (cs_registChannelMap s) c = Some nc \<Longrightarrow> cn_state (cs_conns s c) \<noteq> Idle"
    "jget (cs_registChannelMap s) c = Some nc \<Longrightarrow> at_vip (attr s c) = Some (nc_vip nc)"
    "jget (cs_registChannelMap s) c = None \<Longrightarrow> cn_state (cs_conns s c) \<noteq> Closed \<Longrightarrow> service_keys (listeners s c) = []"
    "space_channel s t v = Some c \<Longrightarrow> RemoveFromSpace (t, v) \<in> set (listeners s c)"
    "cn_state (cs_conns s c) = Active \<Longrightarrow> RemoveFromSpace k \<in> set (listeners s c) \<Longrightarrow> ServiceClose k \<in> set (listeners s c)"
    "cn_state (cs_conns s c) = Idle \<Longrightarrow> listeners s c = []"
  using assms unfolding ctl_inv_def by blast+

lemma ctl_invI:
  assumes "inv (cs_service s)" "\<And>k c. holder (cs_service s) k = Some c \<longleftrightarrow> ServiceClose k \<in> set (listeners s c)"
    "\<And>c. length (service_keys (listeners s c)) \<le> 1"
    "\<And>c nc. jget (cs_registChannelMap s) c = Some nc \<Longrightarrow> (\<exists>t. ServiceClose (t, nc_vip nc) \<in> set (listeners s c)) \<and>
       guarded False (listeners s c) \<and> cn_state (cs_conns s c) \<noteq> Idle \<and> at_vip (attr s c) = Some (nc_vip nc)"
    "\<And>c. jget (cs_registChannelMap s) c = None \<Longrightarrow> cn_state (cs_conns s c) \<noteq> Closed \<Longrightarrow> service_keys (listeners s c) = []"
    "\<And>t v c. space_channel s t v = Some c \<Longrightarrow> RemoveFromSpace (t, v) \<in> set (listeners s c)"
    "\<And>c k. cn_state (cs_conns s c) = Active \<Longrightarrow> RemoveFromSpace k \<in> set (listeners s c) \<Longrightarrow> ServiceClose k \<in> set (listeners s c)"
    "\<And>c. cn_state (cs_conns s c) = Idle \<Longrightarrow> listeners s c = []"
  shows "ctl_inv s"
  using assms unfolding ctl_inv_def by blast

lemma ctl_inv_set_attr:
  assumes i: "ctl_inv s" and f: "at_vip (f (attr s c)) = at_vip (attr s c)"
  shows "ctl_inv (set_attr c f s)"
proof (rule ctl_invI)
  have "space_channel (set_attr c f s) = space_channel s" by (rule space_channel_cong) (simp add: ctl_simps)
  then show "RemoveFromSpace (t, v) \<in> set (listeners (set_attr c f s) d)" if "space_channel (set_attr c f s) t v = Some d" for t v d
    using that ctl_invD(9) [OF i] by (simp add: ctl_simps)
qed (use ctl_invD [OF i] f in \<open>auto simp: ctl_simps\<close>)

lemma ctl_inv_addListener:
  assumes i: "ctl_inv s" and l: "l \<in> {RemoveChannel, RemoveRegist, SendOffline}" and c: "cn_state (cs_conns s c) \<noteq> Idle"
  shows "ctl_inv (addListener c l s)"
proof (rule ctl_invI)
  have n: "\<forall>k. l \<noteq> ServiceClose k" "\<forall>k. l \<noteq> RemoveFromSpace k" "service_keys [l] = []" using l by auto
  have "space_channel (addListener c l s) = space_channel s" by (rule space_channel_cong) (simp add: ctl_simps)
  then show "RemoveFromSpace (t, v) \<in> set (listeners (addListener c l s) d)" if "space_channel (addListener c l s) t v = Some d" for t v d
    using that ctl_invD(9) [OF i] by (auto simp: ctl_simps)
  show "(\<exists>t. ServiceClose (t, nc_vip nc) \<in> set (listeners (addListener c l s) d)) \<and> guarded False (listeners (addListener c l s) d) \<and>
      cn_state (cs_conns (addListener c l s) d) \<noteq> Idle \<and> at_vip (attr (addListener c l s) d) = Some (nc_vip nc)"
    if "jget (cs_registChannelMap (addListener c l s)) d = Some nc" for d nc
    using that ctl_invD(4,5,6,7) [OF i, of d nc] n by (auto simp: ctl_simps guarded_snoc)
qed (use ctl_invD [OF i] l c in \<open>auto simp: ctl_simps\<close>)

lemma ctl_inv_close: "ctl_inv s \<Longrightarrow> ctl_inv (close c s)"
proof (rule ctl_invI)
  assume i: "ctl_inv s"
  have "space_channel (close c s) = space_channel s" by (rule space_channel_cong) (simp add: ctl_simps)
  then show "RemoveFromSpace (t, v) \<in> set (listeners (close c s) d)" if "space_channel (close c s) t v = Some d" for t v d
    using that ctl_invD(9) [OF i] by (simp add: ctl_simps)
qed (auto simp: ctl_simps dest: ctl_invD split: if_splits)

lemma ctl_inv_channelMap: "ctl_inv s \<Longrightarrow> ctl_inv (s\<lparr>cs_channelMap := m\<rparr>)"
  by (simp add: ctl_inv_def space_channel_def)

lemma ctl_inv_getChannelSpace: "ctl_inv s \<Longrightarrow> getChannelSpace S t s = Inr s' \<Longrightarrow> ctl_inv s'"
  by (auto simp: getChannelSpace_def ctl_inv_def space_channel_def split: option.splits if_splits)

end

section \<open>The invariant is kept\<close>

context vip_service
begin

text \<open>
  A successful assignment in one step: the listeners of the registration, the service and the channel
  space, the address in the attributes, and the entries of the two maps.
\<close>

lemma ctl_inv_registered:
  assumes i: "ctl_inv s" and a: "cn_state (cs_conns s c) = Active" and u: "jget (cs_registChannelMap s) c = None"
    and r: "RemoveRegist \<in> set (listeners s c)"
    and d: "ds_assignNodeInfo S c req (cs_service s) = (svc, l, Inr nc)"
  shows "ctl_inv ((addChannel (rq_tenantId req) (nc_vip nc) c (set_attr c (\<lambda>a. a\<lparr>at_vip := Some (nc_vip nc)\<rparr>)
    (addListener c (ServiceClose (rq_tenantId req, nc_vip nc)) s\<lparr>cs_service := svc\<rparr>)))
      \<lparr>cs_registChannelMap := jput c nc (cs_registChannelMap s)\<rparr>)"
    (is "ctl_inv ?s'")
proof (rule ctl_invI)
  let ?k = "(rq_tenantId req, nc_vip nc)"
  have ok: "holder (cs_service s) ?k = None" "holder svc = (holder (cs_service s))(?k \<mapsto> c)"
    using assign_ok [OF ctl_invD(1) [OF i] d] by auto
  have m: "cs_service ?s' = svc" "listeners ?s' e = (if e = c then listeners s c @ [ServiceClose ?k, RemoveFromSpace ?k] else listeners s e)"
    "cn_state (cs_conns ?s' e) = cn_state (cs_conns s e)" "cs_registChannelMap ?s' = jput c nc (cs_registChannelMap s)"
    "at_vip (attr ?s' e) = (if e = c then Some (nc_vip nc) else at_vip (attr s e))" for e
    by (simp_all add: addChannel_def ctl_simps)
  have none: "service_keys (listeners s c) = []" using ctl_invD(8) [OF i u] a by simp
  then have nk: "ServiceClose k \<notin> set (listeners s c)" for k using set_service_keys [of k "listeners s c"] by simp
  show "inv (cs_service ?s')"
    using assign_inv [OF ctl_invD(1) [OF i], of c req] d by (simp add: m)
  show "holder (cs_service ?s') k = Some e \<longleftrightarrow> ServiceClose k \<in> set (listeners ?s' e)" for k e
    using ctl_invD(2) [OF i, of k e] ok nk [of k] unfolding m by auto
  show "length (service_keys (listeners ?s' e)) \<le> 1" for e
    using ctl_invD(3) [OF i, of e] none unfolding m by auto
  show "(\<exists>t. ServiceClose (t, nc_vip nc') \<in> set (listeners ?s' e)) \<and> guarded False (listeners ?s' e) \<and>
      cn_state (cs_conns ?s' e) \<noteq> Idle \<and> at_vip (attr ?s' e) = Some (nc_vip nc')"
    if "jget (cs_registChannelMap ?s') e = Some nc'" for e nc'
  proof (cases "e = c")
    case True
    have "guarded False (listeners s c @ [ServiceClose ?k, RemoveFromSpace ?k])"
      by (rule guarded_append) (use none r in \<open>auto intro: guarded_no_keys\<close>)
    then show ?thesis using that a True unfolding m by auto
  next
    case False
    then show ?thesis using that ctl_invD(4,5,6,7) [OF i, of e nc'] unfolding m by auto
  qed
  show "service_keys (listeners ?s' e) = []"
    if "jget (cs_registChannelMap ?s') e = None" "cn_state (cs_conns ?s' e) \<noteq> Closed" for e
    using that ctl_invD(8) [OF i, of e] unfolding m by (auto split: if_splits)
  show "RemoveFromSpace (t, v) \<in> set (listeners ?s' e)" if "space_channel ?s' t v = Some e" for t v e
  proof -
    have "space_channel ?s' t v = (if t = rq_tenantId req then
        case jget (cs_channelSpaceMap s) t of None \<Rightarrow> None | Some space \<Rightarrow> if v = nc_vip nc then Some c else jget space v
        else space_channel s t v)"
      by (simp add: addChannel_def space_channel_def upd_space_def ctl_simps split: option.splits)
    then show ?thesis
      using that ctl_invD(9) [OF i, of t v e] unfolding m by (auto simp: space_channel_def split: if_splits option.splits)
  qed
  show "ServiceClose k \<in> set (listeners ?s' e)"
    if "cn_state (cs_conns ?s' e) = Active" "RemoveFromSpace k \<in> set (listeners ?s' e)" for e k
    using that ctl_invD(10) [OF i, of e k] unfolding m by (auto split: if_splits)
  show "listeners ?s' e = []" if "cn_state (cs_conns ?s' e) = Idle" for e
    using that ctl_invD(11) [OF i, of e] a unfolding m by (auto split: if_splits)
qed

lemma ctl_inv_service:
  assumes "ctl_inv s" "inv svc" "holder svc = holder (cs_service s)"
  shows "ctl_inv (s\<lparr>cs_service := svc\<rparr>)"
  using assms by (simp add: ctl_inv_def space_channel_def)

lemma ctl_inv_compute:
  assumes i: "ctl_inv s" and a: "cn_state (cs_conns s c) = Active" and e: "compute_regist S c req s = (s', r)"
  shows "ctl_inv s' \<and> cn_state (cs_conns s' c) = Active"
proof (cases "jget (cs_registChannelMap s) c")
  case (Some nc)
  then show ?thesis using e i a by (simp add: compute_regist_def)
next
  case None
  let ?s1 = "addListener c RemoveRegist s"
  have i1: "ctl_inv ?s1" by (rule ctl_inv_addListener [OF i]) (use a in auto)
  have sv: "cs_service ?s1 = cs_service s" by (simp add: ctl_simps)
  obtain svc l q where d: "ds_assignNodeInfo S c req (cs_service s) = (svc, l, q)" by (cases "ds_assignNodeInfo S c req (cs_service s)")
  show ?thesis
  proof (cases q)
    case (Inl x)
    have h: "l = None" "holder svc = holder (cs_service s)" "inv svc"
      using assign_error [OF ctl_invD(1) [OF i] d [unfolded Inl]] assign_inv [OF ctl_invD(1) [OF i], of c req] d by auto
    have "s' = ?s1\<lparr>cs_service := svc\<rparr>" using e None d Inl h by (simp add: compute_regist_def ctl_simps)
    moreover have "ctl_inv (?s1\<lparr>cs_service := svc\<rparr>)" by (rule ctl_inv_service [OF i1]) (simp_all add: h sv)
    ultimately show ?thesis using a by (simp add: ctl_simps)
  next
    case (Inr nc)
    have l: "l = Some (rq_tenantId req, nc_vip nc)" using assign_ok [OF ctl_invD(1) [OF i] d [unfolded Inr]] by simp
    have "ctl_inv ((addChannel (rq_tenantId req) (nc_vip nc) c (set_attr c (\<lambda>a. a\<lparr>at_vip := Some (nc_vip nc)\<rparr>)
        (addListener c (ServiceClose (rq_tenantId req, nc_vip nc)) ?s1\<lparr>cs_service := svc\<rparr>)))
          \<lparr>cs_registChannelMap := jput c nc (cs_registChannelMap ?s1)\<rparr>)"
      by (rule ctl_inv_registered [OF i1]) (use a None d Inr sv in \<open>simp_all add: ctl_simps\<close>)
    moreover have "s' = (addChannel (rq_tenantId req) (nc_vip nc) c (set_attr c (\<lambda>a. a\<lparr>at_vip := Some (nc_vip nc)\<rparr>)
        (addListener c (ServiceClose (rq_tenantId req, nc_vip nc)) ?s1\<lparr>cs_service := svc\<rparr>)))
          \<lparr>cs_registChannelMap := jput c nc (cs_registChannelMap ?s1)\<rparr>"
      using e None d Inr l by (simp add: compute_regist_def Let_def addChannel_def ctl_simps)
    ultimately show ?thesis using a by (simp add: addChannel_def ctl_simps)
  qed
qed

lemma ctl_inv_regist:
  assumes i: "ctl_inv s" and a: "cn_state (cs_conns s c) = Active"
  shows "ctl_inv (fst (processRegist S D gen c msg s))"
proof (cases "cd_registReq D (msg_data msg)")
  case (Inl e)
  then show ?thesis using i by (simp add: processRegist_def)
next
  case req: (Inr req)
  show ?thesis
  proof (cases "getChannelSpace S (rq_tenantId req) s")
    case (Inl e)
    then show ?thesis using i req by (simp add: processRegist_def)
  next
    case s1: (Inr s1)
    have i1: "ctl_inv s1" "cn_state (cs_conns s1 c) = Active"
      using ctl_inv_getChannelSpace [OF i s1] s1 a by (auto simp: getChannelSpace_def split: option.splits if_splits)
    obtain s2 r where s2: "compute_regist S c req s1 = (s2, r)" by (cases "compute_regist S c req s1")
    note i2 = ctl_inv_compute [OF i1 s2]
    have i3: "ctl_inv (set_attr c (\<lambda>a. a\<lparr>at_tenantId := Some t, at_macAddress := Some m, at_addressUriList := us\<rparr>) s2)" for t m us
      by (rule ctl_inv_set_attr) (use i2 in auto)
    show ?thesis
      using i2 i3 by (auto simp: processRegist_def req s1 s2 Let_def ctl_simps split: sum.splits intro!: ctl_inv_addListener)
  qed
qed

lemma ctl_inv_msg:
  assumes i: "ctl_inv s" and a: "cn_state (cs_conns s c) = Active"
  shows "ctl_inv (fst (processMsg S D gen now c msg s))"
proof -
  have p: "ctl_inv (fst (relay_p2p S D t pr c msg s))" for t pr
    using i ctl_inv_getChannelSpace [OF i] by (auto simp: relay_p2p_def Let_def split: sum.splits prod.splits)
  have u: "ctl_inv (fst (processUpdateNodeInfo D gen c msg s))"
    using i by (auto simp: processUpdateNodeInfo_def Let_def split: sum.splits intro!: ctl_inv_set_attr)
  show ?thesis
    using ctl_inv_regist [OF i a] i p u
    by (cases "msg_type msg") (auto simp: processMsg_def processP2pOffer_def processP2pAnswer_def intro!: ctl_inv_set_attr)
qed

lemma ctl_inv_active: "ctl_inv s \<Longrightarrow> cn_state (cs_conns s c) = Idle \<Longrightarrow> ctl_inv (channelActive shortId now c s)"
proof -
  assume i: "ctl_inv s" and c: "cn_state (cs_conns s c) = Idle"
  let ?u = "upd_conn c (\<lambda>n. n\<lparr>cn_state := Active\<rparr>) s"
  have sp: "space_channel ?u = space_channel s" by (rule space_channel_cong) (simp add: ctl_simps)
  have u: "jget (cs_registChannelMap s) c = None"
    using ctl_invD(6) [OF i, of c] c by (cases "jget (cs_registChannelMap s) c") auto
  have "space_channel s t v \<noteq> Some c" for t v using ctl_invD(9) [OF i, of t v c] ctl_invD(11) [OF i c] by auto
  then have "ctl_inv ?u"
    by - (rule ctl_invI; use ctl_invD [OF i] c u in \<open>auto simp: ctl_simps sp\<close>)
  then show ?thesis
    by (auto simp: channelActive_def Let_def ctl_simps intro!: ctl_inv_channelMap ctl_inv_addListener ctl_inv_set_attr)
qed

end

context vip_service
begin

text \<open>One listener of a closed channel runs.\<close>

lemma ctl_inv_listen:
  assumes i: "ctl_inv s" and c: "cn_state (cs_conns s c) = Closed" and ls: "listeners s c = l # ls"
  shows "ctl_inv (fst (run_listener S D shortId gen c l (upd_conn c (\<lambda>n. n\<lparr>cn_listeners := tl (cn_listeners n)\<rparr>) s)))"
proof -
  let ?u = "upd_conn c (\<lambda>n. n\<lparr>cn_listeners := tl (cn_listeners n)\<rparr>) s"
  let ?s' = "fst (run_listener S D shortId gen c l ?u)"
  have one: "length (service_keys (l # ls)) \<le> 1" using ctl_invD(3) [OF i, of c] ls by simp
  have L: "listeners ?s' e = (if e = c then ls else listeners s e)" "cn_state (cs_conns ?s' e) = cn_state (cs_conns s e)"
    "attr ?s' e = attr s e" for e
    using ls by (auto simp: run_listener_def ctl_simps split: listener.splits)
  have V: "cs_service ?s' = (case l of ServiceClose k \<Rightarrow> ds_onClose S k (cs_service s) | _ \<Rightarrow> cs_service s)"
    "jget (cs_registChannelMap ?s') e = (if l = RemoveRegist \<and> e = c then None else jget (cs_registChannelMap s) e)" for e
    by (auto simp: run_listener_def ctl_simps split: listener.splits)
  have P: "space_channel ?s' t v = (if l = RemoveFromSpace (t, v) then None else space_channel s t v)" for t v
    by (auto simp: run_listener_def ctl_simps space_channel_def upd_space_def split: listener.splits option.splits)
  have nk: "ServiceClose k \<notin> set ls" if "l = ServiceClose k'" for k k'
    using one that set_service_keys [of k ls] by auto
  have g: "guarded False ls \<and> (\<forall>k. l \<noteq> ServiceClose k)" if "guarded False (l # ls)" "l \<noteq> RemoveRegist"
    using that by (cases l) auto
  show ?thesis
  proof (rule ctl_invI)
    show "inv (cs_service ?s')" using ctl_invD(1) [OF i] close_inv unfolding V by (auto split: listener.splits)
    show "holder (cs_service ?s') k = Some e \<longleftrightarrow> ServiceClose k \<in> set (listeners ?s' e)" for k e
    proof (cases "\<exists>k'. l = ServiceClose k'")
      case False
      then have v: "cs_service ?s' = cs_service s" unfolding V by (cases l) auto
      have "l \<noteq> ServiceClose k" using False by blast
      then show ?thesis using ctl_invD(2) [OF i, of k e] ls unfolding v L by auto
    next
      case True
      then obtain k' where ServiceClose: "l = ServiceClose k'" ..
      have "holder (cs_service s) k' = Some c" using ctl_invD(2) [OF i, of k' c] ls ServiceClose by simp
      then show ?thesis
        using ctl_invD(2) [OF i, of k e] ctl_invD(2) [OF i, of k' e] ls nk [OF ServiceClose, of k]
        unfolding V L by (auto simp: ServiceClose close_holder [OF ctl_invD(1) [OF i]])
    qed
    show "length (service_keys (listeners ?s' e)) \<le> 1" for e
      using ctl_invD(3) [OF i, of e] one unfolding L by (cases l) auto
    show "(\<exists>t. ServiceClose (t, nc_vip nc) \<in> set (listeners ?s' e)) \<and> guarded False (listeners ?s' e) \<and>
      cn_state (cs_conns ?s' e) \<noteq> Idle \<and> at_vip (attr ?s' e) = Some (nc_vip nc)"
      if "jget (cs_registChannelMap ?s') e = Some nc" for e nc
      using that ctl_invD(4,5,6,7) [OF i, of e nc] g ls unfolding V L by (auto split: if_splits)
    show "RemoveFromSpace (t, v) \<in> set (listeners ?s' e)" if "space_channel ?s' t v = Some e" for t v e
      using that ctl_invD(9) [OF i, of t v e] ls unfolding P L by (auto split: if_splits)
  qed (use ctl_invD [OF i] c ls in \<open>auto simp: V L split: if_splits\<close>)
qed

lemma ctl_inv_fold: "(\<And>x s. ctl_inv s \<Longrightarrow> ctl_inv (f x s)) \<Longrightarrow> ctl_inv s \<Longrightarrow> ctl_inv (fold f xs s)"
  by (induction xs arbitrary: s) simp_all

lemma ctl_inv_timer: "ctl_inv s \<Longrightarrow> ctl_inv (controller_run T now s)"
  unfolding controller_run_def
  by (rule ctl_inv_fold) (auto simp: timer_entry_def split: option.splits intro!: ctl_inv_channelMap ctl_inv_close)

lemma ctl_inv_step:
  assumes i: "ctl_inv s" and e: "enabled s ev"
  shows "ctl_inv (fst (step S D shortId T ev s))"
proof (cases ev)
  case (Read c now gen msg)
  then have "ctl_inv (fst (processMsg S D gen now c msg s))" using ctl_inv_msg [OF i] e by (simp add: enabled_def)
  then show ?thesis using Read by (auto simp: step_def ctl_inv_close split: prod.splits sum.splits)
next
  case (Listen c gen)
  then obtain l ls where "listeners s c = l # ls" "cn_state (cs_conns s c) = Closed"
    using e by (auto simp: enabled_def neq_Nil_conv)
  then show ?thesis using ctl_inv_listen [OF i] by (simp add: step_def Listen)
next
  case (Offline t v)
  then show ?thesis using i by (auto simp: step_def offlineChannel_def ctl_inv_close split: option.splits)
next
  case (OfflineAll t)
  then show ?thesis using i by (auto simp: step_def offlineChannelList_def split: option.splits intro: ctl_inv_fold ctl_inv_close)
qed (use i e in \<open>simp_all add: step_def enabled_def ctl_inv_active ctl_inv_close ctl_inv_timer\<close>)

lemma ctl_inv_new: "inv svc \<Longrightarrow> (\<And>k. holder svc k = None) \<Longrightarrow> ctl_inv (ControllerServer_new svc)"
  by (simp add: ctl_inv_def ControllerServer_new_def space_channel_def)

lemma ctl_inv_reached: "reached S D shortId T svc s \<Longrightarrow> inv svc \<Longrightarrow> (\<And>k. holder svc k = None) \<Longrightarrow> ctl_inv s"
  by (induction rule: reached.induct) (auto intro: ctl_inv_new ctl_inv_step)

text \<open>A registered channel holds its address, and only that one; a channel whose listeners have all run holds none.\<close>

lemma registered_holds:
  assumes i: "ctl_inv s" and r: "jget (cs_registChannelMap s) c = Some nc"
  shows "\<exists>!k. holder (cs_service s) k = Some c" and "holder (cs_service s) (t, v) = Some c \<Longrightarrow> v = nc_vip nc"
proof -
  obtain t0 where t0: "ServiceClose (t0, nc_vip nc) \<in> set (listeners s c)" using ctl_invD(4) [OF i r] by blast
  obtain k0 where k0: "service_keys (listeners s c) = [k0]"
    using ctl_invD(3) [OF i, of c] t0 set_service_keys [of "(t0, nc_vip nc)" "listeners s c"]
    by (cases "service_keys (listeners s c)") auto
  have k: "holder (cs_service s) k = Some c \<longleftrightarrow> k = (t0, nc_vip nc)" for k
  proof -
    have "ServiceClose k' \<in> set (listeners s c) \<longleftrightarrow> k' = k0" for k' using set_service_keys [of k' "listeners s c"] k0 by simp
    then show ?thesis using ctl_invD(2) [OF i, of k c] t0 by metis
  qed
  show "\<exists>!k. holder (cs_service s) k = Some c" by (rule ex1I [of _ "(t0, nc_vip nc)"]) (simp_all add: k)
  show "holder (cs_service s) (t, v) = Some c \<Longrightarrow> v = nc_vip nc" using k by auto
qed

lemma space_channel_holds:
  assumes "ctl_inv s" "space_channel s t v = Some c" "cn_state (cs_conns s c) = Active"
  shows "holder (cs_service s) (t, v) = Some c"
  using ctl_invD(2) [OF assms(1), of "(t, v)" c] ctl_invD(10) [OF assms(1,3) ctl_invD(9) [OF assms(1,2)]] by simp

end

section \<open>Registration with the configured service\<close>

lemma local_reached:
  assumes "LocalConfig_new pat cfg [] = Some (Inr svc)" and "reached local_service D shortId T svc s"
  shows "local_vips.ctl_inv s"
proof -
  have "lc_inv []" "\<And>k. lc_holder [] k = None" by (simp_all add: lc_inv_def lc_holder_def)
  then have "lc_inv svc" "\<And>k. lc_holder svc k = None" using LocalConfig_new_inv [OF assms(1)] by auto
  then show ?thesis by (rule local_vips.ctl_inv_reached [OF assms(2)])
qed


lemma node_info_Inr: "at_vip (attr s c) = Some v \<Longrightarrow> node_info s c = Inr \<lparr>ni_vip = v, ni_addressUri = at_addressUriList (attr s c)\<rparr>"
  by (simp add: node_info_def nonnull_def)

definition known_nodes :: "'s ControllerServer \<Rightarrow> NodeInfo list" where
  "known_nodes s = map (\<lambda>c. \<lparr>ni_vip = nc_vip (the (jget (cs_registChannelMap s) c)), ni_addressUri = at_addressUriList (attr s c)\<rparr>)
     (jkeys (cs_registChannelMap s))"

context vip_service
begin

lemma node_infos:
  assumes "ctl_inv s"
  shows "mapR (node_info (set_attr c (\<lambda>a. a\<lparr>at_tenantId := t, at_macAddress := m, at_addressUriList := us\<rparr>) s)) (jkeys (cs_registChannelMap s)) =
    Inr (known_nodes (set_attr c (\<lambda>a. a\<lparr>at_tenantId := t, at_macAddress := m, at_addressUriList := us\<rparr>) s))"
proof -
  let ?s = "set_attr c (\<lambda>a. a\<lparr>at_tenantId := t, at_macAddress := m, at_addressUriList := us\<rparr>) s"
  have i: "ctl_inv ?s" by (rule ctl_inv_set_attr) (use assms in auto)
  have "node_info ?s d = Inr \<lparr>ni_vip = nc_vip (the (jget (cs_registChannelMap ?s) d)), ni_addressUri = at_addressUriList (attr ?s d)\<rparr>"
    if d: "d \<in> set (jkeys (cs_registChannelMap s))" for d
  proof -
    obtain nc where nc: "jget (cs_registChannelMap ?s) d = Some nc"
      using d jget_keys [of "cs_registChannelMap s" d] by (auto simp: set_attr_simps(3))
    then show ?thesis using node_info_Inr [OF ctl_invD(7) [OF i nc]] by simp
  qed
  then have "mapR (node_info ?s) (jkeys (cs_registChannelMap s)) = Inr (map (\<lambda>d. \<lparr>ni_vip = nc_vip (the (jget (cs_registChannelMap ?s) d)),
      ni_addressUri = at_addressUriList (attr ?s d)\<rparr>) (jkeys (cs_registChannelMap s)))"
    by (rule mapR_Inr_all)
  then show ?thesis by (simp add: known_nodes_def set_attr_simps(3))
qed

end



lemma regist_error_code [simp]:
  "regist_error D c msg (ProcessCodeException (MessageCode_number code)) =
     Inr [reply c msg RegistRespType (Some (cd_of_registResp D (regist_code code)))]"
  "regist_error D c msg NullPointerException = Inr [reply c msg RegistRespType (Some (cd_of_registResp D (regist_code MC_SysError)))]"
  "regist_error D c msg ProcessException = Inr [reply c msg RegistRespType (Some (cd_of_registResp D (regist_code MC_SysError)))]"
  by (cases code) (simp_all add: regist_error_def MessageCode_forNumber_def)

text \<open>The state after a registration that got an address.\<close>

definition local_registered :: "nat \<Rightarrow> RegistReq \<Rightarrow> TenantSpace \<Rightarrow> NodeConfig \<Rightarrow> LocalConfig ControllerServer \<Rightarrow> LocalConfig ControllerServer" where
  "local_registered c req space' nc s =
     (addChannel (rq_tenantId req) (nc_vip nc) c (set_attr c (\<lambda>a. a\<lparr>at_vip := Some (nc_vip nc)\<rparr>)
        (addListener c (ServiceClose (rq_tenantId req, nc_vip nc)) (addListener c RemoveRegist s)
          \<lparr>cs_service := jput (rq_tenantId req) space' (cs_service s)\<rparr>)))
     \<lparr>cs_registChannelMap := jput c nc (cs_registChannelMap s)\<rparr>"



lemma local_registered_simps [simp]:
  "cs_service (local_registered c req space' nc s) = jput (rq_tenantId req) space' (cs_service s)"
  "cs_registChannelMap (local_registered c req space' nc s) = jput c nc (cs_registChannelMap s)"
  "at_vip (attr (local_registered c req space' nc s) c) = Some (nc_vip nc)"
  by (simp_all add: local_registered_def addChannel_def ctl_simps)










text \<open>
  Specification of what an offer or answer brings, given what the parser reads from it: a message that cannot be
  parsed, or whose tenant is unknown, is answered to its sender; any other is pushed, with the id it came with, to the
  channel the space of its tenant has for the destination, which is the holder of the destination's
  address or a closed channel, and to nobody where the space has none.
\<close>

definition p2p_passed ::
    "'d codec \<Rightarrow> LocalConfig ControllerServer \<Rightarrow> MessageTypeCode \<Rightarrow> (string \<times> string \<times> 'd) option \<Rightarrow> nat \<Rightarrow> 'd Message \<Rightarrow>
     'd outgoing list \<Rightarrow> bool" where
  "p2p_passed D s ty parsed c msg outs \<longleftrightarrow>
     (case parsed of
        None \<Rightarrow> outs = [reply c msg ty (Some (cd_of_registResp D (regist_code MC_SysError)))]
      | Some (t, v, d) \<Rightarrow>
          if jget (cs_channelSpaceMap s) t = None \<and> jget (cs_service s) t = None
          then outs = [reply c msg ty (Some (cd_of_registResp D (regist_code MC_SysError)))]
          else case space_channel s t v of
                 None \<Rightarrow> outs = []
               | Some e \<Rightarrow> outs = [push e (msg_reqId msg) ty d] \<and>
                   (cn_state (cs_conns s e) = Closed \<or> lc_holder (cs_service s) (t, v) = Some e))"

lemma relay_p2p_passed:
  assumes "\<And>t v e. space_channel s t v = Some e \<Longrightarrow> cn_state (cs_conns s e) = Closed \<or> lc_holder (cs_service s) (t, v) = Some e"
    and "parsed' = (case parsed of Inl e \<Rightarrow> None | Inr p \<Rightarrow> Some p)"
  shows "p2p_passed D s ty parsed' c msg (snd (relay_p2p local_service D ty parsed c msg s))"
proof (cases parsed)
  case (Inr p)
  obtain t v d where p: "p = (t, v, d)" by (cases p)
  have new: "space_channel (s\<lparr>cs_channelSpaceMap := jput t [] (cs_channelSpaceMap s)\<rparr>) t v = None" by (simp add: space_channel_def)
  have old: "space_channel s t v = None" if "jget (cs_channelSpaceMap s) t = None" using that by (simp add: space_channel_def)
  show ?thesis unfolding assms(2) Inr p
    using assms(1) [of t v] new old
    by (auto simp: relay_p2p_def p2p_passed_def getChannelSpace_def local_service_def lc_hasTenant_def split: option.splits)
qed (simp add: relay_p2p_def p2p_passed_def assms(2))

section \<open>Properties\<close>

text \<open>
  C1: Addresses are exclusive, and offers and answers go to no one else, however the handlers, the timer and the
  listeners of closing channels interleave (service of the configuration file). A registered channel holds exactly one address, the
  one in its entry and its attributes; two registered channels never hold the same address of a
  tenant; a channel that the channel space of a tenant gives for an address holds the address unless it is already
  closed; an offer or answer read in such a state is written, unchanged and under its id, to that channel and to no other, or to
  none where the space has no channel, and one that cannot be parsed or names an unknown tenant is answered to its
  sender; and a closed channel whose listeners have run has left no trace: no address, no entry. That the space has no channel can
  also be when the address has an open holder (\<open>controller_rebound_lost\<close>): the messages to it are then dropped.
\<close>

theorem controller_vip_exclusive:
  assumes "LocalConfig_new pat cfg [] = Some (Inr svc)" and "reached local_service D shortId T svc s"
  shows "(\<forall>c nc. jget (cs_registChannelMap s) c = Some nc \<longrightarrow>
       (\<exists>!k. lc_holder (cs_service s) k = Some c) \<and> (\<exists>t. lc_holder (cs_service s) (t, nc_vip nc) = Some c) \<and>
       at_vip (attr s c) = Some (nc_vip nc)) \<and>
     (\<forall>c c' nc nc' t v v'. jget (cs_registChannelMap s) c = Some nc \<longrightarrow> jget (cs_registChannelMap s) c' = Some nc' \<longrightarrow>
       lc_holder (cs_service s) (t, v) = Some c \<longrightarrow> lc_holder (cs_service s) (t, v') = Some c' \<longrightarrow> c \<noteq> c' \<longrightarrow>
       nc_vip nc \<noteq> nc_vip nc') \<and>
     (\<forall>t v c. space_channel s t v = Some c \<longrightarrow> cn_state (cs_conns s c) = Closed \<or> lc_holder (cs_service s) (t, v) = Some c) \<and>
     (\<forall>c msg. p2p_passed D s P2pOfferType
         (case cd_offer D (msg_data msg) of Inl e \<Rightarrow> None | Inr p \<Rightarrow> Some (po_tenantId p, po_dstVIP p, cd_of_offer D p)) c msg
         (snd (processP2pOffer local_service D c msg s))) \<and>
     (\<forall>c msg. p2p_passed D s P2pAnswerType
         (case cd_answer D (msg_data msg) of Inl e \<Rightarrow> None | Inr p \<Rightarrow> Some (pa_tenantId p, pa_dstVIP p, cd_of_answer D p)) c msg
         (snd (processP2pAnswer local_service D c msg s))) \<and>
     (\<forall>c. cn_state (cs_conns s c) = Closed \<longrightarrow> listeners s c = [] \<longrightarrow>
       jget (cs_registChannelMap s) c = None \<and> (\<forall>k. lc_holder (cs_service s) k \<noteq> Some c) \<and> (\<forall>t v. space_channel s t v \<noteq> Some c))"
proof -
  note i = local_reached [OF assms]
  note I = local_vips.ctl_invD [OF i]
  have hold: "v = nc_vip nc" if "jget (cs_registChannelMap s) c = Some nc" "lc_holder (cs_service s) (t, v) = Some c" for c nc t v
    using local_vips.registered_holds(2) [OF i that] .
  have space: "cn_state (cs_conns s c) = Closed \<or> lc_holder (cs_service s) (t, v) = Some c" if sp: "space_channel s t v = Some c" for t v c
    using local_vips.space_channel_holds [OF i sp] I(9) [OF sp] I(11) [of c] by (cases "cn_state (cs_conns s c)") auto
  moreover have "p2p_passed D s P2pOfferType
      (case cd_offer D (msg_data msg) of Inl e \<Rightarrow> None | Inr p \<Rightarrow> Some (po_tenantId p, po_dstVIP p, cd_of_offer D p)) c msg
      (snd (processP2pOffer local_service D c msg s))" for c msg
    unfolding processP2pOffer_def by (rule relay_p2p_passed [OF space]) (auto split: sum.splits)
  moreover have "p2p_passed D s P2pAnswerType
      (case cd_answer D (msg_data msg) of Inl e \<Rightarrow> None | Inr p \<Rightarrow> Some (pa_tenantId p, pa_dstVIP p, cd_of_answer D p)) c msg
      (snd (processP2pAnswer local_service D c msg s))" for c msg
    unfolding processP2pAnswer_def by (rule relay_p2p_passed [OF space]) (auto split: sum.splits)
  moreover have "jget (cs_registChannelMap s) c = None \<and> (\<forall>k. lc_holder (cs_service s) k \<noteq> Some c) \<and> (\<forall>t v. space_channel s t v \<noteq> Some c)"
    if "listeners s c = []" for c
    using I(2) [of _ c] I(4) [of c] I(9) [of _ _ c] that by (cases "jget (cs_registChannelMap s) c") auto
  moreover have "(\<exists>!k. lc_holder (cs_service s) k = Some c) \<and> (\<exists>t. lc_holder (cs_service s) (t, nc_vip nc) = Some c) \<and>
      at_vip (attr s c) = Some (nc_vip nc)" if r: "jget (cs_registChannelMap s) c = Some nc" for c nc
    using local_vips.registered_holds(1) [OF i r] I(2) I(4) [OF r] I(7) [OF r] by blast
  moreover have "nc_vip nc \<noteq> nc_vip nc'"
    if "jget (cs_registChannelMap s) c = Some nc" "jget (cs_registChannelMap s) c' = Some nc'"
      "lc_holder (cs_service s) (t, v) = Some c" "lc_holder (cs_service s) (t, v') = Some c'" "c \<noteq> c'" for c c' nc nc' t v v'
    using hold [OF that(1,3)] hold [OF that(2,4)] that(3,4,5) by auto
  ultimately show ?thesis by blast
qed


section \<open>A small controller\<close>

text \<open>One tenant with the addresses of a \<open>/30\<close> block, of which one can be assigned.\<close>

definition sample_entry :: TenantEntry where
  "sample_entry = \<lparr>te_stunServerList = [''s''], te_relayServerList = [''r''], te_vipCidr = quad_str 10 0 0 0 @ ''/'' @ show_nat 30,
     te_fixedVipList = [], te_routeList = [], te_routeRuleList = [], te_vnatList = []\<rparr>"

definition sample_space :: "nat option \<Rightarrow> TenantSpace" where
  "sample_space r = \<lparr>ts_stunServerList = [''s''], ts_relayServerList = [''r''], ts_ipPool = cidr_of (quad_nat 10 0 0 0) 30,
     ts_fixedVipMap = [], ts_routeList = [], ts_routeRuleList = [], ts_vnatList = [], ts_bindIPMap = [(quad_str 10 0 0 2, r)]\<rparr>"

lemma sample_config: "LocalConfig_new isIPv4 [(''t'', sample_entry)] [] = Some (Inr [(''t'', sample_space None)])"
proof -
  have b: "block_of 30 (quad_nat 10 0 0 0) = quad_nat 10 0 0 0" by (simp add: block_of_def quad_nat_def)
  have blk: "is_block (quad_nat 10 0 0 0) 30" using b by (simp add: is_block_def) (simp add: quad_nat_def)
  have p: "parseCidr isIPv4 (te_vipCidr sample_entry) = Inr (cidr_of (quad_nat 10 0 0 0) 30)"
    using ipv4_pattern.parseCidr_text [OF own_pattern.ipv4_pattern_axioms, of 10 0 0 0 30] b by (simp add: sample_entry_def)
  have q: "int2ip (of_nat (quad_nat 10 0 0 k)) = quad_str 10 0 0 k" if "k < 256" for k using that int2ip_quad_nat [of 10 0 0 k] by simp
  have u: "[0 :: nat..<2 ^ (32 - 30)] = [0, 1, 2, 3]" by (simp add: upt_rec)
  have n: "quad_nat 10 0 0 0 + k = quad_nat 10 0 0 k" for k by (simp add: quad_nat_def)
  have ips: "block_ips (quad_nat 10 0 0 0) 30 = [quad_str 10 0 0 0, quad_str 10 0 0 1, quad_str 10 0 0 2, quad_str 10 0 0 3]"
    unfolding block_ips_def u by (simp add: n q)
  have c: "networkIdentifier (cidr_of (quad_nat 10 0 0 0) 30) = quad_str 10 0 0 0" "gatewayAddress (cidr_of (quad_nat 10 0 0 0) 30) = quad_str 10 0 0 1"
    "broadcastAddress (cidr_of (quad_nat 10 0 0 0) 30) = quad_str 10 0 0 3"
    "maskAddress (cidr_of (quad_nat 10 0 0 0) 30) = mask_text 30"
    using q [of 0] q [of 1] q [of 3] by (simp_all add: cidr_of_def quad_nat_def)
  have "quad_str 10 0 0 0 \<noteq> quad_str 10 0 0 2" "quad_str 10 0 0 1 \<noteq> quad_str 10 0 0 2" "quad_str 10 0 0 3 \<noteq> quad_str 10 0 0 2" "mask_text 30 \<noteq> quad_str 10 0 0 2"
  proof -
    have i: "ip_num (quad_str 10 0 0 k) = quad_nat 10 0 0 k" if "k < 256" for k using that by (simp add: ip_num_quad_str)
    have m: "ip_num (mask_text 30) = 2 ^ 32 - 2 ^ 2" unfolding mask_text_def by (simp add: ip_num_int2ip del: of_nat_numeral)
    show "quad_str 10 0 0 0 \<noteq> quad_str 10 0 0 2" "quad_str 10 0 0 1 \<noteq> quad_str 10 0 0 2" "quad_str 10 0 0 3 \<noteq> quad_str 10 0 0 2" "mask_text 30 \<noteq> quad_str 10 0 0 2"
      by (rule notI, drule arg_cong [where f = ip_num], simp add: i m quad_nat_def)+
  qed
  then have "availableIpList (cidr_of (quad_nat 10 0 0 0) 30) = Inr (Some [quad_str 10 0 0 2])"
    unfolding availableIpList_cidr_of [OF blk] ips using c by (simp add: isAvailableIp_iff eq_commute)
  then have "tenant_space isIPv4 sample_entry = Some (Inr (sample_space None))"
    using p by (simp add: tenant_space_def) (simp add: sample_entry_def sample_space_def)
  then show ?thesis by simp
qed


text \<open>A codec over the unit type, for runs with one request and one offer.\<close>

definition sample_offer :: P2pOffer where
  "sample_offer = \<lparr>po_tenantId = ''t'', po_srcVIP = [], po_dstVIP = quad_str 10 0 0 2, po_addressUri = [], po_publicKey = []\<rparr>"

definition sample_codec :: "RegistReq \<Rightarrow> unit codec" where
  "sample_codec req = \<lparr>cd_nodeInfoReq = (\<lambda>_. Inl InvalidProtocolBufferException), cd_configReq = (\<lambda>_. Inl InvalidProtocolBufferException),
     cd_registReq = (\<lambda>_. Inr req), cd_offer = (\<lambda>_. Inr sample_offer), cd_answer = (\<lambda>_. Inl InvalidProtocolBufferException),
     cd_of_nodeInfo = (\<lambda>_. ()), cd_of_configResp = (\<lambda>_. ()), cd_of_registResp = (\<lambda>_. ()), cd_of_offer = (\<lambda>_. ()), cd_of_answer = (\<lambda>_. ())\<rparr>"

definition sample_req :: RegistReq where
  "sample_req = \<lparr>rq_tenantId = ''t'', rq_nodeType = MeshType, rq_macAddress = ''m'', rq_addressUri = [''u''], rq_os = [], rq_osVersion = [],
     rq_nodeVersion = [], rq_mesh = True\<rparr>"

definition sample_message :: "unit Message" where
  "sample_message = \<lparr>msg_reqId = ''q'', msg_mode = ReqResp, msg_type = RegistReqType, msg_data = ()\<rparr>"

fun run :: "unit event list \<Rightarrow> LocalConfig ControllerServer \<Rightarrow> LocalConfig ControllerServer option" where
  "run [] s = Some s"
| "run (ev # evs) s =
     (if enabled s ev then run evs (fst (step local_service (sample_codec sample_req) (\<lambda>_. ''id'') 30000 ev s)) else None)"

lemma run_reached:
  "reached local_service (sample_codec sample_req) (\<lambda>_. ''id'') 30000 svc s \<Longrightarrow> run evs s = Some s' \<Longrightarrow>
   reached local_service (sample_codec sample_req) (\<lambda>_. ''id'') 30000 svc s'"
proof (induction evs arbitrary: s)
  case (Cons ev evs)
  then show ?case using reached_step [OF Cons.prems(1), of ev] by (auto split: if_splits)
qed simp

definition sample_start :: "LocalConfig ControllerServer" where
  "sample_start = ControllerServer_new [(''t'', sample_space None)]"

lemmas ctl_run = sample_start_def ControllerServer_new_def enabled_def step_def channelActive_def upd_conn_def set_attr_def addListener_def
  processMsg_def processRegist_def sample_message_def sample_codec_def sample_req_def getChannelSpace_def local_service_def lc_hasTenant_def
  jget_def compute_regist_def lc_assignNodeInfo_def assignVip_def sample_space_def addChannel_def upd_space_def lc_getTenantConfig_def
  regist_resp_def node_info_def nonnull_def jkeys_def buildRouteList_def buildVNATList_def resp_buildRouteRuleList_def updateNodeInfoToAllChannel_def
  attributes_new_def close_def run_listener_def lc_onClose_def jremove_def sendAllChannelNodeOffline_def Let_def

text \<open>
  The listeners of a closed channel take back more than the channel's own: while they run, the address can go to
  another channel, whose entry in the channel space is then removed. That channel is open and registered, and
  offers to its address are dropped.
\<close>

definition rebound_events :: "unit event list" where
  "rebound_events = [Connect 1 0, Connect 2 0, Read 1 5 (\<lambda>_. ''g'') sample_message, Disconnect 1, Listen 1 (\<lambda>_. ''g''),
     Listen 1 (\<lambda>_. ''g''), Listen 1 (\<lambda>_. ''g''), Read 2 6 (\<lambda>_. ''g'') sample_message, Listen 1 (\<lambda>_. ''g'')]"

lemma controller_rebound_lost:
  "\<exists>s nc. run rebound_events sample_start = Some s \<and> jget (cs_registChannelMap s) 2 = Some nc \<and> nc_vip nc = quad_str 10 0 0 2 \<and>
    cn_state (cs_conns s 2) = Active \<and> lc_holder (cs_service s) (''t'', quad_str 10 0 0 2) = Some 2 \<and>
    space_channel s ''t'' (quad_str 10 0 0 2) = None"
  by (simp add: rebound_events_def ctl_run lc_holder_def space_channel_def)

text \<open>One node registers, another sends it an offer.\<close>

definition offer_events :: "unit event list" where
  "offer_events = [Connect 1 0, Connect 2 0, Read 1 5 (\<lambda>_. ''g'') sample_message]"

lemma offer_run:
  "\<exists>s nc. run offer_events sample_start = Some s \<and> jget (cs_registChannelMap s) 1 = Some nc \<and>
    space_channel s ''t'' (quad_str 10 0 0 2) = Some 1"
  by (simp add: offer_events_def ctl_run space_channel_def)

lemma controller_vip_exclusive_witness:
  "\<exists>s. run offer_events sample_start = Some s \<and> (\<exists>!k. lc_holder (cs_service s) k = Some 1) \<and>
    snd (processP2pOffer local_service (sample_codec sample_req) 2 (sample_message\<lparr>msg_type := P2pOfferType\<rparr>) s) =
      [push 1 ''q'' P2pOfferType ()]"
proof -
  let ?D = "sample_codec sample_req" and ?m = "sample_message\<lparr>msg_type := P2pOfferType\<rparr>"
  obtain s nc where s: "run offer_events sample_start = Some s" "jget (cs_registChannelMap s) 1 = Some nc"
    "space_channel s ''t'' (quad_str 10 0 0 2) = Some 1"
    using offer_run by blast
  have "reached local_service ?D (\<lambda>_. ''id'') 30000 [(''t'', sample_space None)] s"
    by (rule run_reached [OF _ s(1)]) (simp add: sample_start_def reached_new)
  note all = controller_vip_exclusive [OF sample_config this]
  have "jget (cs_channelSpaceMap s) ''t'' \<noteq> None" using s(3) by (auto simp: space_channel_def split: option.splits)
  moreover have "p2p_passed ?D s P2pOfferType (Some (''t'', quad_str 10 0 0 2, ())) 2 ?m (snd (processP2pOffer local_service ?D 2 ?m s))"
    using spec [OF spec [OF conjunct1 [OF conjunct2 [OF conjunct2 [OF conjunct2 [OF all]]]]], of ?m 2]
    by (simp add: sample_codec_def sample_offer_def)
  ultimately have "snd (processP2pOffer local_service ?D 2 ?m s) = [push 1 ''q'' P2pOfferType ()]"
    using s(3) by (auto simp: p2p_passed_def sample_message_def)
  with s(1) conjunct1 [OF mp [OF spec [OF spec [OF conjunct1 [OF all]]] s(2)]] show ?thesis by (intro exI conjI)
qed


end
