(* ===== verification/ConsoleDb.thy ===== *)
theory ConsoleDb
  imports RouteRules
begin

text \<open>
  The database of the controller's console: the tables of \<open>init-derby-schema.sql\<close> as lists of rows in the order
  the database returns them, and the statements that the repositories of \<open>server.repository\<close> issue. The
  interceptor of MyBatis-Plus adds the tenant of the thread to every statement on a table of tenant data, so
  those statements take the tenant as an argument; identities are drawn from a counter of the table and are
  never used twice. A statement that fails, and every operation that throws, leaves the database as it was: the
  services are transactional, so an operation here returns either an error or the new database. The null that a
  column may hold, or a request may carry, is an option; the lengths of columns are not modelled.
\<close>

section \<open>Rows\<close>

record base_row =
  r_id :: nat

record tenant_row = base_row +
  r_tenant :: nat

record TenantRow = base_row +
  tn_name :: string
  tn_description :: "string option"
  tn_code :: string
  tn_cidr :: string
  tn_stunServerList :: "string list"
  tn_relayServerList :: "string list"
  tn_enable :: bool
  tn_ipIndex :: jint
  tn_accountId :: nat
  tn_nodeGrant :: bool

record AccountRow = base_row +
  ac_username :: string
  ac_password :: string
  ac_role :: string

record NodeRow = tenant_row +
  n_name :: "string option"
  n_description :: "string option"
  n_mac :: string
  n_vip :: "string option"
  n_os :: "string option"
  n_osVersion :: "string option"
  n_nodeVersion :: "string option"
  n_mesh :: bool
  n_enable :: bool

record VipRow = tenant_row +
  p_vip :: string
  p_used :: bool

record GroupRow = tenant_row +
  g_name :: string
  g_description :: "string option"
  g_default :: bool

record RouteRow = tenant_row +
  ro_name :: string
  ro_description :: "string option"
  ro_destination :: "string option"
  ro_enable :: bool

record RouteRuleRow = tenant_row +
  ru_name :: string
  ru_description :: "string option"
  ru_strategy :: RouteRuleStrategyEnum
  ru_direction :: RouteRuleDirectionEnum
  ru_ruleList :: "string list"
  ru_level :: jint
  ru_enable :: bool

record VNATRow = tenant_row +
  va_name :: string
  va_description :: "string option"
  va_srcCidr :: string
  va_dstCidr :: string
  va_enable :: bool

text \<open>The rows that tie two others together: a group and its member, a route and its node, and so on.\<close>

record GroupMemberRow = tenant_row +
  gm_groupId :: nat
  gm_memberId :: nat

record GroupRouteRow = tenant_row +
  gr_groupId :: nat
  gr_routeId :: nat

record GroupRouteRuleRow = tenant_row +
  gu_groupId :: nat
  gu_ruleId :: nat

record GroupVNATRow = tenant_row +
  gv_groupId :: nat
  gv_vnatId :: nat

record RouteNodeItemRow = tenant_row +
  ri_routeId :: nat
  ri_nodeId :: nat

record VNATNodeItemRow = tenant_row +
  vi_vnatId :: nat
  vi_nodeId :: nat

record 'r tab =
  t_rows :: "'r list"
  t_next :: nat

record Db =
  d_account :: "AccountRow tab"
  d_tenant :: "TenantRow tab"
  d_node :: "NodeRow tab"
  d_vip_pool :: "VipRow tab"
  d_group :: "GroupRow tab"
  d_group_member :: "GroupMemberRow tab"
  d_group_route :: "GroupRouteRow tab"
  d_group_rule :: "GroupRouteRuleRow tab"
  d_group_vnat :: "GroupVNATRow tab"
  d_route :: "RouteRow tab"
  d_route_node_item :: "RouteNodeItemRow tab"
  d_route_rule :: "RouteRuleRow tab"
  d_vnat :: "VNATRow tab"
  d_vnat_node_item :: "VNATNodeItemRow tab"

section \<open>Statements\<close>

text \<open>\<open>list\<close>, \<open>count\<close> and \<open>one\<close> of a query; \<open>one\<close> refuses a second row.\<close>

definition t_list :: "('r \<Rightarrow> bool) \<Rightarrow> 'r tab \<Rightarrow> 'r list" where
  "t_list p T = filter p (t_rows T)"

definition t_count :: "('r \<Rightarrow> bool) \<Rightarrow> 'r tab \<Rightarrow> nat" where
  "t_count p T = length (t_list p T)"

definition t_one :: "('r \<Rightarrow> bool) \<Rightarrow> 'r tab \<Rightarrow> 'r option res" where
  "t_one p T = (case t_list p T of [] \<Rightarrow> Inr None | [r] \<Rightarrow> Inr (Some r) | _ \<Rightarrow> Inl TooManyResultsException)"

text \<open>\<open>updateById\<close>, \<open>update\<close> with its result, \<open>delete\<close> and \<open>insert\<close>.\<close>

definition t_update :: "('r \<Rightarrow> bool) \<Rightarrow> ('r \<Rightarrow> 'r) \<Rightarrow> 'r tab \<Rightarrow> 'r tab" where
  "t_update p f T = T\<lparr>t_rows := map (\<lambda>r. if p r then f r else r) (t_rows T)\<rparr>"

definition t_updated :: "('r \<Rightarrow> bool) \<Rightarrow> 'r tab \<Rightarrow> bool" where
  "t_updated p T \<longleftrightarrow> 0 < t_count p T"

definition t_delete :: "('r \<Rightarrow> bool) \<Rightarrow> 'r tab \<Rightarrow> 'r tab" where
  "t_delete p T = T\<lparr>t_rows := filter (\<lambda>r. \<not> p r) (t_rows T)\<rparr>"

definition t_insert :: "(nat \<Rightarrow> 'r) \<Rightarrow> 'r tab \<Rightarrow> nat \<times> 'r tab" where
  "t_insert row T = (t_next T, T\<lparr>t_rows := t_rows T @ [row (t_next T)], t_next := Suc (t_next T)\<rparr>)"

text \<open>The condition that the interceptor adds, and the primary key.\<close>

definition in_line :: "nat \<Rightarrow> ('a tenant_row_scheme \<Rightarrow> bool) \<Rightarrow> 'a tenant_row_scheme \<Rightarrow> bool" where
  "in_line t p r \<longleftrightarrow> r_tenant r = t \<and> p r"

definition has_id :: "nat \<Rightarrow> 'a base_row_scheme \<Rightarrow> bool" where
  "has_id i r \<longleftrightarrow> r_id r = i"

definition selectById :: "nat \<Rightarrow> nat \<Rightarrow> 'a tenant_row_scheme tab \<Rightarrow> 'a tenant_row_scheme option" where
  "selectById t i T = (case t_list (in_line t (has_id i)) T of [] \<Rightarrow> None | r # _ \<Rightarrow> Some r)"

definition selectBatchIds :: "nat \<Rightarrow> nat list \<Rightarrow> 'a tenant_row_scheme tab \<Rightarrow> 'a tenant_row_scheme list" where
  "selectBatchIds t ids T = (if ids = [] then [] else t_list (in_line t (\<lambda>r. r_id r \<in> set ids)) T)"

text \<open>A column that must not be null, and a value that replaces another unless it is null.\<close>

definition not_null :: "'a option \<Rightarrow> 'a res" where
  "not_null x = (case x of None \<Rightarrow> Inl DataIntegrityViolationException | Some v \<Rightarrow> Inr v)"

definition if_set :: "'a option \<Rightarrow> 'a \<Rightarrow> 'a" where
  "if_set x old = (case x of None \<Rightarrow> old | Some v \<Rightarrow> v)"

definition if_set_option :: "'a option \<Rightarrow> 'a option \<Rightarrow> 'a option" where
  "if_set_option x old = (case x of None \<Rightarrow> old | Some v \<Rightarrow> Some v)"

text \<open>The loops over the ids of a request; the first exception ends them.\<close>

fun for_each :: "('a \<Rightarrow> 's \<Rightarrow> 's res) \<Rightarrow> 'a list \<Rightarrow> 's \<Rightarrow> 's res" where
  "for_each f [] d = Inr d"
| "for_each f (x # xs) d = bindR (f x d) (for_each f xs)"

text \<open>\<open>eq(name).ne(id)\<close> of the checks for unique columns: a null name equals none.\<close>

definition taken :: "('a base_row_scheme \<Rightarrow> string option) \<Rightarrow> nat option \<Rightarrow> string option \<Rightarrow> 'a base_row_scheme \<Rightarrow> bool" where
  "taken col i x r \<longleftrightarrow> x \<noteq> None \<and> col r = x \<and> i \<noteq> Some (r_id r)"

definition empty_db :: Db where
  "empty_db =
     \<lparr>d_account = \<lparr>t_rows = [\<lparr>r_id = 1, ac_username = ''root'', ac_password = ''thunder'', ac_role = ''Root''\<rparr>], t_next = 2\<rparr>,
      d_tenant = \<lparr>t_rows = [], t_next = 1\<rparr>, d_node = \<lparr>t_rows = [], t_next = 1\<rparr>, d_vip_pool = \<lparr>t_rows = [], t_next = 1\<rparr>,
      d_group = \<lparr>t_rows = [], t_next = 1\<rparr>, d_group_member = \<lparr>t_rows = [], t_next = 1\<rparr>,
      d_group_route = \<lparr>t_rows = [], t_next = 1\<rparr>, d_group_rule = \<lparr>t_rows = [], t_next = 1\<rparr>,
      d_group_vnat = \<lparr>t_rows = [], t_next = 1\<rparr>, d_route = \<lparr>t_rows = [], t_next = 1\<rparr>,
      d_route_node_item = \<lparr>t_rows = [], t_next = 1\<rparr>, d_route_rule = \<lparr>t_rows = [], t_next = 1\<rparr>,
      d_vnat = \<lparr>t_rows = [], t_next = 1\<rparr>, d_vnat_node_item = \<lparr>t_rows = [], t_next = 1\<rparr>\<rparr>"

section \<open>Laws of the statements\<close>

lemma set_t_list [simp]: "set (t_list p T) = {r \<in> set (t_rows T). p r}"
  by (simp add: t_list_def)

lemma t_list_Nil_iff: "t_list p T = [] \<longleftrightarrow> (\<forall>r \<in> set (t_rows T). \<not> p r)"
  by (simp add: t_list_def filter_empty_conv)

lemma t_count_0: "t_count p T = 0 \<longleftrightarrow> (\<forall>r \<in> set (t_rows T). \<not> p r)"
  by (simp add: t_count_def t_list_Nil_iff)

lemma t_updated_iff: "t_updated p T \<longleftrightarrow> (\<exists>r \<in> set (t_rows T). p r)"
  using t_count_0 [of p T] by (auto simp: t_updated_def)

lemma t_insert_simps [simp]:
  "fst (t_insert row T) = t_next T"
  "t_rows (snd (t_insert row T)) = t_rows T @ [row (t_next T)]"
  "t_next (snd (t_insert row T)) = Suc (t_next T)"
  by (simp_all add: t_insert_def)

lemma t_update_simps [simp]:
  "t_rows (t_update p f T) = map (\<lambda>r. if p r then f r else r) (t_rows T)" "t_next (t_update p f T) = t_next T"
  by (simp_all add: t_update_def)

lemma t_delete_simps [simp]:
  "t_rows (t_delete p T) = filter (\<lambda>r. \<not> p r) (t_rows T)" "t_next (t_delete p T) = t_next T"
  by (simp_all add: t_delete_def)

lemma t_update_cong:
  "(\<And>r. r \<in> set (t_rows T) \<Longrightarrow> p r \<longleftrightarrow> q r) \<Longrightarrow> t_update p f T = t_update q f T"
  by (simp add: t_update_def cong: map_cong)

lemma t_update_none: "(\<And>r. r \<in> set (t_rows T) \<Longrightarrow> \<not> p r) \<Longrightarrow> t_update p f T = T"
  by (simp add: t_update_def cong: map_cong)

lemma t_list_unique:
  "distinct (map f (t_rows T)) \<Longrightarrow> r \<in> set (t_rows T) \<Longrightarrow> p r \<Longrightarrow> (\<And>x. p x \<Longrightarrow> f x = f r) \<Longrightarrow> t_list p T = [r]"
proof -
  assume d: "distinct (map f (t_rows T))" and r: "r \<in> set (t_rows T)" "p r" and u: "\<And>x. p x \<Longrightarrow> f x = f r"
  from split_list [OF r(1)] obtain xs ys where e: "t_rows T = xs @ r # ys" by blast
  have "f r \<notin> f ` (set xs \<union> set ys)" using d by (simp add: e image_Un)
  then have "\<not> p x" if "x \<in> set xs \<union> set ys" for x using u [of x] that by (metis imageI)
  then show ?thesis using r(2) by (simp add: t_list_def e filter_empty_conv)
qed

text \<open>The counter of a table is ahead of its identities.\<close>

definition wf_ids :: "'a base_row_scheme tab \<Rightarrow> bool" where
  "wf_ids T \<longleftrightarrow> distinct (map r_id (t_rows T)) \<and> (\<forall>r \<in> set (t_rows T). r_id r < t_next T)"

lemma wf_ids_eq: "wf_ids T \<Longrightarrow> r \<in> set (t_rows T) \<Longrightarrow> s \<in> set (t_rows T) \<Longrightarrow> r_id r = r_id s \<Longrightarrow> r = s"
  by (auto simp: wf_ids_def distinct_map inj_on_def)

lemma wf_ids_insert: "wf_ids T \<Longrightarrow> r_id (row (t_next T)) = t_next T \<Longrightarrow> wf_ids (snd (t_insert row T))"
  by (fastforce simp: wf_ids_def)

lemma wf_ids_update: "wf_ids T \<Longrightarrow> (\<And>r. p r \<Longrightarrow> r_id (f r) = r_id r) \<Longrightarrow> wf_ids (t_update p f T)"
  by (auto simp: wf_ids_def comp_def if_distrib [of r_id] cong: if_cong)

lemma wf_ids_delete: "wf_ids T \<Longrightarrow> wf_ids (t_delete p T)"
  by (auto simp: wf_ids_def distinct_map_filter)

lemma selectById_Some:
  "selectById t i T = Some r \<Longrightarrow> r \<in> set (t_rows T) \<and> r_id r = i \<and> r_tenant r = t"
  by (auto simp: selectById_def has_id_def in_line_def t_list_def filter_eq_Cons_iff split: list.splits)

lemma selectById_None: "selectById t i T = None \<longleftrightarrow> (\<forall>r \<in> set (t_rows T). \<not> (r_tenant r = t \<and> r_id r = i))"
  using t_list_Nil_iff [of "in_line t (has_id i)" T]
  by (auto simp: selectById_def in_line_def has_id_def split: list.splits)

lemma for_each_inv:
  assumes "for_each f xs d = Inr d'" and "P d" and "\<And>x d d'. x \<in> set xs \<Longrightarrow> f x d = Inr d' \<Longrightarrow> P d \<Longrightarrow> P d'"
  shows "P d'"
  using assms by (induction xs arbitrary: d) (auto simp: res_simps)

lemma fold_inv: "P d \<Longrightarrow> (\<And>x d. P d \<Longrightarrow> P (f x d)) \<Longrightarrow> P (fold f xs d)"
  by (induction xs arbitrary: d) auto

end
