(* ===== verification/ConsoleServices.thy ===== *)
theory ConsoleServices
  imports ConsoleDb
begin

text \<open>
  The services of the console that edit groups, routes, route rules, address translations and tenants
  (package \<open>server.service.impl\<close>). The first argument is the tenant of the thread. A request is checked
  before it reaches the service (\<open>ValidGroup\<close>): an update or a delete carries an id. A condition \<open>in\<close> with an
  empty list is taken to match no row.
\<close>

section \<open>Requests\<close>

record EditGroupRequest =
  eg_id :: "nat option"
  eg_name :: "string option"
  eg_description :: "string option"

record EditGroupMemberRequest =
  em_id :: nat
  em_nodeIdList :: "nat list"
  em_routeIdList :: "nat list"
  em_routeRuleIdList :: "nat list"
  em_vnatIdList :: "nat list"

record EditRouteRequest =
  er_id :: "nat option"
  er_name :: "string option"
  er_description :: "string option"
  er_destination :: string
  er_nodeIdList :: "nat list option"
  er_groupIdList :: "nat list option"
  er_enable :: bool

record EditRouteRuleRequest =
  eu_id :: "nat option"
  eu_name :: "string option"
  eu_description :: "string option"
  eu_strategy :: RouteRuleStrategyEnum
  eu_direction :: RouteRuleDirectionEnum
  eu_ruleList :: "string list"
  eu_level :: jint
  eu_groupIdList :: "nat list option"
  eu_enable :: bool

record EditVNATRequest =
  ev_id :: "nat option"
  ev_name :: "string option"
  ev_description :: "string option"
  ev_srcCidr :: string
  ev_dstCidr :: string
  ev_nodeIdList :: "nat list"
  ev_groupIdList :: "nat list"
  ev_enable :: bool

record EditTenantRequest =
  et_id :: "nat option"
  et_name :: "string option"
  et_description :: "string option"
  et_code :: "string option"
  et_cidr :: string
  et_username :: "string option"
  et_password :: "string option"
  et_stunServerList :: "string list"
  et_relayServerList :: "string list"
  et_enable :: bool
  et_nodeGrant :: bool

text \<open>\<open>@NotNull\<close> on the id of an update or a delete.\<close>

definition valid_id :: "nat option \<Rightarrow> nat res" where
  "valid_id i = (case i of None \<Rightarrow> Inl IllegalArgumentException | Some v \<Rightarrow> Inr v)"

section \<open>Groups\<close>

definition grp_checkUnique :: "nat \<Rightarrow> nat option \<Rightarrow> string option \<Rightarrow> Db \<Rightarrow> unit res" where
  "grp_checkUnique t i name d = guardR (t_count (in_line t (taken (\<lambda>g. Some (g_name g)) i name)) (d_group d) = 0) ProcessException"

definition grp_addDefaultGroup :: "nat \<Rightarrow> Db \<Rightarrow> nat \<times> Db" where
  "grp_addDefaultGroup t d =
     (let (i, T) = t_insert (\<lambda>i. \<lparr>r_id = i, r_tenant = t, g_name = ''default'', g_description = None, g_default = True\<rparr>) (d_group d)
      in (i, d\<lparr>d_group := T\<rparr>))"

definition grp_add :: "nat \<Rightarrow> EditGroupRequest \<Rightarrow> Db \<Rightarrow> Db res" where
  "grp_add t request d =
     bindR (grp_checkUnique t (eg_id request) (eg_name request) d) (\<lambda>_.
     bindR (not_null (eg_name request)) (\<lambda>name.
     Inr (d\<lparr>d_group := snd (t_insert (\<lambda>i. \<lparr>r_id = i, r_tenant = t, g_name = name,
       g_description = eg_description request, g_default = False\<rparr>) (d_group d))\<rparr>)))"

definition grp_edit :: "nat \<Rightarrow> EditGroupRequest \<Rightarrow> Db \<Rightarrow> Db res" where
  "grp_edit t request d =
     bindR (valid_id (eg_id request)) (\<lambda>i.
     bindR (grp_checkUnique t (eg_id request) (eg_name request) d) (\<lambda>_.
     Inr (d\<lparr>d_group := t_update (in_line t (has_id i))
       (\<lambda>g. g\<lparr>g_name := if_set (eg_name request) (g_name g),
              g_description := if_set_option (eg_description request) (g_description g)\<rparr>) (d_group d)\<rparr>)))"

definition grp_del :: "nat \<Rightarrow> EditGroupRequest \<Rightarrow> Db \<Rightarrow> Db res" where
  "grp_del t request d =
     bindR (valid_id (eg_id request)) (\<lambda>i.
     if 0 < t_count (in_line t (\<lambda>m. gm_groupId m = i)) (d_group_member d) then Inl ProcessException
     else if 0 < t_count (in_line t (\<lambda>m. gr_groupId m = i)) (d_group_route d) then Inl ProcessException
     else if 0 < t_count (in_line t (\<lambda>m. gu_groupId m = i)) (d_group_rule d) then Inl ProcessException
     else if 0 < t_count (in_line t (\<lambda>m. gv_groupId m = i)) (d_group_vnat d) then Inl ProcessException
     else Inr (d\<lparr>d_group := t_delete (in_line t (has_id i)) (d_group d)\<rparr>))"

definition insert_member :: "nat \<Rightarrow> nat \<Rightarrow> nat \<Rightarrow> Db \<Rightarrow> Db" where
  "insert_member t groupId memberId d =
     d\<lparr>d_group_member := snd (t_insert (\<lambda>i. \<lparr>r_id = i, r_tenant = t, gm_groupId = groupId, gm_memberId = memberId\<rparr>) (d_group_member d))\<rparr>"

definition grp_addMember :: "nat \<Rightarrow> nat \<Rightarrow> nat \<Rightarrow> Db \<Rightarrow> Db" where
  "grp_addMember t groupId memberId d =
     (if 0 < t_count (in_line t (\<lambda>m. gm_groupId m = groupId \<and> gm_memberId m = memberId)) (d_group_member d) then d
      else insert_member t groupId memberId d)"

definition insert_group_route :: "nat \<Rightarrow> nat \<Rightarrow> nat \<Rightarrow> Db \<Rightarrow> Db" where
  "insert_group_route t groupId routeId d =
     d\<lparr>d_group_route := snd (t_insert (\<lambda>i. \<lparr>r_id = i, r_tenant = t, gr_groupId = groupId, gr_routeId = routeId\<rparr>) (d_group_route d))\<rparr>"

definition insert_group_rule :: "nat \<Rightarrow> nat \<Rightarrow> nat \<Rightarrow> Db \<Rightarrow> Db" where
  "insert_group_rule t groupId ruleId d =
     d\<lparr>d_group_rule := snd (t_insert (\<lambda>i. \<lparr>r_id = i, r_tenant = t, gu_groupId = groupId, gu_ruleId = ruleId\<rparr>) (d_group_rule d))\<rparr>"

definition insert_group_vnat :: "nat \<Rightarrow> nat \<Rightarrow> nat \<Rightarrow> Db \<Rightarrow> Db" where
  "insert_group_vnat t groupId vnatId d =
     d\<lparr>d_group_vnat := snd (t_insert (\<lambda>i. \<lparr>r_id = i, r_tenant = t, gv_groupId = groupId, gv_vnatId = vnatId\<rparr>) (d_group_vnat d))\<rparr>"

definition grp_updateMemberList :: "nat \<Rightarrow> EditGroupMemberRequest \<Rightarrow> Db \<Rightarrow> Db" where
  "grp_updateMemberList t request d =
     (let g = em_id request;
          d1 = fold (insert_member t g) (em_nodeIdList request)
            (d\<lparr>d_group_member := t_delete (in_line t (\<lambda>m. gm_groupId m = g)) (d_group_member d)\<rparr>);
          d2 = fold (insert_group_route t g) (em_routeIdList request)
            (d1\<lparr>d_group_route := t_delete (in_line t (\<lambda>m. gr_groupId m = g)) (d_group_route d1)\<rparr>);
          d3 = fold (insert_group_rule t g) (em_routeRuleIdList request)
            (d2\<lparr>d_group_rule := t_delete (in_line t (\<lambda>m. gu_groupId m = g)) (d_group_rule d2)\<rparr>)
      in fold (insert_group_vnat t g) (em_vnatIdList request)
            (d3\<lparr>d_group_vnat := t_delete (in_line t (\<lambda>m. gv_groupId m = g)) (d_group_vnat d3)\<rparr>))"

definition grp_delAllGroupMember :: "nat \<Rightarrow> nat \<Rightarrow> Db \<Rightarrow> Db" where
  "grp_delAllGroupMember t memberId d =
     d\<lparr>d_group_member := t_delete (in_line t (\<lambda>m. gm_memberId m = memberId)) (d_group_member d)\<rparr>"

definition grp_queryById :: "nat \<Rightarrow> nat \<Rightarrow> Db \<Rightarrow> GroupRow option" where
  "grp_queryById t groupId d = selectById t groupId (d_group d)"

definition grp_queryGroupIdListByMemberId :: "nat \<Rightarrow> nat \<Rightarrow> Db \<Rightarrow> nat list" where
  "grp_queryGroupIdListByMemberId t memberId d =
     map gm_groupId (t_list (in_line t (\<lambda>m. gm_memberId m = memberId)) (d_group_member d))"

definition grp_queryDefaultGroup :: "nat \<Rightarrow> Db \<Rightarrow> GroupRow option res" where
  "grp_queryDefaultGroup t d = t_one (in_line t g_default) (d_group d)"

text \<open>A group with the ids of its routes, rules and translations, and with its members.\<close>

record GroupDetail =
  gd_group :: GroupRow
  gd_nodeIdList :: "nat list"
  gd_routeIdList :: "nat list"
  gd_routeRuleIdList :: "nat list"
  gd_vnatIdList :: "nat list"

definition group_links :: "nat \<Rightarrow> Db \<Rightarrow> GroupRow \<Rightarrow> GroupDetail" where
  "group_links t d g =
     \<lparr>gd_group = g,
      gd_nodeIdList = [],
      gd_routeIdList = map gr_routeId (t_list (in_line t (\<lambda>m. gr_groupId m = r_id g)) (d_group_route d)),
      gd_routeRuleIdList = map gu_ruleId (t_list (in_line t (\<lambda>m. gu_groupId m = r_id g)) (d_group_rule d)),
      gd_vnatIdList = map gv_vnatId (t_list (in_line t (\<lambda>m. gv_groupId m = r_id g)) (d_group_vnat d))\<rparr>"

definition grp_queryDetailList :: "nat \<Rightarrow> nat list \<Rightarrow> Db \<Rightarrow> GroupDetail list" where
  "grp_queryDetailList t groupIdList d =
     (if groupIdList = [] then []
      else map (group_links t d) (t_list (in_line t (\<lambda>g. r_id g \<in> set groupIdList)) (d_group d)))"

definition grp_memberList :: "nat \<Rightarrow> nat \<Rightarrow> Db \<Rightarrow> nat list" where
  "grp_memberList t groupId d = map gm_memberId (t_list (in_line t (\<lambda>m. gm_groupId m = groupId)) (d_group_member d))"

definition grp_queryDetail :: "nat \<Rightarrow> nat \<Rightarrow> Db \<Rightarrow> GroupDetail option" where
  "grp_queryDetail t groupId d =
     map_option (\<lambda>g. (group_links t d g)\<lparr>gd_nodeIdList := grp_memberList t groupId d\<rparr>) (selectById t groupId (d_group d))"

section \<open>The routes, rules and translations of groups\<close>

text \<open>\<open>updateGroupRoute\<close> and its two siblings: forget the groups of the route, then add those of the list, which must exist.\<close>

definition gcf_deleteGroupRoute :: "nat \<Rightarrow> nat \<Rightarrow> Db \<Rightarrow> Db" where
  "gcf_deleteGroupRoute t routeId d =
     d\<lparr>d_group_route := t_delete (in_line t (\<lambda>m. gr_routeId m = routeId)) (d_group_route d)\<rparr>"

definition gcf_deleteGroupRouteRule :: "nat \<Rightarrow> nat \<Rightarrow> Db \<Rightarrow> Db" where
  "gcf_deleteGroupRouteRule t routeRuleId d =
     d\<lparr>d_group_rule := t_delete (in_line t (\<lambda>m. gu_ruleId m = routeRuleId)) (d_group_rule d)\<rparr>"

definition gcf_deleteGroupVNAT :: "nat \<Rightarrow> nat \<Rightarrow> Db \<Rightarrow> Db" where
  "gcf_deleteGroupVNAT t vnatId d =
     d\<lparr>d_group_vnat := t_delete (in_line t (\<lambda>m. gv_vnatId m = vnatId)) (d_group_vnat d)\<rparr>"

definition add_groups :: "nat \<Rightarrow> (nat \<Rightarrow> Db \<Rightarrow> Db) \<Rightarrow> nat list \<Rightarrow> Db \<Rightarrow> Db res" where
  "add_groups t ins groupIdList d =
     (if groupIdList = [] then Inr d
      else let ids = set (map r_id (selectBatchIds t groupIdList (d_group d))) in
        for_each (\<lambda>groupId d. if groupId \<notin> ids then Inl ProcessException else Inr (ins groupId d)) groupIdList d)"

definition gcf_updateGroupRoute :: "nat \<Rightarrow> nat \<Rightarrow> nat list \<Rightarrow> Db \<Rightarrow> Db res" where
  "gcf_updateGroupRoute t routeId groupIdList d =
     add_groups t (\<lambda>g. insert_group_route t g routeId) groupIdList (gcf_deleteGroupRoute t routeId d)"

definition gcf_updateGroupRouteRule :: "nat \<Rightarrow> nat \<Rightarrow> nat list \<Rightarrow> Db \<Rightarrow> Db res" where
  "gcf_updateGroupRouteRule t routeRuleId groupIdList d =
     add_groups t (\<lambda>g. insert_group_rule t g routeRuleId) groupIdList (gcf_deleteGroupRouteRule t routeRuleId d)"

definition gcf_updateGroupVNAT :: "nat \<Rightarrow> nat \<Rightarrow> nat list \<Rightarrow> Db \<Rightarrow> Db res" where
  "gcf_updateGroupVNAT t vnatId groupIdList d =
     add_groups t (\<lambda>g. insert_group_vnat t g vnatId) groupIdList (gcf_deleteGroupVNAT t vnatId d)"

definition gcf_queryGroupRouteList :: "nat \<Rightarrow> nat \<Rightarrow> Db \<Rightarrow> nat list" where
  "gcf_queryGroupRouteList t routeId d = map gr_groupId (t_list (in_line t (\<lambda>m. gr_routeId m = routeId)) (d_group_route d))"

definition gcf_queryGroupRouteRuleList :: "nat \<Rightarrow> nat \<Rightarrow> Db \<Rightarrow> nat list" where
  "gcf_queryGroupRouteRuleList t routeRuleId d = map gu_groupId (t_list (in_line t (\<lambda>m. gu_ruleId m = routeRuleId)) (d_group_rule d))"

definition gcf_queryGroupVNATList :: "nat \<Rightarrow> nat \<Rightarrow> Db \<Rightarrow> nat list" where
  "gcf_queryGroupVNATList t vnatId d = map gv_groupId (t_list (in_line t (\<lambda>m. gv_vnatId m = vnatId)) (d_group_vnat d))"

section \<open>Routes\<close>

definition rte_checkUnique :: "nat \<Rightarrow> nat option \<Rightarrow> string option \<Rightarrow> Db \<Rightarrow> unit res" where
  "rte_checkUnique t i name d = guardR (t_count (in_line t (taken (\<lambda>r. Some (ro_name r)) i name)) (d_route d) = 0) ProcessException"

definition rte_addNode :: "nat \<Rightarrow> nat \<Rightarrow> nat \<Rightarrow> Db \<Rightarrow> Db res" where
  "rte_addNode t routeId nodeId d =
     (if selectById t nodeId (d_node d) = None then Inl ProcessException
      else Inr (d\<lparr>d_route_node_item := snd (t_insert (\<lambda>i. \<lparr>r_id = i, r_tenant = t, ri_routeId = routeId, ri_nodeId = nodeId\<rparr>)
        (d_route_node_item d))\<rparr>))"

definition rte_add :: "nat \<Rightarrow> EditRouteRequest \<Rightarrow> Db \<Rightarrow> Db res" where
  "rte_add t request d =
     bindR (rte_checkUnique t (er_id request) (er_name request) d) (\<lambda>_.
     bindR (not_null (er_name request)) (\<lambda>name.
     let (routeId, T) = t_insert (\<lambda>i. \<lparr>r_id = i, r_tenant = t, ro_name = name, ro_description = er_description request,
           ro_destination = Some (er_destination request), ro_enable = er_enable request\<rparr>) (d_route d)
     in bindR (for_each (rte_addNode t routeId) (case er_nodeIdList request of None \<Rightarrow> [] | Some l \<Rightarrow> l) (d\<lparr>d_route := T\<rparr>)) (\<lambda>d1.
        case er_groupIdList request of
          None \<Rightarrow> Inr d1
        | Some l \<Rightarrow> if l = [] then Inr d1 else gcf_updateGroupRoute t routeId l d1)))"

definition rte_edit :: "nat \<Rightarrow> EditRouteRequest \<Rightarrow> Db \<Rightarrow> Db res" where
  "rte_edit t request d =
     bindR (valid_id (er_id request)) (\<lambda>i.
     bindR (rte_checkUnique t (er_id request) (er_name request) d) (\<lambda>_.
     let d1 = d\<lparr>d_route := t_update (in_line t (has_id i))
       (\<lambda>r. r\<lparr>ro_name := if_set (er_name request) (ro_name r),
              ro_description := if_set_option (er_description request) (ro_description r),
              ro_destination := Some (er_destination request), ro_enable := er_enable request\<rparr>) (d_route d)\<rparr>
     in bindR (case er_nodeIdList request of
          None \<Rightarrow> Inr d1
        | Some l \<Rightarrow> for_each (rte_addNode t i) l
            (d1\<lparr>d_route_node_item := t_delete (in_line t (\<lambda>m. ri_routeId m = i)) (d_route_node_item d1)\<rparr>)) (\<lambda>d2.
        case er_groupIdList request of None \<Rightarrow> Inr d2 | Some l \<Rightarrow> gcf_updateGroupRoute t i l d2)))"

text \<open>\<open>RouteRepository.deleteById\<close> deletes the items of the route with it.\<close>

definition rte_deleteById :: "nat \<Rightarrow> nat \<Rightarrow> Db \<Rightarrow> Db" where
  "rte_deleteById t i d =
     d\<lparr>d_route_node_item := t_delete (in_line t (\<lambda>m. ri_routeId m = i)) (d_route_node_item d),
       d_route := t_delete (in_line t (has_id i)) (d_route d)\<rparr>"

definition rte_del :: "nat \<Rightarrow> EditRouteRequest \<Rightarrow> Db \<Rightarrow> Db res" where
  "rte_del t request d =
     bindR (valid_id (er_id request)) (\<lambda>i. Inr (rte_deleteById t i (gcf_deleteGroupRoute t i d)))"

definition route_nodes :: "nat \<Rightarrow> Db \<Rightarrow> RouteRow \<Rightarrow> nat list" where
  "route_nodes t d r = map ri_nodeId (t_list (in_line t (\<lambda>m. ri_routeId m = r_id r)) (d_route_node_item d))"

definition rte_queryDetailByIdList :: "nat \<Rightarrow> nat list \<Rightarrow> Db \<Rightarrow> (RouteRow \<times> nat list) list" where
  "rte_queryDetailByIdList t idList d = map (\<lambda>r. (r, route_nodes t d r)) (selectBatchIds t idList (d_route d))"

definition rte_queryDetailById :: "nat \<Rightarrow> nat \<Rightarrow> Db \<Rightarrow> (RouteRow \<times> nat list \<times> nat list) option" where
  "rte_queryDetailById t i d =
     map_option (\<lambda>r. (r, map ri_nodeId (t_list (in_line t (\<lambda>m. ri_routeId m = i)) (d_route_node_item d)), gcf_queryGroupRouteList t (r_id r) d))
       (selectById t i (d_route d))"

definition rte_usedNode :: "nat \<Rightarrow> nat \<Rightarrow> Db \<Rightarrow> bool" where
  "rte_usedNode t nodeId d \<longleftrightarrow> 0 < t_count (in_line t (\<lambda>m. ri_nodeId m = nodeId)) (d_route_node_item d)"

definition rte_list :: "nat \<Rightarrow> Db \<Rightarrow> (RouteRow \<times> nat list \<times> nat list) list" where
  "rte_list t d = map (\<lambda>r. (r, route_nodes t d r, gcf_queryGroupRouteList t (r_id r) d)) (t_list (in_line t (\<lambda>_. True)) (d_route d))"

section \<open>Route rules\<close>

definition rul_checkUnique :: "nat \<Rightarrow> nat option \<Rightarrow> string option \<Rightarrow> Db \<Rightarrow> unit res" where
  "rul_checkUnique t i name d = guardR (t_count (in_line t (taken (\<lambda>r. Some (ru_name r)) i name)) (d_route_rule d) = 0) ProcessException"

definition insert_rule :: "(nat \<Rightarrow> RouteRuleRow) \<Rightarrow> Db \<Rightarrow> nat \<times> Db" where
  "insert_rule row d = (let (i, T) = t_insert row (d_route_rule d) in (i, d\<lparr>d_route_rule := T\<rparr>))"

definition rul_addDefaultRouteRule :: "nat \<Rightarrow> nat \<Rightarrow> Db \<Rightarrow> Db res" where
  "rul_addDefaultRouteRule t groupId d =
     (let (i, d1) = insert_rule (\<lambda>i. \<lparr>r_id = i, r_tenant = t, ru_name = ''default'', ru_description = None, ru_strategy = RS_Allow,
        ru_direction = RD_All, ru_ruleList = [''0.0.0.0/0''], ru_level = 100, ru_enable = True\<rparr>) d
      in gcf_updateGroupRouteRule t i [groupId] d1)"

definition rul_add :: "nat \<Rightarrow> EditRouteRuleRequest \<Rightarrow> Db \<Rightarrow> Db res" where
  "rul_add t request d =
     bindR (rul_checkUnique t (eu_id request) (eu_name request) d) (\<lambda>_.
     bindR (not_null (eu_name request)) (\<lambda>name.
     let (i, d1) = insert_rule (\<lambda>i. \<lparr>r_id = i, r_tenant = t, ru_name = name, ru_description = eu_description request,
        ru_strategy = eu_strategy request, ru_direction = eu_direction request, ru_ruleList = eu_ruleList request,
        ru_level = eu_level request, ru_enable = eu_enable request\<rparr>) d
     in case eu_groupIdList request of
          None \<Rightarrow> Inr d1
        | Some l \<Rightarrow> if l = [] then Inr d1 else gcf_updateGroupRouteRule t i l d1))"

definition rul_edit :: "nat \<Rightarrow> EditRouteRuleRequest \<Rightarrow> Db \<Rightarrow> Db res" where
  "rul_edit t request d =
     bindR (valid_id (eu_id request)) (\<lambda>i.
     bindR (rul_checkUnique t (eu_id request) (eu_name request) d) (\<lambda>_.
     let d1 = d\<lparr>d_route_rule := t_update (in_line t (has_id i))
       (\<lambda>r. r\<lparr>ru_name := if_set (eu_name request) (ru_name r),
              ru_description := if_set_option (eu_description request) (ru_description r),
              ru_strategy := eu_strategy request, ru_direction := eu_direction request, ru_ruleList := eu_ruleList request,
              ru_level := eu_level request, ru_enable := eu_enable request\<rparr>) (d_route_rule d)\<rparr>
     in case eu_groupIdList request of None \<Rightarrow> Inr d1 | Some l \<Rightarrow> gcf_updateGroupRouteRule t i l d1))"

definition rul_del :: "nat \<Rightarrow> EditRouteRuleRequest \<Rightarrow> Db \<Rightarrow> Db res" where
  "rul_del t request d =
     bindR (valid_id (eu_id request)) (\<lambda>i.
     let d1 = gcf_deleteGroupRouteRule t i d
     in Inr (d1\<lparr>d_route_rule := t_delete (in_line t (has_id i)) (d_route_rule d1)\<rparr>))"

definition rul_queryByIdList :: "nat \<Rightarrow> nat list \<Rightarrow> Db \<Rightarrow> RouteRuleRow list" where
  "rul_queryByIdList t idList d =
     (if idList = [] then [] else t_list (in_line t (\<lambda>r. r_id r \<in> set idList)) (d_route_rule d))"

section \<open>Address translations\<close>

definition vnt_checkUnique :: "nat \<Rightarrow> nat option \<Rightarrow> string option \<Rightarrow> Db \<Rightarrow> unit res" where
  "vnt_checkUnique t i name d = guardR (t_count (in_line t (taken (\<lambda>r. Some (va_name r)) i name)) (d_vnat d) = 0) ProcessException"

definition vnt_checkCidr :: "(string \<Rightarrow> bool) \<Rightarrow> EditVNATRequest \<Rightarrow> unit res" where
  "vnt_checkCidr pat request =
     bindR (parseCidr pat (ev_srcCidr request)) (\<lambda>src.
     bindR (parseCidr pat (ev_dstCidr request)) (\<lambda>dst.
     guardR (maskBits src = maskBits dst) ProcessException))"

definition insert_vnat_item :: "nat \<Rightarrow> nat \<Rightarrow> nat \<Rightarrow> Db \<Rightarrow> Db" where
  "insert_vnat_item t vnatId nodeId d =
     d\<lparr>d_vnat_node_item := snd (t_insert (\<lambda>i. \<lparr>r_id = i, r_tenant = t, vi_vnatId = vnatId, vi_nodeId = nodeId\<rparr>) (d_vnat_node_item d))\<rparr>"

definition vnt_deleteItems :: "nat \<Rightarrow> nat \<Rightarrow> Db \<Rightarrow> Db" where
  "vnt_deleteItems t i d = d\<lparr>d_vnat_node_item := t_delete (in_line t (\<lambda>m. vi_vnatId m = i)) (d_vnat_node_item d)\<rparr>"

definition vnt_updateVNATItemList :: "nat \<Rightarrow> nat \<Rightarrow> nat list \<Rightarrow> Db \<Rightarrow> Db" where
  "vnt_updateVNATItemList t i nodeIdList d = fold (insert_vnat_item t i) nodeIdList (vnt_deleteItems t i d)"

definition vnt_add :: "(string \<Rightarrow> bool) \<Rightarrow> nat \<Rightarrow> EditVNATRequest \<Rightarrow> Db \<Rightarrow> Db res" where
  "vnt_add pat t request d =
     bindR (vnt_checkUnique t (ev_id request) (ev_name request) d) (\<lambda>_.
     bindR (vnt_checkCidr pat request) (\<lambda>_.
     bindR (not_null (ev_name request)) (\<lambda>name.
     let (i, T) = t_insert (\<lambda>i. \<lparr>r_id = i, r_tenant = t, va_name = name, va_description = ev_description request,
           va_srcCidr = ev_srcCidr request, va_dstCidr = ev_dstCidr request, va_enable = ev_enable request\<rparr>) (d_vnat d)
     in gcf_updateGroupVNAT t i (ev_groupIdList request) (vnt_updateVNATItemList t i (ev_nodeIdList request) (d\<lparr>d_vnat := T\<rparr>)))))"

definition vnt_edit :: "(string \<Rightarrow> bool) \<Rightarrow> nat \<Rightarrow> EditVNATRequest \<Rightarrow> Db \<Rightarrow> Db res" where
  "vnt_edit pat t request d =
     bindR (valid_id (ev_id request)) (\<lambda>i.
     bindR (vnt_checkUnique t (ev_id request) (ev_name request) d) (\<lambda>_.
     bindR (vnt_checkCidr pat request) (\<lambda>_.
     gcf_updateGroupVNAT t i (ev_groupIdList request) (vnt_updateVNATItemList t i (ev_nodeIdList request)
       (d\<lparr>d_vnat := t_update (in_line t (has_id i))
         (\<lambda>r. r\<lparr>va_name := if_set (ev_name request) (va_name r),
                va_description := if_set_option (ev_description request) (va_description r),
                va_srcCidr := ev_srcCidr request, va_dstCidr := ev_dstCidr request, va_enable := ev_enable request\<rparr>)
         (d_vnat d)\<rparr>)))))"

definition vnt_del :: "nat \<Rightarrow> EditVNATRequest \<Rightarrow> Db \<Rightarrow> Db res" where
  "vnt_del t request d =
     bindR (valid_id (ev_id request)) (\<lambda>i.
     let d1 = vnt_deleteItems t i (gcf_deleteGroupVNAT t i d)
     in Inr (d1\<lparr>d_vnat := t_delete (in_line t (has_id i)) (d_vnat d1)\<rparr>))"

definition vnat_nodes :: "nat \<Rightarrow> Db \<Rightarrow> VNATRow \<Rightarrow> nat list" where
  "vnat_nodes t d r = map vi_nodeId (t_list (in_line t (\<lambda>m. vi_vnatId m = r_id r)) (d_vnat_node_item d))"

definition vnt_list :: "nat \<Rightarrow> Db \<Rightarrow> (VNATRow \<times> nat list) list" where
  "vnt_list t d = map (\<lambda>r. (r, vnat_nodes t d r)) (t_list (in_line t (\<lambda>_. True)) (d_vnat d))"

definition vnt_queryIdList :: "nat \<Rightarrow> nat list \<Rightarrow> Db \<Rightarrow> (VNATRow \<times> nat list) list" where
  "vnt_queryIdList t idList d =
     (if idList = [] then []
      else map (\<lambda>r. (r, vnat_nodes t d r)) (t_list (in_line t (\<lambda>r. r_id r \<in> set idList)) (d_vnat d)))"

definition vnt_usedNode :: "nat \<Rightarrow> nat \<Rightarrow> Db \<Rightarrow> bool" where
  "vnt_usedNode t nodeId d \<longleftrightarrow> 0 < t_count (in_line t (\<lambda>m. vi_nodeId m = nodeId)) (d_vnat_node_item d)"

section \<open>Tenants\<close>

definition tnt_queryById :: "nat \<Rightarrow> Db \<Rightarrow> TenantRow option" where
  "tnt_queryById i d = (case t_list (has_id i) (d_tenant d) of [] \<Rightarrow> None | r # _ \<Rightarrow> Some r)"

definition tnt_queryByTenantCode :: "string \<Rightarrow> Db \<Rightarrow> TenantRow option res" where
  "tnt_queryByTenantCode tenantCode d = t_one (\<lambda>r. tn_code r = tenantCode) (d_tenant d)"

definition tnt_updateIpIndex :: "nat \<Rightarrow> jint \<Rightarrow> jint \<Rightarrow> Db \<Rightarrow> bool \<times> Db" where
  "tnt_updateIpIndex tenantId oldIndex newIndex d =
     (let p = (\<lambda>r. has_id tenantId r \<and> tn_ipIndex r = oldIndex)
      in (t_updated p (d_tenant d), d\<lparr>d_tenant := t_update p (\<lambda>r. r\<lparr>tn_ipIndex := newIndex\<rparr>) (d_tenant d)\<rparr>))"

definition tnt_checkUnique :: "nat option \<Rightarrow> string option \<Rightarrow> string option \<Rightarrow> string option \<Rightarrow> Db \<Rightarrow> unit res" where
  "tnt_checkUnique tenantId username name code d =
     bindR (case tenantId of
              None \<Rightarrow> Inr None
            | Some i \<Rightarrow> (case tnt_queryById i d of None \<Rightarrow> Inl NullPointerException | Some r \<Rightarrow> Inr (Some (tn_accountId r)))) (\<lambda>account.
     bindR (guardR (t_count (taken (\<lambda>r. Some (ac_username r)) account username) (d_account d) = 0) ProcessException) (\<lambda>_.
     bindR (guardR (t_count (taken (\<lambda>r. Some (tn_name r)) tenantId name) (d_tenant d) = 0) ProcessException) (\<lambda>_.
     guardR (t_count (taken (\<lambda>r. Some (tn_code r)) tenantId code) (d_tenant d) = 0) ProcessException)))"

definition new_tenant :: "EditTenantRequest \<Rightarrow> nat \<Rightarrow> string \<Rightarrow> string \<Rightarrow> nat \<Rightarrow> TenantRow" where
  "new_tenant request accountId name code i =
     \<lparr>r_id = i, tn_name = name, tn_description = et_description request, tn_code = code, tn_cidr = et_cidr request,
      tn_stunServerList = et_stunServerList request, tn_relayServerList = et_relayServerList request,
      tn_enable = et_enable request, tn_ipIndex = - 1, tn_accountId = accountId, tn_nodeGrant = et_nodeGrant request\<rparr>"

definition tnt_add :: "EditTenantRequest \<Rightarrow> Db \<Rightarrow> Db res" where
  "tnt_add request d =
     bindR (tnt_checkUnique (et_id request) (et_username request) (et_name request) (et_code request) d) (\<lambda>_.
     bindR (not_null (et_username request)) (\<lambda>username.
     bindR (not_null (et_password request)) (\<lambda>password.
     bindR (not_null (et_name request)) (\<lambda>name.
     bindR (not_null (et_code request)) (\<lambda>code.
     let (accountId, A) = t_insert (\<lambda>i. \<lparr>r_id = i, ac_username = username, ac_password = password, ac_role = ''TenantAdmin''\<rparr>) (d_account d);
         (i, T) = t_insert (new_tenant request accountId name code) (d_tenant d);
         (groupId, d1) = grp_addDefaultGroup i (d\<lparr>d_account := A, d_tenant := T\<rparr>)
     in rul_addDefaultRouteRule i groupId d1)))))"

text \<open>The update writes back the whole row that was read, the address index with it.\<close>

definition edit_tenant :: "EditTenantRequest \<Rightarrow> TenantRow \<Rightarrow> TenantRow" where
  "edit_tenant request tenant = tenant\<lparr>tn_name := if_set (et_name request) (tn_name tenant),
     tn_description := if_set_option (et_description request) (tn_description tenant),
     tn_stunServerList := et_stunServerList request, tn_relayServerList := et_relayServerList request,
     tn_enable := et_enable request, tn_nodeGrant := et_nodeGrant request\<rparr>"

definition tnt_edit :: "EditTenantRequest \<Rightarrow> Db \<Rightarrow> Db res" where
  "tnt_edit request d =
     bindR (valid_id (et_id request)) (\<lambda>i.
     bindR (tnt_checkUnique (et_id request) (et_username request) (et_name request) (et_code request) d) (\<lambda>_.
     case tnt_queryById i d of
       None \<Rightarrow> Inr d
     | Some tenant \<Rightarrow>
         bindR (t_one (has_id (tn_accountId tenant)) (d_account d)) (\<lambda>account.
         case account of
           None \<Rightarrow> Inl NullPointerException
         | Some a \<Rightarrow>
             let a' = a\<lparr>ac_password := if_set (et_password request) (ac_password a)\<rparr>
             in Inr (d\<lparr>d_account := t_update (has_id (r_id a)) (\<lambda>_. a') (d_account d),
                       d_tenant := t_update (has_id i) (\<lambda>_. edit_tenant request tenant) (d_tenant d)\<rparr>))))"

definition tnt_del :: "EditTenantRequest \<Rightarrow> Db \<Rightarrow> Db res" where
  "tnt_del request d =
     bindR (valid_id (et_id request)) (\<lambda>i.
     case tnt_queryById i d of
       None \<Rightarrow> Inl NullPointerException
     | Some tenant \<Rightarrow>
         Inr (d\<lparr>d_account := t_delete (has_id (tn_accountId tenant)) (d_account d), d_tenant := t_delete (has_id (r_id tenant)) (d_tenant d)\<rparr>))"

section \<open>What the services leave alone\<close>

text \<open>The tables of the addresses: tenants, pool and nodes. Only the services of tenants and nodes change them.\<close>

definition core :: "Db \<Rightarrow> TenantRow tab \<times> VipRow tab \<times> NodeRow tab" where
  "core d = (d_tenant d, d_vip_pool d, d_node d)"

named_theorems frame_simps \<open>the tables that an operation leaves as they are\<close>

lemma core_links [frame_simps]:
  "core (insert_member t g i d) = core d" "core (insert_group_route t g i d) = core d"
  "core (insert_group_rule t g i d) = core d" "core (insert_group_vnat t g i d) = core d"
  "core (grp_addMember t g i d) = core d" "core (grp_delAllGroupMember t i d) = core d"
  "core (gcf_deleteGroupRoute t i d) = core d" "core (gcf_deleteGroupRouteRule t i d) = core d"
  "core (gcf_deleteGroupVNAT t i d) = core d" "core (insert_vnat_item t g i d) = core d"
  "core (vnt_deleteItems t i d) = core d" "core (rte_deleteById t i d) = core d"
  "core (snd (insert_rule row d)) = core d" "core (snd (grp_addDefaultGroup t d)) = core d"
  by (simp_all add: core_def insert_member_def insert_group_route_def insert_group_rule_def insert_group_vnat_def
    grp_addMember_def grp_delAllGroupMember_def gcf_deleteGroupRoute_def gcf_deleteGroupRouteRule_def
    gcf_deleteGroupVNAT_def insert_vnat_item_def vnt_deleteItems_def rte_deleteById_def insert_rule_def
    grp_addDefaultGroup_def split: prod.splits)

lemma core_fold: "(\<And>x d. core (f x d) = core d) \<Longrightarrow> core (fold f xs d) = core d"
  by (rule fold_inv) auto

lemma core_for_each: "for_each f xs d = Inr d' \<Longrightarrow> (\<And>x d d'. f x d = Inr d' \<Longrightarrow> core d' = core d) \<Longrightarrow> core d' = core d"
  by (erule for_each_inv) auto

lemma core_add_groups:
  "add_groups t ins l d = Inr d' \<Longrightarrow> (\<And>x d. core (ins x d) = core d) \<Longrightarrow> core d' = core d"
  by (auto simp: add_groups_def Let_def split: if_splits elim!: core_for_each)

lemma core_config:
  "gcf_updateGroupRoute t i l d = Inr d' \<Longrightarrow> core d' = core d"
  "gcf_updateGroupRouteRule t i l d = Inr d' \<Longrightarrow> core d' = core d"
  "gcf_updateGroupVNAT t i l d = Inr d' \<Longrightarrow> core d' = core d"
  by (auto simp: gcf_updateGroupRoute_def gcf_updateGroupRouteRule_def gcf_updateGroupVNAT_def
    frame_simps dest!: core_add_groups)

lemma core_updates [frame_simps]:
  "core (d\<lparr>d_group := G\<rparr>) = core d" "core (d\<lparr>d_route := R\<rparr>) = core d" "core (d\<lparr>d_route_rule := U\<rparr>) = core d"
  "core (d\<lparr>d_vnat := V\<rparr>) = core d" "core (d\<lparr>d_route_node_item := I\<rparr>) = core d" "core (d\<lparr>d_account := A\<rparr>) = core d"
  "core (d\<lparr>d_group_member := M\<rparr>) = core d" "core (d\<lparr>d_group_route := GR\<rparr>) = core d"
  "core (d\<lparr>d_group_rule := GU\<rparr>) = core d" "core (d\<lparr>d_group_vnat := GV\<rparr>) = core d"
  by (simp_all add: core_def)

lemma core_grp_updateMemberList [frame_simps]: "core (grp_updateMemberList t request d) = core d"
  by (simp add: grp_updateMemberList_def Let_def core_fold frame_simps)

lemma core_groups:
  "grp_add t g d = Inr d' \<Longrightarrow> core d' = core d" "grp_edit t g d = Inr d' \<Longrightarrow> core d' = core d"
  "grp_del t g d = Inr d' \<Longrightarrow> core d' = core d"
  by (auto simp: grp_add_def grp_edit_def grp_del_def frame_simps res_simps split: if_splits)

lemma core_rte_addNode: "rte_addNode t r i d = Inr d' \<Longrightarrow> core d' = core d"
  by (auto simp: rte_addNode_def frame_simps split: if_splits)

lemma core_rte_nodes: "for_each (rte_addNode t i) l d = Inr d' \<Longrightarrow> core d' = core d"
  by (erule core_for_each) (rule core_rte_addNode)

lemma core_rte_add: "rte_add t r d = Inr d' \<Longrightarrow> core d' = core d"
  by (auto simp: rte_add_def t_insert_def frame_simps res_simps dest!: core_rte_nodes core_config split: option.splits if_splits)

lemma core_rte_edit: "rte_edit t r d = Inr d' \<Longrightarrow> core d' = core d"
  by (auto simp: rte_edit_def frame_simps res_simps Let_def dest!: core_rte_nodes core_config split: option.splits)

lemma core_rte_del: "rte_del t r d = Inr d' \<Longrightarrow> core d' = core d"
  by (auto simp: rte_del_def frame_simps res_simps)

lemma core_rul_add: "rul_add t u d = Inr d' \<Longrightarrow> core d' = core d"
  by (auto simp: rul_add_def insert_rule_def t_insert_def frame_simps res_simps dest!: core_config split: option.splits if_splits)

lemma core_rul_edit: "rul_edit t u d = Inr d' \<Longrightarrow> core d' = core d"
  by (auto simp: rul_edit_def frame_simps res_simps Let_def dest!: core_config split: option.splits)

lemma core_rul_del: "rul_del t u d = Inr d' \<Longrightarrow> core d' = core d"
  by (auto simp: rul_del_def frame_simps res_simps Let_def)

lemma core_rul_default: "rul_addDefaultRouteRule t g d = Inr d' \<Longrightarrow> core d' = core d"
  by (auto simp: rul_addDefaultRouteRule_def insert_rule_def t_insert_def frame_simps dest!: core_config)

lemma core_vnt_items [frame_simps]: "core (vnt_updateVNATItemList t i l d) = core d"
  by (simp add: vnt_updateVNATItemList_def core_fold frame_simps)

lemma core_vnt_add: "vnt_add pat t v d = Inr d' \<Longrightarrow> core d' = core d"
  by (auto simp: vnt_add_def t_insert_def frame_simps res_simps dest!: core_config)

lemma core_vnt_edit: "vnt_edit pat t v d = Inr d' \<Longrightarrow> core d' = core d"
  by (auto simp: vnt_edit_def frame_simps res_simps dest!: core_config)

lemma core_vnt_del: "vnt_del t v d = Inr d' \<Longrightarrow> core d' = core d"
  by (auto simp: vnt_del_def frame_simps res_simps Let_def)

lemmas core_services = core_groups core_rte_add core_rte_edit core_rte_del core_rul_add core_rul_edit core_rul_del
  core_vnt_add core_vnt_edit core_vnt_del

end
