(* ===== verification/NodeService.thy ===== *)
theory NodeService
  imports ConsoleServices TenantData
begin

text \<open>
  The nodes of the console (\<open>NodeServiceImpl\<close>) and the service that answers the controller from the database
  (\<open>DatabaseSdWanDataService\<close>). A node keeps the address of the tenant's pool that it was given; the pool is the
  table \<open>biz_vip_pool\<close> and the index of the tenant, advanced by compare-and-set. The loops that need not end
  are partial functions: \<open>None\<close> stands for not returning. Which row a query with \<open>limit 1\<close> returns is the
  parameter \<open>pick\<close>, the random name of a new node is the parameter \<open>uuid\<close>. Requests are taken one after the
  other; a registration commits the new node in a transaction of its own, so that node stays when the rest of
  the registration is rolled back.
\<close>

section \<open>The pool of addresses\<close>

partial_function (option) reuseIp :: "(VipRow list \<Rightarrow> VipRow) \<Rightarrow> nat \<Rightarrow> Db \<Rightarrow> (string option \<times> Db) option" where
  "reuseIp pick t d =
     (let free = t_list (in_line t (\<lambda>r. \<not> p_used r)) (d_vip_pool d) in
      if free = [] then Some (None, d)
      else let poolPO = pick free;
               p = in_line t (\<lambda>r. has_id (r_id poolPO) r \<and> \<not> p_used r);
               d' = d\<lparr>d_vip_pool := t_update p (\<lambda>r. r\<lparr>p_used := True\<rparr>) (d_vip_pool d)\<rparr>
           in if t_updated p (d_vip_pool d) then Some (Some (p_vip poolPO), d') else reuseIp pick t d')"

partial_function (option) selectIdx :: "nat \<Rightarrow> jint \<Rightarrow> Db \<Rightarrow> (jint \<times> Db) option" where
  "selectIdx tenantId idx d =
     (let nxt = idx + 1; (updated, d') = tnt_updateIpIndex tenantId idx nxt d
      in if updated then Some (nxt, d') else selectIdx tenantId nxt d')"

partial_function (option) assign_loop :: "Cidr \<Rightarrow> nat \<Rightarrow> jint \<Rightarrow> Db \<Rightarrow> (string \<times> Db) res option" where
  "assign_loop cidr tenantId idx d =
     (if sint (i2l idx) > sint (addrCount cidr) then Some (Inl (ProcessCodeException (MessageCode_number MC_NotEnough)))
      else (case selectIdx tenantId idx d of
              None \<Rightarrow> None
            | Some (idx', d') \<Rightarrow>
                (case genIpByIdx cidr (i2l idx') of
                   Inl e \<Rightarrow> Some (Inl e)
                 | Inr vip \<Rightarrow>
                     if \<not> isAvailableIp cidr vip then assign_loop cidr tenantId idx' d' else Some (Inr (vip, d')))))"

definition insert_vip :: "nat \<Rightarrow> string \<Rightarrow> Db \<Rightarrow> Db" where
  "insert_vip t vip d =
     d\<lparr>d_vip_pool := snd (t_insert (\<lambda>i. \<lparr>r_id = i, r_tenant = t, p_vip = vip, p_used = True\<rparr>) (d_vip_pool d))\<rparr>"

definition assignIp :: "(string \<Rightarrow> bool) \<Rightarrow> (VipRow list \<Rightarrow> VipRow) \<Rightarrow> nat \<Rightarrow> TenantRow option \<Rightarrow> Db \<Rightarrow> (string \<times> Db) res option" where
  "assignIp pat pick t tenant d =
     (case reuseIp pick t d of
        None \<Rightarrow> None
      | Some (Some vip, d') \<Rightarrow> Some (Inr (vip, d'))
      | Some (None, d') \<Rightarrow>
          (case tenant of
             None \<Rightarrow> Some (Inl NullPointerException)
           | Some tn \<Rightarrow>
               (case parseCidr pat (tn_cidr tn) of
                  Inl e \<Rightarrow> Some (Inl e)
                | Inr cidr \<Rightarrow> map_option (\<lambda>r. bindR r (\<lambda>(vip, d2). Inr (vip, insert_vip (r_id tn) vip d2))) (assign_loop cidr (r_id tn) (tn_ipIndex tn) d'))))"

text \<open>The address of a deleted node is free again.\<close>

definition release_vip :: "nat \<Rightarrow> string \<Rightarrow> Db \<Rightarrow> Db" where
  "release_vip t vip d = d\<lparr>d_vip_pool := t_update (in_line t (\<lambda>r. p_vip r = vip)) (\<lambda>r. r\<lparr>p_used := False\<rparr>) (d_vip_pool d)\<rparr>"

section \<open>Nodes\<close>

record EditNodeRequest =
  en_id :: "nat option"
  en_name :: "string option"
  en_description :: "string option"
  en_mac :: "string option"
  en_mesh :: bool
  en_groupIdList :: "nat list option"
  en_enable :: bool

definition nod_checkUnique :: "nat \<Rightarrow> nat option \<Rightarrow> string option \<Rightarrow> string option \<Rightarrow> Db \<Rightarrow> unit res" where
  "nod_checkUnique t i name mac d =
     bindR (guardR (t_count (in_line t (taken n_name i name)) (d_node d) = 0) ProcessException) (\<lambda>_.
     guardR (t_count (in_line t (taken (\<lambda>n. Some (n_mac n)) i mac)) (d_node d) = 0) ProcessException)"

definition nod_joinGroup :: "nat \<Rightarrow> nat \<Rightarrow> nat \<Rightarrow> Db \<Rightarrow> Db res" where
  "nod_joinGroup t nodeId i d =
     (case grp_queryById t i d of None \<Rightarrow> Inl ProcessException | Some grp \<Rightarrow> Inr (grp_addMember t (r_id grp) nodeId d))"

definition insert_node :: "(nat \<Rightarrow> NodeRow) \<Rightarrow> Db \<Rightarrow> nat \<times> Db" where
  "insert_node row d = (let (i, T) = t_insert row (d_node d) in (i, d\<lparr>d_node := T\<rparr>))"

definition nod_add :: "(string \<Rightarrow> bool) \<Rightarrow> (VipRow list \<Rightarrow> VipRow) \<Rightarrow> nat \<Rightarrow> EditNodeRequest \<Rightarrow> Db \<Rightarrow> Db res option" where
  "nod_add pat pick t request d =
     (case nod_checkUnique t (en_id request) (en_name request) (en_mac request) d of
        Inl e \<Rightarrow> Some (Inl e)
      | Inr _ \<Rightarrow> map_option (\<lambda>r.
          bindR r (\<lambda>(vip, d1).
          bindR (not_null (en_mac request)) (\<lambda>mac.
          let (nodeId, d2) = insert_node (\<lambda>i. \<lparr>r_id = i, r_tenant = t, n_name = en_name request, n_description = en_description request,
                n_mac = mac, n_vip = Some vip, n_os = None, n_osVersion = None, n_nodeVersion = None,
                n_mesh = en_mesh request, n_enable = en_enable request\<rparr>) d1
          in for_each (nod_joinGroup t nodeId) (case en_groupIdList request of None \<Rightarrow> [] | Some l \<Rightarrow> l) d2)))
          (assignIp pat pick t (tnt_queryById t d) d))"

definition nod_edit :: "nat \<Rightarrow> EditNodeRequest \<Rightarrow> Db \<Rightarrow> Db res" where
  "nod_edit t request d =
     bindR (valid_id (en_id request)) (\<lambda>i.
     bindR (nod_checkUnique t (en_id request) (en_name request) (en_mac request) d) (\<lambda>_.
     let d1 = d\<lparr>d_node := t_update (in_line t (has_id i))
       (\<lambda>n. n\<lparr>n_name := if_set_option (en_name request) (n_name n),
              n_description := if_set_option (en_description request) (n_description n),
              n_mac := if_set (en_mac request) (n_mac n),
              n_mesh := en_mesh request, n_enable := en_enable request\<rparr>) (d_node d)\<rparr>
     in case en_groupIdList request of
          None \<Rightarrow> Inr d1
        | Some l \<Rightarrow> for_each (nod_joinGroup t i) l (grp_delAllGroupMember t i d1)))"

definition nod_del :: "nat \<Rightarrow> EditNodeRequest \<Rightarrow> Db \<Rightarrow> Db res" where
  "nod_del t request d =
     bindR (valid_id (en_id request)) (\<lambda>i.
     if rte_usedNode t i d then Inl ProcessException
     else if vnt_usedNode t i d then Inl ProcessException
     else (case selectById t i (d_node d) of
             None \<Rightarrow> Inl NullPointerException
           | Some node \<Rightarrow>
               let d1 = (case n_vip node of None \<Rightarrow> d | Some vip \<Rightarrow> release_vip t vip d);
                   d2 = grp_delAllGroupMember t i d1
               in Inr (d2\<lparr>d_node := t_delete (in_line t (has_id i)) (d_node d2)\<rparr>)))"

definition nod_queryById :: "nat \<Rightarrow> nat \<Rightarrow> Db \<Rightarrow> (NodeRow \<times> nat list) option" where
  "nod_queryById t i d = map_option (\<lambda>n. (n, grp_queryGroupIdListByMemberId t (r_id n) d)) (selectById t i (d_node d))"

definition nod_queryByIdList :: "nat \<Rightarrow> nat list \<Rightarrow> Db \<Rightarrow> NodeRow list" where
  "nod_queryByIdList t idList d = (if idList = [] then [] else selectBatchIds t idList (d_node d))"

definition nod_existsNode :: "nat \<Rightarrow> nat \<Rightarrow> Db \<Rightarrow> bool" where
  "nod_existsNode t nodeId d \<longleftrightarrow> 0 < t_count (in_line t (has_id nodeId)) (d_node d)"

section \<open>Registration\<close>

record NodeDetail =
  nd_mac :: string
  nd_vip :: "string option"
  nd_routeList :: "(RouteRow \<times> nat list) list"
  nd_routeRuleList :: "RouteRuleRow list"
  nd_vnatList :: "(VNATRow \<times> nat list) list"

text \<open>The transaction of its own: an unknown address gets a node, disabled where nodes need a grant, in the default group.\<close>

definition new_row :: "nat \<Rightarrow> string \<Rightarrow> RegistReq \<Rightarrow> TenantRow \<Rightarrow> nat \<Rightarrow> NodeRow" where
  "new_row t uuid registReq tenant i =
     \<lparr>r_id = i, r_tenant = t, n_name = Some uuid, n_description = None, n_mac = rq_macAddress registReq,
      n_vip = None, n_os = None, n_osVersion = None, n_nodeVersion = None, n_mesh = False,
      n_enable = (if tn_nodeGrant tenant then False else True)\<rparr>"

definition new_node :: "nat \<Rightarrow> string \<Rightarrow> RegistReq \<Rightarrow> Db \<Rightarrow> (NodeRow \<times> Db) res" where
  "new_node t uuid registReq d =
     (case tnt_queryById t d of
        None \<Rightarrow> Inl NullPointerException
      | Some tenant \<Rightarrow>
          let (i, d1) = insert_node (new_row t uuid registReq tenant) d
          in bindR (grp_queryDefaultGroup t d1) (\<lambda>grp.
             case grp of
               None \<Rightarrow> Inl NullPointerException
             | Some g \<Rightarrow> Inr (new_row t uuid registReq tenant i, grp_addMember t (r_id g) i d1)))"

definition nod_updateById :: "nat \<Rightarrow> NodeRow \<Rightarrow> Db \<Rightarrow> Db" where
  "nod_updateById t node d =
     d\<lparr>d_node := t_update (in_line t (has_id (r_id node)))
       (\<lambda>n. n\<lparr>n_name := if_set_option (n_name node) (n_name n), n_description := if_set_option (n_description node) (n_description n),
              n_mac := n_mac node, n_vip := if_set_option (n_vip node) (n_vip n), n_os := if_set_option (n_os node) (n_os n),
              n_osVersion := if_set_option (n_osVersion node) (n_osVersion n),
              n_nodeVersion := if_set_option (n_nodeVersion node) (n_nodeVersion n),
              n_mesh := n_mesh node, n_enable := n_enable node\<rparr>) (d_node d)\<rparr>"

definition no_vip :: "NodeRow \<Rightarrow> bool" where
  "no_vip node \<longleftrightarrow> n_vip node = None \<or> n_vip node = Some ''''"

text \<open>The address: a node without one gets it unless it waits for a grant.\<close>

definition ensure_vip :: "(string \<Rightarrow> bool) \<Rightarrow> (VipRow list \<Rightarrow> VipRow) \<Rightarrow> nat \<Rightarrow> NodeRow \<Rightarrow> Db \<Rightarrow> (NodeRow \<times> Db) res option" where
  "ensure_vip pat pick t node d =
     (if \<not> no_vip node then Some (Inr (node, d))
      else (case tnt_queryById t d of
              None \<Rightarrow> Some (Inl NullPointerException)
            | Some tenant \<Rightarrow>
                if tn_nodeGrant tenant \<and> \<not> n_enable node then Some (Inl (ProcessCodeException (MessageCode_number MC_NotGrant)))
                else map_option (\<lambda>r. bindR r (\<lambda>(vip, d'). Inr (node\<lparr>n_vip := Some vip\<rparr>, d'))) (assignIp pat pick t (Some tenant) d)))"

definition stream_distinct :: "'a list \<Rightarrow> 'a list" where
  "stream_distinct xs = rev (remdups (rev xs))"

text \<open>The configuration of a node: what is enabled in the groups it belongs to.\<close>

definition node_detail :: "nat \<Rightarrow> NodeRow \<Rightarrow> Db \<Rightarrow> NodeDetail" where
  "node_detail t node d =
     (let groupList = grp_queryDetailList t (grp_queryGroupIdListByMemberId t (r_id node) d) d
      in \<lparr>nd_mac = n_mac node, nd_vip = n_vip node,
          nd_routeList = filter (\<lambda>r. ro_enable (fst r)) (rte_queryDetailByIdList t (stream_distinct (concat (map gd_routeIdList groupList))) d),
          nd_routeRuleList = filter ru_enable (rul_queryByIdList t (stream_distinct (concat (map gd_routeRuleIdList groupList))) d),
          nd_vnatList = filter (\<lambda>r. va_enable (fst r)) (vnt_queryIdList t (stream_distinct (concat (map gd_vnatIdList groupList))) d)\<rparr>)"

definition admit_node :: "nat \<Rightarrow> RegistReq \<Rightarrow> NodeRow \<Rightarrow> Db \<Rightarrow> (NodeDetail \<times> Db) res" where
  "admit_node t registReq node0 d =
     (let node = node0\<lparr>n_os := Some (rq_os registReq), n_osVersion := Some (rq_osVersion registReq),
            n_nodeVersion := Some (rq_nodeVersion registReq), n_mesh := rq_mesh registReq\<rparr>;
          d1 = nod_updateById t node d
      in if \<not> n_enable node then Inl (ProcessCodeException (MessageCode_number MC_Disabled))
         else Inr (node_detail t node d1, d1))"

definition nod_assignNodeInfo ::
    "(string \<Rightarrow> bool) \<Rightarrow> (VipRow list \<Rightarrow> VipRow) \<Rightarrow> nat \<Rightarrow> string \<Rightarrow> RegistReq \<Rightarrow> Db \<Rightarrow> (Db \<times> NodeDetail res) option" where
  "nod_assignNodeInfo pat pick t uuid registReq d =
     (case t_one (in_line t (\<lambda>n. n_mac n = rq_macAddress registReq)) (d_node d) of
        Inl e \<Rightarrow> Some (d, Inl e)
      | Inr found \<Rightarrow>
     (case (case found of Some n \<Rightarrow> Inr (n, d) | None \<Rightarrow> new_node t uuid registReq d) of
        Inl e \<Rightarrow> Some (d, Inl e)
      | Inr (node, d1) \<Rightarrow> map_option (\<lambda>r.
          case bindR r (\<lambda>(node, d2). admit_node t registReq node d2) of
            Inl e \<Rightarrow> (d1, Inl e)
          | Inr (detail, d3) \<Rightarrow> (d3, Inr detail)) (ensure_vip pat pick t node d1)))"

section \<open>The service of the controller\<close>

definition vips_of :: "NodeRow list \<Rightarrow> string list" where
  "vips_of ns = concat (map (\<lambda>n. case n_vip n of None \<Rightarrow> [] | Some v \<Rightarrow> [v]) ns)"

text \<open>The address of a registered node is never null: the service has just assigned it.\<close>

definition node_config :: "nat \<Rightarrow> NodeDetail \<Rightarrow> Db \<Rightarrow> NodeConfig" where
  "node_config t detail d =
     \<lparr>nc_mac = nd_mac detail, nc_vip = (case nd_vip detail of None \<Rightarrow> '''' | Some v \<Rightarrow> v),
      nc_routeConfigList = map (\<lambda>(r, nodes). \<lparr>rc_name = Some (ro_name r), rc_destination = ro_destination r,
        rc_nexthop = Some (vips_of (nod_queryByIdList t nodes d))\<rparr>) (nd_routeList detail),
      nc_routeRuleConfigList = map (\<lambda>r. \<lparr>uc_name = Some (ru_name r), uc_strategy = Some (ru_strategy r), uc_direction = Some (ru_direction r),
        uc_ruleList = Some (ru_ruleList r), uc_level = Some (ru_level r)\<rparr>) (nd_routeRuleList detail),
      nc_vnatConfigList = map (\<lambda>(r, nodes). \<lparr>vc_name = Some (va_name r), vc_srcCidr = Some (va_srcCidr r), vc_dstCidr = Some (va_dstCidr r),
        vc_vipList = Some (vips_of (nod_queryByIdList t nodes d))\<rparr>) (nd_vnatList detail)\<rparr>"

definition dbs_hasTenant :: "Db \<Rightarrow> string \<Rightarrow> bool res" where
  "dbs_hasTenant d tenantCode = bindR (tnt_queryByTenantCode tenantCode d) (\<lambda>r. Inr (r \<noteq> None))"

definition dbs_getTenantConfig :: "(string \<Rightarrow> bool) \<Rightarrow> Db \<Rightarrow> string \<Rightarrow> TenantConfig option res" where
  "dbs_getTenantConfig pat d tenantCode =
     bindR (tnt_queryByTenantCode tenantCode d) (\<lambda>r.
     case r of
       None \<Rightarrow> Inr None
     | Some tenant \<Rightarrow> bindR (parseCidr pat (tn_cidr tenant)) (\<lambda>pool.
         Inr (Some \<lparr>tc_ipPool = pool, tc_stunServerList = tn_stunServerList tenant, tc_relayServerList = tn_relayServerList tenant\<rparr>)))"

definition dbs_assignNodeInfo ::
    "(string \<Rightarrow> bool) \<Rightarrow> (VipRow list \<Rightarrow> VipRow) \<Rightarrow> string \<Rightarrow> RegistReq \<Rightarrow> Db \<Rightarrow> (Db \<times> NodeConfig res) option" where
  "dbs_assignNodeInfo pat pick uuid registReq d =
     (case tnt_queryByTenantCode (rq_tenantId registReq) d of
        Inl e \<Rightarrow> Some (d, Inl e)
      | Inr None \<Rightarrow> Some (d, Inl ProcessException)
      | Inr (Some tenant) \<Rightarrow>
          map_option (\<lambda>(d', r). (d', bindR r (\<lambda>detail. Inr (node_config (r_id tenant) detail d'))))
            (nod_assignNodeInfo pat pick (r_id tenant) uuid registReq d))"

definition dbs_getStunServerList :: "Db \<Rightarrow> string \<Rightarrow> string list res" where
  "dbs_getStunServerList d tenantCode =
     bindR (tnt_queryByTenantCode tenantCode d) (\<lambda>r. case r of None \<Rightarrow> Inl ProcessException | Some tenant \<Rightarrow> Inr (tn_stunServerList tenant))"

definition dbs_getRelayServerList :: "Db \<Rightarrow> string \<Rightarrow> string list res" where
  "dbs_getRelayServerList d tenantCode =
     bindR (tnt_queryByTenantCode tenantCode d) (\<lambda>r. case r of None \<Rightarrow> Inl ProcessException | Some tenant \<Rightarrow> Inr (tn_relayServerList tenant))"

section \<open>The pool\<close>

lemma core_nod_joinGroup: "nod_joinGroup t n i d = Inr d' \<Longrightarrow> core d' = core d"
  by (auto simp: nod_joinGroup_def frame_simps split: option.splits)

lemma core_nod_joinGroups: "for_each (nod_joinGroup t n) l d = Inr d' \<Longrightarrow> core d' = core d"
  by (erule core_for_each) (rule core_nod_joinGroup)

definition pool :: "nat \<Rightarrow> Db \<Rightarrow> VipRow list" where
  "pool t d = t_list (in_line t (\<lambda>_. True)) (d_vip_pool d)"

definition held :: "nat \<Rightarrow> Db \<Rightarrow> string set" where
  "held t d = p_vip ` {r \<in> set (pool t d). p_used r}"

definition picks :: "(VipRow list \<Rightarrow> VipRow) \<Rightarrow> bool" where
  "picks pick \<longleftrightarrow> (\<forall>rs. rs \<noteq> [] \<longrightarrow> pick rs \<in> set rs)"

text \<open>The pool after a free row was taken.\<close>

definition mark_used :: "nat \<Rightarrow> Db \<Rightarrow> Db" where
  "mark_used i d = d\<lparr>d_vip_pool := t_update (has_id i) (\<lambda>r. r\<lparr>p_used := True\<rparr>) (d_vip_pool d)\<rparr>"

lemma in_line_True [simp]: "in_line t (\<lambda>_. True) r \<longleftrightarrow> r_tenant r = t"
  by (simp add: in_line_def)

lemma set_pool: "set (pool t d) = {r \<in> set (t_rows (d_vip_pool d)). r_tenant r = t}"
  by (simp add: pool_def)

lemma reuseIp_none: "(\<forall>r \<in> set (pool t d). p_used r) \<Longrightarrow> reuseIp pick t d = Some (None, d)"
  by (subst reuseIp.simps) (auto simp: t_list_Nil_iff set_pool in_line_def)

lemma reuseIp_some:
  assumes "picks pick" and ids: "wf_ids (d_vip_pool d)" and free: "r0 \<in> set (pool t d)" "\<not> p_used r0"
  shows "\<exists>r. r \<in> set (pool t d) \<and> \<not> p_used r \<and> reuseIp pick t d = Some (Some (p_vip r), mark_used (r_id r) d)"
proof -
  let ?l = "t_list (in_line t (\<lambda>r. \<not> p_used r)) (d_vip_pool d)"
  define r where "r = pick ?l"
  have ne: "?l \<noteq> []" using free by (auto simp: t_list_Nil_iff set_pool in_line_def)
  then have "r \<in> set ?l" using assms(1) by (simp add: picks_def r_def del: set_t_list)
  then have r: "r \<in> set (t_rows (d_vip_pool d))" "r_tenant r = t" "\<not> p_used r" by (auto simp: in_line_def)
  let ?p = "in_line t (\<lambda>x. has_id (r_id r) x \<and> \<not> p_used x)"
  have "?p x \<longleftrightarrow> has_id (r_id r) x" if "x \<in> set (t_rows (d_vip_pool d))" for x
    using wf_ids_eq [OF ids that r(1)] r by (auto simp: in_line_def has_id_def)
  then have "t_update ?p (\<lambda>r. r\<lparr>p_used := True\<rparr>) (d_vip_pool d) =
      t_update (has_id (r_id r)) (\<lambda>r. r\<lparr>p_used := True\<rparr>) (d_vip_pool d)"
    by (rule t_update_cong)
  moreover have "t_updated ?p (d_vip_pool d)" using r by (auto simp: t_updated_iff in_line_def has_id_def)
  ultimately have "reuseIp pick t d = Some (Some (p_vip r), mark_used (r_id r) d)"
    using ne by (subst reuseIp.simps) (simp add: Let_def mark_used_def r_def [symmetric])
  then show ?thesis using r by (auto simp: set_pool)
qed

section \<open>The index of a tenant\<close>

definition set_index :: "nat \<Rightarrow> jint \<Rightarrow> Db \<Rightarrow> Db" where
  "set_index i idx d = d\<lparr>d_tenant := t_update (has_id i) (\<lambda>r. r\<lparr>tn_ipIndex := idx\<rparr>) (d_tenant d)\<rparr>"

lemma tnt_queryById_Some: "tnt_queryById i d = Some tn \<Longrightarrow> tn \<in> set (t_rows (d_tenant d)) \<and> r_id tn = i"
  by (auto simp: tnt_queryById_def has_id_def t_list_def filter_eq_Cons_iff split: list.splits)

lemma tnt_queryById_in:
  "wf_ids (d_tenant d) \<Longrightarrow> tn \<in> set (t_rows (d_tenant d)) \<Longrightarrow> r_id tn = i \<Longrightarrow> tnt_queryById i d = Some tn"
  using t_list_unique [of r_id "d_tenant d" tn "has_id i"] by (simp add: wf_ids_def tnt_queryById_def has_id_def)

lemma updateIpIndex_hit:
  assumes "wf_ids (d_tenant d)" and tn: "tnt_queryById i d = Some tn"
  shows "tnt_updateIpIndex i (tn_ipIndex tn) idx d = (True, set_index i idx d)"
    and "old \<noteq> tn_ipIndex tn \<Longrightarrow> tnt_updateIpIndex i old idx d = (False, d)"
proof -
  have in_tn: "tn \<in> set (t_rows (d_tenant d))" "r_id tn = i" using tnt_queryById_Some [OF tn] by auto
  have u: "x = tn" if "x \<in> set (t_rows (d_tenant d))" "r_id x = i" for x
    by (rule wf_ids_eq [OF assms(1) that(1) in_tn(1)]) (simp add: that in_tn)
  then have "t_update (\<lambda>r. has_id i r \<and> tn_ipIndex r = tn_ipIndex tn) (\<lambda>r. r\<lparr>tn_ipIndex := idx\<rparr>) (d_tenant d) =
      t_update (has_id i) (\<lambda>r. r\<lparr>tn_ipIndex := idx\<rparr>) (d_tenant d)"
    by (intro t_update_cong) (auto simp: has_id_def)
  then show "tnt_updateIpIndex i (tn_ipIndex tn) idx d = (True, set_index i idx d)"
    using in_tn by (auto simp: tnt_updateIpIndex_def Let_def set_index_def t_updated_iff has_id_def)
  assume "old \<noteq> tn_ipIndex tn"
  then have n: "\<not> (has_id i r \<and> tn_ipIndex r = old)" if "r \<in> set (t_rows (d_tenant d))" for r using u that by (auto simp: has_id_def)
  then have "t_update (\<lambda>r. has_id i r \<and> tn_ipIndex r = old) f (d_tenant d) = d_tenant d" for f
    by (rule t_update_none)
  moreover have "\<not> t_updated (\<lambda>r. has_id i r \<and> tn_ipIndex r = old) (d_tenant d)" using n by (simp add: t_updated_iff)
  ultimately show "tnt_updateIpIndex i old idx d = (False, d)"
    by (simp add: tnt_updateIpIndex_def Let_def)
qed

text \<open>
  A caller that read the index before others advanced it walks up to the current one; the index it gets is
  new to all of them.
\<close>

lemma selectIdx_catches_up:
  assumes "wf_ids (d_tenant d)" and "tnt_queryById i d = Some tn" and "tn_ipIndex tn = idx + of_nat k"
    and "k < 2 ^ 32"
  shows "selectIdx i idx d = Some (tn_ipIndex tn + 1, set_index i (tn_ipIndex tn + 1) d)"
  using assms(3,4)
proof (induction k arbitrary: idx)
  case 0
  then show ?case using updateIpIndex_hit(1) [OF assms(1,2), of "tn_ipIndex tn + 1"] by (subst selectIdx.simps) (simp add: Let_def)
next
  case (Suc k)
  have "unat (of_nat (Suc k) :: jint) = Suc k" using Suc.prems(2) by (simp only: unat_of_nat) simp
  then have "(of_nat (Suc k) :: jint) \<noteq> 0" by (metis nat.distinct(1) unat_0)
  then have "idx \<noteq> tn_ipIndex tn" using Suc.prems(1) by simp
  moreover have "tn_ipIndex tn = (idx + 1) + of_nat k" using Suc.prems(1) by (simp add: algebra_simps)
  ultimately show ?case using Suc.IH [of "idx + 1"] Suc.prems(2) updateIpIndex_hit(2) [OF assms(1,2)]
    by (subst selectIdx.simps) (simp add: Let_def)
qed

lemma selectIdx_now:
  "wf_ids (d_tenant d) \<Longrightarrow> tnt_queryById i d = Some tn \<Longrightarrow>
   selectIdx i (tn_ipIndex tn) d = Some (tn_ipIndex tn + 1, set_index i (tn_ipIndex tn + 1) d)"
  using selectIdx_catches_up [of d i tn "tn_ipIndex tn" 0] by simp

section \<open>Addresses of a block\<close>

definition vip_at :: "nat \<Rightarrow> nat \<Rightarrow> string" where
  "vip_at b i = int2ip (of_nat (b + i))"

definition avail :: "nat \<Rightarrow> nat \<Rightarrow> nat \<Rightarrow> bool" where
  "avail b m i \<longleftrightarrow> isAvailableIp (cidr_of b m) (vip_at b i)"

lemma vip_at_inj:
  assumes "i < 2 ^ 31" and "j < 2 ^ 31" and "vip_at b i = vip_at b j"
  shows "i = j"
proof -
  have u: "unat (of_nat n :: jlong) mod 2 ^ 32 = n mod 2 ^ 32" for n
    by (simp only: unat_of_nat) (simp add: mod_mod_cancel)
  have "take_bit 32 (of_nat (b + i) :: jlong) = take_bit 32 (of_nat (b + j))"
    by (rule int2ip_inj32) (rule assms(3) [unfolded vip_at_def])
  from arg_cong [OF this, of unat] have "(b + i) mod 2 ^ 32 = (b + j) mod 2 ^ 32"
    unfolding unat_take_bit u .
  then have "i \<le> j \<Longrightarrow> 2 ^ 32 dvd j - i" "j \<le> i \<Longrightarrow> 2 ^ 32 dvd i - j"
    by (metis add_diff_cancel_left add_left_mono mod_eq_dvd_iff_nat)+
  then show ?thesis using assms(1,2) dvd_imp_le [of "2 ^ 32" "j - i"] dvd_imp_le [of "2 ^ 32" "i - j"]
    by (cases i j rule: linorder_cases) auto
qed

lemma index_word:
  assumes "- 1 \<le> j" and "j \<le> 2 ^ 30"
  shows "sint (of_int j :: jint) = j" and "i2l (of_int j) = of_int j"
proof -
  have "signed_take_bit 31 j = j" using assms by (intro signed_take_bit_int_eq_self) simp_all
  then show "sint (of_int j :: jint) = j" by (simp add: signed_of_int)
  then show "i2l (of_int j) = of_int j" by (simp add: i2l_def)
qed

lemma block_count:
  assumes "16 \<le> m" "m \<le> 32"
  shows "sint (addrCount (cidr_of b m)) = 2 ^ (32 - m)" and "(2::nat) ^ (32 - m) \<le> 2 ^ 16"
proof -
  show "(2::nat) ^ (32 - m) \<le> 2 ^ 16" using assms by (intro power_increasing) auto
  then have "unat (of_nat (2 ^ (32 - m)) :: jlong) = 2 ^ (32 - m)"
    by (simp only: unat_of_nat) simp
  then show "sint (addrCount (cidr_of b m)) = 2 ^ (32 - m)"
    using \<open>2 ^ (32 - m) \<le> 2 ^ 16\<close> by (simp add: cidr_of_def sint_small)
qed

lemma set_index_twice [simp]: "set_index i x (set_index i y d) = set_index i x d"
  by (auto simp: set_index_def t_update_def has_id_def)

lemma set_index_frame [simp]:
  "d_vip_pool (set_index i x d) = d_vip_pool d" "d_node (set_index i x d) = d_node d"
  by (simp_all add: set_index_def)

lemma wf_set_index: "wf_ids (d_tenant d) \<Longrightarrow> wf_ids (d_tenant (set_index i x d))"
  by (simp add: set_index_def wf_ids_update)

lemma queryById_set_index:
  assumes "wf_ids (d_tenant d)" and "tnt_queryById i d = Some tn"
  shows "tnt_queryById i (set_index i x d) = Some (tn\<lparr>tn_ipIndex := x\<rparr>)"
proof (rule tnt_queryById_in [OF wf_set_index [OF assms(1)]])
  show "tn\<lparr>tn_ipIndex := x\<rparr> \<in> set (t_rows (d_tenant (set_index i x d)))" "r_id (tn\<lparr>tn_ipIndex := x\<rparr>) = i"
    using tnt_queryById_Some [OF assms(2)] by (auto simp: set_index_def has_id_def intro: image_eqI [of _ _ tn])
qed

section \<open>The next address\<close>

lemma genIp_at: "is_block b m \<Longrightarrow> k \<le> 2 ^ 30 \<Longrightarrow> genIpByIdx (cidr_of b m) (i2l (of_nat k)) = Inr (vip_at b k)"
  using index_word(2) [of "int k"] by (simp add: genIpByIdx_cidr_of vip_at_def)

lemma assign_loop_block:
  assumes "wf_ids (d_tenant d)" and "tnt_queryById i d = Some tn" and "sint (tn_ipIndex tn) = j"
    and "- 1 \<le> j" and "j \<le> 2 ^ (32 - m) + 1" and "is_block b m" and "16 \<le> m"
  shows "assign_loop (cidr_of b m) i (tn_ipIndex tn) d =
    Some (case find (avail b m) [nat (j + 1) ..< 2 ^ (32 - m) + 2] of
            None \<Rightarrow> Inl (ProcessCodeException (MessageCode_number MC_NotEnough))
          | Some k \<Rightarrow> Inr (vip_at b k, set_index i (of_nat k) d))"
  using assms(1-5)
proof (induction "nat (2 ^ (32 - m) + 1 - j)" arbitrary: j tn d)
  case (0 j tn d)
  have m: "m \<le> 32" using assms(6) by (simp add: is_block_def)
  have "int (2 ^ (32 - m) + 2) = j + 1" using 0 by simp
  then have "nat (j + 1) = 2 ^ (32 - m) + 2" by (metis nat_int)
  with 0 m show ?case
    by (subst assign_loop.simps) (simp add: sint_i2l block_count [OF assms(7)])
next
  case (Suc n)
  have m: "m \<le> 32" using assms(6) by (simp add: is_block_def)
  note c = block_count [OF assms(7) m]
  have j: "j \<le> 2 ^ (32 - m)" using Suc.hyps(2) by linarith
  have small: "(2::int) ^ (32 - m) \<le> 2 ^ 16" using m assms(7) by (intro power_increasing) auto
  define k where "k = nat (j + 1)"
  have k: "int k = j + 1" "k \<le> 2 ^ 30" using Suc.prems(4) j small by (auto simp: k_def)
  have "tn_ipIndex tn = of_int j" unfolding Suc.prems(3) [symmetric] by simp
  moreover have "(of_nat k :: jint) = of_int (j + 1)" unfolding k(1) [symmetric] by simp
  ultimately have w: "tn_ipIndex tn + 1 = of_nat k" by simp
  let ?d = "set_index i (of_nat k) d" and ?tn = "tn\<lparr>tn_ipIndex := of_nat k\<rparr>"
  have sel: "selectIdx i (tn_ipIndex tn) d = Some (of_nat k, ?d)"
    using selectIdx_now [OF Suc.prems(1,2)] by (simp add: w)
  have "int k < int (2 ^ (32 - m) + 2)" using j k by simp
  then have up: "[k ..< 2 ^ (32 - m) + 2] = k # [Suc k ..< 2 ^ (32 - m) + 2]"
    by (intro upt_conv_Cons) (simp only: of_nat_less_iff)
  have not_end: "\<not> sint (addrCount (cidr_of b m)) < sint (i2l (tn_ipIndex tn))" using j Suc.prems(3) by (simp add: sint_i2l c(1))
  have "- 1 \<le> int k" "int k \<le> 2 ^ 30" using k(2) by simp_all
  from index_word(1) [OF this] have "sint (of_nat k :: jint) = int k" by (simp only: of_int_of_nat_eq)
  then have sk: "sint (of_nat k :: jint) = j + 1" by (simp only: k(1))
  have ih: "assign_loop (cidr_of b m) i (of_nat k) ?d =
    Some (case find (avail b m) [Suc k ..< 2 ^ (32 - m) + 2] of
            None \<Rightarrow> Inl (ProcessCodeException (MessageCode_number MC_NotEnough))
          | Some k \<Rightarrow> Inr (vip_at b k, set_index i (of_nat k) ?d))"
  proof -
    have n: "n = nat (2 ^ (32 - m) + 1 - (j + 1))" using Suc.hyps(2) by simp
    have nk: "nat (j + 1 + 1) = Suc k" using k(1) by linarith
    have "tn_ipIndex ?tn = of_nat k" by simp
    then show ?thesis
      using Suc.hyps(1) [OF n wf_set_index [OF Suc.prems(1)] queryById_set_index [OF Suc.prems(1,2)]] sk j Suc.prems(4)
      unfolding nk by (simp del: upt_Suc)
  qed
  show ?case
    unfolding k_def [symmetric] up
    by (subst assign_loop.simps) (simp add: not_end sel genIp_at [OF assms(6) k(2)] ih avail_def [symmetric] split: option.split del: upt_Suc)
qed

text \<open>
  A tenant whose pool is as the services leave it: the text of the pool parses to a block of at most 65536
  addresses, the index lies in the range that the loop can leave, and every address given so far has an index
  of its own that is not ahead of it.
\<close>

definition tenant_pool :: "(string \<Rightarrow> bool) \<Rightarrow> TenantRow \<Rightarrow> nat \<Rightarrow> nat \<Rightarrow> Db \<Rightarrow> bool" where
  "tenant_pool pat tn b m d \<longleftrightarrow>
     parseCidr pat (tn_cidr tn) = Inr (cidr_of b m) \<and> is_block b m \<and> 16 \<le> m \<and>
     - 1 \<le> sint (tn_ipIndex tn) \<and> sint (tn_ipIndex tn) \<le> 2 ^ (32 - m) + 1 \<and>
     (\<forall>r \<in> set (pool (r_id tn) d). \<exists>k. int k \<le> sint (tn_ipIndex tn) \<and> avail b m k \<and> p_vip r = vip_at b k)"

definition next_vip :: "nat \<Rightarrow> nat \<Rightarrow> TenantRow \<Rightarrow> nat option" where
  "next_vip b m tn = find (avail b m) [nat (sint (tn_ipIndex tn) + 1) ..< 2 ^ (32 - m) + 2]"

text \<open>An assignment takes a free address of the pool when there is one and the next of the block otherwise.\<close>

lemma assignIp_cases:
  assumes "picks pick" and "wf_ids (d_tenant d)" and "wf_ids (d_vip_pool d)" and tn: "tnt_queryById t d = Some tn"
    and ok: "tenant_pool pat tn b m d"
  obtains (reused) r where "r \<in> set (pool t d)" and "\<not> p_used r"
      and "assignIp pat pick t (Some tn) d = Some (Inr (p_vip r, mark_used (r_id r) d))"
    | (fresh) k where "\<forall>r \<in> set (pool t d). p_used r" and "next_vip b m tn = Some k"
      and "assignIp pat pick t (Some tn) d = Some (Inr (vip_at b k, insert_vip t (vip_at b k) (set_index t (of_nat k) d)))"
    | (refused) "\<forall>r \<in> set (pool t d). p_used r" and "next_vip b m tn = None"
      and "assignIp pat pick t (Some tn) d = Some (Inl (ProcessCodeException (MessageCode_number MC_NotEnough)))"
proof (cases "\<forall>r \<in> set (pool t d). p_used r")
  case True
  have "r_id tn = t" using tnt_queryById_Some [OF tn] by simp
  moreover have "assign_loop (cidr_of b m) t (tn_ipIndex tn) d =
    Some (case next_vip b m tn of
            None \<Rightarrow> Inl (ProcessCodeException (MessageCode_number MC_NotEnough))
          | Some k \<Rightarrow> Inr (vip_at b k, set_index t (of_nat k) d))"
    unfolding next_vip_def using ok assign_loop_block [OF assms(2) tn refl] by (simp add: tenant_pool_def)
  moreover have "parseCidr pat (tn_cidr tn) = Inr (cidr_of b m)" using ok by (simp add: tenant_pool_def)
  ultimately have e: "assignIp pat pick t (Some tn) d =
    Some (case next_vip b m tn of
            None \<Rightarrow> Inl (ProcessCodeException (MessageCode_number MC_NotEnough))
          | Some k \<Rightarrow> Inr (vip_at b k, insert_vip t (vip_at b k) (set_index t (of_nat k) d)))"
    by (simp add: assignIp_def reuseIp_none [OF True] split: option.splits)
  then show ?thesis using True fresh refused by (cases "next_vip b m tn") simp_all
next
  case False
  then obtain r0 where r0: "r0 \<in> set (pool t d)" "\<not> p_used r0" by blast
  obtain r where "r \<in> set (pool t d)" "\<not> p_used r" "reuseIp pick t d = Some (Some (p_vip r), mark_used (r_id r) d)"
    using reuseIp_some [OF assms(1,3) r0] by blast
  then show ?thesis by (intro reused) (simp_all add: assignIp_def)
qed

section \<open>The contract of the pool\<close>

text \<open>
  What the services of nodes rely on: an assignment returns, and gives an address of the tenant that nobody
  holds; a release frees just that address. Whoever keeps the list of the owners adds and removes accordingly.
\<close>

locale address_pool =
  fixes take_vip :: "nat \<Rightarrow> 's \<Rightarrow> (string \<times> 's) res option"
    and give_vip :: "nat \<Rightarrow> string \<Rightarrow> 's \<Rightarrow> 's"
    and taken_vips :: "'s \<Rightarrow> (nat \<times> string) set"
    and good :: "'s \<Rightarrow> bool"
  assumes take_returns: "good s \<Longrightarrow> \<exists>r. take_vip t s = Some r"
    and take_ok: "good s \<Longrightarrow> take_vip t s = Some (Inr (v, s')) \<Longrightarrow>
      good s' \<and> v \<noteq> '''' \<and> (t, v) \<notin> taken_vips s \<and> taken_vips s' = insert (t, v) (taken_vips s)"
    and give_ok: "good s \<Longrightarrow> good (give_vip t v s) \<and> taken_vips (give_vip t v s) = taken_vips s - {(t, v)}"
begin

definition owned :: "(nat \<times> string) list \<Rightarrow> 's \<Rightarrow> bool" where
  "owned os s \<longleftrightarrow> good s \<and> distinct os \<and> set os = taken_vips s"

lemma owned_take: "owned (os1 @ os2) s \<Longrightarrow> take_vip t s = Some (Inr (v, s')) \<Longrightarrow> owned (os1 @ (t, v) # os2) s'"
  using take_ok [of s t v s'] by (auto simp: owned_def)

lemma owned_give: "owned os s \<Longrightarrow> owned (removeAll (t, v) os) (give_vip t v s)"
  using give_ok [of s t v] by (auto simp: owned_def distinct_removeAll)

lemma owned_good: "owned os s \<Longrightarrow> good s"
  by (simp add: owned_def)

end

definition all_held :: "Db \<Rightarrow> (nat \<times> string) set" where
  "all_held d = (\<lambda>r. (r_tenant r, p_vip r)) ` {r \<in> set (t_rows (d_vip_pool d)). p_used r}"

definition pool_inv :: "(string \<Rightarrow> bool) \<Rightarrow> (VipRow list \<Rightarrow> VipRow) \<Rightarrow> Db \<Rightarrow> bool" where
  "pool_inv pat pick d \<longleftrightarrow> picks pick \<and> wf_ids (d_tenant d) \<and> wf_ids (d_vip_pool d) \<and>
     distinct (map (\<lambda>r. (r_tenant r, p_vip r)) (t_rows (d_vip_pool d))) \<and>
     (\<forall>r \<in> set (t_rows (d_vip_pool d)). p_vip r \<noteq> '''' \<and> r_tenant r < t_next (d_tenant d)) \<and>
     (\<forall>tn \<in> set (t_rows (d_tenant d)). \<exists>b m. tenant_pool pat tn b m d)"

definition take_address :: "(string \<Rightarrow> bool) \<Rightarrow> (VipRow list \<Rightarrow> VipRow) \<Rightarrow> nat \<Rightarrow> Db \<Rightarrow> (string \<times> Db) res option" where
  "take_address pat pick t d = assignIp pat pick t (tnt_queryById t d) d"

lemma pool_invD:
  assumes "pool_inv pat pick d"
  shows "picks pick" "wf_ids (d_tenant d)" "wf_ids (d_vip_pool d)"
    "distinct (map (\<lambda>r. (r_tenant r, p_vip r)) (t_rows (d_vip_pool d)))"
    "r \<in> set (t_rows (d_vip_pool d)) \<Longrightarrow> p_vip r \<noteq> '''' \<and> r_tenant r < t_next (d_tenant d)"
    "tn \<in> set (t_rows (d_tenant d)) \<Longrightarrow> \<exists>b m. tenant_pool pat tn b m d"
  using assms by (auto simp: pool_inv_def)

text \<open>Setting the marks of some rows changes nothing that the invariant speaks of.\<close>

lemma tenant_pool_cong:
  "map (\<lambda>r. (r_tenant r, p_vip r)) (t_rows (d_vip_pool d')) = map (\<lambda>r. (r_tenant r, p_vip r)) (t_rows (d_vip_pool d)) \<Longrightarrow>
   tenant_pool pat tn b m d' \<longleftrightarrow> tenant_pool pat tn b m d"
proof -
  assume "map (\<lambda>r. (r_tenant r, p_vip r)) (t_rows (d_vip_pool d')) = map (\<lambda>r. (r_tenant r, p_vip r)) (t_rows (d_vip_pool d))"
  then have e: "(\<lambda>r. (r_tenant r, p_vip r)) ` set (t_rows (d_vip_pool d')) = (\<lambda>r. (r_tenant r, p_vip r)) ` set (t_rows (d_vip_pool d))"
    by (metis set_map)
  have p: "(\<forall>r \<in> set (pool t d). Q (p_vip r)) \<longleftrightarrow> (\<forall>x \<in> (\<lambda>r. (r_tenant r, p_vip r)) ` set (t_rows (d_vip_pool d)). fst x = t \<longrightarrow> Q (snd x))" for t Q d
    by (auto simp: set_pool)
  show ?thesis
    unfolding tenant_pool_def p [where Q = "\<lambda>v. \<exists>k. int k \<le> sint (tn_ipIndex tn) \<and> avail b m k \<and> v = vip_at b k"] e ..
qed

lemma pool_inv_marks:
  assumes "pool_inv pat pick d" and f: "\<And>r. r_id (f r) = r_id r \<and> r_tenant (f r) = r_tenant r \<and> p_vip (f r) = p_vip r"
  shows "pool_inv pat pick (d\<lparr>d_vip_pool := t_update p f (d_vip_pool d)\<rparr>)"
proof -
  let ?T = "t_update p f (d_vip_pool d)" and ?d = "d\<lparr>d_vip_pool := t_update p f (d_vip_pool d)\<rparr>"
  have e: "d_vip_pool ?d = ?T" "d_tenant ?d = d_tenant d" by simp_all
  have m: "map (\<lambda>r. (r_tenant r, p_vip r)) (t_rows ?T) = map (\<lambda>r. (r_tenant r, p_vip r)) (t_rows (d_vip_pool d))"
    by (simp add: f)
  have "\<forall>r \<in> set (t_rows ?T). p_vip r \<noteq> '''' \<and> r_tenant r < t_next (d_tenant d)"
    using pool_invD(5) [OF assms(1)] f by auto
  moreover have "wf_ids ?T" using pool_invD(3) [OF assms(1)] by (rule wf_ids_update) (simp add: f)
  moreover have "tenant_pool pat tn b m ?d \<longleftrightarrow> tenant_pool pat tn b m d" for tn b m
    by (rule tenant_pool_cong) (simp only: e m)
  ultimately show ?thesis
    using pool_invD [OF assms(1)] unfolding pool_inv_def e m by simp
qed

lemma pool_row_eq:
  "pool_inv pat pick d \<Longrightarrow> r \<in> set (t_rows (d_vip_pool d)) \<Longrightarrow> s \<in> set (t_rows (d_vip_pool d)) \<Longrightarrow>
   r_tenant r = r_tenant s \<Longrightarrow> p_vip r = p_vip s \<Longrightarrow> r = s"
  using pool_invD(4) [of pat pick d] by (auto simp: distinct_map inj_on_def)

lemma all_held_iff: "x \<in> all_held d \<longleftrightarrow> (\<exists>r \<in> set (t_rows (d_vip_pool d)). p_used r \<and> x = (r_tenant r, p_vip r))"
  by (auto simp: all_held_def)

lemma bex_update: "(\<exists>y \<in> set (t_rows (t_update p f T)). Q y) \<longleftrightarrow> (\<exists>x \<in> set (t_rows T). Q (if p x then f x else x))"
  unfolding t_update_simps set_map by blast

lemma mark_used_law:
  assumes "pool_inv pat pick d" and "r \<in> set (pool t d)" and "\<not> p_used r"
  shows "pool_inv pat pick (mark_used (r_id r) d)" and "(t, p_vip r) \<notin> all_held d"
    and "all_held (mark_used (r_id r) d) = insert (t, p_vip r) (all_held d)"
proof -
  show "pool_inv pat pick (mark_used (r_id r) d)" unfolding mark_used_def by (rule pool_inv_marks [OF assms(1)]) simp
  have r: "r \<in> set (t_rows (d_vip_pool d))" "r_tenant r = t" using assms(2) by (auto simp: set_pool)
  show "(t, p_vip r) \<notin> all_held d"
    using pool_row_eq [OF assms(1) r(1)] r assms(3) by (auto simp: all_held_iff)
  have u: "x = r" if "x \<in> set (t_rows (d_vip_pool d))" "r_id x = r_id r" for x
    using wf_ids_eq [OF pool_invD(3) [OF assms(1)] that(1) r(1) that(2)] .
  have e: "d_vip_pool (mark_used (r_id r) d) = t_update (has_id (r_id r)) (\<lambda>r. r\<lparr>p_used := True\<rparr>) (d_vip_pool d)"
    by (simp add: mark_used_def)
  show "all_held (mark_used (r_id r) d) = insert (t, p_vip r) (all_held d)"
  proof (intro set_eqI iffI)
    fix x
    show "x \<in> insert (t, p_vip r) (all_held d)" if "x \<in> all_held (mark_used (r_id r) d)"
      using that u r unfolding all_held_iff e bex_update by (auto simp: has_id_def all_held_iff split: if_splits)
    show "x \<in> all_held (mark_used (r_id r) d)" if "x \<in> insert (t, p_vip r) (all_held d)"
      using that r unfolding all_held_iff e bex_update by (auto simp: has_id_def all_held_iff)
  qed
qed

lemma release_law:
  assumes "pool_inv pat pick d"
  shows "pool_inv pat pick (release_vip t v d)" and "all_held (release_vip t v d) = all_held d - {(t, v)}"
proof -
  show "pool_inv pat pick (release_vip t v d)" unfolding release_vip_def by (rule pool_inv_marks [OF assms(1)]) simp
  have e: "d_vip_pool (release_vip t v d) = t_update (in_line t (\<lambda>r. p_vip r = v)) (\<lambda>r. r\<lparr>p_used := False\<rparr>) (d_vip_pool d)"
    by (simp add: release_vip_def)
  show "all_held (release_vip t v d) = all_held d - {(t, v)}"
    by (rule set_eqI) (unfold all_held_iff e bex_update Diff_iff, auto simp: in_line_def split: if_splits)
qed

lemma next_vip_Some:
  "next_vip b m tn = Some k \<Longrightarrow> avail b m k \<and> sint (tn_ipIndex tn) < int k \<and> k \<le> 2 ^ (32 - m) + 1"
proof -
  assume "next_vip b m tn = Some k"
  from find_SomeD [OF this [unfolded next_vip_def]]
  have "avail b m k" "nat (sint (tn_ipIndex tn) + 1) \<le> k" "k < 2 ^ (32 - m) + 2" by (simp_all del: upt_Suc)
  then show ?thesis by linarith
qed

lemma vip_at_not_empty: "vip_at b k \<noteq> ''''"
  by (simp add: vip_at_def int2ip_quad quad_str_def)

lemma fresh_law:
  assumes inv: "pool_inv pat pick d" and tn: "tnt_queryById t d = Some tn" and ok: "tenant_pool pat tn b m d"
    and k: "next_vip b m tn = Some k"
  shows "pool_inv pat pick (insert_vip t (vip_at b k) (set_index t (of_nat k) d))"
    and "(t, vip_at b k) \<notin> all_held d" and "all_held (insert_vip t (vip_at b k) (set_index t (of_nat k) d)) = insert (t, vip_at b k) (all_held d)"
proof -
  let ?d = "insert_vip t (vip_at b k) (set_index t (of_nat k) d)"
  note in_tn = tnt_queryById_Some [OF tn] and k' = next_vip_Some [OF k]
  let ?row = "\<lambda>i. \<lparr>r_id = i, r_tenant = t, p_vip = vip_at b k, p_used = True\<rparr>"
  have e: "d_vip_pool ?d = snd (t_insert ?row (d_vip_pool d))" "d_tenant ?d = t_update (has_id t) (\<lambda>r. r\<lparr>tn_ipIndex := of_nat k\<rparr>) (d_tenant d)"
    by (simp_all add: insert_vip_def set_index_def)
  have m: "16 \<le> m" "m \<le> 32" using ok by (auto simp: tenant_pool_def is_block_def)
  have k31: "k < 2 ^ 31" using block_count(2) [OF m] k' by simp
  have "p_vip r \<noteq> vip_at b k" if r: "r \<in> set (t_rows (d_vip_pool d))" "r_tenant r = t" for r
  proof -
    obtain j where "int j \<le> sint (tn_ipIndex tn)" "p_vip r = vip_at b j"
      using ok r in_tn by (auto simp: tenant_pool_def set_pool)
    with k' k31 show ?thesis using vip_at_inj [of j k b] by auto
  qed
  then have new: "(t, vip_at b k) \<notin> (\<lambda>r. (r_tenant r, p_vip r)) ` set (t_rows (d_vip_pool d))"
    unfolding image_iff by (metis prod.inject)
  then show "(t, vip_at b k) \<notin> all_held d" by (auto simp: all_held_def)
  show "all_held ?d = insert (t, vip_at b k) (all_held d)"
    by (rule set_eqI) (unfold all_held_iff insert_iff e t_insert_simps set_append, auto)
  have "- 1 \<le> int k" "int k \<le> 2 ^ 30" using block_count(2) [OF m] k' by (simp_all flip: of_nat_le_iff)
  from index_word(1) [OF this] have sk: "sint (of_nat k :: jint) = int k" by (simp only: of_int_of_nat_eq)
  have own: "tenant_pool pat (tn\<lparr>tn_ipIndex := of_nat k\<rparr>) b m ?d"
    unfolding tenant_pool_def
  proof (intro conjI ballI)
    have "int k \<le> int (2 ^ (32 - m) + 1)" using k' by (simp only: of_nat_le_iff)
    then show "sint (tn_ipIndex (tn\<lparr>tn_ipIndex := of_nat k\<rparr>)) \<le> 2 ^ (32 - m) + 1" by (simp add: sk)
    fix r
    assume "r \<in> set (pool (r_id (tn\<lparr>tn_ipIndex := of_nat k\<rparr>)) ?d)"
    then have "r \<in> set (pool t d) \<or> r = ?row (t_next (d_vip_pool d))" using in_tn by (auto simp: set_pool e)
    then have "r \<in> set (pool t d) \<or> p_vip r = vip_at b k" by (elim disjE) simp_all
    then show "\<exists>j. int j \<le> sint (tn_ipIndex (tn\<lparr>tn_ipIndex := of_nat k\<rparr>)) \<and> avail b m j \<and> p_vip r = vip_at b j"
    proof
      assume "r \<in> set (pool t d)"
      then obtain j where "int j \<le> sint (tn_ipIndex tn)" "avail b m j" "p_vip r = vip_at b j"
        using ok in_tn unfolding tenant_pool_def by blast
      then show ?thesis using k' by (intro exI [of _ j]) (simp add: sk)
    next
      assume "p_vip r = vip_at b k"
      then show ?thesis using k' by (intro exI [of _ k]) (simp add: sk)
    qed
  qed (use ok in \<open>simp_all add: tenant_pool_def sk\<close>)
  have tenants: "\<exists>b m. tenant_pool pat x b m ?d" if x: "x \<in> set (t_rows (d_tenant ?d))" for x
  proof (cases "r_id x = t")
    case True
    then obtain y where y: "y \<in> set (t_rows (d_tenant d))" "r_id y = t" "x = y\<lparr>tn_ipIndex := of_nat k\<rparr>"
      using x unfolding e by (auto simp: has_id_def split: if_splits)
    have "y = tn" using wf_ids_eq [OF pool_invD(2) [OF inv] y(1)] in_tn y(2) by simp
    then have "tenant_pool pat x b m ?d" using own y(3) by simp
    then show ?thesis by blast
  next
    case False
    then have "x \<in> set (t_rows (d_tenant d))" using x unfolding e by (auto simp: has_id_def split: if_splits)
    then obtain b m where "tenant_pool pat x b m d" using pool_invD(6) [OF inv] by blast
    then show ?thesis using False by (intro exI [of _ b] exI [of _ m]) (auto simp: tenant_pool_def set_pool e)
  qed
  have "t < t_next (d_tenant d)" using pool_invD(2) [OF inv] in_tn by (auto simp: wf_ids_def)
  have "wf_ids (d_tenant ?d)" "wf_ids (d_vip_pool ?d)"
    using wf_ids_update [OF pool_invD(2) [OF inv]] wf_ids_insert [OF pool_invD(3) [OF inv]] unfolding e by auto
  then show "pool_inv pat pick ?d"
    using \<open>t < t_next (d_tenant d)\<close> pool_invD(1,4,5) [OF inv] new tenants vip_at_not_empty [of b k]
    unfolding pool_inv_def by (auto simp: e)
qed

interpretation vip_pool: address_pool "take_address pat pick" release_vip all_held "pool_inv pat pick" for pat pick
proof
  fix d :: Db and t v d'
  assume inv: "pool_inv pat pick d"
  note p = pool_invD(1-3) [OF inv]
  have cases: "\<exists>r. take_address pat pick t d = Some r \<and> (\<forall>v d'. r = Inr (v, d') \<longrightarrow>
      pool_inv pat pick d' \<and> v \<noteq> '''' \<and> (t, v) \<notin> all_held d \<and> all_held d' = insert (t, v) (all_held d))"
  proof (cases "tnt_queryById t d")
    case (Some tn)
    then obtain b m where ok: "tenant_pool pat tn b m d" using tnt_queryById_Some pool_invD(6) [OF inv] by blast
    from p Some ok show ?thesis
    proof (cases rule: assignIp_cases)
      case (reused r)
      then have "p_vip r \<noteq> ''''" using pool_invD(5) [OF inv] by (simp add: set_pool)
      with reused show ?thesis using mark_used_law [OF inv reused(1,2)] by (simp add: take_address_def Some)
    next
      case (fresh k)
      then show ?thesis using fresh_law [OF inv Some ok fresh(2)] vip_at_not_empty by (simp add: take_address_def Some)
    qed (simp add: take_address_def Some)
  next
    case None
    show ?thesis
    proof (cases "\<forall>r \<in> set (pool t d). p_used r")
      case True
      then show ?thesis by (simp add: take_address_def None assignIp_def reuseIp_none)
    next
      case False
      then obtain r where "r \<in> set (pool t d)" "\<not> p_used r" "reuseIp pick t d = Some (Some (p_vip r), mark_used (r_id r) d)"
        using reuseIp_some [OF p(1,3)] by blast
      moreover from this have "p_vip r \<noteq> ''''" using pool_invD(5) [OF inv] by (simp add: set_pool)
      ultimately show ?thesis using mark_used_law [OF inv] by (simp add: take_address_def None assignIp_def)
    qed
  qed
  then show "\<exists>r. take_address pat pick t d = Some r" by blast
  show "pool_inv pat pick d' \<and> v \<noteq> '''' \<and> (t, v) \<notin> all_held d \<and> all_held d' = insert (t, v) (all_held d)"
    if "take_address pat pick t d = Some (Inr (v, d'))"
    using cases that by auto
  show "pool_inv pat pick (release_vip t v d) \<and> all_held (release_vip t v d) = all_held d - {(t, v)}"
    using release_law [OF inv] by blast
qed

end
