(* ===== verification/ConsoleControllers.thy ===== *)
theory ConsoleControllers
  imports NodeService
begin

text \<open>
  What the HTTP controllers of the console do before and after they call a service: the checks of the requests
  (\<open>EditRouteRequest.check\<close> and its siblings) and the test that what a request names exists. Whether a STUN or
  a relay server answers a bind request is a parameter. The pushes to the clients after a change belong to the
  controller server and do not touch the database.
\<close>

fun check_each :: "('a \<Rightarrow> unit res) \<Rightarrow> 'a list \<Rightarrow> unit res" where
  "check_each f [] = Inr ()"
| "check_each f (x # xs) = bindR (f x) (\<lambda>_. check_each f xs)"

text \<open>\<open>catch (Exception e) { throw new ProcessException(...) }\<close>\<close>

definition as_process :: "'a res \<Rightarrow> unit res" where
  "as_process r = (case r of Inl e \<Rightarrow> Inl ProcessException | Inr _ \<Rightarrow> Inr ())"

section \<open>Routes, rules and translations\<close>

definition rte_check :: "(string \<Rightarrow> bool) \<Rightarrow> EditRouteRequest \<Rightarrow> unit res" where
  "rte_check pat request = as_process (parseCidr pat (er_destination request))"

definition nodes_exist :: "nat \<Rightarrow> nat list option \<Rightarrow> Db \<Rightarrow> unit res" where
  "nodes_exist t l d =
     (case l of None \<Rightarrow> Inr () | Some ids \<Rightarrow> check_each (\<lambda>i. guardR (nod_existsNode t i d) ProcessException) ids)"

definition RouteController_add :: "(string \<Rightarrow> bool) \<Rightarrow> nat \<Rightarrow> EditRouteRequest \<Rightarrow> Db \<Rightarrow> Db res" where
  "RouteController_add pat t request d =
     bindR (rte_check pat request) (\<lambda>_. bindR (nodes_exist t (er_nodeIdList request) d) (\<lambda>_. rte_add t request d))"

definition RouteController_edit :: "(string \<Rightarrow> bool) \<Rightarrow> nat \<Rightarrow> EditRouteRequest \<Rightarrow> Db \<Rightarrow> Db res" where
  "RouteController_edit pat t request d =
     bindR (rte_check pat request) (\<lambda>_. bindR (nodes_exist t (er_nodeIdList request) d) (\<lambda>_. rte_edit t request d))"

definition rul_checkIpRange :: "(string \<Rightarrow> bool) \<Rightarrow> string \<Rightarrow> unit res" where
  "rul_checkIpRange pat rng =
     (let split = java_split CHR ''-'' rng in
      if length split \<noteq> 2 then Inl ProcessException
      else if \<not> pat (split ! 0) then Inl ProcessException
      else if \<not> pat (split ! 1) then Inl ProcessException
      else Inr ())"

definition rul_check :: "(string \<Rightarrow> bool) \<Rightarrow> EditRouteRuleRequest \<Rightarrow> unit res" where
  "rul_check pat request =
     check_each (\<lambda>rule.
       if pat rule then Inr ()
       else if CHR ''-'' \<in> set rule then rul_checkIpRange pat rule
       else as_process (parseCidr pat rule)) (eu_ruleList request)"

definition RouteRuleController_add :: "(string \<Rightarrow> bool) \<Rightarrow> nat \<Rightarrow> EditRouteRuleRequest \<Rightarrow> Db \<Rightarrow> Db res" where
  "RouteRuleController_add pat t request d = bindR (rul_check pat request) (\<lambda>_. rul_add t request d)"

definition RouteRuleController_edit :: "(string \<Rightarrow> bool) \<Rightarrow> nat \<Rightarrow> EditRouteRuleRequest \<Rightarrow> Db \<Rightarrow> Db res" where
  "RouteRuleController_edit pat t request d = bindR (rul_check pat request) (\<lambda>_. rul_edit t request d)"

definition vnt_check :: "(string \<Rightarrow> bool) \<Rightarrow> EditVNATRequest \<Rightarrow> unit res" where
  "vnt_check pat request =
     bindR (as_process (parseCidr pat (ev_srcCidr request))) (\<lambda>_. as_process (parseCidr pat (ev_dstCidr request)))"

definition VNATController_add :: "(string \<Rightarrow> bool) \<Rightarrow> nat \<Rightarrow> EditVNATRequest \<Rightarrow> Db \<Rightarrow> Db res" where
  "VNATController_add pat t request d = bindR (vnt_check pat request) (\<lambda>_. vnt_add pat t request d)"

definition VNATController_edit :: "(string \<Rightarrow> bool) \<Rightarrow> nat \<Rightarrow> EditVNATRequest \<Rightarrow> Db \<Rightarrow> Db res" where
  "VNATController_edit pat t request d = bindR (vnt_check pat request) (\<lambda>_. vnt_edit pat t request d)"

section \<open>Groups\<close>

definition exists_row :: "nat \<Rightarrow> 'a tenant_row_scheme tab \<Rightarrow> nat \<Rightarrow> unit res" where
  "exists_row t T i = guardR (selectById t i T \<noteq> None) ProcessException"

definition GroupController_updateMemberList :: "nat \<Rightarrow> EditGroupMemberRequest \<Rightarrow> Db \<Rightarrow> Db res" where
  "GroupController_updateMemberList t request d =
     bindR (check_each (exists_row t (d_node d)) (em_nodeIdList request)) (\<lambda>_.
     bindR (check_each (exists_row t (d_route d)) (em_routeIdList request)) (\<lambda>_.
     bindR (check_each (exists_row t (d_route_rule d)) (em_routeRuleIdList request)) (\<lambda>_.
     bindR (check_each (exists_row t (d_vnat d)) (em_vnatIdList request)) (\<lambda>_.
     Inr (grp_updateMemberList t request d)))))"

section \<open>Tenants\<close>

text \<open>\<open>SocketAddressUtil.parse\<close>: host and port; the socket address refuses a port outside its range.\<close>

definition socket_parse :: "string \<Rightarrow> (string \<times> jint) res" where
  "socket_parse address =
     (let split = java_split CHR '':'' address in
      bindR (atR split 0) (\<lambda>addr.
      bindR (atR split 1) (\<lambda>p.
      bindR (parseInt p) (\<lambda>port.
      bindR (guardR (0 \<le> sint port \<and> sint port \<le> 65535) IllegalArgumentException) (\<lambda>_. Inr (addr, port))))))"

text \<open>The pool of a tenant has a prefix of at least 16 bits.\<close>

definition tnt_checkPool :: "(string \<Rightarrow> bool) \<Rightarrow> string \<Rightarrow> unit res" where
  "tnt_checkPool pat text =
     (case parseCidr pat text of
        Inl e \<Rightarrow> Inl ProcessException
      | Inr cidrPool \<Rightarrow> guardR (\<not> sint (maskBits cidrPool) < 16) ProcessException)"

text \<open>The pattern \<open>^\w{6,18}\<close> has no end: six word characters at the start are enough.\<close>

definition word_char :: "char \<Rightarrow> bool" where
  "word_char c \<longleftrightarrow> c \<in> set ''abcdefghijklmnopqrstuvwxyzABCDEFGHIJKLMNOPQRSTUVWXYZ0123456789_''"

definition pwd_find :: "string \<Rightarrow> bool" where
  "pwd_find s \<longleftrightarrow> 6 \<le> length (takeWhile word_char s)"

definition tnt_check :: "(string \<Rightarrow> bool) \<Rightarrow> EditTenantRequest \<Rightarrow> unit res" where
  "tnt_check pat request =
     bindR (tnt_checkPool pat (et_cidr request)) (\<lambda>_.
     bindR (case et_password request of
              None \<Rightarrow> Inr ()
            | Some password \<Rightarrow> if password = '''' then Inr () else guardR (pwd_find password) ProcessException) (\<lambda>_.
     bindR (check_each (\<lambda>socket. as_process (socket_parse socket)) (et_stunServerList request)) (\<lambda>_.
     check_each (\<lambda>socket. as_process (socket_parse socket)) (et_relayServerList request))))"

text \<open>\<open>sendBind(...).get()\<close> of the two clients: whether the server answers in time.\<close>

record server_probe =
  pr_stun :: "string \<times> jint \<Rightarrow> bool"
  pr_relay :: "string \<times> jint \<Rightarrow> bool"

definition checkServerList :: "server_probe \<Rightarrow> string list \<Rightarrow> string list \<Rightarrow> unit res" where
  "checkServerList W stunServerList relayServerList =
     bindR (check_each (\<lambda>server. as_process (bindR (socket_parse server) (\<lambda>a. guardR (pr_stun W a) ProcessException))) stunServerList) (\<lambda>_.
     check_each (\<lambda>server. as_process (bindR (socket_parse server) (\<lambda>a. guardR (pr_relay W a) ProcessException))) relayServerList)"

definition TenantController_add :: "(string \<Rightarrow> bool) \<Rightarrow> server_probe \<Rightarrow> EditTenantRequest \<Rightarrow> Db \<Rightarrow> Db res" where
  "TenantController_add pat W request d =
     bindR (tnt_check pat request) (\<lambda>_.
     bindR (checkServerList W (et_stunServerList request) (et_relayServerList request)) (\<lambda>_. tnt_add request d))"

definition TenantController_edit :: "(string \<Rightarrow> bool) \<Rightarrow> server_probe \<Rightarrow> EditTenantRequest \<Rightarrow> Db \<Rightarrow> Db res" where
  "TenantController_edit pat W request d =
     bindR (tnt_check pat request) (\<lambda>_.
     bindR (checkServerList W (et_stunServerList request) (et_relayServerList request)) (\<lambda>_. tnt_edit request d))"

section \<open>What the checks establish\<close>

lemma check_each_Inr: "check_each f xs = Inr () \<longleftrightarrow> (\<forall>x \<in> set xs. f x = Inr ())"
  by (induction xs) (auto simp: res_simps)

lemma as_process_Inr: "as_process r = Inr u \<longleftrightarrow> (\<exists>x. r = Inr x)"
  by (cases r) (simp_all add: as_process_def)

lemma guardR_Inr: "guardR b e = Inr u \<longleftrightarrow> b"
  by (simp add: guardR_def)

lemma core_controllers:
  "RouteController_add pat t r d = Inr d' \<Longrightarrow> core d' = core d" "RouteController_edit pat t r d = Inr d' \<Longrightarrow> core d' = core d"
  "RouteRuleController_add pat t u d = Inr d' \<Longrightarrow> core d' = core d" "RouteRuleController_edit pat t u d = Inr d' \<Longrightarrow> core d' = core d"
  "VNATController_add pat t v d = Inr d' \<Longrightarrow> core d' = core d" "VNATController_edit pat t v d = Inr d' \<Longrightarrow> core d' = core d"
  "GroupController_updateMemberList t g d = Inr d' \<Longrightarrow> core d' = core d"
  by (auto simp: RouteController_add_def RouteController_edit_def RouteRuleController_add_def RouteRuleController_edit_def
    VNATController_add_def VNATController_edit_def GroupController_updateMemberList_def res_simps frame_simps dest: core_services)

text \<open>
  A text that passes the check of a rule is a rule that the nodes can parse, unless it holds a line terminator:
  the pattern of an address also matches before a final one, the number at the end of a range does not.
\<close>

definition one_line :: "string \<Rightarrow> bool" where
  "one_line s \<longleftrightarrow> (\<forall>c \<in> set s. \<not> is_eol c)"

lemma split_all_chars: "p \<in> set (split_all c s) \<Longrightarrow> set p \<subseteq> set s"
proof (induction s arbitrary: p)
  case (Cons a s)
  then show ?case by (cases "split_all c s") (fastforce split: if_splits)+
qed simp

lemma java_split_chars: "p \<in> set (java_split c s) \<Longrightarrow> set p \<subseteq> set s"
  using set_dropWhileD [of p "\<lambda>p. p = []" "rev (split_all c s)"] split_all_chars [of p c s]
  by (simp add: java_split_def split: if_splits)

lemma rul_check_parses:
  assumes "ipv4_pattern pat" and "rul_check pat request = Inr ()" and "rule \<in> set (eu_ruleList request)" and "one_line rule"
  shows "\<exists>p. rule_parse pat rule = Inr p"
proof -
  have num: "\<exists>w. ip2long s = Inr w" if "pat s" "s \<in> set (java_split CHR ''-'' rule)" for s
  proof -
    have "\<not> is_eol (last s)" if "s \<noteq> []"
      using assms(4) java_split_chars [OF \<open>s \<in> _\<close>] last_in_set [OF that] by (auto simp: one_line_def)
    then have "quad_match s" using ipv4_pattern.pat_isIPv4 [OF assms(1) that(1)] isIPv4_quad_match by blast
    then show ?thesis using ip2long_num by blast
  qed
  have "\<exists>p. parseIpRange pat rule = Inr p" if "rul_checkIpRange pat rule = Inr ()"
  proof -
    let ?l = "java_split CHR ''-'' rule"
    have l: "length ?l = 2" "pat (?l ! 0)" "pat (?l ! 1)" using that by (auto simp: rul_checkIpRange_def Let_def split: if_splits)
    then have "?l ! 0 \<in> set ?l" "?l ! 1 \<in> set ?l" by simp_all
    then obtain u v where "ip2long (?l ! 0) = Inr u" "ip2long (?l ! 1) = Inr v" using num l by blast
    then show ?thesis using l by (simp add: parseIpRange_def Let_def)
  qed
  moreover have "pat rule \<or> (if CHR ''-'' \<in> set rule then rul_checkIpRange pat rule = Inr () else \<exists>c. parseCidr pat rule = Inr c)"
    using assms(2,3) by (auto simp: rul_check_def check_each_Inr as_process_Inr split: if_splits)
  ultimately show ?thesis by (auto simp: rule_parse_def split: sum.splits)
qed

end
