(* ===== verification/Console.thy ===== *)
theory Console
  imports ConsoleControllers
begin

text \<open>
  The console as a whole: any sequence of requests to its services, from the empty database of the schema. A
  request runs in the transaction of its service: what throws leaves the database as it was, except that a
  registration may leave the new node. Two invariants hold of every database that is reached: the owners of
  addresses are exactly the marked rows of the pools, each address with one owner, and the nodes of a route
  exist.
\<close>

section \<open>Requests\<close>

datatype console_request =
    NodeAdd EditNodeRequest
  | NodeEdit EditNodeRequest
  | NodeDel EditNodeRequest
  | NodeRegist string RegistReq
  | GroupAdd EditGroupRequest
  | GroupEdit EditGroupRequest
  | GroupDel EditGroupRequest
  | GroupMembers EditGroupMemberRequest
  | RouteAdd EditRouteRequest
  | RouteEdit EditRouteRequest
  | RouteDel EditRouteRequest
  | RuleAdd EditRouteRuleRequest
  | RuleEdit EditRouteRuleRequest
  | RuleDel EditRouteRuleRequest
  | VNATAdd EditVNATRequest
  | VNATEdit EditVNATRequest
  | VNATDel EditVNATRequest
  | TenantAdd server_probe EditTenantRequest
  | TenantEdit server_probe EditTenantRequest
  | TenantDel EditTenantRequest

definition commit :: "Db \<Rightarrow> Db res \<Rightarrow> Db" where
  "commit d r = (case r of Inl e \<Rightarrow> d | Inr d' \<Rightarrow> d')"

text \<open>
  The tenant of the thread comes from the session of the user; a registration brings its own. The parameter
  \<open>ok\<close> of the reachable databases restricts the requests that are made.
\<close>

fun handle :: "(string \<Rightarrow> bool) \<Rightarrow> (VipRow list \<Rightarrow> VipRow) \<Rightarrow> nat \<Rightarrow> console_request \<Rightarrow> Db \<Rightarrow> Db option" where
  "handle pat pick t (NodeAdd r) d = map_option (commit d) (nod_add pat pick t r d)"
| "handle pat pick t (NodeEdit r) d = Some (commit d (nod_edit t r d))"
| "handle pat pick t (NodeDel r) d = Some (commit d (nod_del t r d))"
| "handle pat pick t (NodeRegist uuid r) d = map_option fst (dbs_assignNodeInfo pat pick uuid r d)"
| "handle pat pick t (GroupAdd r) d = Some (commit d (grp_add t r d))"
| "handle pat pick t (GroupEdit r) d = Some (commit d (grp_edit t r d))"
| "handle pat pick t (GroupDel r) d = Some (commit d (grp_del t r d))"
| "handle pat pick t (GroupMembers r) d = Some (commit d (GroupController_updateMemberList t r d))"
| "handle pat pick t (RouteAdd r) d = Some (commit d (RouteController_add pat t r d))"
| "handle pat pick t (RouteEdit r) d = Some (commit d (RouteController_edit pat t r d))"
| "handle pat pick t (RouteDel r) d = Some (commit d (rte_del t r d))"
| "handle pat pick t (RuleAdd r) d = Some (commit d (RouteRuleController_add pat t r d))"
| "handle pat pick t (RuleEdit r) d = Some (commit d (RouteRuleController_edit pat t r d))"
| "handle pat pick t (RuleDel r) d = Some (commit d (rul_del t r d))"
| "handle pat pick t (VNATAdd r) d = Some (commit d (VNATController_add pat t r d))"
| "handle pat pick t (VNATEdit r) d = Some (commit d (VNATController_edit pat t r d))"
| "handle pat pick t (VNATDel r) d = Some (commit d (vnt_del t r d))"
| "handle pat pick t (TenantAdd W r) d = Some (commit d (TenantController_add pat W r d))"
| "handle pat pick t (TenantEdit W r) d = Some (commit d (TenantController_edit pat W r d))"
| "handle pat pick t (TenantDel r) d = Some (commit d (tnt_del r d))"

inductive console_reached :: "(string \<Rightarrow> bool) \<Rightarrow> (VipRow list \<Rightarrow> VipRow) \<Rightarrow> (console_request \<Rightarrow> bool) \<Rightarrow> Db \<Rightarrow> bool" for pat pick ok where
  start: "console_reached pat pick ok empty_db"
| request: "console_reached pat pick ok d \<Longrightarrow> ok r \<Longrightarrow> handle pat pick t r d = Some d' \<Longrightarrow> console_reached pat pick ok d'"

text \<open>The addresses that nodes have, with their tenants.\<close>

definition owner :: "NodeRow \<Rightarrow> (nat \<times> string) list" where
  "owner n = (case n_vip n of None \<Rightarrow> [] | Some v \<Rightarrow> [(r_tenant n, v)])"

definition owners :: "Db \<Rightarrow> (nat \<times> string) list" where
  "owners d = concat (map owner (t_rows (d_node d)))"

definition addr_inv :: "(string \<Rightarrow> bool) \<Rightarrow> (VipRow list \<Rightarrow> VipRow) \<Rightarrow> Db \<Rightarrow> bool" where
  "addr_inv pat pick d \<longleftrightarrow> wf_ids (d_node d) \<and> vip_pool.owned pat pick (owners d) d"

lemmas addr_unfold = addr_inv_def vip_pool.owned_def

section \<open>The nodes are none of the pool's business\<close>

lemma reuseIp_nodes: "reuseIp pick t d = Some r \<Longrightarrow> d_node (snd r) = d_node d"
  by (erule reuseIp.raw_induct [rotated]) (auto simp: Let_def split: if_splits)

lemma selectIdx_nodes: "selectIdx t idx d = Some r \<Longrightarrow> d_node (snd r) = d_node d"
  by (erule selectIdx.raw_induct [rotated]) (auto simp: Let_def tnt_updateIpIndex_def split: if_splits)

lemma assign_loop_nodes: "assign_loop cidr t idx d = Some r \<Longrightarrow> (case r of Inl e \<Rightarrow> True | Inr (v, d') \<Rightarrow> d_node d' = d_node d)"
proof (erule assign_loop.raw_induct [rotated])
  fix loop :: "Cidr \<Rightarrow> nat \<Rightarrow> jint \<Rightarrow> Db \<Rightarrow> (string \<times> Db) res option" and cidr t idx d r
  assume ih: "\<And>cidr t idx d r. loop cidr t idx d = Some r \<Longrightarrow> (case r of Inl e \<Rightarrow> True | Inr (v, d') \<Rightarrow> d_node d' = d_node d)"
  assume "(if sint (i2l idx) > sint (addrCount cidr) then Some (Inl (ProcessCodeException (MessageCode_number MC_NotEnough)))
      else (case selectIdx t idx d of
              None \<Rightarrow> None
            | Some (idx', d') \<Rightarrow>
                (case genIpByIdx cidr (i2l idx') of
                   Inl e \<Rightarrow> Some (Inl e)
                 | Inr vip \<Rightarrow> if \<not> isAvailableIp cidr vip then loop cidr t idx' d' else Some (Inr (vip, d'))))) = Some r"
  then show "(case r of Inl e \<Rightarrow> True | Inr (v, d') \<Rightarrow> d_node d' = d_node d)"
    using selectIdx_nodes [of t idx d] ih [of cidr t]
    by (fastforce split: if_splits option.splits sum.splits prod.splits)
qed

lemma take_nodes: "take_address pat pick t d = Some (Inr (v, d')) \<Longrightarrow> d_node d' = d_node d"
  by (fastforce simp: take_address_def assignIp_def res_simps insert_vip_def
    split: option.splits sum.splits dest: reuseIp_nodes assign_loop_nodes)

lemma addr_inv_core: "core d' = core d \<Longrightarrow> addr_inv pat pick d \<Longrightarrow> addr_inv pat pick d'"
  by (simp add: addr_unfold core_def owners_def all_held_def pool_inv_def tenant_pool_def pool_def)

section \<open>Addresses have one owner\<close>

lemma addr_invD:
  assumes "addr_inv pat pick d"
  shows "wf_ids (d_node d)" and "pool_inv pat pick d" and "distinct (owners d)" and "set (owners d) = all_held d"
  using assms by (auto simp: addr_unfold)

lemma owners_nodes: "d_node d' = d_node d \<Longrightarrow> owners d' = owners d"
  by (simp add: owners_def)

lemma owned_same:
  "d_tenant d' = d_tenant d \<Longrightarrow> d_vip_pool d' = d_vip_pool d \<Longrightarrow> vip_pool.owned pat pick os d' \<longleftrightarrow> vip_pool.owned pat pick os d"
  by (simp add: vip_pool.owned_def all_held_def pool_inv_def tenant_pool_def pool_def)

lemma owner_not_empty: "addr_inv pat pick d \<Longrightarrow> n \<in> set (t_rows (d_node d)) \<Longrightarrow> n_vip n \<noteq> Some ''''"
proof
  assume inv: "addr_inv pat pick d" and n: "n \<in> set (t_rows (d_node d))" "n_vip n = Some ''''"
  then have "(r_tenant n, '''') \<in> set (owners d)" by (auto simp: owners_def owner_def intro!: bexI [of _ n])
  then show False using addr_invD(2,4) [OF inv] by (auto simp: all_held_iff dest: pool_invD(5))
qed

lemma addr_update:
  assumes inv: "addr_inv pat pick d"
    and f: "\<And>r. r \<in> set (t_rows (d_node d)) \<Longrightarrow> p r \<Longrightarrow> n_vip (f r) = n_vip r" "\<And>r. r_id (f r) = r_id r \<and> r_tenant (f r) = r_tenant r"
  shows "addr_inv pat pick (d\<lparr>d_node := t_update p f (d_node d)\<rparr>)"
proof -
  have "map owner (t_rows (t_update p f (d_node d))) = map owner (t_rows (d_node d))"
    using f by (simp add: owner_def cong: option.case_cong)
  then have "owners (d\<lparr>d_node := t_update p f (d_node d)\<rparr>) = owners d"
    by (simp add: owners_def del: t_update_simps)
  moreover have "wf_ids (t_update p f (d_node d))" using addr_invD(1) [OF inv] f(2) by (intro wf_ids_update) auto
  moreover have "vip_pool.owned pat pick (owners d) (d\<lparr>d_node := t_update p f (d_node d)\<rparr>) \<longleftrightarrow> vip_pool.owned pat pick (owners d) d"
    by (rule owned_same) simp_all
  ultimately show ?thesis using inv by (simp add: addr_inv_def)
qed

lemma addr_insert:
  assumes "wf_ids (d_node d)" and "\<And>i. r_id (row i) = i" and "vip_pool.owned pat pick (owners d @ owner (row (t_next (d_node d)))) d"
  shows "addr_inv pat pick (snd (insert_node row d))"
proof -
  have "d_node (snd (insert_node row d)) = snd (t_insert row (d_node d))" by (simp add: insert_node_def split: prod.splits)
  then have "owners (snd (insert_node row d)) = owners d @ owner (row (t_next (d_node d)))"
    and "wf_ids (d_node (snd (insert_node row d)))" using assms(1,2) by (simp_all add: owners_def wf_ids_insert)
  moreover have "vip_pool.owned pat pick os (snd (insert_node row d)) \<longleftrightarrow> vip_pool.owned pat pick os d" for os
    by (rule owned_same) (simp_all add: insert_node_def split: prod.splits)
  ultimately show ?thesis using assms(3) by (simp add: addr_inv_def)
qed

lemma addr_take:
  assumes "addr_inv pat pick d" and "take_address pat pick t d = Some (Inr (v, d1))"
  shows "vip_pool.owned pat pick (owners d @ [(t, v)]) d1" and "wf_ids (d_node d1)" and "owners d1 = owners d"
proof -
  have "vip_pool.owned pat pick (owners d @ []) d" using assms(1) by (simp add: addr_inv_def)
  from vip_pool.owned_take [OF this assms(2)] show "vip_pool.owned pat pick (owners d @ [(t, v)]) d1" .
  show "wf_ids (d_node d1)" "owners d1 = owners d"
    using addr_invD(1) [OF assms(1)] take_nodes [OF assms(2)] owners_nodes [of d1 d] by simp_all
qed

lemma addr_give:
  assumes inv: "addr_inv pat pick d" and n: "n \<in> set (t_rows (d_node d))" "r_tenant n = t" "n_vip n = None"
    and tk: "take_address pat pick t d = Some (Inr (v, d1))" and node: "r_id node = r_id n" "n_vip node = Some v"
  shows "addr_inv pat pick (nod_updateById t node d1)"
proof -
  let ?d = "nod_updateById t node d1"
  note nodes = take_nodes [OF tk] and wf = addr_invD(1) [OF inv]
  obtain xs ys where sp: "t_rows (d_node d) = xs @ n # ys" using split_list [OF n(1)] by blast
  obtain f where f: "d_node ?d = t_update (in_line t (has_id (r_id node))) f (d_node d)"
    "\<And>r. r_id (f r) = r_id r \<and> r_tenant (f r) = r_tenant r \<and> n_vip (f r) = Some v"
    using node(2) by (simp add: nod_updateById_def nodes if_set_option_def)
  have other: "\<not> in_line t (has_id (r_id node)) r" if "r \<in> set xs \<union> set ys" for r
    using wf that by (auto simp: wf_ids_def sp in_line_def has_id_def node(1) image_iff)
  then have "map (\<lambda>r. if in_line t (has_id (r_id node)) r then f r else r) zs = zs" if "set zs \<subseteq> set xs \<union> set ys" for zs
    using that by (intro map_idI) auto
  then have "t_rows (d_node ?d) = xs @ f n # ys" using n(2) by (simp add: f(1) sp in_line_def has_id_def node(1))
  then have "owners ?d = concat (map owner xs) @ (t, v) # concat (map owner ys)"
    using f(2) [of n] n(2) by (simp add: owners_def owner_def)
  moreover have "owners d = concat (map owner xs) @ concat (map owner ys)" using n(3) by (simp add: owners_def sp owner_def)
  then have "vip_pool.owned pat pick (concat (map owner xs) @ concat (map owner ys)) d" using inv by (simp add: addr_inv_def)
  from vip_pool.owned_take [OF this tk]
  have "vip_pool.owned pat pick (concat (map owner xs) @ (t, v) # concat (map owner ys)) d1" .
  moreover have "wf_ids (d_node ?d)" using wf f by (simp add: wf_ids_update)
  moreover have "vip_pool.owned pat pick os ?d \<longleftrightarrow> vip_pool.owned pat pick os d1" for os
    by (rule owned_same) (simp_all add: nod_updateById_def)
  ultimately show ?thesis by (simp add: addr_inv_def)
qed

lemma addr_delete:
  assumes inv: "addr_inv pat pick d" and n: "selectById t i (d_node d) = Some n"
    and d1: "d1 = (case n_vip n of None \<Rightarrow> d | Some vip \<Rightarrow> release_vip t vip d)"
  shows "addr_inv pat pick (d1\<lparr>d_node := t_delete (in_line t (has_id i)) (d_node d1)\<rparr>)"
proof -
  let ?d = "d1\<lparr>d_node := t_delete (in_line t (has_id i)) (d_node d1)\<rparr>"
  note wf = addr_invD(1) [OF inv] and n' = selectById_Some [OF n]
  have nodes: "d_node d1 = d_node d" by (simp add: d1 release_vip_def split: option.splits)
  obtain xs ys where sp: "t_rows (d_node d) = xs @ n # ys" using split_list n' by meson
  have "\<not> in_line t (has_id i) r" if "r \<in> set xs \<union> set ys" for r
    using wf that n' by (auto simp: wf_ids_def sp in_line_def has_id_def image_iff)
  then have "filter (\<lambda>r. \<not> in_line t (has_id i) r) zs = zs" if "set zs \<subseteq> set xs \<union> set ys" for zs
    using that by (intro filter_True) auto
  then have "t_rows (d_node ?d) = xs @ ys" using n' by (simp add: nodes sp in_line_def has_id_def)
  then have e: "owners ?d = concat (map owner xs) @ concat (map owner ys)" by (simp add: owners_def)
  have o: "owners d = concat (map owner xs) @ owner n @ concat (map owner ys)" by (simp add: owners_def sp)
  have own: "vip_pool.owned pat pick (owners d) d" using inv by (simp add: addr_inv_def)
  have "vip_pool.owned pat pick (owners ?d) d1"
  proof (cases "n_vip n")
    case None
    then show ?thesis unfolding e using own by (simp add: d1 o owner_def)
  next
    case (Some v)
    have "removeAll (t, v) (owners d) = concat (map owner xs) @ concat (map owner ys)"
      using addr_invD(3) [OF inv] n' by (simp add: o owner_def Some)
    then show ?thesis unfolding e using vip_pool.owned_give [OF own, of t v] by (simp add: d1 Some)
  qed
  moreover have "vip_pool.owned pat pick os ?d \<longleftrightarrow> vip_pool.owned pat pick os d1" for os by (rule owned_same) simp_all
  moreover have "wf_ids (d_node ?d)" using wf by (simp add: nodes wf_ids_delete)
  ultimately show ?thesis by (simp add: addr_inv_def)
qed

lemma addr_nod_add:
  assumes inv: "addr_inv pat pick d" and r: "nod_add pat pick t request d = Some r"
  shows "addr_inv pat pick (commit d r)"
proof (cases r)
  case (Inr d')
  then obtain v d1 mac where tk: "take_address pat pick t d = Some (Inr (v, d1))"
    and j: "for_each (nod_joinGroup t (t_next (d_node d1))) (case en_groupIdList request of None \<Rightarrow> [] | Some l \<Rightarrow> l)
      (snd (insert_node (\<lambda>i. \<lparr>r_id = i, r_tenant = t, n_name = en_name request, n_description = en_description request,
                n_mac = mac, n_vip = Some v, n_os = None, n_osVersion = None, n_nodeVersion = None,
                n_mesh = en_mesh request, n_enable = en_enable request\<rparr>) d1)) = Inr d'"
    using r by (auto simp: nod_add_def take_address_def res_simps insert_node_def t_insert_def split: sum.splits)
  note tk' = addr_take [OF inv tk]
  show ?thesis
    unfolding Inr commit_def sum.case
    by (rule addr_inv_core [OF core_nod_joinGroups [OF j]], rule addr_insert) (use tk' in \<open>simp_all add: owner_def\<close>)
qed (simp add: commit_def inv)

lemma addr_nod_edit:
  assumes inv: "addr_inv pat pick d" shows "addr_inv pat pick (commit d (nod_edit t request d))"
proof (cases "nod_edit t request d")
  case (Inr d')
  then obtain i where i: "en_id request = Some i"
    by (auto simp: nod_edit_def res_simps valid_id_def split: option.splits)
  let ?d1 = "d\<lparr>d_node := t_update (in_line t (has_id i))
       (\<lambda>n. n\<lparr>n_name := if_set_option (en_name request) (n_name n),
              n_description := if_set_option (en_description request) (n_description n),
              n_mac := if_set (en_mac request) (n_mac n),
              n_mesh := en_mesh request, n_enable := en_enable request\<rparr>) (d_node d)\<rparr>"
  have "core d' = core ?d1"
    using Inr i by (auto simp: nod_edit_def res_simps valid_id_def Let_def frame_simps split: option.splits dest!: core_nod_joinGroups)
  then show ?thesis unfolding Inr commit_def sum.case by (rule addr_inv_core) (rule addr_update [OF inv], simp_all)
qed (simp add: commit_def inv)

lemma addr_nod_del:
  assumes inv: "addr_inv pat pick d" shows "addr_inv pat pick (commit d (nod_del t request d))"
proof (cases "nod_del t request d")
  case (Inr d')
  then obtain i n where "selectById t i (d_node d) = Some n"
    and "d' = (grp_delAllGroupMember t i (case n_vip n of None \<Rightarrow> d | Some vip \<Rightarrow> release_vip t vip d))\<lparr>d_node :=
      t_delete (in_line t (has_id i)) (d_node (grp_delAllGroupMember t i (case n_vip n of None \<Rightarrow> d | Some vip \<Rightarrow> release_vip t vip d)))\<rparr>"
    by (auto simp: nod_del_def res_simps Let_def split: if_splits option.splits)
  with addr_delete [OF inv this(1) refl] show ?thesis
    unfolding Inr commit_def sum.case by (elim addr_inv_core [rotated]) (simp add: core_def grp_delAllGroupMember_def)
qed (simp add: commit_def inv)

lemma new_node_law:
  assumes inv: "addr_inv pat pick d" and new: "new_node t uuid registReq d = Inr (node, d1)"
  shows "addr_inv pat pick d1" and "node \<in> set (t_rows (d_node d1))" and "r_tenant node = t"
    and "d_tenant d1 = d_tenant d" and "d_vip_pool d1 = d_vip_pool d"
proof -
  obtain row where row: "\<And>i. r_id (row i) = i \<and> r_tenant (row i) = t \<and> n_vip (row i) = None"
    "node = row (t_next (d_node d))" and c: "core d1 = core (snd (insert_node row d))"
    using new that [of "new_row t uuid registReq tn" for tn]
    by (auto simp: new_node_def res_simps Let_def insert_node_def t_insert_def frame_simps new_row_def [where i = i for i] split: option.splits)
  have "owner (row (t_next (d_node d))) = []" by (simp add: owner_def row(1))
  then have "addr_inv pat pick (snd (insert_node row d))"
    using inv row(1) by (intro addr_insert) (simp_all add: addr_inv_def)
  then show "addr_inv pat pick d1" by (rule addr_inv_core [OF c])
  show "node \<in> set (t_rows (d_node d1))" "r_tenant node = t" "d_tenant d1 = d_tenant d" "d_vip_pool d1 = d_vip_pool d"
    using c row by (auto simp: core_def insert_node_def t_insert_def)
qed

lemma admit_law:
  assumes inv: "addr_inv pat pick d" and n: "node \<in> set (t_rows (d_node d))" "r_tenant node = t"
    and e: "ensure_vip pat pick t node d = Some (Inr (node2, d2))" and a: "admit_node t registReq node2 d2 = Inr (detail, d3)"
  shows "addr_inv pat pick d3"
proof -
  obtain node3 where d3: "d3 = nod_updateById t node3 d2" "r_id node3 = r_id node2" "n_vip node3 = n_vip node2"
    using a by (auto simp: admit_node_def Let_def split: if_splits)
  show ?thesis
  proof (cases "no_vip node")
    case True
    then have none: "n_vip node = None" using owner_not_empty [OF inv n(1)] by (simp add: no_vip_def)
    obtain v where tk: "take_address pat pick t d = Some (Inr (v, d2))" and n2: "node2 = node\<lparr>n_vip := Some v\<rparr>"
      using e True by (auto simp: ensure_vip_def take_address_def res_simps split: option.splits if_splits)
    show ?thesis unfolding d3(1) by (rule addr_give [OF inv n none tk]) (simp_all add: d3 n2)
  next
    case False
    then obtain v where v: "n_vip node = Some v" by (auto simp: no_vip_def)
    from e False have n2: "node2 = node" "d2 = d" by (simp_all add: ensure_vip_def)
    have same: "n_vip r = Some v" if "r \<in> set (t_rows (d_node d))" "in_line t (has_id (r_id node)) r" for r
      using wf_ids_eq [OF addr_invD(1) [OF inv] that(1) n(1)] that(2) v by (simp add: in_line_def has_id_def)
    show ?thesis
      unfolding d3(1) nod_updateById_def n2(2)
      by (rule addr_update [OF inv]) (simp_all add: d3 n2 v if_set_option_def same)
  qed
qed

lemma t_one_Some: "t_one p T = Inr (Some r) \<Longrightarrow> r \<in> set (t_rows T) \<and> p r"
  by (auto simp: t_one_def t_list_def filter_eq_Cons_iff split: list.splits)

lemma t_one_None: "t_one p T = Inr None \<Longrightarrow> \<forall>r \<in> set (t_rows T). \<not> p r"
  by (auto simp: t_one_def t_list_Nil_iff split: list.splits)

text \<open>A registration works on the node with the address of the request, new or known, and on the database that holds it.\<close>

lemma regist_cases:
  assumes "nod_assignNodeInfo pat pick t uuid registReq d = Some (d', res)"
  obtains (failed) e where "d' = d" and "res = Inl e"
      and "(\<exists>x. t_one (in_line t (\<lambda>n. n_mac n = rq_macAddress registReq)) (d_node d) = Inl x) \<or> (\<exists>x. new_node t uuid registReq d = Inl x)"
    | (known) node r' where "node \<in> set (t_rows (d_node d))" and "r_tenant node = t" and "n_mac node = rq_macAddress registReq"
      and "ensure_vip pat pick t node d = Some r'"
      and "(d', res) = (case bindR r' (\<lambda>(node, d2). admit_node t registReq node d2) of Inl e \<Rightarrow> (d, Inl e) | Inr (detail, d3) \<Rightarrow> (d3, Inr detail))"
    | (unknown) node d1 r' where "\<forall>n \<in> set (t_rows (d_node d)). \<not> (r_tenant n = t \<and> n_mac n = rq_macAddress registReq)"
      and "new_node t uuid registReq d = Inr (node, d1)" and "ensure_vip pat pick t node d1 = Some r'"
      and "(d', res) = (case bindR r' (\<lambda>(node, d2). admit_node t registReq node d2) of Inl e \<Rightarrow> (d1, Inl e) | Inr (detail, d3) \<Rightarrow> (d3, Inr detail))"
proof (cases "t_one (in_line t (\<lambda>n. n_mac n = rq_macAddress registReq)) (d_node d)")
  case (Inl e)
  then show ?thesis using assms failed [of e] by (auto simp: nod_assignNodeInfo_def)
next
  case (Inr found)
  show ?thesis
  proof (cases found)
    case (Some n)
    with Inr have "n \<in> set (t_rows (d_node d)) \<and> r_tenant n = t \<and> n_mac n = rq_macAddress registReq"
      by (auto simp: in_line_def dest: t_one_Some)
    then show ?thesis using assms Inr Some known [of n] by (auto simp: nod_assignNodeInfo_def)
  next
    case None
    then have no: "\<forall>n \<in> set (t_rows (d_node d)). \<not> (r_tenant n = t \<and> n_mac n = rq_macAddress registReq)"
      using Inr t_one_None by (fastforce simp: in_line_def)
    show ?thesis
    proof (cases "new_node t uuid registReq d")
      case (Inl e)
      then show ?thesis using assms Inr None failed [of e] by (auto simp: nod_assignNodeInfo_def)
    next
      case new: (Inr x)
      then obtain node d1 where "new_node t uuid registReq d = Inr (node, d1)" by (cases x) auto
      then show ?thesis using assms Inr None unknown [OF no, of node d1] by (auto simp: nod_assignNodeInfo_def)
    qed
  qed
qed

lemma addr_admit:
  assumes "addr_inv pat pick d" and "node \<in> set (t_rows (d_node d))" "r_tenant node = t" and "ensure_vip pat pick t node d = Some r"
    and "(d', res) = (case bindR r (\<lambda>(node, d2). admit_node t registReq node d2) of Inl e \<Rightarrow> (d, Inl e) | Inr (detail, d3) \<Rightarrow> (d3, Inr detail))"
  shows "addr_inv pat pick d'"
proof (cases "bindR r (\<lambda>(node, d2). admit_node t registReq node d2)")
  case (Inr y)
  then obtain detail d3 where "bindR r (\<lambda>(node, d2). admit_node t registReq node d2) = Inr (detail, d3)" by (cases y) auto
  then show ?thesis using assms(4,5) admit_law [OF assms(1-3)] by (auto simp: res_simps)
qed (use assms in simp)

lemma addr_regist:
  assumes inv: "addr_inv pat pick d" and r: "nod_assignNodeInfo pat pick t uuid registReq d = Some (d', res)"
  shows "addr_inv pat pick d'"
  using r
proof (cases rule: regist_cases)
  case (known node r')
  then show ?thesis using addr_admit [OF inv known(1,2,4)] by blast
next
  case (unknown node d1 r')
  note new = new_node_law [OF inv unknown(2)]
  show ?thesis using addr_admit [OF new(1,2,3) unknown(3)] unknown(4) by blast
qed (simp add: inv)

section \<open>Tenants\<close>

lemma addr_empty: "picks pick \<Longrightarrow> addr_inv pat pick empty_db"
  by (simp add: addr_unfold empty_db_def pool_inv_def owners_def all_held_def wf_ids_def)

lemma tnt_checkPool_block:
  assumes "ipv4_pattern pat" and "tnt_checkPool pat text = Inr ()"
  shows "\<exists>b m. parseCidr pat text = Inr (cidr_of b m) \<and> is_block b m \<and> 16 \<le> m"
proof -
  obtain c where c: "parseCidr pat text = Inr c" "\<not> sint (maskBits c) < 16"
    using assms(2) by (auto simp: tnt_checkPool_def res_simps split: sum.splits)
  then obtain b m where bm: "is_block b m" "c = cidr_of b m" using ipv4_pattern.parseCidr_Inr [OF assms(1)] by blast
  then have "m \<le> 32" by (simp add: is_block_def)
  then have "sint (of_nat m :: jint) = int m" by (subst sint_small) (simp_all add: unat_of_nat)
  moreover have "maskBits c = of_nat m" by (simp add: bm(2) cidr_of_def)
  ultimately have "16 \<le> m" using c(2) by simp
  then show ?thesis using c(1) bm by blast
qed

lemma core_tnt_add:
  "tnt_add request d = Inr d' \<Longrightarrow> \<exists>accountId name code.
     core d' = core (d\<lparr>d_tenant := snd (t_insert (new_tenant request accountId name code) (d_tenant d))\<rparr>)"
  by (auto simp: tnt_add_def res_simps Let_def t_insert_def grp_addDefaultGroup_def core_def
    dest!: core_rul_default [unfolded core_def]) blast

lemma addr_tenant_add:
  assumes pat: "ipv4_pattern pat" and inv: "addr_inv pat pick d"
  shows "addr_inv pat pick (commit d (TenantController_add pat W request d))"
proof (cases "TenantController_add pat W request d")
  case (Inr d')
  then obtain accountId name code where ck: "tnt_checkPool pat (et_cidr request) = Inr ()"
    and c: "core d' = core (d\<lparr>d_tenant := snd (t_insert (new_tenant request accountId name code) (d_tenant d))\<rparr>)"
    using core_tnt_add by (fastforce simp: TenantController_add_def tnt_check_def res_simps)
  define row where "row = new_tenant request accountId name code"
  have row: "r_id (row i) = i \<and> tn_cidr (row i) = et_cidr request \<and> tn_ipIndex (row i) = - 1" for i
    by (simp add: row_def new_tenant_def)
  note c = c [folded row_def]
  let ?d = "d\<lparr>d_tenant := snd (t_insert row (d_tenant d))\<rparr>"
  from tnt_checkPool_block [OF pat ck] obtain b m
    where bm: "parseCidr pat (et_cidr request) = Inr (cidr_of b m)" "is_block b m" "16 \<le> m" by blast
  note p = addr_invD(2) [OF inv]
  have "pool (t_next (d_tenant d)) ?d = []"
    using pool_invD(5) [OF p] by (fastforce simp: pool_def t_list_Nil_iff)
  then have new: "tenant_pool pat (row (t_next (d_tenant d))) b m ?d" using bm row by (simp add: tenant_pool_def)
  have old: "tenant_pool pat tn b m ?d \<longleftrightarrow> tenant_pool pat tn b m d" for tn b m by (simp add: tenant_pool_def pool_def)
  have "pool_inv pat pick ?d"
    using p new old wf_ids_insert [of "d_tenant d" row] row unfolding pool_inv_def by (auto intro: less_SucI)
  then have "addr_inv pat pick ?d" using inv by (simp add: addr_unfold owners_def all_held_def)
  then show ?thesis unfolding Inr commit_def sum.case by (rule addr_inv_core [OF c])
qed (simp add: commit_def inv)

lemma addr_tenant_update:
  assumes inv: "addr_inv pat pick d"
    and T: "wf_ids T" "t_next T = t_next (d_tenant d)"
    and rows: "\<And>x. x \<in> set (t_rows T) \<Longrightarrow> \<exists>y \<in> set (t_rows (d_tenant d)). r_id x = r_id y \<and> tn_cidr x = tn_cidr y \<and> tn_ipIndex x = tn_ipIndex y"
  shows "addr_inv pat pick (d\<lparr>d_account := A, d_tenant := T\<rparr>)"
proof -
  note p = addr_invD(2) [OF inv]
  have "\<exists>b m. tenant_pool pat x b m (d\<lparr>d_account := A, d_tenant := T\<rparr>)" if x: "x \<in> set (t_rows T)" for x
  proof -
    obtain y where y: "y \<in> set (t_rows (d_tenant d))" "r_id x = r_id y" "tn_cidr x = tn_cidr y" "tn_ipIndex x = tn_ipIndex y"
      using rows [OF x] by blast
    then obtain b m where "tenant_pool pat y b m d" using pool_invD(6) [OF p] by blast
    then have "tenant_pool pat x b m (d\<lparr>d_account := A, d_tenant := T\<rparr>)" using y by (simp add: tenant_pool_def pool_def)
    then show ?thesis by blast
  qed
  then have "pool_inv pat pick (d\<lparr>d_account := A, d_tenant := T\<rparr>)"
    using p T unfolding pool_inv_def by simp
  then show ?thesis using inv by (simp add: addr_unfold owners_def all_held_def)
qed

lemma addr_tenant_edit:
  assumes inv: "addr_inv pat pick d" shows "addr_inv pat pick (commit d (TenantController_edit pat W request d))"
proof (cases "TenantController_edit pat W request d")
  case (Inr d')
  show ?thesis
  proof (cases "d' = d")
    case False
    then obtain i tenant A where i: "tnt_queryById i d = Some tenant"
      and d': "d' = d\<lparr>d_account := A, d_tenant := t_update (has_id i) (\<lambda>_. edit_tenant request tenant) (d_tenant d)\<rparr>"
      using Inr by (auto simp: TenantController_edit_def tnt_edit_def res_simps Let_def valid_id_def split: option.splits)
    define tenant' where "tenant' = edit_tenant request tenant"
    note d' = d' [folded tenant'_def]
    have t': "r_id tenant' = r_id tenant" "tn_cidr tenant' = tn_cidr tenant" "tn_ipIndex tenant' = tn_ipIndex tenant"
      by (simp_all add: tenant'_def edit_tenant_def)
    note in_t = tnt_queryById_Some [OF i] and p = addr_invD(2) [OF inv]
    have "addr_inv pat pick d'"
      unfolding d'
    proof (rule addr_tenant_update [OF inv])
      show "wf_ids (t_update (has_id i) (\<lambda>_. tenant') (d_tenant d))"
        using pool_invD(2) [OF p] t' in_t by (intro wf_ids_update) (auto simp: has_id_def)
      show "\<exists>y \<in> set (t_rows (d_tenant d)). r_id x = r_id y \<and> tn_cidr x = tn_cidr y \<and> tn_ipIndex x = tn_ipIndex y"
        if "x \<in> set (t_rows (t_update (has_id i) (\<lambda>_. tenant') (d_tenant d)))" for x
      proof -
        have "x \<in> set (t_rows (d_tenant d)) \<or> x = tenant'" using that by (auto split: if_splits)
        then show ?thesis using t' in_t by (intro bexI [of _ "if x = tenant' then tenant else x"]) auto
      qed
    qed simp
    then show ?thesis by (simp add: Inr commit_def)
  qed (simp add: Inr commit_def inv)
qed (simp add: commit_def inv)

lemma addr_tenant_del:
  assumes inv: "addr_inv pat pick d" shows "addr_inv pat pick (commit d (tnt_del request d))"
proof (cases "tnt_del request d")
  case (Inr d')
  then obtain A i where d': "d' = d\<lparr>d_account := A, d_tenant := t_delete (has_id i) (d_tenant d)\<rparr>"
    by (auto simp: tnt_del_def res_simps split: option.splits)
  have "addr_inv pat pick d'"
    unfolding d' using pool_invD(2) [OF addr_invD(2) [OF inv]] by (intro addr_tenant_update [OF inv]) (auto intro: wf_ids_delete)
  then show ?thesis by (simp add: Inr commit_def)
qed (simp add: commit_def inv)

lemma addr_commit_core:
  "addr_inv pat pick d \<Longrightarrow> (\<And>d'. r = Inr d' \<Longrightarrow> core d' = core d) \<Longrightarrow> addr_inv pat pick (commit d r)"
  by (cases r) (auto simp: commit_def intro: addr_inv_core)

lemma addr_handle:
  assumes "ipv4_pattern pat" and inv: "addr_inv pat pick d" and h: "handle pat pick t r d = Some d'"
  shows "addr_inv pat pick d'"
proof (cases r)
  case (NodeRegist uuid req)
  show ?thesis
  proof (cases "tnt_queryByTenantCode (rq_tenantId req) d")
    case (Inr x)
    then show ?thesis
      using h NodeRegist addr_regist [OF inv] inv by (cases x) (auto simp: dbs_assignNodeInfo_def)
  qed (use h NodeRegist inv in \<open>simp add: dbs_assignNodeInfo_def\<close>)
qed (use h assms in \<open>auto intro: addr_commit_core core_services core_controllers addr_nod_add addr_nod_edit addr_nod_del
       addr_tenant_add addr_tenant_edit addr_tenant_del\<close>)

lemma console_reached_addr: "console_reached pat pick ok d \<Longrightarrow> ipv4_pattern pat \<Longrightarrow> picks pick \<Longrightarrow> addr_inv pat pick d"
  by (induction rule: console_reached.induct) (auto intro: addr_empty addr_handle)

section \<open>Every request returns\<close>

lemma ensure_vip_returns:
  assumes "addr_inv pat pick d" shows "\<exists>r. ensure_vip pat pick t node d = Some r"
proof (cases "tnt_queryById t d")
  case (Some tenant)
  obtain r where "assignIp pat pick t (Some tenant) d = Some r"
    using vip_pool.take_returns [OF addr_invD(2) [OF assms], of t] Some by (auto simp: take_address_def)
  then show ?thesis by (simp add: ensure_vip_def Some)
qed (simp add: ensure_vip_def)

lemma regist_returns:
  assumes inv: "addr_inv pat pick d" shows "\<exists>r. nod_assignNodeInfo pat pick t uuid registReq d = Some r"
proof (cases "t_one (in_line t (\<lambda>n. n_mac n = rq_macAddress registReq)) (d_node d)")
  case (Inr found)
  show ?thesis
  proof (cases found)
    case None
    show ?thesis
    proof (cases "new_node t uuid registReq d")
      case new: (Inr x)
      then obtain node d1 where x: "x = (node, d1)" by (cases x) auto
      with ensure_vip_returns [OF new_node_law(1) [OF inv], of t uuid registReq node d1 t node]
      show ?thesis using new by (auto simp: nod_assignNodeInfo_def Inr None)
    qed (simp add: nod_assignNodeInfo_def Inr None)
  next
    case (Some n)
    then show ?thesis using ensure_vip_returns [OF inv, of t n] by (auto simp: nod_assignNodeInfo_def Inr)
  qed
qed (simp add: nod_assignNodeInfo_def)

lemma handle_returns:
  assumes inv: "addr_inv pat pick d" shows "\<exists>d'. handle pat pick t r d = Some d'"
proof (cases r)
  case (NodeAdd x)
  then show ?thesis
    using vip_pool.take_returns [OF addr_invD(2) [OF inv], of t] by (auto simp: nod_add_def take_address_def split: sum.split)
next
  case (NodeRegist uuid x)
  then show ?thesis
    using regist_returns [OF inv] by (fastforce simp: dbs_assignNodeInfo_def split: sum.split option.split)
qed simp_all

section \<open>Where the addresses lie\<close>

lemma avail_offsets:
  assumes "is_block b m" "16 \<le> m" and "avail b m k"
  shows "2 \<le> k" and "k \<noteq> 2 ^ (32 - m) - 1"
proof -
  have e: "networkIdentifier (cidr_of b m) = vip_at b 0" "gatewayAddress (cidr_of b m) = vip_at b 1"
    "broadcastAddress (cidr_of b m) = vip_at b (2 ^ (32 - m) - 1)"
    by (simp_all add: cidr_of_def vip_at_def)
  have "vip_at b k \<notin> {vip_at b 0, vip_at b 1, vip_at b (2 ^ (32 - m) - 1)}"
    using assms(3) unfolding avail_def isAvailableIp_def e by (auto split: if_splits)
  then have "k \<notin> {0, 1, 2 ^ (32 - m) - 1}" by (rule contrapos_nn) auto
  then show "2 \<le> k" "k \<noteq> 2 ^ (32 - m) - 1" by auto
qed

lemma set_owner: "x \<in> set (owner n) \<longleftrightarrow> (\<exists>v. n_vip n = Some v \<and> x = (r_tenant n, v))"
  by (cases "n_vip n") (simp_all add: owner_def)

lemma owner_mem: "(t, v) \<in> set (owners d) \<longleftrightarrow> (\<exists>n \<in> set (t_rows (d_node d)). r_tenant n = t \<and> n_vip n = Some v)"
  by (auto simp: owners_def set_owner)

lemma owners_unique:
  assumes "distinct (concat (map owner ns))" and "n1 \<in> set ns" "n2 \<in> set ns"
    and "r_tenant n1 = r_tenant n2" "n_vip n1 = Some v" "n_vip n2 = Some v"
  shows "n1 = n2"
  using assms
proof (induction ns)
  case (Cons a ns)
  have "(r_tenant n, v) \<in> set (concat (map owner ns))" if "n \<in> set ns" "n_vip n = Some v" for n
    using that by (auto simp: set_owner)
  moreover have "a = n \<Longrightarrow> n_vip n = Some v \<Longrightarrow> (r_tenant n, v) \<in> set (owner a)" for n by (simp add: set_owner)
  ultimately show ?case using Cons by (metis (no_types, lifting) concat.simps(2) disjoint_iff distinct_append list.simps(9) set_ConsD)
qed simp

text \<open>
  C2: In every database that the console can reach no two nodes of a tenant have the same address, and the
  addresses that nodes have are exactly the marked rows of the pool, so that no address is lost either. The
  addresses of a tenant lie at the offsets from 2 to two past the end of its block, the broadcast address left
  out: the pool also hands out the two addresses that follow the block.
\<close>

theorem console_addresses:
  assumes "ipv4_pattern pat" and "picks pick" and "console_reached pat pick ok d"
  shows "(\<forall>n1 \<in> set (t_rows (d_node d)). \<forall>n2 \<in> set (t_rows (d_node d)).
      r_tenant n1 = r_tenant n2 \<and> n_vip n1 = n_vip n2 \<and> n_vip n1 \<noteq> None \<longrightarrow> n1 = n2) \<and>
    (\<forall>t v. (\<exists>n \<in> set (t_rows (d_node d)). r_tenant n = t \<and> n_vip n = Some v) \<longleftrightarrow>
      (\<exists>r \<in> set (t_rows (d_vip_pool d)). r_tenant r = t \<and> p_vip r = v \<and> p_used r)) \<and>
    (\<forall>tn \<in> set (t_rows (d_tenant d)). \<exists>b m. parseCidr pat (tn_cidr tn) = Inr (cidr_of b m) \<and>
      (\<forall>n \<in> set (t_rows (d_node d)). \<forall>v. r_tenant n = r_id tn \<and> n_vip n = Some v \<longrightarrow>
        (\<exists>k. v = vip_at b k \<and> 2 \<le> k \<and> k \<le> 2 ^ (32 - m) + 1 \<and> k \<noteq> 2 ^ (32 - m) - 1)))"
proof (intro conjI)
  note inv = console_reached_addr [OF assms(3,1,2)]
  note pool = addr_invD(2) [OF inv] and own = addr_invD(3,4) [OF inv]
  show "\<forall>n1 \<in> set (t_rows (d_node d)). \<forall>n2 \<in> set (t_rows (d_node d)).
      r_tenant n1 = r_tenant n2 \<and> n_vip n1 = n_vip n2 \<and> n_vip n1 \<noteq> None \<longrightarrow> n1 = n2"
    using owners_unique own(1) unfolding owners_def by fastforce
  have used: "(\<exists>n \<in> set (t_rows (d_node d)). r_tenant n = t \<and> n_vip n = Some v) \<longleftrightarrow>
      (\<exists>r \<in> set (t_rows (d_vip_pool d)). r_tenant r = t \<and> p_vip r = v \<and> p_used r)" for t v
    unfolding owner_mem [symmetric] own(2) by (auto simp: all_held_iff)
  then show "\<forall>t v. (\<exists>n \<in> set (t_rows (d_node d)). r_tenant n = t \<and> n_vip n = Some v) \<longleftrightarrow>
      (\<exists>r \<in> set (t_rows (d_vip_pool d)). r_tenant r = t \<and> p_vip r = v \<and> p_used r)" by blast
  show "\<forall>tn \<in> set (t_rows (d_tenant d)). \<exists>b m. parseCidr pat (tn_cidr tn) = Inr (cidr_of b m) \<and>
      (\<forall>n \<in> set (t_rows (d_node d)). \<forall>v. r_tenant n = r_id tn \<and> n_vip n = Some v \<longrightarrow>
        (\<exists>k. v = vip_at b k \<and> 2 \<le> k \<and> k \<le> 2 ^ (32 - m) + 1 \<and> k \<noteq> 2 ^ (32 - m) - 1))"
  proof
    fix tn
    assume tn: "tn \<in> set (t_rows (d_tenant d))"
    then obtain b m where bm: "tenant_pool pat tn b m d" using pool_invD(6) [OF pool] by blast
    have "\<exists>k. v = vip_at b k \<and> 2 \<le> k \<and> k \<le> 2 ^ (32 - m) + 1 \<and> k \<noteq> 2 ^ (32 - m) - 1"
      if n: "n \<in> set (t_rows (d_node d))" "r_tenant n = r_id tn" "n_vip n = Some v" for n v
    proof -
      obtain r where "r \<in> set (pool (r_id tn) d)" "p_vip r = v" using used n by (fastforce simp: set_pool)
      then obtain k where k: "int k \<le> sint (tn_ipIndex tn)" "avail b m k" "v = vip_at b k"
        using bm by (auto simp: tenant_pool_def)
      then have "int k \<le> int (2 ^ (32 - m) + 1)" using bm by (simp add: tenant_pool_def)
      then have "k \<le> 2 ^ (32 - m) + 1" by (simp only: of_nat_le_iff)
      then show ?thesis using k avail_offsets [of b m k] bm by (auto simp: tenant_pool_def)
    qed
    then show "\<exists>b m. parseCidr pat (tn_cidr tn) = Inr (cidr_of b m) \<and>
      (\<forall>n \<in> set (t_rows (d_node d)). \<forall>v. r_tenant n = r_id tn \<and> n_vip n = Some v \<longrightarrow>
        (\<exists>k. v = vip_at b k \<and> 2 \<le> k \<and> k \<le> 2 ^ (32 - m) + 1 \<and> k \<noteq> 2 ^ (32 - m) - 1))"
      using bm by (intro exI [of _ b] exI [of _ m]) (auto simp: tenant_pool_def)
  qed
qed

section \<open>Hardware addresses are unique\<close>

definition mac_inv :: "Db \<Rightarrow> bool" where
  "mac_inv d \<longleftrightarrow> wf_ids (d_node d) \<and> distinct (map (\<lambda>n. (r_tenant n, n_mac n)) (t_rows (d_node d)))"

lemma mac_inv_nodes: "d_node d' = d_node d \<Longrightarrow> mac_inv d \<Longrightarrow> mac_inv d'"
  by (simp add: mac_inv_def)

lemma mac_inv_core: "core d' = core d \<Longrightarrow> mac_inv d \<Longrightarrow> mac_inv d'"
  by (simp add: mac_inv_def core_def)

lemma mac_inv_insert:
  assumes "mac_inv d" and "\<And>i. r_id (row i) = i \<and> r_tenant (row i) = t \<and> n_mac (row i) = mac"
    and "\<forall>n \<in> set (t_rows (d_node d)). \<not> (r_tenant n = t \<and> n_mac n = mac)"
  shows "mac_inv (snd (insert_node row d))"
proof -
  have "d_node (snd (insert_node row d)) = snd (t_insert row (d_node d))" by (simp add: insert_node_def split: prod.splits)
  then show ?thesis using assms by (auto simp: mac_inv_def wf_ids_insert)
qed

lemma mac_inv_update:
  assumes inv: "mac_inv d" and f: "\<And>r. r_id (f r) = r_id r \<and> r_tenant (f r) = r_tenant r"
    and p: "\<And>r. r \<in> set (t_rows (d_node d)) \<Longrightarrow> p r \<Longrightarrow> r_tenant r = t \<and> r_id r = i"
    and m: "\<And>r. r \<in> set (t_rows (d_node d)) \<Longrightarrow> p r \<Longrightarrow> n_mac (f r) = n_mac r \<or>
      (\<forall>x \<in> set (t_rows (d_node d)). r_tenant x = t \<and> r_id x \<noteq> i \<longrightarrow> n_mac x \<noteq> n_mac (f r))"
  shows "mac_inv (d\<lparr>d_node := t_update p f (d_node d)\<rparr>)"
proof -
  let ?g = "\<lambda>r. if p r then f r else r" and ?key = "\<lambda>n :: NodeRow. (r_tenant n, n_mac n)"
  have inj: "x = y" if "x \<in> set (t_rows (d_node d))" "y \<in> set (t_rows (d_node d))" "?key x = ?key y" for x y
    using inv that by (auto simp: mac_inv_def distinct_map inj_on_def)
  have ids: "x = y" if "x \<in> set (t_rows (d_node d))" "y \<in> set (t_rows (d_node d))" "r_id x = r_id y" for x y
    using wf_ids_eq [OF _ that] inv by (simp add: mac_inv_def)
  have "x = y" if x: "x \<in> set (t_rows (d_node d))" and y: "y \<in> set (t_rows (d_node d))" and e: "?key (?g x) = ?key (?g y)" for x y
  proof (cases "p x"; cases "p y")
    assume "p x" "p y"
    then show ?thesis using p [OF x] p [OF y] ids [OF x y] by simp
  next
    assume "p x" "\<not> p y"
    then show ?thesis using p [OF x] m [OF x] e f inj [OF x y] ids [OF x y] y by (metis (mono_tags, lifting) prod.inject)
  next
    assume "\<not> p x" "p y"
    then show ?thesis using p [OF y] m [OF y] e f inj [OF x y] ids [OF x y] x by (metis (mono_tags, lifting) prod.inject)
  qed (use inj [OF x y] e in simp)
  then have "distinct (map (?key \<circ> ?g) (t_rows (d_node d)))"
    using inv by (auto simp: mac_inv_def wf_ids_def distinct_map inj_on_def)
  moreover have "wf_ids (t_update p f (d_node d))" using inv f by (intro wf_ids_update) (auto simp: mac_inv_def)
  ultimately show ?thesis by (simp add: mac_inv_def)
qed

lemma mac_checkUnique:
  "nod_checkUnique t i name mac d = Inr u \<Longrightarrow> mac = Some x \<Longrightarrow>
   \<forall>n \<in> set (t_rows (d_node d)). r_tenant n = t \<and> i \<noteq> Some (r_id n) \<longrightarrow> n_mac n \<noteq> x"
  by (auto simp: nod_checkUnique_def res_simps t_count_0 in_line_def taken_def)

lemma mac_nod_add:
  assumes inv: "mac_inv d" and r: "nod_add pat pick t request d = Some r" and no: "en_id request = None"
  shows "mac_inv (commit d r)"
proof (cases r)
  case (Inr d')
  then obtain v d1 mac where tk: "take_address pat pick t d = Some (Inr (v, d1))" and mac: "en_mac request = Some mac"
    and u: "nod_checkUnique t None (en_name request) (en_mac request) d = Inr ()"
    and j: "for_each (nod_joinGroup t (t_next (d_node d1))) (case en_groupIdList request of None \<Rightarrow> [] | Some l \<Rightarrow> l)
      (snd (insert_node (\<lambda>i. \<lparr>r_id = i, r_tenant = t, n_name = en_name request, n_description = en_description request,
                n_mac = mac, n_vip = Some v, n_os = None, n_osVersion = None, n_nodeVersion = None,
                n_mesh = en_mesh request, n_enable = en_enable request\<rparr>) d1)) = Inr d'"
    using r no by (auto simp: nod_add_def take_address_def res_simps insert_node_def t_insert_def not_null_def split: sum.splits option.splits)
  note n = take_nodes [OF tk]
  show ?thesis
    unfolding Inr commit_def sum.case
    by (rule mac_inv_core [OF core_nod_joinGroups [OF j]], rule mac_inv_insert [OF mac_inv_nodes [OF n inv]])
      (use mac_checkUnique [OF u mac] n in auto)
qed (simp add: commit_def inv)

lemma mac_nod_edit:
  assumes inv: "mac_inv d" shows "mac_inv (commit d (nod_edit t request d))"
proof (cases "nod_edit t request d")
  case (Inr d')
  then obtain i where i: "en_id request = Some i" and u: "nod_checkUnique t (Some i) (en_name request) (en_mac request) d = Inr ()"
    by (auto simp: nod_edit_def res_simps valid_id_def split: option.splits)
  let ?f = "\<lambda>n. n\<lparr>n_name := if_set_option (en_name request) (n_name n),
              n_description := if_set_option (en_description request) (n_description n),
              n_mac := if_set (en_mac request) (n_mac n),
              n_mesh := en_mesh request, n_enable := en_enable request\<rparr>"
  let ?d1 = "d\<lparr>d_node := t_update (in_line t (has_id i)) ?f (d_node d)\<rparr>"
  have c: "core d' = core ?d1"
    using Inr i by (auto simp: nod_edit_def res_simps valid_id_def Let_def frame_simps split: option.splits dest!: core_nod_joinGroups)
  have "mac_inv ?d1"
  proof (rule mac_inv_update [OF inv])
    show "n_mac (?f r) = n_mac r \<or> (\<forall>x \<in> set (t_rows (d_node d)). r_tenant x = t \<and> r_id x \<noteq> i \<longrightarrow> n_mac x \<noteq> n_mac (?f r))" for r
    proof (cases "en_mac request")
      case (Some x)
      then show ?thesis using mac_checkUnique [OF u Some] by (simp add: if_set_def)
    qed (simp add: if_set_def)
  qed (simp_all add: in_line_def has_id_def)
  then show ?thesis unfolding Inr commit_def sum.case by (rule mac_inv_core [OF c])
qed (simp add: commit_def inv)

lemma mac_nod_del:
  assumes inv: "mac_inv d" shows "mac_inv (commit d (nod_del t request d))"
proof (cases "nod_del t request d")
  case (Inr d')
  then obtain i where "d_node d' = t_delete (in_line t (has_id i)) (d_node d)"
    by (auto simp: nod_del_def res_simps Let_def grp_delAllGroupMember_def release_vip_def split: if_splits option.splits)
  then show ?thesis using inv by (auto simp: Inr commit_def mac_inv_def wf_ids_delete distinct_map_filter)
qed (simp add: commit_def inv)

lemma new_node_row:
  assumes "new_node t uuid registReq d = Inr (node, d1)"
  obtains tenant where "tnt_queryById t d = Some tenant" and "node = new_row t uuid registReq tenant (t_next (d_node d))"
    and "core d1 = core (snd (insert_node (new_row t uuid registReq tenant) d))"
  using assms by (auto simp: new_node_def res_simps Let_def insert_node_def t_insert_def frame_simps split: option.splits)

lemma mac_new_node:
  assumes inv: "mac_inv d" and new: "new_node t uuid registReq d = Inr (node, d1)"
    and no: "\<forall>n \<in> set (t_rows (d_node d)). \<not> (r_tenant n = t \<and> n_mac n = rq_macAddress registReq)"
  shows "mac_inv d1"
  using new
proof (rule new_node_row)
  fix tenant
  assume "core d1 = core (snd (insert_node (new_row t uuid registReq tenant) d))"
  then show ?thesis
    by (rule mac_inv_core) (rule mac_inv_insert [OF inv _ no], simp add: new_row_def)
qed

lemma ensure_vip_frame:
  assumes "ensure_vip pat pick t node d = Some (Inr (node2, d2))"
  shows "d_node d2 = d_node d" and "r_id node2 = r_id node" and "n_mac node2 = n_mac node"
    and "r_tenant node2 = r_tenant node" and "n_enable node2 = n_enable node"
proof -
  consider "node2 = node" "d2 = d"
    | v where "take_address pat pick t d = Some (Inr (v, d2))" "node2 = node\<lparr>n_vip := Some v\<rparr>"
    using assms by (auto simp: ensure_vip_def take_address_def res_simps split: if_splits option.splits)
  then show "d_node d2 = d_node d" "r_id node2 = r_id node" "n_mac node2 = n_mac node"
    "r_tenant node2 = r_tenant node" "n_enable node2 = n_enable node"
    by (cases; auto dest: take_nodes)+
qed

lemma mac_admit:
  assumes inv: "mac_inv d" and n: "node \<in> set (t_rows (d_node d))" "r_tenant node = t"
    and e: "ensure_vip pat pick t node d = Some (Inr (node2, d2))" and a: "admit_node t registReq node2 d2 = Inr (detail, d3)"
  shows "mac_inv d3"
proof -
  note fr = ensure_vip_frame [OF e]
  obtain node3 where d3: "d3 = nod_updateById t node3 d2" "r_id node3 = r_id node" "n_mac node3 = n_mac node"
    using a fr by (auto simp: admit_node_def Let_def split: if_splits)
  have u: "r = node" if "r \<in> set (t_rows (d_node d))" "r_id r = r_id node" for r
    using wf_ids_eq [OF _ that(1) n(1) that(2)] inv by (simp add: mac_inv_def)
  show ?thesis
    unfolding d3(1) nod_updateById_def
    by (rule mac_inv_update [OF mac_inv_nodes [OF fr(1) inv], of _ _ t "r_id node"])
      (use d3 fr u in \<open>auto simp: in_line_def has_id_def\<close>)
qed

lemma mac_regist:
  assumes inv: "mac_inv d" and addr: "addr_inv pat pick d" and r: "nod_assignNodeInfo pat pick t uuid registReq d = Some (d', res)"
  shows "mac_inv d'"
  using r
proof (cases rule: regist_cases)
  case (known node r')
  then show ?thesis
    using mac_admit [OF inv known(1,2)] inv by (cases "bindR r' (\<lambda>(node, d2). admit_node t registReq node d2)") (auto simp: res_simps)
next
  case (unknown node d1 r')
  note new = new_node_law [OF addr unknown(2)] and m = mac_new_node [OF inv unknown(2,1)]
  show ?thesis
    using unknown(3,4) mac_admit [OF m new(2,3)] m by (cases "bindR r' (\<lambda>(node, d2). admit_node t registReq node d2)") (auto simp: res_simps)
qed (simp add: inv)

text \<open>A request to add a node carries no id.\<close>

fun adds_fresh :: "console_request \<Rightarrow> bool" where
  "adds_fresh (NodeAdd r) \<longleftrightarrow> en_id r = None"
| "adds_fresh r \<longleftrightarrow> True"

lemma mac_commit_core: "mac_inv d \<Longrightarrow> (\<And>d'. r = Inr d' \<Longrightarrow> core d' = core d) \<Longrightarrow> mac_inv (commit d r)"
  by (cases r) (auto simp: commit_def intro: mac_inv_core)

lemma tenants_nodes:
  "TenantController_add pat W request d = Inr d' \<Longrightarrow> d_node d' = d_node d"
  "TenantController_edit pat W request d = Inr d' \<Longrightarrow> d_node d' = d_node d"
  "tnt_del request d = Inr d' \<Longrightarrow> d_node d' = d_node d"
  by (auto simp: TenantController_add_def TenantController_edit_def tnt_edit_def tnt_del_def res_simps Let_def core_def
    split: option.splits dest!: core_tnt_add)

lemma mac_commit_nodes: "mac_inv d \<Longrightarrow> (\<And>d'. r = Inr d' \<Longrightarrow> d_node d' = d_node d) \<Longrightarrow> mac_inv (commit d r)"
  by (cases r) (auto simp: commit_def intro: mac_inv_nodes)

lemma mac_handle:
  assumes inv: "mac_inv d" and addr: "addr_inv pat pick d" and ok: "adds_fresh r" and h: "handle pat pick t r d = Some d'"
  shows "mac_inv d'"
proof (cases r)
  case (NodeRegist uuid req)
  show ?thesis
  proof (cases "tnt_queryByTenantCode (rq_tenantId req) d")
    case (Inr x)
    then show ?thesis
      using h NodeRegist mac_regist [OF inv addr] inv by (cases x) (auto simp: dbs_assignNodeInfo_def)
  qed (use h NodeRegist inv in \<open>simp add: dbs_assignNodeInfo_def\<close>)
qed (use h inv ok in \<open>auto intro: mac_commit_core core_services core_controllers mac_nod_add mac_nod_edit mac_nod_del mac_commit_nodes tenants_nodes\<close>)

lemma console_reached_mac:
  "console_reached pat pick adds_fresh d \<Longrightarrow> ipv4_pattern pat \<Longrightarrow> picks pick \<Longrightarrow> mac_inv d"
proof (induction rule: console_reached.induct)
  case start
  show ?case by (simp add: mac_inv_def empty_db_def wf_ids_def)
next
  case (request d r t d')
  then show ?case using mac_handle console_reached_addr by metis
qed

end
