(* ===== verification/Registration.thy ===== *)
theory Registration
  imports Console
begin

text \<open>
  What a registration answers and what configuration it delivers, over every database that the console
  reaches: the verdict as a table of four conditions, the next address of a pool as a search, and the routes,
  rules and translations of a node as the join of its groups.
\<close>

section \<open>The next address as a search\<close>

definition address_of :: "Cidr \<Rightarrow> nat \<Rightarrow> string" where
  "address_of c k = (case genIpByIdx c (of_nat k) of Inl e \<Rightarrow> '''' | Inr v \<Rightarrow> v)"

definition next_address :: "(string \<Rightarrow> bool) \<Rightarrow> TenantRow \<Rightarrow> string option" where
  "next_address pat tn =
     (case parseCidr pat (tn_cidr tn) of
        Inl e \<Rightarrow> None
      | Inr c \<Rightarrow> find (isAvailableIp c) (map (address_of c) [nat (sint (tn_ipIndex tn) + 1) ..< nat (sint (addrCount c)) + 2]))"

lemma find_map: "find p (map f xs) = map_option f (find (\<lambda>x. p (f x)) xs)"
  by (induction xs) auto

lemma next_address_vip:
  assumes "tenant_pool pat tn b m d" shows "next_address pat tn = map_option (vip_at b) (next_vip b m tn)"
proof -
  have bm: "parseCidr pat (tn_cidr tn) = Inr (cidr_of b m)" "is_block b m" "16 \<le> m" "m \<le> 32"
    using assms by (auto simp: tenant_pool_def is_block_def)
  have "address_of (cidr_of b m) = vip_at b"
    by (rule ext) (simp add: address_of_def genIpByIdx_cidr_of [OF bm(2)] vip_at_def)
  moreover have "nat (sint (addrCount (cidr_of b m))) = 2 ^ (32 - m)"
    unfolding block_count(1) [OF bm(3,4)] by (simp add: nat_power_eq)
  ultimately show ?thesis
    by (simp only: next_address_def bm(1) sum.case find_map next_vip_def avail_def [abs_def])
qed

definition exhausted :: "(string \<Rightarrow> bool) \<Rightarrow> TenantRow \<Rightarrow> Db \<Rightarrow> bool" where
  "exhausted pat tn d \<longleftrightarrow> (\<forall>r \<in> set (pool (r_id tn) d). p_used r) \<and> next_address pat tn = None"

lemma take_cases:
  assumes inv: "addr_inv pat pick d" and tn: "tnt_queryById t d = Some tn"
  obtains (given) v d' where "\<not> exhausted pat tn d" and "take_address pat pick t d = Some (Inr (v, d'))"
    | (refused) "exhausted pat tn d" and "take_address pat pick t d = Some (Inl (ProcessCodeException (MessageCode_number MC_NotEnough)))"
proof -
  note p = pool_invD [OF addr_invD(2) [OF inv]] and in_t = tnt_queryById_Some [OF tn]
  obtain b m where ok: "tenant_pool pat tn b m d" using p(6) in_t by blast
  have tk: "take_address pat pick t d = assignIp pat pick t (Some tn) d" by (simp add: take_address_def tn)
  have ex: "exhausted pat tn d \<longleftrightarrow> (\<forall>r \<in> set (pool t d). p_used r) \<and> next_vip b m tn = None"
    using in_t by (simp add: exhausted_def next_address_vip [OF ok])
  from p(1-3) tn ok show ?thesis
    by (cases rule: assignIp_cases) (use given refused in \<open>auto simp: ex tk\<close>)
qed

section \<open>The verdict\<close>

text \<open>
  Whether nodes of the tenant wait for a grant, whether the node is enabled, whether it has an address, and
  whether the pool has none left.
\<close>

definition verdict :: "bool \<Rightarrow> bool \<Rightarrow> bool \<Rightarrow> bool \<Rightarrow> MessageCode option" where
  "verdict grant enabled has_vip empty_pool =
     (if has_vip then (if enabled then None else Some MC_Disabled)
      else if grant \<and> \<not> enabled then Some MC_NotGrant
      else if empty_pool then Some MC_NotEnough
      else if enabled then None else Some MC_Disabled)"

definition code_error :: "MessageCode \<Rightarrow> error" where
  "code_error c = ProcessCodeException (MessageCode_number c)"

lemma admit_node_ok:
  "n_enable node \<Longrightarrow> admit_node t registReq node d = Inr (detail, d') \<Longrightarrow> nd_mac detail = n_mac node \<and> nd_vip detail = n_vip node"
  by (auto simp: admit_node_def Let_def node_detail_def)

lemma admit_node_disabled: "\<not> n_enable node \<Longrightarrow> admit_node t registReq node d = Inl (code_error MC_Disabled)"
  by (simp add: admit_node_def Let_def code_error_def)

lemma admit_node_returns: "n_enable node \<Longrightarrow> \<exists>detail d'. admit_node t registReq node d = Inr (detail, d')"
  by (simp add: admit_node_def Let_def)

text \<open>One node against the table.\<close>

lemma admission_verdict:
  assumes inv: "addr_inv pat pick d" and n: "node \<in> set (t_rows (d_node d))" "r_tenant node = t"
    and tn: "tnt_queryById t d = Some tn" and e: "ensure_vip pat pick t node d = Some r"
  shows "case verdict (tn_nodeGrant tn) (n_enable node) (n_vip node \<noteq> None) (exhausted pat tn d) of
      Some c \<Rightarrow> bindR r (\<lambda>(node, d2). admit_node t registReq node d2) = Inl (code_error c)
    | None \<Rightarrow> \<exists>detail d3 v. bindR r (\<lambda>(node, d2). admit_node t registReq node d2) = Inr (detail, d3) \<and> nd_mac detail = n_mac node \<and>
        nd_vip detail = Some v \<and> (case n_vip node of Some w \<Rightarrow> v = w \<and> set (owners d3) = set (owners d)
          | None \<Rightarrow> (t, v) \<notin> set (owners d) \<and> set (owners d3) = insert (t, v) (set (owners d)))"
proof (cases "n_vip node")
  case (Some v)
  then have "r = Inr (node, d)" using e owner_not_empty [OF inv n(1)] by (auto simp: ensure_vip_def no_vip_def)
  moreover have "set (owners d3) = set (owners d)" if a: "admit_node t registReq node d = Inr (detail, d3)" for detail d3
  proof -
    have "d_vip_pool d3 = d_vip_pool d" using a by (auto simp: admit_node_def Let_def nod_updateById_def split: if_splits)
    moreover have "ensure_vip pat pick t node d = Some (Inr (node, d))" using e \<open>r = Inr (node, d)\<close> by simp
    ultimately show ?thesis
      using addr_invD(4) [OF admit_law [OF inv n _ a]] addr_invD(4) [OF inv] by (simp add: all_held_def)
  qed
  ultimately show ?thesis
    using admit_node_disabled [of node t registReq d] admit_node_returns [of node t registReq d] admit_node_ok [of node t registReq d] Some
    by (cases "n_enable node") (auto simp: verdict_def)
next
  case None
  show ?thesis
  proof (cases "tn_nodeGrant tn \<and> \<not> n_enable node")
    case True
    then show ?thesis using e None tn by (auto simp: ensure_vip_def no_vip_def verdict_def code_error_def)
  next
    case False
    have "assignIp pat pick t (Some tn) d = take_address pat pick t d" by (simp add: take_address_def tn)
    with e None tn False have r: "Some r = map_option (\<lambda>r. bindR r (\<lambda>(vip, d'). Inr (node\<lparr>n_vip := Some vip\<rparr>, d'))) (take_address pat pick t d)"
      by (auto simp: ensure_vip_def no_vip_def)
    from inv tn show ?thesis
    proof (cases rule: take_cases)
      case refused
      then show ?thesis using r False None by (auto simp: verdict_def code_error_def)
    next
      case (given v d2)
      then have r': "r = Inr (node\<lparr>n_vip := Some v\<rparr>, d2)" using r by simp
      have new: "(t, v) \<notin> set (owners d)" "all_held d2 = insert (t, v) (set (owners d))"
        using vip_pool.take_ok [OF addr_invD(2) [OF inv] given(2)] addr_invD(4) [OF inv] by simp_all
      have "set (owners d3) = insert (t, v) (set (owners d))"
        if a: "admit_node t registReq (node\<lparr>n_vip := Some v\<rparr>) d2 = Inr (detail, d3)" for detail d3
      proof -
        have "all_held d3 = all_held d2" using a by (auto simp: admit_node_def Let_def nod_updateById_def all_held_def split: if_splits)
        then show ?thesis using addr_invD(4) [OF admit_law [OF inv n e [unfolded r'] a]] new by simp
      qed
      then have own: "set (owners d3) = insert (t, v) (set (owners d))"
        if "admit_node t registReq (node\<lparr>n_vip := Some v\<rparr>) d2 = Inr (detail, d3)" for detail d3 using that .
      have vd: "verdict (tn_nodeGrant tn) (n_enable node) (n_vip node \<noteq> None) (exhausted pat tn d) =
          (if n_enable node then None else Some MC_Disabled)"
        using False given(1) None by (auto simp: verdict_def)
      show ?thesis
      proof (cases "n_enable node")
        case True
        then obtain detail d3 where a: "admit_node t registReq (node\<lparr>n_vip := Some v\<rparr>) d2 = Inr (detail, d3)"
          using admit_node_returns [of "node\<lparr>n_vip := Some v\<rparr>" t registReq d2] by auto
        then have "nd_mac detail = n_mac node \<and> nd_vip detail = Some v" using admit_node_ok [OF _ a] True by simp
        then show ?thesis unfolding vd using True None new(1) own [OF a] by (simp add: r' a)
      next
        case disabled: False
        then show ?thesis unfolding vd using admit_node_disabled [of "node\<lparr>n_vip := Some v\<rparr>"] by (simp add: r')
      qed
    qed
  qed
qed

lemma mac_t_one:
  assumes "mac_inv d"
  shows "t_one (in_line t (\<lambda>n. n_mac n = mac)) (d_node d) = Inr (find (in_line t (\<lambda>n. n_mac n = mac)) (t_rows (d_node d)))"
proof (cases "find (in_line t (\<lambda>n. n_mac n = mac)) (t_rows (d_node d))")
  case None
  then have "t_list (in_line t (\<lambda>n. n_mac n = mac)) (d_node d) = []" by (simp add: find_None_iff t_list_Nil_iff)
  then show ?thesis by (simp add: t_one_def None)
next
  case (Some n)
  from find_SomeD [OF this] have n: "n \<in> set (t_rows (d_node d))" "r_tenant n = t" "n_mac n = mac" by (auto simp: in_line_def)
  have "t_list (in_line t (\<lambda>n. n_mac n = mac)) (d_node d) = [n]"
    using assms n by (intro t_list_unique [of "\<lambda>n. (r_tenant n, n_mac n)"]) (auto simp: mac_inv_def in_line_def)
  then show ?thesis by (simp add: t_one_def Some)
qed

lemma new_node_returns:
  assumes "tnt_queryById t d = Some tn" and "grp_queryDefaultGroup t d = Inr (Some g)"
  shows "new_node t uuid registReq d = Inr (new_row t uuid registReq tn (t_next (d_node d)),
    grp_addMember t (r_id g) (t_next (d_node d)) (d\<lparr>d_node := snd (t_insert (new_row t uuid registReq tn) (d_node d))\<rparr>))"
  using assms by (simp add: new_node_def insert_node_def t_insert_def grp_queryDefaultGroup_def)

text \<open>The node that a registration works on: the known one, or the new one once it is stored.\<close>

definition stored_nodes :: "nat \<Rightarrow> string \<Rightarrow> RegistReq \<Rightarrow> TenantRow \<Rightarrow> NodeRow option \<Rightarrow> Db \<Rightarrow> NodeRow tab" where
  "stored_nodes t uuid req tn found d =
     (case found of Some n \<Rightarrow> d_node d | None \<Rightarrow> snd (t_insert (new_row t uuid req tn) (d_node d)))"

definition the_node :: "nat \<Rightarrow> string \<Rightarrow> RegistReq \<Rightarrow> TenantRow \<Rightarrow> NodeRow option \<Rightarrow> Db \<Rightarrow> NodeRow" where
  "the_node t uuid req tn found d = (case found of Some n \<Rightarrow> n | None \<Rightarrow> new_row t uuid req tn (t_next (d_node d)))"

lemma stored_node:
  assumes addr: "addr_inv pat pick d" and tn: "tnt_queryById t d = Some tn"
    and g: "found = None \<Longrightarrow> grp_queryDefaultGroup t d = Inr (Some g)"
    and found: "found = find (in_line t (\<lambda>n. n_mac n = rq_macAddress req)) (t_rows (d_node d))"
  obtains d1 where
    "(case found of Some n \<Rightarrow> Inr (n, d) | None \<Rightarrow> new_node t uuid req d) = Inr (the_node t uuid req tn found d, d1)"
    and "d_node d1 = stored_nodes t uuid req tn found d" and "d_vip_pool d1 = d_vip_pool d" and "d_tenant d1 = d_tenant d"
    and "owners d1 = owners d" and "addr_inv pat pick d1" and "the_node t uuid req tn found d \<in> set (t_rows (d_node d1))"
    and "r_tenant (the_node t uuid req tn found d) = t" and "n_mac (the_node t uuid req tn found d) = rq_macAddress req"
proof (cases found)
  case (Some n)
  then have "n \<in> set (t_rows (d_node d))" "r_tenant n = t" "n_mac n = rq_macAddress req"
    using find_SomeD [OF found [symmetric, unfolded Some]] by (simp_all add: in_line_def)
  then show ?thesis by (intro that [of d]) (simp_all add: Some the_node_def stored_nodes_def addr)
next
  case None
  note new = new_node_returns [OF tn g [OF None], of uuid req]
  note law = new_node_law [OF addr new]
  have "owner (new_row t uuid req tn i) = []" for i by (simp add: owner_def new_row_def)
  moreover have "n_mac (new_row t uuid req tn i) = rq_macAddress req" for i by (simp add: new_row_def)
  ultimately show ?thesis
    by (intro that [OF _ _ law(5,4) _ law(1)])
      (use None new law(2,3) in \<open>simp_all add: the_node_def stored_nodes_def owners_def grp_addMember_def insert_member_def\<close>)
qed

lemma regist_run:
  assumes "tnt_queryByTenantCode (rq_tenantId req) d = Inr (Some tn)"
    and "t_one (in_line (r_id tn) (\<lambda>n. n_mac n = rq_macAddress req)) (d_node d) = Inr found"
    and "(case found of Some n \<Rightarrow> Inr (n, d) | None \<Rightarrow> new_node (r_id tn) uuid req d) = Inr (node, d1)"
    and "ensure_vip pat pick (r_id tn) node d1 = Some r"
  shows "dbs_assignNodeInfo pat pick uuid req d =
    Some (case bindR r (\<lambda>(node, d2). admit_node (r_id tn) req node d2) of
            Inl e \<Rightarrow> (d1, Inl e) | Inr (detail, d3) \<Rightarrow> (d3, Inr (node_config (r_id tn) detail d3)))"
proof -
  have "nod_assignNodeInfo pat pick (r_id tn) uuid req d =
      Some (case bindR r (\<lambda>(node, d2). admit_node (r_id tn) req node d2) of Inl e \<Rightarrow> (d1, Inl e) | Inr (detail, d3) \<Rightarrow> (d3, Inr detail))"
    using assms(2-) by (simp add: nod_assignNodeInfo_def)
  then show ?thesis using assms(1) by (simp add: dbs_assignNodeInfo_def split: sum.split prod.split)
qed

lemma regist_no_group:
  assumes "tnt_queryByTenantCode (rq_tenantId req) d = Inr (Some tn)"
    and "t_one (in_line (r_id tn) (\<lambda>n. n_mac n = rq_macAddress req)) (d_node d) = Inr None" and "tnt_queryById (r_id tn) d = Some tn"
    and "\<forall>g. grp_queryDefaultGroup (r_id tn) d \<noteq> Inr (Some g)"
  shows "dbs_assignNodeInfo pat pick uuid req d =
    Some (d, Inl (case grp_queryDefaultGroup (r_id tn) d of Inl e \<Rightarrow> e | Inr g \<Rightarrow> NullPointerException))"
proof -
  have "new_node (r_id tn) uuid req d = Inl (case grp_queryDefaultGroup (r_id tn) d of Inl e \<Rightarrow> e | Inr g \<Rightarrow> NullPointerException)"
    using assms(3,4) by (auto simp: new_node_def insert_node_def t_insert_def grp_queryDefaultGroup_def split: sum.splits option.splits)
  then show ?thesis using assms(1,2) by (simp add: dbs_assignNodeInfo_def nod_assignNodeInfo_def)
qed

lemma known_verdict:
  assumes mac: "mac_inv d" and addr: "addr_inv pat pick d"
    and code: "tnt_queryByTenantCode (rq_tenantId req) d = Inr (Some tn)" and q: "tnt_queryById (r_id tn) d = Some tn"
    and g: "find (in_line (r_id tn) (\<lambda>n. n_mac n = rq_macAddress req)) (t_rows (d_node d)) = None \<Longrightarrow>
      grp_queryDefaultGroup (r_id tn) d = Inr (Some g)"
  shows "\<exists>d' r. dbs_assignNodeInfo pat pick uuid req d = Some (d', r) \<and>
    (let t = r_id tn;
         found = find (in_line t (\<lambda>n. n_mac n = rq_macAddress req)) (t_rows (d_node d));
         node = the_node t uuid req tn found d
     in case verdict (tn_nodeGrant tn) (n_enable node) (n_vip node \<noteq> None) (exhausted pat tn d) of
          Some c \<Rightarrow> r = Inl (code_error c) \<and> d_node d' = stored_nodes t uuid req tn found d \<and>
            d_vip_pool d' = d_vip_pool d \<and> d_tenant d' = d_tenant d
        | None \<Rightarrow> \<exists>cfg. r = Inr cfg \<and> nc_mac cfg = rq_macAddress req \<and>
            (case n_vip node of
               Some v \<Rightarrow> nc_vip cfg = v \<and> set (owners d') = set (owners d)
             | None \<Rightarrow> (t, nc_vip cfg) \<notin> set (owners d) \<and> set (owners d') = insert (t, nc_vip cfg) (set (owners d))))"
proof -
  define t where "t = r_id tn"
  define found where "found = find (in_line t (\<lambda>n. n_mac n = rq_macAddress req)) (t_rows (d_node d))"
  define node where "node = the_node t uuid req tn found d"
  have tn: "tnt_queryById t d = Some tn" using q by (simp add: t_def)
  from stored_node [OF addr tn g [folded t_def, folded found_def] found_def, where uuid = uuid, folded node_def]
  obtain d1 where d1: "(case found of Some n \<Rightarrow> Inr (n, d) | None \<Rightarrow> new_node t uuid req d) = Inr (node, d1)"
      "d_node d1 = stored_nodes t uuid req tn found d" "d_vip_pool d1 = d_vip_pool d" "d_tenant d1 = d_tenant d" "owners d1 = owners d"
    and inv1: "addr_inv pat pick d1" and n: "node \<in> set (t_rows (d_node d1))" "r_tenant node = t" "n_mac node = rq_macAddress req"
    by metis
  have tn1: "tnt_queryById t d1 = Some tn" using tn d1(4) by (simp add: tnt_queryById_def)
  have ex: "exhausted pat tn d1 = exhausted pat tn d" using d1(3) by (simp add: exhausted_def pool_def)
  obtain r where e: "ensure_vip pat pick t node d1 = Some r" using ensure_vip_returns [OF inv1] by blast
  note v = admission_verdict [OF inv1 n(1,2) tn1 e, of req, unfolded ex d1(5)]
  let ?b = "bindR r (\<lambda>(node, d2). admit_node t req node d2)"
  have run: "dbs_assignNodeInfo pat pick uuid req d = Some (case ?b of Inl e \<Rightarrow> (d1, Inl e) | Inr (detail, d3) \<Rightarrow> (d3, Inr (node_config t detail d3)))"
    unfolding t_def by (rule regist_run [OF code mac_t_one [OF mac] d1(1) [unfolded t_def found_def] e [unfolded t_def]])
  show ?thesis
  proof (cases "verdict (tn_nodeGrant tn) (n_enable node) (n_vip node \<noteq> None) (exhausted pat tn d)")
    case (Some c)
    then have "?b = Inl (code_error c)" using v by simp
    then show ?thesis using run d1(2-4) Some by (simp add: Let_def flip: t_def found_def node_def)
  next
    case None
    then obtain detail d3 w where b: "?b = Inr (detail, d3)" "nd_mac detail = n_mac node" "nd_vip detail = Some w"
      "case n_vip node of Some u \<Rightarrow> w = u \<and> set (owners d3) = set (owners d)
        | None \<Rightarrow> (t, w) \<notin> set (owners d) \<and> set (owners d3) = insert (t, w) (set (owners d))"
      using v by auto
    then have "nc_mac (node_config t detail d3) = rq_macAddress req" "nc_vip (node_config t detail d3) = w"
      using n(3) by (simp_all add: node_config_def)
    then show ?thesis using run b(1,4) None by (cases "n_vip node") (simp_all add: Let_def flip: t_def found_def node_def)
  qed
qed

text \<open>
  C6: What a registration answers, for a tenant that exists, in every database reached by requests whose additions carry no id. The
  node is the one with the hardware address of the request; there is at most one. A node that is unknown
  joins the default group; where the tenant has none, as the console lets it be deleted, the
  registration fails with an exception and nothing is stored. Otherwise it is
  stored first, disabled where the tenant grants nodes, and stays stored whatever follows. The answer is then
  the verdict on the four conditions: an error with its code and the pools as they were, or a configuration
  with the address that the node already has or else with one that no node of the tenant has.
\<close>

theorem registration_verdict:
  assumes "ipv4_pattern pat" and "picks pick" and "console_reached pat pick adds_fresh d"
    and "tnt_queryByTenantCode (rq_tenantId req) d = Inr (Some tn)"
  shows "\<exists>d' r. dbs_assignNodeInfo pat pick uuid req d = Some (d', r) \<and>
    (let t = r_id tn;
         found = find (in_line t (\<lambda>n. n_mac n = rq_macAddress req)) (t_rows (d_node d));
         node = the_node t uuid req tn found d
     in if found = None \<and> (\<forall>g. grp_queryDefaultGroup t d \<noteq> Inr (Some g))
        then d' = d \<and> r = Inl (case grp_queryDefaultGroup t d of Inl e \<Rightarrow> e | Inr g \<Rightarrow> NullPointerException)
        else case verdict (tn_nodeGrant tn) (n_enable node) (n_vip node \<noteq> None) (exhausted pat tn d) of
          Some c \<Rightarrow> r = Inl (code_error c) \<and> d_node d' = stored_nodes t uuid req tn found d \<and>
            d_vip_pool d' = d_vip_pool d \<and> d_tenant d' = d_tenant d
        | None \<Rightarrow> \<exists>cfg. r = Inr cfg \<and> nc_mac cfg = rq_macAddress req \<and>
            (case n_vip node of
               Some v \<Rightarrow> nc_vip cfg = v \<and> set (owners d') = set (owners d)
             | None \<Rightarrow> (t, nc_vip cfg) \<notin> set (owners d) \<and> set (owners d') = insert (t, nc_vip cfg) (set (owners d))))"
proof -
  define t where "t = r_id tn"
  define found where "found = find (in_line t (\<lambda>n. n_mac n = rq_macAddress req)) (t_rows (d_node d))"
  define node where "node = the_node t uuid req tn found d"
  have mac: "mac_inv d" using console_reached_mac assms(1-3) by blast
  have addr: "addr_inv pat pick d" using console_reached_addr assms(1-3) by blast
  have "tn \<in> set (t_rows (d_tenant d))" using assms(4) by (auto simp: tnt_queryByTenantCode_def dest: t_one_Some)
  then have tn: "tnt_queryById t d = Some tn"
    using pool_invD(2) [OF addr_invD(2) [OF addr]] by (intro tnt_queryById_in) (simp_all add: t_def)
  show ?thesis
  proof (cases "found = None \<and> (\<forall>g. grp_queryDefaultGroup t d \<noteq> Inr (Some g))")
    case True
    then have "dbs_assignNodeInfo pat pick uuid req d =
        Some (d, Inl (case grp_queryDefaultGroup t d of Inl e \<Rightarrow> e | Inr g \<Rightarrow> NullPointerException))"
      using regist_no_group [OF assms(4) _ tn [unfolded t_def], where uuid = uuid and pat = pat and pick = pick] mac_t_one [OF mac, of t "rq_macAddress req"]
      by (simp flip: t_def found_def)
    then show ?thesis using True by (simp add: Let_def flip: t_def found_def)
  next
    case False
    then obtain g where "found = None \<Longrightarrow> grp_queryDefaultGroup t d = Inr (Some g)" by blast
    from known_verdict [OF mac addr assms(4) tn [unfolded t_def] this [unfolded t_def found_def], where uuid = uuid]
    show ?thesis using False by (auto simp: Let_def simp flip: t_def found_def)
  qed
qed

end
