(* ===== verification/ConsoleSample.thy ===== *)
theory ConsoleSample
  imports Registration
begin

text \<open>
  A small console for the witnesses: one tenant whose pool is a \<open>/30\<close> block, with three nodes that registered.
  The block has four addresses and one of them can be assigned; the other two nodes got the addresses after the
  block.
\<close>

definition small_block :: nat where
  "small_block = quad_nat 10 0 0 0"

definition small_cidr :: string where
  "small_cidr = quad_str 10 0 0 0 @ ''/'' @ show_nat 30"

definition small_tenant :: EditTenantRequest where
  "small_tenant = \<lparr>et_id = None, et_name = Some ''acme'', et_description = None, et_code = Some ''acme'', et_cidr = small_cidr,
     et_username = Some ''admin1'', et_password = Some ''secret'', et_stunServerList = [''h:80''], et_relayServerList = [''h:80''], et_enable = True,
     et_nodeGrant = False\<rparr>"

definition small_regist :: "string \<Rightarrow> RegistReq" where
  "small_regist mac = \<lparr>rq_tenantId = ''acme'', rq_nodeType = SimpleType, rq_macAddress = mac, rq_addressUri = [], rq_os = ''o'',
     rq_osVersion = ''v'', rq_nodeVersion = ''n'', rq_mesh = False\<rparr>"

text \<open>The nodes with their addresses, which have been given in this order.\<close>

definition small_node :: "nat \<Rightarrow> string \<Rightarrow> nat \<Rightarrow> NodeRow" where
  "small_node i mac k = \<lparr>r_id = i, r_tenant = 1, n_name = Some ''x'', n_description = None, n_mac = mac,
     n_vip = Some (vip_at small_block k), n_os = Some ''o'', n_osVersion = Some ''v'', n_nodeVersion = Some ''n'', n_mesh = False, n_enable = True\<rparr>"

definition small_db :: "(nat \<times> string \<times> nat) list \<Rightarrow> jint \<Rightarrow> Db" where
  "small_db ns idx = empty_db
     \<lparr>d_account := \<lparr>t_rows = [\<lparr>r_id = 1, ac_username = ''root'', ac_password = ''thunder'', ac_role = ''Root''\<rparr>,
        \<lparr>r_id = 2, ac_username = ''admin1'', ac_password = ''secret'', ac_role = ''TenantAdmin''\<rparr>], t_next = 3\<rparr>,
      d_tenant := \<lparr>t_rows = [(new_tenant small_tenant 2 ''acme'' ''acme'' 1)\<lparr>tn_ipIndex := idx\<rparr>], t_next = 2\<rparr>,
      d_group := \<lparr>t_rows = [\<lparr>r_id = 1, r_tenant = 1, g_name = ''default'', g_description = None, g_default = True\<rparr>], t_next = 2\<rparr>,
      d_route_rule := \<lparr>t_rows = [\<lparr>r_id = 1, r_tenant = 1, ru_name = ''default'', ru_description = None, ru_strategy = RS_Allow,
        ru_direction = RD_All, ru_ruleList = [''0.0.0.0/0''], ru_level = 100, ru_enable = True\<rparr>], t_next = 2\<rparr>,
      d_group_rule := \<lparr>t_rows = [\<lparr>r_id = 1, r_tenant = 1, gu_groupId = 1, gu_ruleId = 1\<rparr>], t_next = 2\<rparr>,
      d_node := \<lparr>t_rows = map (\<lambda>(i, mac, k). small_node i mac k) ns, t_next = Suc (length ns)\<rparr>,
      d_vip_pool := \<lparr>t_rows = map (\<lambda>(i, mac, k). \<lparr>r_id = i, r_tenant = 1, p_vip = vip_at small_block k, p_used = True\<rparr>) ns, t_next = Suc (length ns)\<rparr>,
      d_group_member := \<lparr>t_rows = map (\<lambda>(i, mac, k). \<lparr>r_id = i, r_tenant = 1, gm_groupId = 1, gm_memberId = i\<rparr>) ns, t_next = Suc (length ns)\<rparr>\<rparr>"

lemma small_is_block: "is_block small_block 30"
  by (simp add: is_block_def block_of_def small_block_def quad_nat_def)

lemma small_parse: "parseCidr isIPv4 small_cidr = Inr (cidr_of small_block 30)"
  using ipv4_pattern.parseCidr_text [OF own_pattern.ipv4_pattern_axioms, of 10 0 0 0 30] small_is_block
  by (simp add: small_cidr_def small_block_def is_block_def)

lemma small_avail: "k < 256 \<Longrightarrow> avail small_block 30 k \<longleftrightarrow> k \<notin> {0, 1, 3}"
proof -
  assume k: "k < 256"
  have q: "vip_at small_block j = quad_str 10 0 0 j" if "j < 256" for j
    using that int2ip_quad_nat [of 10 0 0 j] by (simp add: vip_at_def small_block_def quad_nat_def)
  have "ip_num (mask_text 30) = 2 ^ 32 - 2 ^ 2" unfolding mask_text_def by (simp add: ip_num_int2ip del: of_nat_numeral)
  moreover have "ip_num (quad_str 10 0 0 k) = quad_nat 10 0 0 k" using k by (simp add: ip_num_quad_str)
  ultimately have "mask_text 30 \<noteq> vip_at small_block k" using k by (auto simp: q quad_nat_def)
  moreover have "networkIdentifier (cidr_of small_block 30) = vip_at small_block 0"
    "gatewayAddress (cidr_of small_block 30) = vip_at small_block 1" "broadcastAddress (cidr_of small_block 30) = vip_at small_block 3"
    "maskAddress (cidr_of small_block 30) = mask_text 30"
    by (simp_all add: cidr_of_def vip_at_def add.commute)
  moreover have i: "vip_at small_block k = vip_at small_block j \<longleftrightarrow> k = j" if "j < 256" for j
    using k that vip_at_inj [of k j small_block] by auto
  ultimately show ?thesis
    unfolding avail_def isAvailableIp_iff using i [of 0] i [of 1] i [of 3] by simp blast
qed

lemma small_tenant_added: "handle isIPv4 pick t (TenantAdd \<lparr>pr_stun = \<lambda>_. True, pr_relay = \<lambda>_. True\<rparr> small_tenant) empty_db = Some (small_db [] (- 1))"
proof -
  let ?W = "\<lparr>pr_stun = \<lambda>_. True, pr_relay = \<lambda>_. True\<rparr>"
  have "split_all CHR '':'' ''h:80'' = [''h'', ''80'']" by simp
  then have "java_split CHR '':'' ''h:80'' = [''h'', ''80'']" by (subst java_split_last) simp_all
  moreover have "parseInt ''80'' = Inr 80" using parseInt_show_nat [of 80] by (simp add: show_nat.simps digit_char_def char_of_def bit_0)
  ultimately have sock: "socket_parse ''h:80'' = Inr (''h'', 80)" by (simp add: socket_parse_def atR_def guardR_def)
  have pool: "tnt_checkPool isIPv4 small_cidr = Inr ()" by (simp add: tnt_checkPool_def small_parse cidr_of_def)
  have p: "tnt_check isIPv4 small_tenant = Inr ()" "checkServerList ?W (et_stunServerList small_tenant) (et_relayServerList small_tenant) = Inr ()"
    by (simp_all add: tnt_check_def checkServerList_def small_tenant_def pool sock as_process_def guardR_def pwd_find_def word_char_def)
  have u: "tnt_checkUnique None (Some ''admin1'') (Some ''acme'') (Some ''acme'') empty_db = Inr ()"
    by (simp add: tnt_checkUnique_def t_count_0 empty_db_def taken_def)
  have a: "add_groups 1 ins [1] d = Inr (ins 1 d)"
    if "d_group d = \<lparr>t_rows = [\<lparr>r_id = 1, r_tenant = 1, g_name = ''default'', g_description = None, g_default = True\<rparr>], t_next = n\<rparr>" for ins d n
    using that by (simp add: add_groups_def selectBatchIds_def t_list_def in_line_def)
  have e: "d_group empty_db = \<lparr>t_rows = [], t_next = 1\<rparr>" "d_tenant empty_db = \<lparr>t_rows = [], t_next = 1\<rparr>"
    "d_route_rule empty_db = \<lparr>t_rows = [], t_next = 1\<rparr>"
    by (simp_all add: empty_db_def)
  have "tnt_add small_tenant empty_db = Inr (small_db [] (- 1))"
    by (simp add: tnt_add_def u not_null_def t_insert_def grp_addDefaultGroup_def small_tenant_def
      rul_addDefaultRouteRule_def insert_rule_def gcf_updateGroupRouteRule_def gcf_deleteGroupRouteRule_def a [simplified] e)
      (simp add: small_db_def empty_db_def new_tenant_def small_tenant_def insert_group_rule_def t_delete_def t_insert_def)
  then show ?thesis by (simp add: TenantController_add_def p commit_def)
qed

lemma assignIp_fresh:
  assumes "picks pick" and "wf_ids (d_tenant d)" and "wf_ids (d_vip_pool d)" and "tnt_queryById t d = Some tn"
    and "tenant_pool pat tn b m d" and "\<forall>r \<in> set (pool t d). p_used r" and "next_vip b m tn = Some k"
  shows "assignIp pat pick t (Some tn) d = Some (Inr (vip_at b k, insert_vip t (vip_at b k) (set_index t (of_nat k) d)))"
  using assms(1-5) by (cases rule: assignIp_cases) (use assms(6,7) in auto)


text \<open>One more node registers and gets the next address that can be assigned.\<close>

definition small_ok :: "(nat \<times> string \<times> nat) list \<Rightarrow> jint \<Rightarrow> bool" where
  "small_ok ns idx \<longleftrightarrow> - 1 \<le> sint idx \<and> sint idx \<le> 5 \<and>
     (\<forall>(i, mac, k) \<in> set ns. i \<le> length ns \<and> int k \<le> sint idx \<and> k \<notin> {0, 1, 3}) \<and> distinct (map fst ns)"

lemma small_pool:
  assumes "small_ok ns idx"
  shows "tenant_pool isIPv4 ((new_tenant small_tenant 2 ''acme'' ''acme'' 1)\<lparr>tn_ipIndex := idx\<rparr>) small_block 30 (small_db ns idx)"
proof -
  have "avail small_block 30 k" if "(i, mac, k) \<in> set ns" for i mac k
  proof -
    have "k < 256" "k \<notin> {0, 1, 3}" using assms that by (fastforce simp: small_ok_def)+
    then show ?thesis using small_avail by blast
  qed
  moreover have "int k \<le> sint idx" if "(i, mac, k) \<in> set ns" for i mac k using assms that by (auto simp: small_ok_def)
  ultimately show ?thesis
    using assms small_is_block
    by (auto simp: tenant_pool_def new_tenant_def small_tenant_def small_parse small_db_def set_pool small_ok_def)
qed

lemma small_next:
  "find (avail small_block 30) [j ..< 6] = find (\<lambda>k. k \<notin> {0, 1, 3}) [j ..< 6]"
  by (rule find_cong [OF refl]) (simp add: small_avail)

lemma small_run:
  assumes "small_ok ns idx" and "\<forall>(i, mac', k) \<in> set ns. mac' \<noteq> mac"
    and "find (\<lambda>k. k \<notin> {0, 1, 3}) [nat (sint idx + 1) ..< 6] = Some k"
  shows "\<exists>cfg. dbs_assignNodeInfo isIPv4 hd ''x'' (small_regist mac) (small_db ns idx) =
    Some (small_db (ns @ [(Suc (length ns), mac, k)]) (of_nat k), Inr cfg)"
proof -
  define d where "d = small_db ns idx"
  define tn where "tn = (new_tenant small_tenant 2 ''acme'' ''acme'' 1)\<lparr>tn_ipIndex := idx\<rparr>"
  let ?n = "Suc (length ns)" and ?req = "small_regist mac" and ?v = "vip_at small_block k"
  have tables: "d_node d = \<lparr>t_rows = map (\<lambda>(i, mac, k). small_node i mac k) ns, t_next = ?n\<rparr>"
    "d_vip_pool d = \<lparr>t_rows = map (\<lambda>(i, mac, k). \<lparr>r_id = i, r_tenant = 1, p_vip = vip_at small_block k, p_used = True\<rparr>) ns, t_next = ?n\<rparr>"
    "d_tenant d = \<lparr>t_rows = [tn], t_next = 2\<rparr>"
    "d_group d = \<lparr>t_rows = [\<lparr>r_id = 1, r_tenant = 1, g_name = ''default'', g_description = None, g_default = True\<rparr>], t_next = 2\<rparr>"
    "d_group_member d = \<lparr>t_rows = map (\<lambda>(i, mac, k). \<lparr>r_id = i, r_tenant = 1, gm_groupId = 1, gm_memberId = i\<rparr>) ns, t_next = ?n\<rparr>"
    by (simp_all add: d_def tn_def small_db_def)
  have tn: "r_id tn = 1" "tn_code tn = ''acme''" "tn_ipIndex tn = idx" "\<not> tn_nodeGrant tn"
    by (simp_all add: tn_def new_tenant_def small_tenant_def)
  have code: "tnt_queryByTenantCode (rq_tenantId ?req) d = Inr (Some tn)"
    by (simp add: tnt_queryByTenantCode_def t_one_def t_list_def tables small_regist_def tn)
  have query: "tnt_queryById 1 d = Some tn" by (simp add: tnt_queryById_def tables t_list_def has_id_def tn)
  have g: "grp_queryDefaultGroup 1 d = Inr (Some \<lparr>r_id = 1, r_tenant = 1, g_name = ''default'', g_description = None, g_default = True\<rparr>)"
    by (simp add: grp_queryDefaultGroup_def t_one_def t_list_def in_line_def tables)
  have "t_list (in_line 1 (\<lambda>n. n_mac n = mac)) (d_node d) = []"
    using assms(2) by (auto simp: t_list_Nil_iff in_line_def tables small_node_def)
  then have one: "t_one (in_line 1 (\<lambda>n. n_mac n = mac)) (d_node d) = Inr None" by (simp add: t_one_def)
  define node where "node = new_row 1 ''x'' ?req tn ?n"
  define d1 where "d1 = grp_addMember 1 1 ?n (d\<lparr>d_node := snd (t_insert (new_row 1 ''x'' ?req tn) (d_node d))\<rparr>)"
  define d2 where "d2 = insert_vip 1 ?v (set_index 1 (of_nat k) d1)"
  have new: "new_node 1 ''x'' ?req d = Inr (node, d1)"
    using new_node_returns [OF query g, of "''x''" ?req] by (simp add: tables node_def d1_def)
  have d1: "d_tenant d1 = d_tenant d" "d_vip_pool d1 = d_vip_pool d"
    by (simp_all add: d1_def grp_addMember_def insert_member_def)
  then have query1: "tnt_queryById 1 d1 = Some tn" using query by (simp add: tnt_queryById_def)
  have take: "assignIp isIPv4 hd 1 (Some tn) d1 = Some (Inr (?v, d2))"
    unfolding d2_def
  proof (rule assignIp_fresh [OF _ _ _ query1])
    show "picks hd" by (simp add: picks_def)
    show "wf_ids (d_tenant d1)" by (simp add: d1 tables wf_ids_def tn)
    show "wf_ids (d_vip_pool d1)"
      unfolding d1 tables using assms(1) by (auto simp: wf_ids_def small_ok_def comp_def case_prod_unfold)
    show "tenant_pool isIPv4 tn small_block 30 d1"
      using small_pool [OF assms(1)] tenant_pool_cong [of d1 d] by (simp add: d1 d_def tn_def)
    show "\<forall>r \<in> set (pool 1 d1). p_used r" unfolding set_pool d1 tables by auto
    show "next_vip small_block 30 tn = Some k" using assms(3) by (simp add: next_vip_def small_next tn del: upt_Suc)
  qed
  have ens: "ensure_vip isIPv4 hd 1 node d1 = Some (Inr (node\<lparr>n_vip := Some ?v\<rparr>, d2))"
    using take query1 tn by (simp add: ensure_vip_def no_vip_def node_def new_row_def)
  have old: "i \<noteq> ?n" if "(i, mac', j) \<in> set ns" for i mac' j using assms(1) that by (fastforce simp: small_ok_def)
  have "t_count (in_line 1 (\<lambda>m. gm_groupId m = 1 \<and> gm_memberId m = ?n)) (d_group_member d) = 0"
    using old by (auto simp: t_count_0 in_line_def tables)
  then have member: "d1 = insert_member 1 1 ?n (d\<lparr>d_node := snd (t_insert (new_row 1 ''x'' ?req tn) (d_node d))\<rparr>)"
    by (simp add: d1_def grp_addMember_def)
  have row: "t_update (in_line 1 (has_id ?n)) f (snd (t_insert (new_row 1 ''x'' ?req tn) (d_node d))) =
      \<lparr>t_rows = map (\<lambda>(i, mac, k). small_node i mac k) ns @ [f node], t_next = Suc ?n\<rparr>" for f
    using old by (auto simp: t_update_def t_insert_def tables in_line_def has_id_def small_node_def node_def new_row_def)
  let ?node = "node\<lparr>n_vip := Some ?v, n_os := Some (rq_os ?req), n_osVersion := Some (rq_osVersion ?req),
      n_nodeVersion := Some (rq_nodeVersion ?req), n_mesh := rq_mesh ?req\<rparr>"
  have "nod_updateById 1 ?node d2 = small_db (ns @ [(?n, mac, k)]) (of_nat k)"
  proof -
    have i: "r_id node = ?n" by (simp add: node_def new_row_def)
    have nodes: "d_node d2 = snd (t_insert (new_row 1 ''x'' ?req tn) (d_node d))"
      by (simp add: d2_def member insert_vip_def insert_member_def)
    have others: "d2 = small_db (ns @ [(?n, mac, k)]) (of_nat k)\<lparr>d_node := d_node d2\<rparr>"
      unfolding nodes
      by (simp add: d2_def member insert_vip_def insert_member_def set_index_def tables t_insert_def t_update_def has_id_def tn)
        (simp add: d_def small_db_def tn_def)
    have d2: "d2\<lparr>d_node := T\<rparr> = small_db (ns @ [(?n, mac, k)]) (of_nat k)\<lparr>d_node := T\<rparr>" for T
      by (subst others) simp
    have "nod_updateById 1 ?node d2 = d2\<lparr>d_node := \<lparr>t_rows = map (\<lambda>(i, mac, k). small_node i mac k) ns @ [small_node ?n mac k], t_next = Suc ?n\<rparr>\<rparr>"
      by (simp add: nod_updateById_def nodes i row [unfolded One_nat_def])
        (simp add: node_def new_row_def small_node_def if_set_option_def small_regist_def tn)
    then show ?thesis unfolding d2 by (simp add: small_db_def)
  qed
  moreover have "n_enable node" by (simp add: node_def new_row_def tn)
  ultimately have "\<exists>detail. admit_node 1 ?req (node\<lparr>n_vip := Some ?v\<rparr>) d2 = Inr (detail, small_db (ns @ [(?n, mac, k)]) (of_nat k))"
    by (simp add: admit_node_def Let_def)
  then obtain detail where adm: "admit_node 1 ?req (node\<lparr>n_vip := Some ?v\<rparr>) d2 = Inr (detail, small_db (ns @ [(?n, mac, k)]) (of_nat k))" ..
  have mac: "rq_macAddress ?req = mac" by (simp add: small_regist_def)
  have "dbs_assignNodeInfo isIPv4 hd ''x'' ?req d = Some (small_db (ns @ [(?n, mac, k)]) (of_nat k),
      Inr (node_config 1 detail (small_db (ns @ [(?n, mac, k)]) (of_nat k))))"
    using regist_run [OF code, unfolded tn(1) mac, OF one _ ens] new by (simp add: adm [unfolded One_nat_def])
  then show ?thesis unfolding d_def by blast
qed

lemma small_registered:
  assumes "small_ok ns idx" and "\<forall>(i, mac', k) \<in> set ns. mac' \<noteq> mac"
    and "find (\<lambda>k. k \<notin> {0, 1, 3}) [nat (sint idx + 1) ..< 6] = Some k"
  shows "handle isIPv4 hd t (NodeRegist ''x'' (small_regist mac)) (small_db ns idx) =
    Some (small_db (ns @ [(Suc (length ns), mac, k)]) (of_nat k))"
  using small_run [OF assms] by auto

text \<open>Three nodes.\<close>

definition small_nodes :: "(nat \<times> string \<times> nat) list" where
  "small_nodes = [(1, ''a'', 2), (2, ''b'', 4), (3, ''c'', 5)]"

lemma small_tenant_reached: "(\<And>W r. ok (TenantAdd W r)) \<Longrightarrow> console_reached isIPv4 hd ok (small_db [] (- 1))"
  by (rule console_reached.request [OF console_reached.start _ small_tenant_added])

lemma small_reached_any:
  assumes ok: "\<And>W r. ok (TenantAdd W r)" "\<And>u r. ok (NodeRegist u r)"
  shows "console_reached isIPv4 hd ok (small_db small_nodes 5)"
proof -
  have r0: "console_reached isIPv4 hd ok (small_db [] (- 1))" by (rule small_tenant_reached) (rule assms(1))
  have wf: "small_ok [] (- 1)" "small_ok [(1, ''a'', 2)] 2" "small_ok [(1, ''a'', 2), (2, ''b'', 4)] 4"
    by (simp_all add: small_ok_def)
  have "handle isIPv4 hd 1 (NodeRegist ''x'' (small_regist ''a'')) (small_db [] (- 1)) = Some (small_db [(1, ''a'', 2)] 2)"
    using small_registered [OF wf(1), of "''a''" 2 1] by (simp add: upt_rec)
  from console_reached.request [OF r0 assms(2) this] have r1: "console_reached isIPv4 hd ok (small_db [(1, ''a'', 2)] 2)" by simp
  have "handle isIPv4 hd 1 (NodeRegist ''x'' (small_regist ''b'')) (small_db [(1, ''a'', 2)] 2) = Some (small_db [(1, ''a'', 2), (2, ''b'', 4)] 4)"
    using small_registered [OF wf(2), of "''b''" 4 1] by (simp add: upt_rec numeral_2_eq_2)
  from console_reached.request [OF r1 assms(2) this] have r2: "console_reached isIPv4 hd ok (small_db [(1, ''a'', 2), (2, ''b'', 4)] 4)" by simp
  have "handle isIPv4 hd 1 (NodeRegist ''x'' (small_regist ''c'')) (small_db [(1, ''a'', 2), (2, ''b'', 4)] 4) = Some (small_db small_nodes 5)"
    using small_registered [OF wf(3), of "''c''" 5 1] by (simp add: upt_rec small_nodes_def numeral_3_eq_3)
  from console_reached.request [OF r2 assms(2) this] show ?thesis by simp
qed

lemma small_reached: "console_reached isIPv4 hd adds_fresh (small_db small_nodes 5)"
  by (rule small_reached_any) simp_all

text \<open>The node \<open>c\<close> has an address of the block's tenant that lies outside the block.\<close>

theorem console_addresses_witness:
  "console_reached isIPv4 hd adds_fresh (small_db small_nodes 5) \<and>
   (\<exists>r \<in> set (t_rows (d_vip_pool (small_db small_nodes 5))). r_tenant r = 1 \<and> p_vip r = vip_at small_block 5 \<and> p_used r) \<and>
   (\<exists>b m. parseCidr isIPv4 small_cidr = Inr (cidr_of b m) \<and>
     (\<exists>k. vip_at small_block 5 = vip_at b k \<and> 2 \<le> k \<and> k \<le> 2 ^ (32 - m) + 1 \<and> k \<noteq> 2 ^ (32 - m) - 1))"
proof -
  have p: "picks hd" by (simp add: picks_def)
  note c = console_addresses [OF own_pattern.ipv4_pattern_axioms p small_reached]
  have n: "small_node 3 ''c'' 5 \<in> set (t_rows (d_node (small_db small_nodes 5)))" "r_tenant (small_node 3 ''c'' 5) = 1"
    "n_vip (small_node 3 ''c'' 5) = Some (vip_at small_block 5)"
    by (simp_all add: small_db_def small_nodes_def small_node_def)
  obtain tn where tn: "tn \<in> set (t_rows (d_tenant (small_db small_nodes 5)))" "tn_cidr tn = small_cidr" "r_id tn = 1"
    by (simp add: small_db_def new_tenant_def small_tenant_def)
  show ?thesis
    using small_reached c [THEN conjunct2, THEN conjunct1] c [THEN conjunct2, THEN conjunct2, rule_format, OF tn(1)] n tn by metis
qed

text \<open>A fourth node is stored but gets no address; the second one gets its own again.\<close>

theorem registration_verdict_witness:
  "(\<exists>d'. dbs_assignNodeInfo isIPv4 hd ''y'' (small_regist ''d'') (small_db small_nodes 5) = Some (d', Inl (code_error MC_NotEnough)) \<and>
     length (t_rows (d_node d')) = 4) \<and>
   (\<exists>d' cfg. dbs_assignNodeInfo isIPv4 hd ''y'' (small_regist ''b'') (small_db small_nodes 5) = Some (d', Inr cfg) \<and>
     nc_vip cfg = vip_at small_block 4)"
proof -
  let ?d = "small_db small_nodes 5" and ?tn = "(new_tenant small_tenant 2 ''acme'' ''acme'' 1)\<lparr>tn_ipIndex := 5\<rparr>"
  have p: "picks hd" by (simp add: picks_def)
  have code: "tnt_queryByTenantCode (rq_tenantId (small_regist mac)) ?d = Inr (Some ?tn)" for mac
    by (simp add: tnt_queryByTenantCode_def t_one_def t_list_def small_db_def small_regist_def new_tenant_def)
  have g: "\<not> (\<forall>g. grp_queryDefaultGroup (r_id ?tn) ?d \<noteq> Inr (Some g))"
    by (simp add: grp_queryDefaultGroup_def t_one_def t_list_def in_line_def small_db_def new_tenant_def)
  have rows: "t_rows (d_node ?d) = [small_node 1 ''a'' 2, small_node 2 ''b'' 4, small_node 3 ''c'' 5]"
    by (simp add: small_db_def small_nodes_def)
  have "small_ok small_nodes 5" by (simp add: small_ok_def small_nodes_def)
  from next_address_vip [OF small_pool [OF this]] have "next_address isIPv4 ?tn = None"
    by (simp add: next_vip_def)
  then have ex: "exhausted isIPv4 ?tn ?d"
    by (auto simp: exhausted_def set_pool small_db_def small_nodes_def)
  note v = registration_verdict [OF own_pattern.ipv4_pattern_axioms p small_reached code, of "''y''"]
  show ?thesis
  proof
    show "\<exists>d'. dbs_assignNodeInfo isIPv4 hd ''y'' (small_regist ''d'') ?d = Some (d', Inl (code_error MC_NotEnough)) \<and>
        length (t_rows (d_node d')) = 4"
    proof -
      have f: "find (in_line (r_id ?tn) (\<lambda>n. n_mac n = rq_macAddress (small_regist ''d''))) (t_rows (d_node ?d)) = None"
        unfolding rows by (simp add: in_line_def small_node_def small_regist_def)
      have w: "verdict (tn_nodeGrant ?tn) (n_enable (new_row t u q ?tn i)) (n_vip (new_row t u q ?tn i) \<noteq> None) (exhausted isIPv4 ?tn ?d) =
          Some MC_NotEnough" for t u q i
        using ex by (simp add: verdict_def new_row_def new_tenant_def small_tenant_def)
      from v [of "''d''"] g show ?thesis
        unfolding Let_def f the_node_def option.case w stored_nodes_def by (auto simp: rows)
    qed
    show "\<exists>d' cfg. dbs_assignNodeInfo isIPv4 hd ''y'' (small_regist ''b'') ?d = Some (d', Inr cfg) \<and> nc_vip cfg = vip_at small_block 4"
    proof -
      have f: "find (in_line (r_id ?tn) (\<lambda>n. n_mac n = rq_macAddress (small_regist ''b''))) (t_rows (d_node ?d)) = Some (small_node 2 ''b'' 4)"
        unfolding rows by (simp add: in_line_def small_node_def small_regist_def new_tenant_def)
      have w: "verdict g (n_enable (small_node i m k)) (Some w \<noteq> None) e = None"
        "n_vip (small_node i m k) = Some (vip_at small_block k)" for g e i m k and w :: string
        by (simp_all add: verdict_def small_node_def)
      from v [of "''b''"] g show ?thesis
        unfolding Let_def f the_node_def option.case w by auto
    qed
  qed
qed

section \<open>Every request returns\<close>

text \<open>
  C18: In every database that the console can reach every request returns, the loops over the pool included. The
  loop that advances the index of a tenant by compare-and-set returns from every index that its caller may have
  read before others advanced it: it walks up to the current one, and takes the next.
\<close>

theorem console_requests_return:
  assumes "ipv4_pattern pat" and "picks pick" and "console_reached pat pick ok d"
  shows "(\<exists>d'. handle pat pick t r d = Some d') \<and>
    (\<forall>tn \<in> set (t_rows (d_tenant d)). selectIdx (r_id tn) idx d =
       Some (tn_ipIndex tn + 1, d\<lparr>d_tenant := t_update (has_id (r_id tn)) (\<lambda>x. x\<lparr>tn_ipIndex := tn_ipIndex tn + 1\<rparr>) (d_tenant d)\<rparr>))"
proof (intro conjI ballI)
  have inv: "addr_inv pat pick d" using console_reached_addr assms by blast
  then show "\<exists>d'. handle pat pick t r d = Some d'" by (rule handle_returns)
  fix tn
  assume tn: "tn \<in> set (t_rows (d_tenant d))"
  note wf = pool_invD(2) [OF addr_invD(2) [OF inv]]
  have k: "tn_ipIndex tn = idx + of_nat (unat (tn_ipIndex tn - idx))" by simp
  have l: "unat (tn_ipIndex tn - idx) < 2 ^ 32" using unsigned_less [of "tn_ipIndex tn - idx"] by simp
  show "selectIdx (r_id tn) idx d =
       Some (tn_ipIndex tn + 1, d\<lparr>d_tenant := t_update (has_id (r_id tn)) (\<lambda>x. x\<lparr>tn_ipIndex := tn_ipIndex tn + 1\<rparr>) (d_tenant d)\<rparr>)"
    using selectIdx_catches_up [OF wf tnt_queryById_in [OF wf tn refl] k l] unfolding set_index_def .
qed

text \<open>A caller that read the index of the small console before any node registered.\<close>

theorem console_requests_return_witness:
  "selectIdx 1 (- 1) (small_db small_nodes 5) = Some (6, small_db small_nodes 6)"
proof -
  have "picks hd" by (simp add: picks_def)
  from console_requests_return [OF own_pattern.ipv4_pattern_axioms this small_reached]
  show ?thesis by (simp add: small_db_def new_tenant_def t_update_def has_id_def)
qed

end
