(* ===== verification/ConsoleConfig.thy ===== *)
theory ConsoleConfig
  imports ConsoleSample Controller VirtualRouter
begin

text \<open>
  What the console stores against what the nodes need: the texts of routes, rules and translations parse, the
  nodes of a route exist, and the configuration that a registration delivers is the join of the groups of the
  node with what is enabled in them.
\<close>

section \<open>What the services leave alone\<close>

definition conf :: "Db \<Rightarrow> RouteRow tab \<times> RouteRuleRow tab \<times> VNATRow tab \<times> RouteNodeItemRow tab" where
  "conf d = (d_route d, d_route_rule d, d_vnat d, d_route_node_item d)"

definition node_keys :: "Db \<Rightarrow> (nat \<times> nat) set" where
  "node_keys d = (\<lambda>n. (r_tenant n, r_id n)) ` set (t_rows (d_node d))"

named_theorems conf_simps \<open>the tables of the configuration that an operation leaves as they are\<close>

lemma conf_links [conf_simps]:
  "conf (insert_member t g i d) = conf d" "conf (insert_group_route t g i d) = conf d"
  "conf (insert_group_rule t g i d) = conf d" "conf (insert_group_vnat t g i d) = conf d"
  "conf (grp_addMember t g i d) = conf d" "conf (grp_delAllGroupMember t i d) = conf d"
  "conf (gcf_deleteGroupRoute t i d) = conf d" "conf (gcf_deleteGroupRouteRule t i d) = conf d"
  "conf (gcf_deleteGroupVNAT t i d) = conf d" "conf (insert_vnat_item t g i d) = conf d"
  "conf (vnt_deleteItems t i d) = conf d" "conf (snd (grp_addDefaultGroup t d)) = conf d"
  "conf (snd (insert_node row d)) = conf d" "conf (insert_vip t v d) = conf d" "conf (release_vip t v d) = conf d"
  "conf (nod_updateById t n d) = conf d"
  by (simp_all add: conf_def insert_member_def insert_group_route_def insert_group_rule_def insert_group_vnat_def
    grp_addMember_def grp_delAllGroupMember_def gcf_deleteGroupRoute_def gcf_deleteGroupRouteRule_def
    gcf_deleteGroupVNAT_def insert_vnat_item_def vnt_deleteItems_def grp_addDefaultGroup_def insert_node_def
    insert_vip_def release_vip_def nod_updateById_def split: prod.splits)

lemma conf_updates [conf_simps]:
  "conf (d\<lparr>d_group := G\<rparr>) = conf d" "conf (d\<lparr>d_account := A\<rparr>) = conf d" "conf (d\<lparr>d_tenant := T\<rparr>) = conf d"
  "conf (d\<lparr>d_node := N\<rparr>) = conf d" "conf (d\<lparr>d_vip_pool := V\<rparr>) = conf d" "conf (d\<lparr>d_group_member := M\<rparr>) = conf d"
  "conf (d\<lparr>d_group_route := R\<rparr>) = conf d" "conf (d\<lparr>d_group_rule := U\<rparr>) = conf d" "conf (d\<lparr>d_group_vnat := W\<rparr>) = conf d"
  by (simp_all add: conf_def)

lemma conf_fold: "(\<And>x d. conf (f x d) = conf d) \<Longrightarrow> conf (fold f xs d) = conf d"
  by (rule fold_inv) auto

lemma conf_add_groups: "add_groups t ins l d = Inr d' \<Longrightarrow> (\<And>x d. conf (ins x d) = conf d) \<Longrightarrow> conf d' = conf d"
  by (auto simp: add_groups_def Let_def split: if_splits elim!: for_each_inv)

lemma conf_config:
  "gcf_updateGroupRoute t i l d = Inr d' \<Longrightarrow> conf d' = conf d"
  "gcf_updateGroupRouteRule t i l d = Inr d' \<Longrightarrow> conf d' = conf d"
  "gcf_updateGroupVNAT t i l d = Inr d' \<Longrightarrow> conf d' = conf d"
  by (auto simp: gcf_updateGroupRoute_def gcf_updateGroupRouteRule_def gcf_updateGroupVNAT_def conf_simps dest!: conf_add_groups)

lemma conf_vnt_items [conf_simps]: "conf (vnt_updateVNATItemList t i l d) = conf d"
  by (simp add: vnt_updateVNATItemList_def conf_fold conf_simps)

lemma conf_grp_updateMemberList [conf_simps]: "conf (grp_updateMemberList t request d) = conf d"
  by (simp add: grp_updateMemberList_def Let_def conf_fold conf_simps)

lemma conf_groups:
  "grp_add t g d = Inr d' \<Longrightarrow> conf d' = conf d" "grp_edit t g d = Inr d' \<Longrightarrow> conf d' = conf d"
  "grp_del t g d = Inr d' \<Longrightarrow> conf d' = conf d" "GroupController_updateMemberList t m d = Inr d' \<Longrightarrow> conf d' = conf d"
  by (auto simp: grp_add_def grp_edit_def grp_del_def GroupController_updateMemberList_def conf_simps res_simps split: if_splits)

lemma conf_tenants:
  "TenantController_edit pat W request d = Inr d' \<Longrightarrow> conf d' = conf d" "tnt_del request d = Inr d' \<Longrightarrow> conf d' = conf d"
  by (auto simp: TenantController_edit_def tnt_edit_def tnt_del_def res_simps Let_def conf_simps split: option.splits)

lemma conf_reuseIp: "reuseIp pick t d = Some r \<Longrightarrow> conf (snd r) = conf d"
  by (erule reuseIp.raw_induct [rotated]) (auto simp: Let_def conf_simps split: if_splits)

lemma conf_selectIdx: "selectIdx t idx d = Some r \<Longrightarrow> conf (snd r) = conf d"
  by (erule selectIdx.raw_induct [rotated]) (auto simp: Let_def tnt_updateIpIndex_def conf_simps split: if_splits)

lemma conf_assign_loop: "assign_loop cidr t idx d = Some (Inr (v, d')) \<Longrightarrow> conf d' = conf d"
proof -
  have "assign_loop cidr t idx d = Some r \<Longrightarrow> (case r of Inl e \<Rightarrow> True | Inr (v, d') \<Rightarrow> conf d' = conf d)" for r
  proof (erule assign_loop.raw_induct [rotated])
    fix loop :: "Cidr \<Rightarrow> nat \<Rightarrow> jint \<Rightarrow> Db \<Rightarrow> (string \<times> Db) res option" and cidr t idx d r
    assume ih: "\<And>cidr t idx d r. loop cidr t idx d = Some r \<Longrightarrow> (case r of Inl e \<Rightarrow> True | Inr (v, d') \<Rightarrow> conf d' = conf d)"
    assume "(if sint (i2l idx) > sint (addrCount cidr) then Some (Inl (ProcessCodeException (MessageCode_number MC_NotEnough)))
        else (case selectIdx t idx d of
                None \<Rightarrow> None
              | Some (idx', d') \<Rightarrow>
                  (case genIpByIdx cidr (i2l idx') of
                     Inl e \<Rightarrow> Some (Inl e)
                   | Inr vip \<Rightarrow> if \<not> isAvailableIp cidr vip then loop cidr t idx' d' else Some (Inr (vip, d'))))) = Some r"
    then show "(case r of Inl e \<Rightarrow> True | Inr (v, d') \<Rightarrow> conf d' = conf d)"
      using conf_selectIdx [of t idx d] ih [of cidr t]
      by (fastforce split: if_splits option.splits sum.splits prod.splits)
  qed
  then show "assign_loop cidr t idx d = Some (Inr (v, d')) \<Longrightarrow> conf d' = conf d" by fastforce
qed

lemma conf_take: "assignIp pat pick t tn d = Some (Inr (v, d')) \<Longrightarrow> conf d' = conf d"
  by (fastforce simp: assignIp_def res_simps conf_simps split: option.splits sum.splits dest: conf_reuseIp conf_assign_loop)

lemma conf_joins: "for_each (nod_joinGroup t n) l d = Inr d' \<Longrightarrow> conf d' = conf d"
  by (erule for_each_inv [where P = "\<lambda>d'. conf d' = conf d"]) (auto simp: nod_joinGroup_def conf_simps split: option.splits)

lemma nod_del_run:
  assumes "nod_del t request d = Inr d'"
  obtains i n d1 where "\<not> rte_usedNode t i d" and "conf d1 = conf d" and "d_node d1 = d_node d"
    and "d' = d1\<lparr>d_node := t_delete (in_line t (has_id i)) (d_node d)\<rparr>"
proof -
  obtain i n where "selectById t i (d_node d) = Some n" and "\<not> rte_usedNode t i d"
    and "d' = (grp_delAllGroupMember t i (case n_vip n of None \<Rightarrow> d | Some vip \<Rightarrow> release_vip t vip d))\<lparr>d_node :=
      t_delete (in_line t (has_id i)) (d_node (grp_delAllGroupMember t i (case n_vip n of None \<Rightarrow> d | Some vip \<Rightarrow> release_vip t vip d)))\<rparr>"
    using assms by (auto simp: nod_del_def res_simps Let_def split: if_splits option.splits)
  then show ?thesis
    by (intro that [of i "grp_delAllGroupMember t i (case n_vip n of None \<Rightarrow> d | Some vip \<Rightarrow> release_vip t vip d)"])
      (auto simp: conf_simps grp_delAllGroupMember_def release_vip_def conf_def split: option.splits)
qed

lemma conf_nod_add: "nod_add pat pick t request d = Some (Inr d') \<Longrightarrow> conf d' = conf d"
  by (auto simp: nod_add_def res_simps Let_def conf_simps insert_node_def t_insert_def dest!: conf_take conf_joins split: sum.splits)

lemma conf_nod_edit: "nod_edit t request d = Inr d' \<Longrightarrow> conf d' = conf d"
  by (auto simp: nod_edit_def res_simps Let_def conf_simps dest!: conf_joins split: option.splits)

lemma conf_ensure_vip: "ensure_vip pat pick t node d = Some (Inr (node2, d2)) \<Longrightarrow> conf d2 = conf d"
  by (auto simp: ensure_vip_def res_simps dest!: conf_take split: if_splits option.splits)

lemma conf_new_node: "new_node t uuid registReq d = Inr (node, d1) \<Longrightarrow> conf d1 = conf d"
  by (auto simp: new_node_def res_simps Let_def conf_simps insert_node_def t_insert_def split: option.splits)

lemma conf_admit: "admit_node t registReq node d = Inr (detail, d') \<Longrightarrow> conf d' = conf d"
  by (auto simp: admit_node_def Let_def conf_simps split: if_splits)

lemma conf_regist:
  assumes "nod_assignNodeInfo pat pick t uuid registReq d = Some (d', res)" shows "conf d' = conf d"
  using assms
proof (cases rule: regist_cases)
  case (known node r')
  then show ?thesis
    by (cases "bindR r' (\<lambda>(node, d2). admit_node t registReq node d2)") (auto simp: res_simps dest!: conf_admit conf_ensure_vip)
next
  case (unknown node d1 r')
  then show ?thesis
    by (cases "bindR r' (\<lambda>(node, d2). admit_node t registReq node d2)")
      (auto simp: res_simps dest!: conf_admit conf_ensure_vip conf_new_node)
qed simp

section \<open>The nodes stay\<close>

text \<open>Of the identities of the nodes only a deletion removes one, and it asks the routes before.\<close>

lemma node_keys_core: "core d' = core d \<Longrightarrow> node_keys d' = node_keys d"
  by (simp add: core_def node_keys_def)

lemma node_keys_update:
  "(\<And>r. r_id (f r) = r_id r \<and> r_tenant (f r) = r_tenant r) \<Longrightarrow> node_keys (d\<lparr>d_node := t_update p f N\<rparr>) = node_keys (d\<lparr>d_node := N\<rparr>)"
proof -
  assume f: "\<And>r. r_id (f r) = r_id r \<and> r_tenant (f r) = r_tenant r"
  show ?thesis unfolding node_keys_def by (simp add: image_image image_Un f) blast
qed

lemma node_keys_updateById: "node_keys (nod_updateById t node d) = node_keys d"
  by (simp add: nod_updateById_def node_keys_update)

lemma node_keys_insert: "node_keys d \<subseteq> node_keys (snd (insert_node row d))"
  by (auto simp: node_keys_def insert_node_def case_prod_unfold)

lemma node_keys_nodes: "d_node d' = d_node d \<Longrightarrow> node_keys d' = node_keys d"
  by (simp add: node_keys_def)

lemma node_keys_nod_add:
  assumes "nod_add pat pick t request d = Some (Inr d')" shows "node_keys d \<subseteq> node_keys d'"
proof -
  obtain v d1 row where tk: "take_address pat pick t d = Some (Inr (v, d1))"
    and j: "for_each (nod_joinGroup t (t_next (d_node d1))) (case en_groupIdList request of None \<Rightarrow> [] | Some l \<Rightarrow> l)
      (snd (insert_node row d1)) = Inr d'"
    using assms by (auto simp: nod_add_def take_address_def res_simps insert_node_def t_insert_def split: sum.splits)
  show ?thesis
    using node_keys_insert [of d1 row] node_keys_core [OF core_nod_joinGroups [OF j]] node_keys_nodes [OF take_nodes [OF tk]] by simp
qed

lemma node_keys_nod_edit:
  assumes "nod_edit t request d = Inr d'" shows "node_keys d' = node_keys d"
proof -
  obtain i where i: "en_id request = Some i"
    using assms by (auto simp: nod_edit_def res_simps valid_id_def split: option.splits)
  let ?d1 = "d\<lparr>d_node := t_update (in_line t (has_id i))
       (\<lambda>n. n\<lparr>n_name := if_set_option (en_name request) (n_name n),
              n_description := if_set_option (en_description request) (n_description n),
              n_mac := if_set (en_mac request) (n_mac n),
              n_mesh := en_mesh request, n_enable := en_enable request\<rparr>) (d_node d)\<rparr>"
  have "core d' = core ?d1"
    using assms i by (auto simp: nod_edit_def res_simps valid_id_def Let_def frame_simps split: option.splits dest!: core_nod_joinGroups)
  from node_keys_core [OF this] show ?thesis by (simp add: node_keys_update)
qed

lemma node_keys_admit:
  "ensure_vip pat pick t node d = Some (Inr (node2, d2)) \<Longrightarrow> admit_node t registReq node2 d2 = Inr (detail, d') \<Longrightarrow> node_keys d' = node_keys d"
  using node_keys_nodes [OF ensure_vip_frame(1)] by (auto simp: admit_node_def Let_def node_keys_updateById split: if_splits)

lemma node_keys_regist:
  assumes "nod_assignNodeInfo pat pick t uuid registReq d = Some (d', res)" shows "node_keys d \<subseteq> node_keys d'"
  using assms
proof (cases rule: regist_cases)
  case (known node r')
  then show ?thesis
    by (cases "bindR r' (\<lambda>(node, d2). admit_node t registReq node d2)") (auto simp: res_simps dest!: node_keys_admit)
next
  case (unknown node d1 r')
  from unknown(2) have "node_keys d \<subseteq> node_keys d1"
    by (rule new_node_row) (use node_keys_insert node_keys_core in blast)
  then show ?thesis
    using unknown by (cases "bindR r' (\<lambda>(node, d2). admit_node t registReq node d2)") (auto simp: res_simps dest!: node_keys_admit)
qed simp

section \<open>What is stored can be parsed\<close>

text \<open>
  \<open>P\<close> is what the rules' texts are known to satisfy. Destinations and translations parse because a request is
  refused otherwise, and the two blocks of a translation have the same size.
\<close>

definition route_ok :: "(string \<Rightarrow> bool) \<Rightarrow> RouteRow \<Rightarrow> bool" where
  "route_ok pat r \<longleftrightarrow> (\<exists>x c. ro_destination r = Some x \<and> parseCidr pat x = Inr c)"

definition vnat_ok :: "(string \<Rightarrow> bool) \<Rightarrow> VNATRow \<Rightarrow> bool" where
  "vnat_ok pat r \<longleftrightarrow> (\<exists>src dst. parseCidr pat (va_srcCidr r) = Inr src \<and> parseCidr pat (va_dstCidr r) = Inr dst \<and> maskBits src = maskBits dst)"

definition conf_inv :: "(string \<Rightarrow> bool) \<Rightarrow> (string \<Rightarrow> bool) \<Rightarrow> Db \<Rightarrow> bool" where
  "conf_inv pat P d \<longleftrightarrow>
     (\<forall>r \<in> set (t_rows (d_route d)). route_ok pat r) \<and> (\<forall>r \<in> set (t_rows (d_route_rule d)). \<forall>rule \<in> set (ru_ruleList r). P rule) \<and>
     (\<forall>r \<in> set (t_rows (d_vnat d)). vnat_ok pat r) \<and> (\<forall>i \<in> set (t_rows (d_route_node_item d)). (r_tenant i, ri_nodeId i) \<in> node_keys d)"

lemma conf_inv_frame: "conf_inv pat P d \<Longrightarrow> conf d' = conf d \<Longrightarrow> node_keys d \<subseteq> node_keys d' \<Longrightarrow> conf_inv pat P d'"
  by (auto simp: conf_inv_def conf_def)

lemma conf_inv_same: "conf_inv pat P d \<Longrightarrow> conf d' = conf d \<Longrightarrow> core d' = core d \<Longrightarrow> conf_inv pat P d'"
  using conf_inv_frame node_keys_core by blast

lemma conf_inv_nodes: "conf_inv pat P d \<Longrightarrow> conf d' = conf d \<Longrightarrow> d_node d' = d_node d \<Longrightarrow> conf_inv pat P d'"
  using conf_inv_frame node_keys_nodes by blast

lemma rte_addNode_ok: "rte_addNode t routeId i d = Inr d' \<Longrightarrow> conf_inv pat P d \<Longrightarrow> conf_inv pat P d'"
  by (auto simp: rte_addNode_def conf_inv_def node_keys_def selectById_Some split: if_splits dest!: selectById_Some)

lemma rte_nodes_ok: "for_each (rte_addNode t i) l d = Inr d' \<Longrightarrow> conf_inv pat P d \<Longrightarrow> conf_inv pat P d'"
  by (erule for_each_inv) (auto intro: rte_addNode_ok)

lemma groups_ok:
  "gcf_updateGroupRoute t i l d = Inr d' \<Longrightarrow> conf_inv pat P d \<Longrightarrow> conf_inv pat P d'"
  "gcf_updateGroupRouteRule t i l d = Inr d' \<Longrightarrow> conf_inv pat P d \<Longrightarrow> conf_inv pat P d'"
  "gcf_updateGroupVNAT t i l d = Inr d' \<Longrightarrow> conf_inv pat P d \<Longrightarrow> conf_inv pat P d'"
  by (auto elim!: conf_inv_same dest: conf_config core_config)

lemma rte_add_ok:
  assumes "RouteController_add pat t request d = Inr d'" and inv: "conf_inv pat P d" shows "conf_inv pat P d'"
proof -
  obtain c where "parseCidr pat (er_destination request) = Inr c"
    using assms(1) by (auto simp: RouteController_add_def rte_check_def res_simps as_process_Inr)
  then have "conf_inv pat P (d\<lparr>d_route := snd (t_insert (\<lambda>i. \<lparr>r_id = i, r_tenant = t, ro_name = name, ro_description = er_description request,
      ro_destination = Some (er_destination request), ro_enable = er_enable request\<rparr>) (d_route d))\<rparr>)" for name
    using inv by (auto simp: conf_inv_def route_ok_def node_keys_def)
  then show ?thesis
    using assms(1) by (auto simp: RouteController_add_def rte_add_def res_simps t_insert_def split: option.splits if_splits
      dest!: rte_nodes_ok groups_ok(1))
qed

lemma rte_edit_ok:
  assumes "RouteController_edit pat t request d = Inr d'" and inv: "conf_inv pat P d" shows "conf_inv pat P d'"
proof -
  obtain c i where "parseCidr pat (er_destination request) = Inr c" and i: "valid_id (er_id request) = Inr i"
    using assms(1) by (auto simp: RouteController_edit_def rte_edit_def rte_check_def res_simps as_process_Inr)
  then have 1: "conf_inv pat P (d\<lparr>d_route := t_update (in_line t (has_id i))
       (\<lambda>r. r\<lparr>ro_name := if_set (er_name request) (ro_name r),
              ro_description := if_set_option (er_description request) (ro_description r),
              ro_destination := Some (er_destination request), ro_enable := er_enable request\<rparr>) (d_route d)\<rparr>)"
    (is "conf_inv pat P ?d1")
    using inv by (auto simp: conf_inv_def route_ok_def node_keys_def)
  have "conf_inv pat P (?d1\<lparr>d_route_node_item := t_delete p (d_route_node_item d)\<rparr>)" for p
    using 1 by (auto simp: conf_inv_def node_keys_def)
  then show ?thesis
    using assms(1) i 1 by (auto simp: RouteController_edit_def rte_edit_def res_simps Let_def split: option.splits
      dest!: rte_nodes_ok groups_ok(1))
qed

lemma rte_del_ok: "rte_del t request d = Inr d' \<Longrightarrow> conf_inv pat P d \<Longrightarrow> conf_inv pat P d'"
  by (auto simp: rte_del_def res_simps rte_deleteById_def gcf_deleteGroupRoute_def conf_inv_def node_keys_def)

lemma rul_insert_ok:
  "conf_inv pat P d \<Longrightarrow> \<forall>i. \<forall>rule \<in> set (ru_ruleList (row i)). P rule \<Longrightarrow> conf_inv pat P (snd (insert_rule row d))"
  by (auto simp: conf_inv_def insert_rule_def t_insert_def node_keys_def)

lemma rul_add_ok:
  assumes "rul_add t request d = Inr d'" and inv: "conf_inv pat P d" and P: "\<forall>rule \<in> set (eu_ruleList request). P rule"
  shows "conf_inv pat P d'"
proof -
  have "conf_inv pat P (snd (insert_rule (\<lambda>i. \<lparr>r_id = i, r_tenant = t, ru_name = name, ru_description = eu_description request,
        ru_strategy = eu_strategy request, ru_direction = eu_direction request, ru_ruleList = eu_ruleList request,
        ru_level = eu_level request, ru_enable = eu_enable request\<rparr>) d))" for name
    using inv P by (intro rul_insert_ok) simp_all
  then show ?thesis
    using assms(1) by (auto simp: rul_add_def res_simps case_prod_unfold Let_def split: option.splits if_splits dest!: groups_ok(2))
qed

lemma rul_edit_ok:
  assumes "rul_edit t request d = Inr d'" and inv: "conf_inv pat P d" and P: "\<forall>rule \<in> set (eu_ruleList request). P rule"
  shows "conf_inv pat P d'"
proof -
  have "conf_inv pat P (d\<lparr>d_route_rule := t_update (in_line t (has_id i))
       (\<lambda>r. r\<lparr>ru_name := if_set (eu_name request) (ru_name r),
              ru_description := if_set_option (eu_description request) (ru_description r),
              ru_strategy := eu_strategy request, ru_direction := eu_direction request, ru_ruleList := eu_ruleList request,
              ru_level := eu_level request, ru_enable := eu_enable request\<rparr>) (d_route_rule d)\<rparr>)" for i
    using inv P by (auto simp: conf_inv_def node_keys_def)
  then show ?thesis
    using assms(1) by (auto simp: rul_edit_def res_simps Let_def split: option.splits dest!: groups_ok(2))
qed

lemma rul_del_ok: "rul_del t request d = Inr d' \<Longrightarrow> conf_inv pat P d \<Longrightarrow> conf_inv pat P d'"
  by (auto simp: rul_del_def res_simps Let_def gcf_deleteGroupRouteRule_def conf_inv_def node_keys_def)

lemma vnt_items_ok: "conf_inv pat P d \<Longrightarrow> conf_inv pat P (vnt_updateVNATItemList t i l d)"
  by (erule conf_inv_same) (simp_all add: conf_simps frame_simps)

lemma vnt_add_ok:
  assumes "vnt_add pat t request d = Inr d'" and inv: "conf_inv pat P d" shows "conf_inv pat P d'"
proof -
  have ck: "vnt_checkCidr pat request = Inr ()" using assms(1) by (auto simp: vnt_add_def res_simps)
  have "conf_inv pat P (d\<lparr>d_vnat := snd (t_insert (\<lambda>i. \<lparr>r_id = i, r_tenant = t, va_name = name, va_description = ev_description request,
           va_srcCidr = ev_srcCidr request, va_dstCidr = ev_dstCidr request, va_enable = ev_enable request\<rparr>) (d_vnat d))\<rparr>)" for name
    using inv ck by (auto simp: conf_inv_def vnat_ok_def node_keys_def vnt_checkCidr_def res_simps guardR_Inr)
  then show ?thesis
    using assms(1) vnt_items_ok by (auto simp: vnt_add_def res_simps t_insert_def dest!: groups_ok(3))
qed

lemma vnt_edit_ok:
  assumes "vnt_edit pat t request d = Inr d'" and inv: "conf_inv pat P d" shows "conf_inv pat P d'"
proof -
  have ck: "vnt_checkCidr pat request = Inr ()" using assms(1) by (auto simp: vnt_edit_def res_simps)
  have "conf_inv pat P (d\<lparr>d_vnat := t_update (in_line t (has_id i))
         (\<lambda>r. r\<lparr>va_name := if_set (ev_name request) (va_name r),
                va_description := if_set_option (ev_description request) (va_description r),
                va_srcCidr := ev_srcCidr request, va_dstCidr := ev_dstCidr request, va_enable := ev_enable request\<rparr>)
         (d_vnat d)\<rparr>)" for i
    using inv ck by (auto simp: conf_inv_def vnat_ok_def node_keys_def vnt_checkCidr_def res_simps guardR_Inr)
  then show ?thesis
    using assms(1) vnt_items_ok by (auto simp: vnt_edit_def res_simps dest!: groups_ok(3))
qed

lemma vnt_del_ok: "vnt_del t request d = Inr d' \<Longrightarrow> conf_inv pat P d \<Longrightarrow> conf_inv pat P d'"
  by (auto simp: vnt_del_def res_simps Let_def vnt_deleteItems_def gcf_deleteGroupVNAT_def conf_inv_def node_keys_def)

lemma tnt_add_ok:
  assumes "tnt_add request d = Inr d'" and inv: "conf_inv pat P d" and P: "P ''0.0.0.0/0''" shows "conf_inv pat P d'"
proof -
  obtain t g d1 where d': "rul_addDefaultRouteRule t g d1 = Inr d'" and "conf d1 = conf d" "d_node d1 = d_node d"
    using assms(1) by (auto simp: tnt_add_def res_simps Let_def t_insert_def grp_addDefaultGroup_def conf_def)
  then have "conf_inv pat P d1" using conf_inv_frame [OF inv] node_keys_nodes by blast
  then have "conf_inv pat P (snd (insert_rule (\<lambda>i. \<lparr>r_id = i, r_tenant = t, ru_name = ''default'', ru_description = None, ru_strategy = RS_Allow,
        ru_direction = RD_All, ru_ruleList = [''0.0.0.0/0''], ru_level = 100, ru_enable = True\<rparr>) d1))"
    using P by (intro rul_insert_ok) simp_all
  then show ?thesis using d' by (auto simp: rul_addDefaultRouteRule_def case_prod_unfold Let_def dest!: groups_ok(2))
qed

lemma nod_del_ok:
  assumes "nod_del t request d = Inr d'" and inv: "conf_inv pat P d" shows "conf_inv pat P d'"
  using assms(1)
proof (rule nod_del_run)
  fix i n d1
  assume u: "\<not> rte_usedNode t i d" and d1: "conf d1 = conf d" "d_node d1 = d_node d"
    and d': "d' = d1\<lparr>d_node := t_delete (in_line t (has_id i)) (d_node d)\<rparr>"
  have "(r_tenant x, ri_nodeId x) \<in> node_keys d'" if x: "x \<in> set (t_rows (d_route_node_item d))" for x
  proof -
    have "(r_tenant x, ri_nodeId x) \<in> node_keys d" using inv x by (simp add: conf_inv_def)
    moreover have "(r_tenant x, ri_nodeId x) \<noteq> (t, i)"
      using u x by (auto simp: rte_usedNode_def t_count_0 in_line_def)
    ultimately show ?thesis by (auto simp: node_keys_def d' in_line_def has_id_def)
  qed
  then show ?thesis using inv d1(1) by (simp add: conf_inv_def conf_def d')
qed

text \<open>The requests that edit rules, as far as the texts are concerned.\<close>

fun clean_rules :: "console_request \<Rightarrow> bool" where
  "clean_rules (RuleAdd r) \<longleftrightarrow> list_all one_line (eu_ruleList r)"
| "clean_rules (RuleEdit r) \<longleftrightarrow> list_all one_line (eu_ruleList r)"
| "clean_rules r \<longleftrightarrow> True"

definition parses :: "(string \<Rightarrow> bool) \<Rightarrow> string \<Rightarrow> bool" where
  "parses pat rule \<longleftrightarrow> (\<exists>p. rule_parse pat rule = Inr p)"

lemma default_parses: "ipv4_pattern pat \<Longrightarrow> parses pat ''0.0.0.0/0''"
proof -
  assume "ipv4_pattern pat"
  from ipv4_pattern.parse_block [OF this, of 0 0 0 0 0]
  have "parses pat (quad_str 0 0 0 0 @ ''/'' @ show_nat 0)" unfolding parses_def by fastforce
  moreover have "show_nat 0 = ''0''" by (simp add: show_nat.simps digit_char_def char_of_def bit_0)
  ultimately show ?thesis by (simp add: quad_str_def)
qed

lemma conf_commit: "conf_inv pat P d \<Longrightarrow> (\<And>d'. r = Inr d' \<Longrightarrow> conf_inv pat P d') \<Longrightarrow> conf_inv pat P (commit d r)"
  by (cases r) (simp_all add: commit_def)

lemma conf_rule_requests:
  assumes "conf_inv pat P d" and "rul_check pat x = Inr () \<Longrightarrow> \<forall>rule \<in> set (eu_ruleList x). P rule"
  shows "RouteRuleController_add pat t x d = Inr d' \<Longrightarrow> conf_inv pat P d'"
    and "RouteRuleController_edit pat t x d = Inr d' \<Longrightarrow> conf_inv pat P d'"
  using assms by (auto simp: RouteRuleController_add_def RouteRuleController_edit_def res_simps intro: rul_add_ok rul_edit_ok)

lemma conf_vnat_requests:
  assumes "conf_inv pat P d"
  shows "VNATController_add pat t x d = Inr d' \<Longrightarrow> conf_inv pat P d'" and "VNATController_edit pat t x d = Inr d' \<Longrightarrow> conf_inv pat P d'"
  using assms by (auto simp: VNATController_add_def VNATController_edit_def res_simps intro: vnt_add_ok vnt_edit_ok)

lemma conf_tenant_requests:
  assumes "conf_inv pat P d"
  shows "P ''0.0.0.0/0'' \<Longrightarrow> TenantController_add pat W x d = Inr d' \<Longrightarrow> conf_inv pat P d'"
    and "TenantController_edit pat W x d = Inr d' \<Longrightarrow> conf_inv pat P d'" and "tnt_del x d = Inr d' \<Longrightarrow> conf_inv pat P d'"
  using assms conf_inv_nodes [OF assms conf_tenants(1) tenants_nodes(2)] conf_inv_nodes [OF assms conf_tenants(2) tenants_nodes(3)]
  by (auto simp: TenantController_add_def res_simps intro: tnt_add_ok)

lemma conf_group_requests:
  assumes "conf_inv pat P d"
  shows "grp_add t x d = Inr d' \<Longrightarrow> conf_inv pat P d'" and "grp_edit t x d = Inr d' \<Longrightarrow> conf_inv pat P d'"
    and "grp_del t x d = Inr d' \<Longrightarrow> conf_inv pat P d'" and "GroupController_updateMemberList t y d = Inr d' \<Longrightarrow> conf_inv pat P d'"
  using conf_inv_same [OF assms conf_groups(1) core_groups(1)] conf_inv_same [OF assms conf_groups(2) core_groups(2)]
    conf_inv_same [OF assms conf_groups(3) core_groups(3)] conf_inv_same [OF assms conf_groups(4) core_controllers(7)]
  by blast+

lemmas conf_requests = conf_vnat_requests conf_tenant_requests(2,3) conf_group_requests
  rte_add_ok [rotated] rte_edit_ok [rotated] rte_del_ok [rotated] rul_del_ok [rotated] vnt_del_ok [rotated] nod_del_ok [rotated]

lemma conf_handle:
  assumes inv: "conf_inv pat P d" and h: "handle pat pick t r d = Some d'" and default: "P ''0.0.0.0/0''"
    and ok: "\<And>x. r = RuleAdd x \<or> r = RuleEdit x \<Longrightarrow> rul_check pat x = Inr () \<Longrightarrow> \<forall>rule \<in> set (eu_ruleList x). P rule"
  shows "conf_inv pat P d'"
proof (cases r)
  case (NodeAdd x)
  then obtain r where "nod_add pat pick t x d = Some r" "d' = commit d r" using h by auto
  then show ?thesis using conf_inv_frame [OF inv conf_nod_add node_keys_nod_add] inv by (auto intro: conf_commit)
next
  case (NodeEdit x)
  then show ?thesis using h inv conf_inv_frame [OF inv conf_nod_edit] node_keys_nod_edit by (auto intro!: conf_commit)
next
  case (NodeRegist uuid req)
  show ?thesis
  proof (cases "tnt_queryByTenantCode (rq_tenantId req) d")
    case (Inr x)
    then show ?thesis
      using h NodeRegist conf_inv_frame [OF inv conf_regist node_keys_regist] inv by (cases x) (auto simp: dbs_assignNodeInfo_def)
  qed (use h NodeRegist inv in \<open>simp add: dbs_assignNodeInfo_def\<close>)
next
  case (RuleAdd x)
  then show ?thesis using h conf_rule_requests(1) [OF inv ok] by (auto intro: conf_commit [OF inv])
next
  case (RuleEdit x)
  then show ?thesis using h conf_rule_requests(2) [OF inv ok] by (auto intro: conf_commit [OF inv])
next
  case (TenantAdd W x)
  then show ?thesis using h by (auto intro: conf_commit [OF inv] conf_tenant_requests(1) [OF inv default])
qed (use h in \<open>auto intro: conf_commit [OF inv] conf_requests [OF inv]\<close>)

lemma console_reached_conf: "console_reached pat pick clean_rules d \<Longrightarrow> ipv4_pattern pat \<Longrightarrow> conf_inv pat (parses pat) d"
proof (induction rule: console_reached.induct)
  case start
  show ?case by (simp add: conf_inv_def empty_db_def)
next
  case (request d r t d')
  show ?case
  proof (rule conf_handle [OF request.IH [OF request.prems] request.hyps(3) default_parses [OF request.prems]])
    fix x
    assume r: "r = RuleAdd x \<or> r = RuleEdit x" and ck: "rul_check pat x = Inr ()"
    then have "list_all one_line (eu_ruleList x)" using request.hyps(2) by auto
    then show "\<forall>rule \<in> set (eu_ruleList x). parses pat rule"
      using rul_check_parses [OF request.prems ck] by (auto simp: parses_def list_all_iff)
  qed
qed

lemma console_reached_any: "console_reached pat pick ok d \<Longrightarrow> conf_inv pat (\<lambda>_. True) d"
proof (induction rule: console_reached.induct)
  case start
  show ?case by (simp add: conf_inv_def empty_db_def)
next
  case (request d r t d')
  show ?case by (rule conf_handle [OF request.IH request.hyps(3)]) simp_all
qed

section \<open>What is delivered can be loaded\<close>

lemma mapR_total: "(\<And>x. x \<in> set xs \<Longrightarrow> \<exists>y. f x = Inr y) \<Longrightarrow> \<exists>ys. mapR f xs = Inr ys"
  by (induction xs) fastforce+

text \<open>A configuration that is delivered was read from the database that the registration leaves.\<close>

lemma delivered:
  assumes "dbs_assignNodeInfo pat pick uuid req d = Some (d', Inr cfg)"
  obtains t node where "cfg = node_config t (node_detail t node d') d'"
proof -
  obtain tn detail where "tnt_queryByTenantCode (rq_tenantId req) d = Inr (Some tn)"
    and r: "nod_assignNodeInfo pat pick (r_id tn) uuid req d = Some (d', Inr detail)" and cfg: "cfg = node_config (r_id tn) detail d'"
    using assms by (auto simp: dbs_assignNodeInfo_def res_simps split: sum.splits option.splits)
  have "\<exists>node. detail = node_detail t node d3" if "bindR r' (\<lambda>(node, d2). admit_node t req node d2) = Inr (detail, d3)" for t r' d3
    using that by (auto simp: res_simps admit_node_def Let_def split: if_splits)
  with r have "\<exists>node. detail = node_detail (r_id tn) node d'"
    by (cases rule: regist_cases) (auto split: sum.splits)
  then show ?thesis using that cfg by blast
qed

lemma node_detail_rows:
  "(r, ns) \<in> set (nd_routeList (node_detail t node d)) \<Longrightarrow> r \<in> set (t_rows (d_route d))"
  "u \<in> set (nd_routeRuleList (node_detail t node d)) \<Longrightarrow> u \<in> set (t_rows (d_route_rule d))"
  "(v, ns) \<in> set (nd_vnatList (node_detail t node d)) \<Longrightarrow> v \<in> set (t_rows (d_vnat d))"
  by (auto simp: node_detail_def Let_def rte_queryDetailByIdList_def selectBatchIds_def rul_queryByIdList_def vnt_queryIdList_def split: if_splits)

lemma names_valueOf: "strategy_valueOf (strategy_name s) = Inr s" "direction_valueOf (direction_name r) = Inr r"
  by (cases s; simp add: strategy_valueOf_def strategy_name_def) (cases r; simp add: direction_valueOf_def direction_name_def)

lemma routes_load:
  assumes "conf_inv pat P d" and "cfg = node_config t (node_detail t node d) d"
  obtains routes where "buildRouteList (nc_routeConfigList cfg) = Inr routes" and "\<forall>e \<in> set routes. \<exists>c. parseCidr pat (rt_destination e) = Inr c"
proof -
  let ?l = "nd_routeList (node_detail t node d)"
  let ?g = "\<lambda>(r, nodes). \<lparr>rt_destination = the (ro_destination r), rt_nexthop = vips_of (nod_queryByIdList t nodes d), rt_name = ro_name r\<rparr>"
  have ok: "route_ok pat r" if "(r, ns) \<in> set ?l" for r ns
    using assms(1) node_detail_rows(1) [OF that] by (simp add: conf_inv_def)
  then have "buildRouteList (nc_routeConfigList cfg) = Inr (map ?g ?l)"
    unfolding buildRouteList_def assms(2) node_config_def NodeConfig.simps
    by (subst mapR_Inr_all [where g = "\<lambda>e. \<lparr>rt_destination = the (rc_destination e), rt_nexthop = the (rc_nexthop e), rt_name = the (rc_name e)\<rparr>"])
      (fastforce simp: nonnull_def route_ok_def comp_def case_prod_unfold)+
  moreover have "\<forall>e \<in> set (map ?g ?l). \<exists>c. parseCidr pat (rt_destination e) = Inr c" using ok by (fastforce simp: route_ok_def)
  ultimately show ?thesis by (rule that)
qed

lemma vnats_load:
  assumes "conf_inv pat P d" and "cfg = node_config t (node_detail t node d) d"
  obtains vnats where "buildVNATList (nc_vnatConfigList cfg) = Inr vnats"
    and "\<forall>v \<in> set vnats. \<exists>src dst. parseCidr pat (vn_src v) = Inr src \<and> parseCidr pat (vn_dst v) = Inr dst \<and> maskBits src = maskBits dst"
proof -
  let ?l = "nd_vnatList (node_detail t node d)"
  let ?hop = "\<lambda>nodes. vips_of (nod_queryByIdList t nodes d)"
  let ?g = "\<lambda>(r, nodes). \<lparr>vn_vip = (case ?hop nodes of v # _ \<Rightarrow> v | _ \<Rightarrow> []), vn_src = va_srcCidr r, vn_dst = va_dstCidr r,
      vn_vipList = ?hop nodes, vn_name = va_name r\<rparr>"
  have ok: "vnat_ok pat r" if "(r, ns) \<in> set ?l" for r ns
    using assms(1) node_detail_rows(3) [OF that] by (simp add: conf_inv_def)
  have "buildVNATList (nc_vnatConfigList cfg) = Inr (map ?g ?l)"
    unfolding buildVNATList_def assms(2) node_config_def NodeConfig.simps
    by (subst mapR_Inr_all [where g = "\<lambda>e. \<lparr>vn_vip = (case the (vc_vipList e) of v # _ \<Rightarrow> v | _ \<Rightarrow> []), vn_src = the (vc_srcCidr e),
        vn_dst = the (vc_dstCidr e), vn_vipList = the (vc_vipList e), vn_name = the (vc_name e)\<rparr>"])
      (fastforce simp: nonnull_def comp_def case_prod_unfold Let_def)+
  moreover have "\<forall>v \<in> set (map ?g ?l). \<exists>src dst. parseCidr pat (vn_src v) = Inr src \<and> parseCidr pat (vn_dst v) = Inr dst \<and> maskBits src = maskBits dst"
    using ok by (fastforce simp: vnat_ok_def)
  ultimately show ?thesis by (rule that)
qed

lemma rules_load:
  assumes "conf_inv pat (parses pat) d" and "cfg = node_config t (node_detail t node d) d"
  obtains rules chs where "resp_buildRouteRuleList (nc_routeRuleConfigList cfg) = Inr rules" and "buildRouteRuleList pat rules = Inr chs"
proof -
  let ?l = "nc_routeRuleConfigList cfg"
  have l: "\<exists>s r us v n. uc_strategy e = Some s \<and> uc_direction e = Some r \<and> uc_ruleList e = Some us \<and> uc_level e = Some v \<and> uc_name e = Some n \<and>
      (\<forall>rule \<in> set us. parses pat rule)" if "e \<in> set ?l" for e
    using that assms(1) node_detail_rows(2) by (fastforce simp: assms(2) node_config_def conf_inv_def)
  let ?g = "\<lambda>e. \<lparr>rr_strategy = strategy_name (the (uc_strategy e)), rr_direction = direction_name (the (uc_direction e)), rr_level = the (uc_level e),
      rr_ruleList = the (uc_ruleList e), rr_name = the (uc_name e)\<rparr>"
  let ?rules = "map ?g (sort_key (\<lambda>e. sint (the (uc_level e))) ?l)"
  have "resp_buildRouteRuleList ?l = Inr ?rules"
    unfolding resp_buildRouteRuleList_def
    by (subst mapR_Inr_all [where g = ?g]) (fastforce simp: nonnull_def dest: l)+
  moreover have "\<exists>ch. chain_build pat r = Inr ch" if r: "r \<in> set ?rules" for r
  proof -
    obtain s dr us where "rr_strategy r = strategy_name s" "rr_direction r = direction_name dr" "rr_ruleList r = us" "\<forall>rule \<in> set us. parses pat rule"
      using r l by fastforce
    then show ?thesis using mapR_total [of us "rule_parse pat"] by (auto simp: chain_build_def names_valueOf parses_def)
  qed
  then have "\<exists>chs. mapR (chain_build pat) (sort_rules ?rules) = Inr chs" by (intro mapR_total) (simp add: sort_rules_def)
  ultimately show ?thesis using that unfolding buildRouteRuleList_def by blast
qed

text \<open>
  C4: Whatever configuration a registration delivers, from any database that the console can reach by requests
  without line terminators in the texts of rules (the check of a rule lets one through, and no router starts with it):
  the controller can build its answer, and the node that gets
  the answer starts. Its routes' destinations, the routes that translations add included, parse, so that looking
  up a route never fails on them; the rules build; and the two blocks of a translation parse and have one size.
\<close>

theorem console_configs_load:
  assumes "ipv4_pattern pat" and "console_reached pat pick clean_rules d"
    and "dbs_assignNodeInfo pat pick uuid req d = Some (d', Inr cfg)"
  shows "\<exists>routes vnats rules. buildRouteList (nc_routeConfigList cfg) = Inr routes \<and>
    buildVNATList (nc_vnatConfigList cfg) = Inr vnats \<and> resp_buildRouteRuleList (nc_routeRuleConfigList cfg) = Inr rules \<and>
    (\<forall>e \<in> set (buildMergeRouteList routes vnats). \<exists>c. parseCidr pat (rt_destination e) = Inr c) \<and>
    (\<forall>v \<in> set vnats. \<exists>src dst. parseCidr pat (vn_src v) = Inr src \<and> parseCidr pat (vn_dst v) = Inr dst \<and> maskBits src = maskBits dst) \<and>
    (\<forall>configResp regResp r0. cr_code configResp = MC_Success \<and> rs_code regResp = MC_Success \<and> rs_routeRuleList regResp = rules \<longrightarrow>
      (\<exists>r. start_router pat configResp regResp r0 = Inr r))"
proof -
  have "handle pat pick 0 (NodeRegist uuid req) d = Some d'" using assms(3) by simp
  from console_reached.request [OF assms(2) _ this] have "console_reached pat pick clean_rules d'" by simp
  from console_reached_conf [OF this assms(1)] have inv: "conf_inv pat (parses pat) d'" .
  from delivered [OF assms(3)] obtain t node where cfg: "cfg = node_config t (node_detail t node d') d'" .
  from routes_load [OF inv cfg] vnats_load [OF inv cfg] rules_load [OF inv cfg] obtain routes vnats rules chs where
    l: "buildRouteList (nc_routeConfigList cfg) = Inr routes" "buildVNATList (nc_vnatConfigList cfg) = Inr vnats"
      "resp_buildRouteRuleList (nc_routeRuleConfigList cfg) = Inr rules" "buildRouteRuleList pat rules = Inr chs"
    and ok: "\<forall>e \<in> set routes. \<exists>c. parseCidr pat (rt_destination e) = Inr c"
      "\<forall>v \<in> set vnats. \<exists>src dst. parseCidr pat (vn_src v) = Inr src \<and> parseCidr pat (vn_dst v) = Inr dst \<and> maskBits src = maskBits dst"
    by metis
  have "\<forall>e \<in> set (buildMergeRouteList routes vnats). \<exists>c. parseCidr pat (rt_destination e) = Inr c"
    using ok by (fastforce simp: buildMergeRouteList_def)
  moreover have "\<exists>r. start_router pat configResp regResp r0 = Inr r"
    if "cr_code configResp = MC_Success \<and> rs_code regResp = MC_Success \<and> rs_routeRuleList regResp = rules" for configResp regResp r0
    using that l(4) by (simp add: start_router_def Let_def)
  ultimately show ?thesis using l ok by blast
qed

text \<open>The first node of the small console gets the default rule and starts.\<close>

theorem console_configs_load_witness:
  "\<exists>d' cfg rules r. dbs_assignNodeInfo isIPv4 hd ''x'' (small_regist ''a'') (small_db [] (- 1)) = Some (d', Inr cfg) \<and>
     resp_buildRouteRuleList (nc_routeRuleConfigList cfg) = Inr rules \<and>
     start_router isIPv4 \<lparr>cr_code = MC_Success, cr_stunServers = [], cr_relayServers = [], cr_stunServer = [], cr_relayServer = []\<rparr>
       \<lparr>rs_code = MC_Success, rs_vip = nc_vip cfg, rs_maskBits = 30, rs_nodeList = [], rs_routeList = [], rs_vnatList = [],
        rs_routeRuleList = rules, rs_cidr = small_cidr\<rparr>
       \<lparr>vr_netMesh = False, vr_localVip = [], vr_maskBits = 0, vr_vipCidr = [], vr_routeList = [], vr_routeIn = [], vr_routeOut = [],
        vr_vnatMap = [], vr_vnatCache = [], vr_nodes = []\<rparr> = Inr r"
proof -
  have "\<exists>cfg. dbs_assignNodeInfo isIPv4 hd ''x'' (small_regist ''a'') (small_db [] (- 1)) = Some (small_db [(1, ''a'', 2)] 2, Inr cfg)"
    using small_run [of "[]" "- 1" "''a''" 2] by (simp add: small_ok_def upt_rec)
  then obtain cfg where run: "dbs_assignNodeInfo isIPv4 hd ''x'' (small_regist ''a'') (small_db [] (- 1)) = Some (small_db [(1, ''a'', 2)] 2, Inr cfg)" ..
  have "console_reached isIPv4 hd clean_rules (small_db [] (- 1))" by (rule small_tenant_reached) simp
  from console_configs_load [OF own_pattern.ipv4_pattern_axioms this run] obtain rules where
    "resp_buildRouteRuleList (nc_routeRuleConfigList cfg) = Inr rules"
    "\<forall>configResp regResp r0. cr_code configResp = MC_Success \<and> rs_code regResp = MC_Success \<and> rs_routeRuleList regResp = rules \<longrightarrow>
      (\<exists>r. start_router isIPv4 configResp regResp r0 = Inr r)"
    by blast
  note rules = this(1) and start = this(2) [rule_format]
  have "\<exists>r. start_router isIPv4 \<lparr>cr_code = MC_Success, cr_stunServers = [], cr_relayServers = [], cr_stunServer = [], cr_relayServer = []\<rparr>
       \<lparr>rs_code = MC_Success, rs_vip = nc_vip cfg, rs_maskBits = 30, rs_nodeList = [], rs_routeList = [], rs_vnatList = [],
        rs_routeRuleList = rules, rs_cidr = small_cidr\<rparr> r0 = Inr r" for r0
    by (rule start) simp
  then show ?thesis using run rules by blast
qed

section \<open>Integrity\<close>

text \<open>
  C17: In every database that the console can reach, by whatever requests: the destination of a route parses, the
  two blocks of a translation parse and have one size, and a node that a route lists exists in the tenant of the
  route, so that no deletion of a node leaves a route without it.
\<close>

theorem console_integrity:
  assumes "console_reached pat pick ok d"
  shows "(\<forall>r \<in> set (t_rows (d_route d)). \<exists>x c. ro_destination r = Some x \<and> parseCidr pat x = Inr c) \<and>
    (\<forall>v \<in> set (t_rows (d_vnat d)). \<exists>src dst. parseCidr pat (va_srcCidr v) = Inr src \<and> parseCidr pat (va_dstCidr v) = Inr dst \<and>
      maskBits src = maskBits dst) \<and>
    (\<forall>i \<in> set (t_rows (d_route_node_item d)). \<exists>n \<in> set (t_rows (d_node d)). r_tenant n = r_tenant i \<and> r_id n = ri_nodeId i)"
  using console_reached_any [OF assms] by (fastforce simp: conf_inv_def route_ok_def vnat_ok_def node_keys_def)

definition small_route :: EditRouteRequest where
  "small_route = \<lparr>er_id = None, er_name = Some ''lan'', er_description = None, er_destination = small_cidr,
     er_nodeIdList = Some [2], er_groupIdList = Some [], er_enable = True\<rparr>"

text \<open>A route over the second node; that node can then not be deleted.\<close>

theorem console_integrity_witness:
  "\<exists>d i. handle isIPv4 hd 1 (RouteAdd small_route) (small_db small_nodes 5) = Some d \<and> i \<in> set (t_rows (d_route_node_item d)) \<and>
     ri_nodeId i = 2 \<and> (\<exists>n \<in> set (t_rows (d_node d)). r_tenant n = r_tenant i \<and> r_id n = 2) \<and>
     nod_del 1 \<lparr>en_id = Some 2, en_name = None, en_description = None, en_mac = None, en_mesh = False, en_groupIdList = None, en_enable = True\<rparr> d
       = Inl ProcessException"
proof -
  let ?d = "small_db small_nodes 5"
  let ?item = "\<lparr>r_id = 1, r_tenant = 1, ri_routeId = 1, ri_nodeId = 2\<rparr> :: RouteNodeItemRow"
  let ?route = "\<lparr>r_id = 1, r_tenant = 1, ro_name = ''lan'', ro_description = None, ro_destination = Some small_cidr, ro_enable = True\<rparr> :: RouteRow"
  define d where "d = ?d\<lparr>d_route := \<lparr>t_rows = [?route], t_next = 2\<rparr>, d_route_node_item := \<lparr>t_rows = [?item], t_next = 2\<rparr>\<rparr>"
  have nodes: "t_rows (d_node ?d) = [small_node 1 ''a'' 2, small_node 2 ''b'' 4, small_node 3 ''c'' 5]"
    by (simp add: small_db_def small_nodes_def)
  have e: "d_route ?d = \<lparr>t_rows = [], t_next = 1\<rparr>" "d_route_node_item ?d = \<lparr>t_rows = [], t_next = 1\<rparr>"
    by (simp_all add: small_db_def empty_db_def)
  have "nod_existsNode 1 2 ?d" "selectById 1 2 (d_node ?d) \<noteq> None"
    by (simp_all add: nod_existsNode_def selectById_None t_count_def t_list_def nodes in_line_def has_id_def small_node_def)
  moreover have "rte_checkUnique 1 None (Some ''lan'') ?d = Inr ()" by (simp add: rte_checkUnique_def e t_count_def t_list_def)
  ultimately have "RouteController_add isIPv4 1 small_route ?d = Inr d"
    by (simp add: RouteController_add_def rte_check_def small_route_def small_parse as_process_def nodes_exist_def guardR_def
      rte_add_def not_null_def t_insert_def e rte_addNode_def d_def)
  then have h: "handle isIPv4 hd 1 (RouteAdd small_route) ?d = Some d" by (simp add: commit_def)
  have "console_reached isIPv4 hd (\<lambda>_. True) ?d"
    by (rule small_reached_any) simp_all
  from console_integrity [OF console_reached.request [OF this _ h]]
  have "\<exists>n \<in> set (t_rows (d_node d)). r_tenant n = r_tenant ?item \<and> r_id n = ri_nodeId ?item"
    by (simp add: d_def)
  moreover have "?item \<in> set (t_rows (d_route_node_item d))" by (simp add: d_def)
  moreover have "rte_usedNode 1 2 d" by (simp add: rte_usedNode_def t_count_def t_list_def in_line_def d_def)
  ultimately show ?thesis using h by (intro exI conjI) (assumption | simp add: nod_del_def valid_id_def)+
qed

end
