(* ===== verification/NodeJoin.thy ===== *)
theory NodeJoin
  imports ConsoleConfig
begin

text \<open>
  The configuration of a node against its specification: the join of the tables over the groups of the node. The
  services compute it with lists of ids and one query for each; the specification says of each row whether the
  node gets it.
\<close>

section \<open>The specification\<close>

definition in_group :: "nat \<Rightarrow> nat \<Rightarrow> Db \<Rightarrow> nat \<Rightarrow> bool" where
  "in_group t n d g \<longleftrightarrow>
     (\<exists>r \<in> set (t_rows (d_group d)). r_tenant r = t \<and> r_id r = g) \<and>
     (\<exists>m \<in> set (t_rows (d_group_member d)). r_tenant m = t \<and> gm_groupId m = g \<and> gm_memberId m = n)"

definition gets_route :: "nat \<Rightarrow> nat \<Rightarrow> Db \<Rightarrow> RouteRow \<Rightarrow> bool" where
  "gets_route t n d r \<longleftrightarrow> r_tenant r = t \<and> ro_enable r \<and>
     (\<exists>l \<in> set (t_rows (d_group_route d)). r_tenant l = t \<and> gr_routeId l = r_id r \<and> in_group t n d (gr_groupId l))"

definition gets_rule :: "nat \<Rightarrow> nat \<Rightarrow> Db \<Rightarrow> RouteRuleRow \<Rightarrow> bool" where
  "gets_rule t n d r \<longleftrightarrow> r_tenant r = t \<and> ru_enable r \<and>
     (\<exists>l \<in> set (t_rows (d_group_rule d)). r_tenant l = t \<and> gu_ruleId l = r_id r \<and> in_group t n d (gu_groupId l))"

definition gets_vnat :: "nat \<Rightarrow> nat \<Rightarrow> Db \<Rightarrow> VNATRow \<Rightarrow> bool" where
  "gets_vnat t n d r \<longleftrightarrow> r_tenant r = t \<and> va_enable r \<and>
     (\<exists>l \<in> set (t_rows (d_group_vnat d)). r_tenant l = t \<and> gv_vnatId l = r_id r \<and> in_group t n d (gv_groupId l))"

text \<open>The addresses of the nodes that are listed for a route or for a translation.\<close>

definition vips_where :: "(NodeRow \<Rightarrow> bool) \<Rightarrow> Db \<Rightarrow> string list" where
  "vips_where p d = vips_of (filter p (t_rows (d_node d)))"

definition route_entry :: "nat \<Rightarrow> Db \<Rightarrow> RouteRow \<Rightarrow> RouteConfig" where
  "route_entry t d r =
     \<lparr>rc_name = Some (ro_name r), rc_destination = ro_destination r,
      rc_nexthop = Some (vips_where (\<lambda>n. r_tenant n = t \<and>
        (\<exists>i \<in> set (t_rows (d_route_node_item d)). r_tenant i = t \<and> ri_routeId i = r_id r \<and> ri_nodeId i = r_id n)) d)\<rparr>"

definition rule_entry :: "RouteRuleRow \<Rightarrow> RouteRuleConfig" where
  "rule_entry r =
     \<lparr>uc_name = Some (ru_name r), uc_strategy = Some (ru_strategy r), uc_direction = Some (ru_direction r),
      uc_ruleList = Some (ru_ruleList r), uc_level = Some (ru_level r)\<rparr>"

definition vnat_entry :: "nat \<Rightarrow> Db \<Rightarrow> VNATRow \<Rightarrow> VNATConfig" where
  "vnat_entry t d r =
     \<lparr>vc_name = Some (va_name r), vc_srcCidr = Some (va_srcCidr r), vc_dstCidr = Some (va_dstCidr r),
      vc_vipList = Some (vips_where (\<lambda>n. r_tenant n = t \<and>
        (\<exists>i \<in> set (t_rows (d_vnat_node_item d)). r_tenant i = t \<and> vi_vnatId i = r_id r \<and> vi_nodeId i = r_id n)) d)\<rparr>"

section \<open>The services compute it\<close>

lemma set_stream_distinct [simp]: "set (stream_distinct xs) = set xs"
  by (simp add: stream_distinct_def)

lemma detail_groups:
  "set (grp_queryDetailList t (grp_queryGroupIdListByMemberId t n d) d) =
     group_links t d ` {g \<in> set (t_rows (d_group d)). r_tenant g = t \<and> in_group t n d (r_id g)}"
proof -
  have ids: "set (grp_queryGroupIdListByMemberId t n d) =
      gm_groupId ` {m \<in> set (t_rows (d_group_member d)). r_tenant m = t \<and> gm_memberId m = n}"
    by (simp add: grp_queryGroupIdListByMemberId_def in_line_def)
  show ?thesis
  proof (cases "grp_queryGroupIdListByMemberId t n d = []")
    case True
    then have "\<not> in_group t n d g" for g using ids by (auto simp: in_group_def)
    then show ?thesis by (simp add: grp_queryDetailList_def True)
  next
    case False
    then have "set (grp_queryDetailList t (grp_queryGroupIdListByMemberId t n d) d) =
        group_links t d ` {g \<in> set (t_rows (d_group d)). r_tenant g = t \<and> r_id g \<in> set (grp_queryGroupIdListByMemberId t n d)}"
      by (simp add: grp_queryDetailList_def in_line_def)
    also have "{g \<in> set (t_rows (d_group d)). r_tenant g = t \<and> r_id g \<in> set (grp_queryGroupIdListByMemberId t n d)} =
        {g \<in> set (t_rows (d_group d)). r_tenant g = t \<and> in_group t n d (r_id g)}"
      unfolding ids in_group_def by force
    finally show ?thesis .
  qed
qed

lemma in_group_row: "in_group t n d g \<Longrightarrow> \<exists>r \<in> set (t_rows (d_group d)). r_tenant r = t \<and> r_id r = g"
  by (simp add: in_group_def)

text \<open>The links of all groups of the node, as one query.\<close>

lemma links_union:
  assumes "\<And>g. I g \<Longrightarrow> \<exists>r \<in> R. r_tenant r = t \<and> r_id r = g"
  shows "(\<Union>g \<in> {g \<in> R. r_tenant g = t \<and> I (r_id g)}. f ` {l \<in> L. r_tenant l = t \<and> h l = r_id g}) =
    f ` {l \<in> L. r_tenant l = t \<and> I (h l)}"
  using assms by fastforce

lemma linked_ids:
  "set (concat (map gd_routeIdList (grp_queryDetailList t (grp_queryGroupIdListByMemberId t n d) d))) =
     gr_routeId ` {l \<in> set (t_rows (d_group_route d)). r_tenant l = t \<and> in_group t n d (gr_groupId l)}"
  "set (concat (map gd_routeRuleIdList (grp_queryDetailList t (grp_queryGroupIdListByMemberId t n d) d))) =
     gu_ruleId ` {l \<in> set (t_rows (d_group_rule d)). r_tenant l = t \<and> in_group t n d (gu_groupId l)}"
  "set (concat (map gd_vnatIdList (grp_queryDetailList t (grp_queryGroupIdListByMemberId t n d) d))) =
     gv_vnatId ` {l \<in> set (t_rows (d_group_vnat d)). r_tenant l = t \<and> in_group t n d (gv_groupId l)}"
  unfolding set_concat set_map detail_groups
  by (simp_all add: image_image group_links_def in_line_def) (rule links_union, erule in_group_row)+

lemma select_ids:
  "selectBatchIds t ids T = filter (\<lambda>r. r_tenant r = t \<and> r_id r \<in> set ids) (t_rows T)"
  by (simp add: selectBatchIds_def t_list_def in_line_def [abs_def] filter_empty_conv)

lemma nodes_of_ids: "vips_of (nod_queryByIdList t ids d) = vips_where (\<lambda>n. r_tenant n = t \<and> r_id n \<in> set ids) d"
  by (cases "ids = []") (simp_all add: nod_queryByIdList_def select_ids vips_where_def vips_of_def)

lemma image_where: "x \<in> f ` {l \<in> S. P l} \<longleftrightarrow> (\<exists>l \<in> S. P l \<and> f l = x)"
  by auto

lemma enabled_routes:
  "nd_routeList (node_detail t node d) =
     map (\<lambda>r. (r, route_nodes t d r)) (filter (gets_route t (r_id node) d) (t_rows (d_route d)))"
  unfolding node_detail_def Let_def NodeDetail.simps rte_queryDetailByIdList_def select_ids set_stream_distinct linked_ids filter_map
  by (auto simp: comp_def gets_route_def image_where intro!: arg_cong [where f = "map _"] filter_cong)

lemma enabled_rules:
  "nd_routeRuleList (node_detail t node d) = filter (gets_rule t (r_id node) d) (t_rows (d_route_rule d))"
proof -
  have "rul_queryByIdList t ids d = selectBatchIds t ids (d_route_rule d)" for ids
    by (simp add: rul_queryByIdList_def selectBatchIds_def)
  then show ?thesis
    unfolding node_detail_def Let_def NodeDetail.simps select_ids set_stream_distinct linked_ids
    by (auto simp: gets_rule_def image_where select_ids linked_ids [simplified] intro!: filter_cong)
qed

lemma enabled_vnats:
  "nd_vnatList (node_detail t node d) =
     map (\<lambda>r. (r, vnat_nodes t d r)) (filter (gets_vnat t (r_id node) d) (t_rows (d_vnat d)))"
proof -
  have "vnt_queryIdList t ids d = map (\<lambda>r. (r, vnat_nodes t d r)) (selectBatchIds t ids (d_vnat d))" for ids
    by (simp add: vnt_queryIdList_def selectBatchIds_def)
  then show ?thesis
    unfolding node_detail_def Let_def NodeDetail.simps
    by (auto simp: image_where select_ids filter_map comp_def gets_vnat_def linked_ids [simplified] intro!: arg_cong [where f = "map _"] filter_cong)
qed

lemma route_vips: "vips_of (nod_queryByIdList t (route_nodes t d r) d) = the (rc_nexthop (route_entry t d r))"
proof -
  have "set (route_nodes t d r) = ri_nodeId ` {i \<in> set (t_rows (d_route_node_item d)). r_tenant i = t \<and> ri_routeId i = r_id r}"
    by (simp add: route_nodes_def in_line_def)
  then show ?thesis
    unfolding nodes_of_ids route_entry_def RouteConfig.simps option.sel
    by (intro arg_cong [where f = "\<lambda>p. vips_where p d"] ext) (auto simp: image_where)
qed

lemma vnat_vips: "vips_of (nod_queryByIdList t (vnat_nodes t d r) d) = the (vc_vipList (vnat_entry t d r))"
proof -
  have "set (vnat_nodes t d r) = vi_nodeId ` {i \<in> set (t_rows (d_vnat_node_item d)). r_tenant i = t \<and> vi_vnatId i = r_id r}"
    by (simp add: vnat_nodes_def in_line_def)
  then show ?thesis
    unfolding nodes_of_ids vnat_entry_def VNATConfig.simps option.sel
    by (intro arg_cong [where f = "\<lambda>p. vips_where p d"] ext) (auto simp: image_where)
qed

lemma config_joins:
  "nc_routeConfigList (node_config t (node_detail t node d) d) =
     map (route_entry t d) (filter (gets_route t (r_id node) d) (t_rows (d_route d)))"
  "nc_routeRuleConfigList (node_config t (node_detail t node d) d) =
     map rule_entry (filter (gets_rule t (r_id node) d) (t_rows (d_route_rule d)))"
  "nc_vnatConfigList (node_config t (node_detail t node d) d) =
     map (vnat_entry t d) (filter (gets_vnat t (r_id node) d) (t_rows (d_vnat d)))"
  by (simp_all add: node_config_def enabled_routes enabled_rules enabled_vnats route_vips vnat_vips)
    (simp_all add: route_entry_def rule_entry_def vnat_entry_def)

section \<open>Registration\<close>

lemma admit_row:
  assumes "n \<in> set (t_rows (d_node d))" "r_tenant n = t"
    and "ensure_vip pat pick t n d = Some (Inr (node, d2))" and "admit_node t req node d2 = Inr (detail, d3)"
  shows "\<exists>m. detail = node_detail t m d3 \<and> (\<exists>x \<in> set (t_rows (d_node d3)). r_tenant x = t \<and> r_id x = r_id m \<and> n_mac x = n_mac n)"
proof -
  note fr = ensure_vip_frame [OF assms(3)]
  obtain m where m: "detail = node_detail t m d3" "d3 = nod_updateById t m d2" "r_id m = r_id n" "n_mac m = n_mac n"
    using assms(4) fr by (auto simp: admit_node_def Let_def split: if_splits)
  have in_rows: "n \<in> set (t_rows (d_node d2))" "in_line t (has_id (r_id m)) n"
    using assms(1,2) fr(1) m(3) by (simp_all add: in_line_def has_id_def)
  have "\<exists>x \<in> set (t_rows (d_node d3)). r_tenant x = t \<and> r_id x = r_id m \<and> n_mac x = n_mac n"
  proof -
    obtain f where f: "d_node d3 = t_update (in_line t (has_id (r_id m))) f (d_node d2)"
      "\<And>r. r_id (f r) = r_id r \<and> r_tenant (f r) = r_tenant r \<and> n_mac (f r) = n_mac m"
      by (simp add: m(2) nod_updateById_def)
    have "\<exists>r \<in> set (t_rows (d_node d2)). in_line t (has_id (r_id m)) r" using in_rows by blast
    then show ?thesis unfolding f(1) bex_update by (rule bexE) (rule bexI, auto simp: f(2) m(4) in_line_def has_id_def)
  qed
  with m(1) show ?thesis by blast
qed

lemma delivered_node:
  assumes "dbs_assignNodeInfo pat pick uuid req d = Some (d', Inr cfg)"
  obtains tn m where "tn \<in> set (t_rows (d_tenant d))" and "tn_code tn = rq_tenantId req"
    and "cfg = node_config (r_id tn) (node_detail (r_id tn) m d') d'"
    and "\<exists>x \<in> set (t_rows (d_node d')). r_tenant x = r_id tn \<and> r_id x = r_id m \<and> n_mac x = rq_macAddress req"
proof -
  obtain tn detail where code: "tnt_queryByTenantCode (rq_tenantId req) d = Inr (Some tn)"
    and r: "nod_assignNodeInfo pat pick (r_id tn) uuid req d = Some (d', Inr detail)" and cfg: "cfg = node_config (r_id tn) detail d'"
    using assms by (auto simp: dbs_assignNodeInfo_def res_simps split: sum.splits option.splits)
  have tn: "tn \<in> set (t_rows (d_tenant d))" "tn_code tn = rq_tenantId req"
    using code t_one_Some by (fastforce simp: tnt_queryByTenantCode_def)+
  let ?row = "\<lambda>m. \<exists>x \<in> set (t_rows (d_node d')). r_tenant x = r_id tn \<and> r_id x = r_id m \<and> n_mac x = rq_macAddress req"
  have "\<exists>m. detail = node_detail (r_id tn) m d' \<and> ?row m"
    using r
  proof (cases rule: regist_cases)
    case (known node r')
    then obtain node2 d2 where "r' = Inr (node2, d2)" "admit_node (r_id tn) req node2 d2 = Inr (detail, d')"
      by (auto simp: res_simps split: sum.splits)
    then show ?thesis using admit_row [OF known(1,2)] known(3,4) by auto
  next
    case (unknown node d1 r')
    from unknown(2) have n: "node \<in> set (t_rows (d_node d1))" "r_tenant node = r_id tn" "n_mac node = rq_macAddress req"
      by (auto elim!: new_node_row simp: core_def insert_node_def t_insert_def new_row_def)
    obtain node2 d2 where "r' = Inr (node2, d2)" "admit_node (r_id tn) req node2 d2 = Inr (detail, d')"
      using unknown(4) by (auto simp: res_simps split: sum.splits)
    then show ?thesis using admit_row [OF n(1,2)] n(3) unknown(3) by auto
  qed simp
  then show ?thesis using that tn cfg by blast
qed

text \<open>
  C16: The configuration of a registration is the join of the tables: a node of the tenant with the hardware
  address of the request gets those enabled routes, rules and translations of the tenant that are linked to a
  group it is a member of, each row once and in the order of its table, and each route and translation carries
  the addresses of the nodes listed for it that have one.
\<close>

theorem registered_config_joins:
  assumes "dbs_assignNodeInfo pat pick uuid req d = Some (d', Inr cfg)"
  shows "\<exists>tn \<in> set (t_rows (d_tenant d)). \<exists>n \<in> set (t_rows (d_node d')).
    tn_code tn = rq_tenantId req \<and> r_tenant n = r_id tn \<and> n_mac n = rq_macAddress req \<and>
    nc_routeConfigList cfg = map (route_entry (r_id tn) d') (filter (gets_route (r_id tn) (r_id n) d') (t_rows (d_route d'))) \<and>
    nc_routeRuleConfigList cfg = map rule_entry (filter (gets_rule (r_id tn) (r_id n) d') (t_rows (d_route_rule d'))) \<and>
    nc_vnatConfigList cfg = map (vnat_entry (r_id tn) d') (filter (gets_vnat (r_id tn) (r_id n) d') (t_rows (d_vnat d')))"
  using assms
proof (rule delivered_node)
  fix tn m
  assume tn: "tn \<in> set (t_rows (d_tenant d))" "tn_code tn = rq_tenantId req"
    and cfg: "cfg = node_config (r_id tn) (node_detail (r_id tn) m d') d'"
    and "\<exists>x \<in> set (t_rows (d_node d')). r_tenant x = r_id tn \<and> r_id x = r_id m \<and> n_mac x = rq_macAddress req"
  then obtain x where x: "x \<in> set (t_rows (d_node d'))" "r_tenant x = r_id tn" "r_id x = r_id m" "n_mac x = rq_macAddress req" by blast
  show ?thesis
    unfolding cfg config_joins using tn x by (intro bexI [of _ tn] bexI [of _ x]) simp_all
qed

text \<open>The third node of the small console gets the default rule of the default group.\<close>

theorem registered_config_joins_witness:
  "\<exists>cfg. dbs_assignNodeInfo isIPv4 hd ''x'' (small_regist ''a'') (small_db [] (- 1)) = Some (small_db [(1, ''a'', 2)] 2, Inr cfg) \<and>
     nc_routeConfigList cfg = [] \<and> map uc_ruleList (nc_routeRuleConfigList cfg) = [Some [''0.0.0.0/0'']]"
proof -
  let ?d = "small_db [(1, ''a'', 2)] 2"
  have "\<exists>cfg. dbs_assignNodeInfo isIPv4 hd ''x'' (small_regist ''a'') (small_db [] (- 1)) = Some (?d, Inr cfg)"
    using small_run [of "[]" "- 1" "''a''" 2] by (simp add: small_ok_def upt_rec)
  then obtain cfg where run: "dbs_assignNodeInfo isIPv4 hd ''x'' (small_regist ''a'') (small_db [] (- 1)) = Some (?d, Inr cfg)" ..
  have t: "tn \<in> set (t_rows (d_tenant (small_db [] (- 1)))) \<Longrightarrow> r_id tn = 1" and n: "x \<in> set (t_rows (d_node ?d)) \<Longrightarrow> r_id x = 1" for tn x
    by (simp_all add: small_db_def new_tenant_def small_node_def)
  have "d_route ?d = \<lparr>t_rows = [], t_next = 1\<rparr>" by (simp add: small_db_def empty_db_def)
  moreover have "map uc_ruleList (map rule_entry (filter (gets_rule 1 1 ?d) (t_rows (d_route_rule ?d)))) = [Some [''0.0.0.0/0'']]"
    by (simp add: small_db_def gets_rule_def in_group_def rule_entry_def)
  ultimately show ?thesis using run registered_config_joins [OF run] t n by auto
qed

end
