(* ===== verification/JsRegex.thy ===== *)
theory JsRegex
  imports NetPrelude
begin

text \<open>
  Regular expressions of JavaScript, as far as the web console uses them: sets of code units,
  sequences, alternatives and counted repetitions, without captures, look-around and back references.
  A text is its list of UTF-16 code units. \<open>rests\<close> is an executable matcher: the texts that
  remain after a match at the start of a text, without repetitions. \<open>lang\<close> is the language of
  an expression, and \<open>set_rests\<close> says that the matcher finds exactly its words. The flag \<open>i\<close>
  (ignore case) is the first argument of both; it only concerns the ASCII letters, since no other
  letter has an ASCII letter as its upper case for the canonicalisation of expressions without
  the flag u, and the sets used here hold all code units from 161.
\<close>

section \<open>Texts and sets of code units\<close>

type_synonym units = "nat list"

definition units :: "string \<Rightarrow> units" where
  "units s = map of_char s"

lemma units_simps [simp]:
  "units [] = []"
  "units (c # s) = of_char c # units s"
  "units (s @ t) = units s @ units t"
  "length (units s) = length s"
  by (simp_all add: units_def)

definition in_ranges :: "(nat \<times> nat) list \<Rightarrow> nat \<Rightarrow> bool" where
  "in_ranges rs c \<longleftrightarrow> (\<exists>(a, b)\<in>set rs. a \<le> c \<and> c \<le> b)"

lemma in_ranges_simps [simp]:
  "in_ranges [] c \<longleftrightarrow> False"
  "in_ranges ((a, b) # rs) c \<longleftrightarrow> a \<le> c \<and> c \<le> b \<or> in_ranges rs c"
  by (auto simp: in_ranges_def)

definition swap_case :: "nat \<Rightarrow> nat" where
  "swap_case c = (if 65 \<le> c \<and> c \<le> 90 then c + 32 else if 97 \<le> c \<and> c \<le> 122 then c - 32 else c)"

definition has_unit :: "bool \<Rightarrow> (nat \<times> nat) list \<Rightarrow> nat \<Rightarrow> bool" where
  "has_unit i rs c \<longleftrightarrow> in_ranges rs c \<or> i \<and> in_ranges rs (swap_case c)"

section \<open>Expressions and their language\<close>

datatype rx =
    REps
  | RSet "(nat \<times> nat) list"
  | RNot "(nat \<times> nat) list"
  | RSeq rx rx
  | RAlt rx rx
  | RRep rx nat "nat option"

fun rseq :: "rx list \<Rightarrow> rx" where
  "rseq [] = REps"
| "rseq [r] = r"
| "rseq (r # rs) = RSeq r (rseq rs)"

fun ralt :: "rx list \<Rightarrow> rx" where
  "ralt [] = RSet []"
| "ralt [r] = r"
| "ralt (r # rs) = RAlt r (ralt rs)"

definition rlit :: "string \<Rightarrow> rx" where
  "rlit s = rseq (map (\<lambda>c. RSet [(of_char c, of_char c)]) s)"

abbreviation ropt :: "rx \<Rightarrow> rx" where
  "ropt r \<equiv> RRep r 0 (Some 1)"

abbreviation rstar :: "rx \<Rightarrow> rx" where
  "rstar r \<equiv> RRep r 0 None"

abbreviation rplus :: "rx \<Rightarrow> rx" where
  "rplus r \<equiv> RRep r 1 None"

definition concs :: "units set \<Rightarrow> units set \<Rightarrow> units set" where
  "concs A B = {u @ v | u v. u \<in> A \<and> v \<in> B}"

fun pow_lang :: "nat \<Rightarrow> units set \<Rightarrow> units set" where
  "pow_lang 0 A = {[]}"
| "pow_lang (Suc k) A = concs A (pow_lang k A)"

definition upto_opt :: "nat \<Rightarrow> nat option \<Rightarrow> bool" where
  "upto_opt k hi \<longleftrightarrow> (case hi of None \<Rightarrow> True | Some h \<Rightarrow> k \<le> h)"

primrec lang :: "bool \<Rightarrow> rx \<Rightarrow> units set" where
  "lang i REps = {[]}"
| "lang i (RSet rs) = {[c] | c. has_unit i rs c}"
| "lang i (RNot rs) = {[c] | c. \<not> has_unit i rs c}"
| "lang i (RSeq r s) = concs (lang i r) (lang i s)"
| "lang i (RAlt r s) = lang i r \<union> lang i s"
| "lang i (RRep r lo hi) = {u. \<exists>k\<ge>lo. upto_opt k hi \<and> u \<in> pow_lang k (lang i r)}"

section \<open>The matcher\<close>

text \<open>
  One repetition at a time: a repetition beyond the required ones that consumes nothing is
  refused, as the language does (RepeatMatcher); the fuel is the number of required repetitions
  and of code units, and one more.
\<close>

fun reps :: "nat \<Rightarrow> (units \<Rightarrow> units list) \<Rightarrow> nat \<Rightarrow> nat option \<Rightarrow> units \<Rightarrow> units list" where
  "reps 0 m lo hi s = []"
| "reps (Suc n) m lo hi s =
    (if hi = Some 0 then (if lo = 0 then [s] else [])
     else remdups (concat (map (\<lambda>t. if lo = 0 \<and> length t = length s then []
                                     else reps n m (lo - 1) (map_option (\<lambda>h. h - 1) hi) t) (m s))
                   @ (if lo = 0 then [s] else [])))"

primrec rests :: "bool \<Rightarrow> rx \<Rightarrow> units \<Rightarrow> units list" where
  "rests i REps s = [s]"
| "rests i (RSet rs) s = (case s of [] \<Rightarrow> [] | c # t \<Rightarrow> if has_unit i rs c then [t] else [])"
| "rests i (RNot rs) s = (case s of [] \<Rightarrow> [] | c # t \<Rightarrow> if has_unit i rs c then [] else [t])"
| "rests i (RSeq r q) s = remdups (concat (map (rests i q) (rests i r s)))"
| "rests i (RAlt r q) s = remdups (rests i r s @ rests i q s)"
| "rests i (RRep r lo hi) s = reps (Suc (lo + length s)) (rests i r) lo hi s"

definition full_match :: "bool \<Rightarrow> rx \<Rightarrow> units \<Rightarrow> bool" where
  "full_match i r s \<longleftrightarrow> [] \<in> set (rests i r s)"

section \<open>The matcher finds the words of the language\<close>

lemma concs_iff: "w \<in> concs A B \<longleftrightarrow> (\<exists>u v. w = u @ v \<and> u \<in> A \<and> v \<in> B)"
  by (auto simp: concs_def)

lemma pow_lang_empty_words:
  assumes "u \<in> pow_lang k A"
  shows "\<exists>j\<le>k. u \<in> pow_lang j (A - {[]})"
  using assms
proof (induction k arbitrary: u)
  case (Suc k)
  then obtain a b where u: "u = a @ b" "a \<in> A" "b \<in> pow_lang k A"
    by (auto simp: concs_def)
  then obtain j where j: "j \<le> k" "b \<in> pow_lang j (A - {[]})" using Suc.IH by blast
  show ?case
  proof (cases "a = []")
    case True
    then show ?thesis using u j by (intro exI[of _ j]) auto
  next
    case False
    then have "u \<in> pow_lang (Suc j) (A - {[]})" using u j by (auto simp: concs_def)
    then show ?thesis using j by blast
  qed
qed auto

definition rests_of :: "units set \<Rightarrow> units \<Rightarrow> units set" where
  "rests_of A s = {t. \<exists>u\<in>A. s = u @ t}"

lemma reps_sound:
  assumes "\<And>s. set (m s) = rests_of A s" and "t \<in> set (reps n m lo hi s)"
  shows "\<exists>k\<ge>lo. upto_opt k hi \<and> (\<exists>u\<in>pow_lang k A. s = u @ t)"
  using assms(2)
proof (induction n arbitrary: lo hi s t)
  case (Suc n)
  consider (none) "lo = 0" "t = s"
    | (some) x where "hi \<noteq> Some 0" "x \<in> set (m s)" "t \<in> set (reps n m (lo - 1) (map_option (\<lambda>h. h - 1) hi) x)"
    using Suc.prems by (auto split: if_splits)
  then show ?case
  proof cases
    case none
    then show ?thesis by (intro exI[of _ 0]) (auto simp: upto_opt_def split: option.splits)
  next
    case some
    obtain k u where k: "lo - 1 \<le> k" "upto_opt k (map_option (\<lambda>h. h - 1) hi)" "u \<in> pow_lang k A" "x = u @ t"
      using Suc.IH [OF some(3)] by blast
    obtain v where v: "v \<in> A" "s = v @ x" using some(2) assms(1) by (auto simp: rests_of_def)
    have "lo \<le> Suc k" "upto_opt (Suc k) hi"
      using k some(1) by (auto simp: upto_opt_def split: option.splits)
    moreover have "v @ u \<in> pow_lang (Suc k) A" using v k by (auto simp: concs_def)
    ultimately show ?thesis using v k by (intro exI[of _ "Suc k"]) (auto intro!: bexI[of _ "v @ u"])
  qed
qed simp

lemma reps_required:
  assumes "\<And>s. set (m s) = rests_of A s" and "u \<in> A" and "s = u @ x"
    and "t \<in> set (reps n m lo (map_option (\<lambda>h. h - 1) hi) x)" and "hi \<noteq> Some 0"
  shows "t \<in> set (reps (Suc n) m (Suc lo) hi s)"
proof -
  have "x \<in> set (m s)" using assms(1,2,3) by (auto simp: rests_of_def)
  then show ?thesis using assms(4,5) by auto
qed

lemma reps_complete_min:
  assumes "\<And>s. set (m s) = rests_of A s" and "u \<in> pow_lang k (A - {[]})" and "upto_opt k hi"
    and "s = u @ t" and "length s < n"
  shows "t \<in> set (reps n m 0 hi s)"
  using assms(2-)
proof (induction k arbitrary: n hi s u)
  case 0
  then show ?case by (cases n) auto
next
  case (Suc k)
  obtain v w where u: "u = v @ w" "v \<in> A" "v \<noteq> []" "w \<in> pow_lang k (A - {[]})"
    using Suc.prems(1) by (auto simp: concs_def)
  obtain n' where n: "n = Suc n'" using Suc.prems(4) by (cases n) auto
  have x: "w @ t \<in> set (m s)" using assms(1) u Suc.prems(3) by (auto simp: rests_of_def)
  have "upto_opt k (map_option (\<lambda>h. h - 1) hi)" and h: "hi \<noteq> Some 0"
    using Suc.prems(2) by (auto simp: upto_opt_def split: option.splits)
  moreover have l: "length (w @ t) < n'" and l2: "length (w @ t) \<noteq> length s"
    using Suc.prems(3,4) u n by (cases v; simp)+
  ultimately have "t \<in> set (reps n' m 0 (map_option (\<lambda>h. h - 1) hi) (w @ t))"
    using Suc.IH [OF u(4)] by blast
  then show ?case using x h l2 unfolding n by (auto intro!: bexI[of _ "w @ t"])
qed

lemma reps_complete:
  assumes "\<And>s. set (m s) = rests_of A s" and "u \<in> pow_lang k A" and "lo \<le> k" and "upto_opt k hi"
    and "s = u @ t" and "lo + length s < n"
  shows "t \<in> set (reps n m lo hi s)"
  using assms(2-)
proof (induction lo arbitrary: n hi s u k)
  case 0
  then obtain j where j: "j \<le> k" "u \<in> pow_lang j (A - {[]})" using pow_lang_empty_words by blast
  have "upto_opt j hi" using 0 j(1) by (auto simp: upto_opt_def split: option.splits)
  then show ?case
    using 0 by (intro reps_complete_min [OF assms(1) j(2)]) auto
next
  case (Suc lo)
  obtain k' where k: "k = Suc k'" using Suc.prems(2) by (cases k) auto
  obtain n' where n: "n = Suc n'" using Suc.prems(5) by (cases n) auto
  obtain v w where u: "u = v @ w" "v \<in> A" "w \<in> pow_lang k' A"
    using Suc.prems(1) by (auto simp: k concs_def)
  have h: "hi \<noteq> Some 0" "upto_opt k' (map_option (\<lambda>h. h - 1) hi)"
    using Suc.prems(3) by (auto simp: upto_opt_def k split: option.splits)
  have "t \<in> set (reps n' m lo (map_option (\<lambda>h. h - 1) hi) (w @ t))"
    using Suc.prems u h by (intro Suc.IH [OF u(3)]) (auto simp: k n)
  then show ?case
    unfolding n using reps_required [OF assms(1) u(2) _ _ h(1)] Suc.prems(4) u(1) by simp
qed

lemma set_reps:
  assumes "\<And>s. set (m s) = rests_of A s" and "lo + length s < n"
  shows "set (reps n m lo hi s) = rests_of {u. \<exists>k\<ge>lo. upto_opt k hi \<and> u \<in> pow_lang k A} s"
  using reps_sound [OF assms(1)] reps_complete [OF assms(1) _ _ _ _ assms(2)]
  unfolding rests_of_def by blast

theorem set_rests: "set (rests i r s) = rests_of (lang i r) s"
proof (induction r arbitrary: s)
  case (RSeq r q)
  have "set (rests i (RSeq r q) s) = (\<Union>x\<in>rests_of (lang i r) s. rests_of (lang i q) x)"
    by (simp add: RSeq.IH)
  also have "\<dots> = rests_of (concs (lang i r) (lang i q)) s"
    unfolding rests_of_def concs_def by fastforce
  finally show ?case by simp
next
  case (RRep r lo hi)
  then show ?case by (simp add: set_reps del: reps.simps)
next
  case (RNot rs)
  then show ?case by (cases s) (auto simp: rests_of_def)
qed (auto simp: rests_of_def split: list.splits)

corollary full_match_lang: "full_match i r s \<longleftrightarrow> s \<in> lang i r"
  by (auto simp: full_match_def set_rests rests_of_def)

section \<open>Words of composed expressions\<close>

lemma lang_rseq_Cons: "lang i (rseq (r # rs)) = concs (lang i r) (lang i (rseq rs))"
  by (cases rs) (auto simp: concs_def)

lemma lang_ralt_Cons: "lang i (ralt (r # rs)) = lang i r \<union> lang i (ralt rs)"
  by (cases rs) (auto simp: has_unit_def)

lemma lang_ralt_Nil: "lang i (ralt []) = {}"
  by (simp add: has_unit_def)

lemma lang_rseq_Nil: "lang i (rseq []) = {[]}"
  by simp

lemma in_rseq_Nil [simp]: "w \<in> lang i (rseq []) \<longleftrightarrow> w = []"
  by simp

lemma in_rseq_Cons: "w \<in> lang i (rseq (r # rs)) \<longleftrightarrow> (\<exists>u v. w = u @ v \<and> u \<in> lang i r \<and> v \<in> lang i (rseq rs))"
  by (simp only: lang_rseq_Cons concs_iff)

lemma in_ralt: "w \<in> lang i (ralt rs) \<longleftrightarrow> (\<exists>r\<in>set rs. w \<in> lang i r)"
  by (induction rs) (auto simp: lang_ralt_Cons lang_ralt_Nil simp del: ralt.simps)

lemma pow_lang_iff: "w \<in> pow_lang k A \<longleftrightarrow> (\<exists>us. length us = k \<and> set us \<subseteq> A \<and> w = concat us)"
proof (induction k arbitrary: w)
  case (Suc k)
  show ?case
  proof
    assume "w \<in> pow_lang (Suc k) A"
    then obtain u us where "w = u @ concat us" "u \<in> A" "length us = k" "set us \<subseteq> A"
      by (auto simp: concs_iff Suc.IH)
    then show "\<exists>us. length us = Suc k \<and> set us \<subseteq> A \<and> w = concat us" by (intro exI[of _ "u # us"]) auto
  next
    assume "\<exists>us. length us = Suc k \<and> set us \<subseteq> A \<and> w = concat us"
    then obtain u us where "w = concat (u # us)" "set (u # us) \<subseteq> A" "length us = k"
      by (metis length_Suc_conv)
    then show "w \<in> pow_lang (Suc k) A" by (auto simp: concs_iff Suc.IH)
  qed
qed auto

lemma in_rrep:
  "w \<in> lang i (RRep r lo hi) \<longleftrightarrow>
    (\<exists>us. lo \<le> length us \<and> upto_opt (length us) hi \<and> set us \<subseteq> lang i r \<and> w = concat us)"
  by (auto simp: pow_lang_iff)

lemma upto_opt_simps [simp]: "upto_opt k None" "upto_opt k (Some h) \<longleftrightarrow> k \<le> h"
  by (simp_all add: upto_opt_def)

lemma in_ropt: "w \<in> lang i (ropt r) \<longleftrightarrow> w = [] \<or> w \<in> lang i r"
proof -
  have "w \<in> lang i (ropt r) \<longleftrightarrow> (\<exists>us. length us \<le> 1 \<and> set us \<subseteq> lang i r \<and> w = concat us)"
    by (simp add: in_rrep del: lang.simps)
  also have "\<dots> \<longleftrightarrow> w = [] \<or> w \<in> lang i r"
    by (auto simp: le_Suc_eq length_Suc_conv intro: exI[of _ "[]"] exI[of _ "[w]"])
  finally show ?thesis .
qed

text \<open>Repeated single code units.\<close>

lemma concat_singletons: "(\<forall>u\<in>set us. \<exists>c. u = [c] \<and> P c) \<Longrightarrow> length (concat us) = length us \<and> (\<forall>c\<in>set (concat us). P c)"
  by (induction us) auto

lemma in_rrep_units:
  assumes "\<And>u. u \<in> lang i r \<longleftrightarrow> (\<exists>c. u = [c] \<and> P c)"
  shows "w \<in> lang i (RRep r lo hi) \<longleftrightarrow> lo \<le> length w \<and> upto_opt (length w) hi \<and> (\<forall>c\<in>set w. P c)"
proof
  assume "w \<in> lang i (RRep r lo hi)"
  then obtain us where "lo \<le> length us" "upto_opt (length us) hi" "\<forall>u\<in>set us. \<exists>c. u = [c] \<and> P c" "w = concat us"
    unfolding in_rrep using assms by blast
  then show "lo \<le> length w \<and> upto_opt (length w) hi \<and> (\<forall>c\<in>set w. P c)"
    using concat_singletons [of us P] by auto
next
  assume "lo \<le> length w \<and> upto_opt (length w) hi \<and> (\<forall>c\<in>set w. P c)"
  moreover have "concat (map (\<lambda>c. [c]) w) = w" by (induction w) auto
  ultimately show "w \<in> lang i (RRep r lo hi)"
    unfolding in_rrep using assms by (intro exI[of _ "map (\<lambda>c. [c]) w"]) auto
qed

lemma in_rset: "u \<in> lang i (RSet rs) \<longleftrightarrow> (\<exists>c. u = [c] \<and> has_unit i rs c)"
  by auto

lemma in_rnot: "u \<in> lang i (RNot rs) \<longleftrightarrow> (\<exists>c. u = [c] \<and> \<not> has_unit i rs c)"
  by auto

lemma rlit_Cons: "lang i (rlit (c # s)) = concs (lang i (RSet [(of_char c, of_char c)])) (lang i (rlit s))"
  by (simp add: rlit_def lang_rseq_Cons del: lang.simps)

lemma in_rlit_Cons: "w \<in> lang i (rlit (c # s)) \<longleftrightarrow> (\<exists>d v. w = d # v \<and> has_unit i [(of_char c, of_char c)] d \<and> v \<in> lang i (rlit s))"
proof
  assume "\<exists>d v. w = d # v \<and> has_unit i [(of_char c, of_char c)] d \<and> v \<in> lang i (rlit s)"
  then obtain d v where "w = [d] @ v" "has_unit i [(of_char c, of_char c)] d" "v \<in> lang i (rlit s)" by auto
  then show "w \<in> lang i (rlit (c # s))" unfolding rlit_Cons concs_iff lang.simps by blast
qed (auto simp: rlit_Cons concs_iff)

lemma in_rlit_Nil [simp]: "w \<in> lang i (rlit []) \<longleftrightarrow> w = []"
  by (simp add: rlit_def)

lemma units_in_rlit: "units s \<in> lang i (rlit s)"
  by (induction s) (auto simp: in_rlit_Cons has_unit_def)

lemmas lang_iffs = in_rseq_Cons in_ralt in_rset in_rnot in_ropt in_rlit_Cons

end
