(* ===== verification/WebUrl.thy ===== *)
theory WebUrl
  imports JsRegex IPAddr
begin

text \<open>
  The address and URL expressions of the web console's form validator (async-validator, function
  \<open>getUrlRegex\<close>, minified \<open>eJ\<close>, in the console's bundle
  \<open>static/assets/index-ed2d0584.js\<close>, lines 38 to 49), and the patterns for e-mail addresses and
  colours beside them. The parts of the expression have the names of the source's variables. The
  lemmas characterise the accepted texts: the IPv4 part accepts exactly the addresses that the
  server's \<open>IPUtil.int2ip\<close> prints, the IPv6 part exactly eight words or at most seven around
  one double colon, where a trailing IPv4 address counts as two words.
\<close>

section \<open>The expressions\<close>

definition digit_set :: "(nat \<times> nat) list" where
  "digit_set = [(48, 57)]"

definition space_set :: "(nat \<times> nat) list" where
  "space_set = [(9, 13), (32, 32), (160, 160), (5760, 5760), (8192, 8202), (8232, 8233), (8239, 8239),
                (8287, 8287), (12288, 12288), (65279, 65279)]"

definition octet_rx :: rx where
  "octet_rx = ralt [
     rseq [rlit ''25'', RSet [(48, 53)]],
     rseq [rlit ''2'', RSet [(48, 52)], RSet digit_set],
     rseq [rlit ''1'', RSet digit_set, RSet digit_set],
     rseq [RSet [(49, 57)], RSet digit_set],
     RSet digit_set]"

definition v4_rx :: rx where
  "v4_rx = rseq [octet_rx, RRep (rseq [rlit ''.'', octet_rx]) 3 (Some 3)]"

definition hex_set :: "(nat \<times> nat) list" where
  "hex_set = [(97, 102), (65, 70), (48, 57)]"

definition group_rx :: rx where
  "group_rx = RRep (RSet hex_set) 1 (Some 4)"

definition v6_colons :: "nat \<Rightarrow> rx" where
  "v6_colons k = RRep (rseq [group_rx, rlit '':'']) k (Some k)"

definition colon_groups :: "nat \<Rightarrow> nat \<Rightarrow> rx" where
  "colon_groups a b = RRep (rseq [rlit '':'', group_rx]) a (Some b)"

definition v6_seg7 :: rx where
  "v6_seg7 = rseq [v6_colons 7, ralt [group_rx, rlit '':'']]"

definition v6_seg6 :: rx where
  "v6_seg6 = rseq [v6_colons 6, ralt [v4_rx, rseq [rlit '':'', group_rx], rlit '':'']]"

definition v6_seg5 :: rx where
  "v6_seg5 = rseq [v6_colons 5, ralt [rseq [rlit '':'', v4_rx], colon_groups 1 2, rlit '':'']]"

definition v6_seg4 :: rx where
  "v6_seg4 = rseq [v6_colons 4, ralt [rseq [colon_groups 0 1, rlit '':'', v4_rx], colon_groups 1 3, rlit '':'']]"

definition v6_seg3 :: rx where
  "v6_seg3 = rseq [v6_colons 3, ralt [rseq [colon_groups 0 2, rlit '':'', v4_rx], colon_groups 1 4, rlit '':'']]"

definition v6_seg2 :: rx where
  "v6_seg2 = rseq [v6_colons 2, ralt [rseq [colon_groups 0 3, rlit '':'', v4_rx], colon_groups 1 5, rlit '':'']]"

definition v6_seg1 :: rx where
  "v6_seg1 = rseq [v6_colons 1, ralt [rseq [colon_groups 0 4, rlit '':'', v4_rx], colon_groups 1 6, rlit '':'']]"

definition v6_seg0 :: rx where
  "v6_seg0 = rseq [rlit '':'', ralt [rseq [colon_groups 0 5, rlit '':'', v4_rx], colon_groups 1 7, rlit '':'']]"

definition zone_rx :: rx where
  "zone_rx = ropt (rseq [rlit ''%'', RRep (RSet [(48, 57), (97, 122), (65, 90)]) 1 None])"

definition v6_rx :: rx where
  "v6_rx = rseq [ralt [v6_seg7, v6_seg6, v6_seg5, v6_seg4, v6_seg3, v6_seg2, v6_seg1, v6_seg0], zone_rx]"

definition protocol_rx :: rx where
  "protocol_rx = rseq [ropt (rseq [rplus (RSet [(97, 122)]), rlit '':'']), rlit ''//'']"

definition auth_rx :: rx where
  "auth_rx = ropt (rseq [rplus (RNot space_set), ropt (rseq [rlit '':'', rstar (RNot space_set)]), rlit ''@''])"

definition alnum_set :: "(nat \<times> nat) list" where
  "alnum_set = [(97, 122), (161, 65535), (48, 57)]"

definition host_rx :: rx where
  "host_rx = rseq [rstar (rseq [RSet alnum_set, rstar (RSet [(45, 45), (95, 95)])]), rplus (RSet alnum_set)]"

definition domain_rx :: rx where
  "domain_rx = rstar (rseq [rlit ''.'', rstar (rseq [RSet alnum_set, rstar (rlit ''-'')]), rplus (RSet alnum_set)])"

definition tld_rx :: rx where
  "tld_rx = rseq [rlit ''.'', RRep (RSet [(97, 122), (161, 65535)]) 2 None]"

definition port_rx :: rx where
  "port_rx = ropt (rseq [rlit '':'', RRep (RSet digit_set) 2 (Some 5)])"

definition path_rx :: rx where
  "path_rx = ropt (rseq [RSet [(47, 47), (63, 63), (35, 35)], rstar (RNot (space_set @ [(34, 34)]))])"

definition url_rx :: rx where
  "url_rx = rseq [ralt [protocol_rx, rlit ''www.''], auth_rx,
                  ralt [rlit ''localhost'', v4_rx, v6_rx, rseq [host_rx, domain_rx, tld_rx]], port_rx, path_rx]"

text \<open>The string part of the validators \<open>url\<close>, \<open>hex\<close> and \<open>email\<close>.\<close>

definition url_ok :: "units \<Rightarrow> bool" where
  "url_ok s \<longleftrightarrow> length s \<le> 2048 \<and> full_match True url_rx s"

definition hex_ok :: "units \<Rightarrow> bool" where
  "hex_ok s \<longleftrightarrow> full_match True
     (rseq [ropt (rlit ''#''), ralt [RRep (RSet [(97, 102), (48, 57)]) 6 (Some 6), RRep (RSet [(97, 102), (48, 57)]) 3 (Some 3)]]) s"

definition email_atom :: "(nat \<times> nat) list" where
  "email_atom = [(60, 60), (62, 62), (40, 40), (41, 41), (91, 91), (93, 93), (92, 92), (46, 46), (44, 44), (59, 59), (58, 58)]
                @ space_set @ [(64, 64), (34, 34)]"

definition email_label :: "(nat \<times> nat) list" where
  "email_label = [(97, 122), (65, 90), (160, 55295), (63744, 64975), (65008, 65519)]"

definition email_rx :: rx where
  "email_rx = rseq [
     ralt [rseq [rplus (RNot email_atom), rstar (rseq [rlit ''.'', rplus (RNot email_atom)])],
           rseq [RSet [(34, 34)], rplus (RNot [(10, 10), (13, 13), (8232, 8233)]), RSet [(34, 34)]]],
     rlit ''@'',
     ralt [rseq [rlit ''['', RRep (RSet digit_set) 1 (Some 3), rlit ''.'', RRep (RSet digit_set) 1 (Some 3), rlit ''.'',
                 RRep (RSet digit_set) 1 (Some 3), rlit ''.'', RRep (RSet digit_set) 1 (Some 3), rlit '']''],
           rseq [rplus (rseq [rplus (RSet (email_label @ [(45, 45), (48, 57)])), rlit ''.'']), RRep (RSet email_label) 2 None]]]"

definition email_ok :: "units \<Rightarrow> bool" where
  "email_ok s \<longleftrightarrow> length s \<le> 320 \<and> full_match False email_rx s"

section \<open>IPv4 addresses\<close>

lemma units_show_nat:
  "c < 10 \<Longrightarrow> units (show_nat c) = [48 + c]"
  "0 < b \<Longrightarrow> b < 10 \<Longrightarrow> c < 10 \<Longrightarrow> units (show_nat (10 * b + c)) = [48 + b, 48 + c]"
  "0 < a \<Longrightarrow> a < 10 \<Longrightarrow> b < 10 \<Longrightarrow> c < 10 \<Longrightarrow> units (show_nat (10 * (10 * a + b) + c)) = [48 + a, 48 + b, 48 + c]"
proof -
  have snoc: "0 < m \<Longrightarrow> c < 10 \<Longrightarrow> show_nat (10 * m + c) = show_nat m @ [digit_char c]" for m c
    by (subst show_nat.simps) simp
  show 1: "c < 10 \<Longrightarrow> units (show_nat c) = [48 + c]" for c
    by (subst show_nat.simps) (simp add: of_char_digit_char)
  show 2: "0 < b \<Longrightarrow> b < 10 \<Longrightarrow> c < 10 \<Longrightarrow> units (show_nat (10 * b + c)) = [48 + b, 48 + c]" for b c
    by (simp add: snoc 1 of_char_digit_char)
  show "0 < a \<Longrightarrow> a < 10 \<Longrightarrow> b < 10 \<Longrightarrow> c < 10 \<Longrightarrow> units (show_nat (10 * (10 * a + b) + c)) = [48 + a, 48 + b, 48 + c]"
    by (simp only: snoc [of "10 * a + b"] 2 units_simps of_char_digit_char add_pos_nonneg) simp
qed

lemma has_unit_digits:
  "has_unit i [(a, b)] c \<longleftrightarrow> a \<le> c \<and> c \<le> b" if "b < 65"
  using that by (auto simp: has_unit_def swap_case_def split: if_splits)

lemma in_rseq_RSet:
  "w \<in> lang i (rseq (RSet rs # l)) \<longleftrightarrow> (\<exists>c v. w = c # v \<and> has_unit i rs c \<and> v \<in> lang i (rseq l))"
  unfolding in_rseq_Cons in_rset by (metis append_Cons append_Nil)

lemma in_rlit_plain:
  assumes "\<forall>c\<in>set s. of_char c < (65 :: nat)"
  shows "w \<in> lang i (rlit s) \<longleftrightarrow> w = units s"
  using assms by (induction s arbitrary: w) (auto simp: in_rlit_Cons has_unit_digits)

lemma in_rseq_rlit:
  assumes "\<forall>c\<in>set s. of_char c < (65 :: nat)"
  shows "w \<in> lang i (rseq (rlit s # l)) \<longleftrightarrow> (\<exists>v. w = units s @ v \<and> v \<in> lang i (rseq l))"
  unfolding in_rseq_Cons in_rlit_plain [OF assms] by blast

lemma lang_rseq_1: "rseq [r] = r"
  by simp

lemma in_octet_rx:
  "w \<in> lang i octet_rx \<longleftrightarrow>
     (\<exists>c. w = [50, 53, c] \<and> 48 \<le> c \<and> c \<le> 53)
   \<or> (\<exists>b c. w = [50, b, c] \<and> 48 \<le> b \<and> b \<le> 52 \<and> 48 \<le> c \<and> c \<le> 57)
   \<or> (\<exists>b c. w = [49, b, c] \<and> 48 \<le> b \<and> b \<le> 57 \<and> 48 \<le> c \<and> c \<le> 57)
   \<or> (\<exists>b c. w = [b, c] \<and> 49 \<le> b \<and> b \<le> 57 \<and> 48 \<le> c \<and> c \<le> 57)
   \<or> (\<exists>c. w = [c] \<and> 48 \<le> c \<and> c \<le> 57)"
proof -
  note iffs = in_rseq_rlit in_rseq_RSet in_rset has_unit_digits lang_rseq_1 digit_set_def
  have 1: "w \<in> lang i (rseq [rlit ''25'', RSet [(48, 53)]]) \<longleftrightarrow> (\<exists>c. w = [50, 53, c] \<and> 48 \<le> c \<and> c \<le> 53)"
    by (auto simp: iffs simp del: lang.simps rseq.simps)
  have 2: "w \<in> lang i (rseq [rlit ''2'', RSet [(48, 52)], RSet digit_set]) \<longleftrightarrow> (\<exists>b c. w = [50, b, c] \<and> 48 \<le> b \<and> b \<le> 52 \<and> 48 \<le> c \<and> c \<le> 57)"
    by (auto simp: iffs simp del: lang.simps rseq.simps)
  have 3: "w \<in> lang i (rseq [rlit ''1'', RSet digit_set, RSet digit_set]) \<longleftrightarrow> (\<exists>b c. w = [49, b, c] \<and> 48 \<le> b \<and> b \<le> 57 \<and> 48 \<le> c \<and> c \<le> 57)"
    by (auto simp: iffs simp del: lang.simps rseq.simps)
  have 4: "w \<in> lang i (rseq [RSet [(49, 57)], RSet digit_set]) \<longleftrightarrow> (\<exists>b c. w = [b, c] \<and> 49 \<le> b \<and> b \<le> 57 \<and> 48 \<le> c \<and> c \<le> 57)"
    by (auto simp: iffs simp del: lang.simps rseq.simps)
  have 5: "w \<in> lang i (RSet digit_set) \<longleftrightarrow> (\<exists>c. w = [c] \<and> 48 \<le> c \<and> c \<le> 57)"
    by (auto simp: iffs simp del: lang.simps rseq.simps)
  show ?thesis
    unfolding octet_rx_def in_ralt set_simps bex_simps 1 2 3 4 5 by simp
qed

lemma octet_rx_correct: "w \<in> lang i octet_rx \<longleftrightarrow> (\<exists>n<256. w = units (show_nat n))"
proof
  assume "w \<in> lang i octet_rx"
  then consider (d) a b c where "w = [48 + a, 48 + b, 48 + c]" "a = 1 \<and> b < 10 \<and> c < 10 \<or> a = 2 \<and> b < 5 \<and> c < 10 \<or> a = 2 \<and> b = 5 \<and> c < 6"
    | (b) b c where "w = [48 + b, 48 + c]" "0 < b" "b < 10" "c < 10"
    | (a) c where "w = [48 + c]" "c < 10"
    unfolding in_octet_rx by (elim disjE exE conjE) (auto dest!: le_Suc_ex)
  then show "\<exists>n<256. w = units (show_nat n)"
  proof cases
    case d
    then have "0 < a" "a < 10" "b < 10" "c < 10" "10 * (10 * a + b) + c < 256" by auto
    with d(1) show ?thesis using units_show_nat(3) by metis
  next
    case b
    then show ?thesis using units_show_nat(2) [of b c] by (intro exI[of _ "10 * b + c"]) simp
  next
    case a
    then show ?thesis by (intro exI[of _ c]) (simp add: units_show_nat(1))
  qed
next
  assume "\<exists>n<256. w = units (show_nat n)"
  then obtain n where n: "n < 256" "w = units (show_nat n)" by blast
  define a b c where "a = n div 10 div 10" "b = n div 10 mod 10" "c = n mod 10"
  have d: "n = 10 * (10 * a + b) + c" "b < 10" "c < 10" by (simp_all add: a_b_c_def)
  consider "a = 0" "b = 0" | "a = 0" "0 < b" | "a = 1" | "a = 2" "b < 5" | "a = 2" "b = 5" "c < 6"
  proof -
    have "100 * a + 10 * b + c < 256" using n(1) d(1) by simp
    then have "a = 0 \<or> a = 1 \<or> a = 2" "a = 2 \<Longrightarrow> b < 5 \<or> b = 5 \<and> c < 6" by arith+
    then show thesis using that by blast
  qed
  then show "w \<in> lang i octet_rx"
  proof cases
    case 1
    then have "w = [48 + c]" using n(2) d units_show_nat(1) by simp
    then show ?thesis using d(3) unfolding in_octet_rx by simp
  next
    case 2
    then have "w = [48 + b, 48 + c]" using n(2) d units_show_nat(2) [of b c] by simp
    then show ?thesis using 2 d unfolding in_octet_rx by simp
  next
    case 3
    then have "w = [49, 48 + b, 48 + c]" using n(2) d units_show_nat(3) [of a b c] by simp
    then show ?thesis using d unfolding in_octet_rx by simp
  next
    case 4
    then have "w = [50, 48 + b, 48 + c]" using n(2) d units_show_nat(3) [of a b c] by simp
    then show ?thesis using 4 d unfolding in_octet_rx by simp
  next
    case 5
    then have "w = [50, 53, 48 + c]" using n(2) d units_show_nat(3) [of a b c] by simp
    then show ?thesis using 5 unfolding in_octet_rx by simp
  qed
qed

lemma in_rrep_image:
  assumes "\<And>u. u \<in> lang i r \<longleftrightarrow> (\<exists>x. P x \<and> u = f x)"
  shows "w \<in> lang i (RRep r lo hi) \<longleftrightarrow>
    (\<exists>xs. lo \<le> length xs \<and> upto_opt (length xs) hi \<and> (\<forall>x\<in>set xs. P x) \<and> w = concat (map f xs))"
proof
  assume "w \<in> lang i (RRep r lo hi)"
  then obtain us where us: "lo \<le> length us" "upto_opt (length us) hi" "\<forall>u\<in>set us. \<exists>x. P x \<and> u = f x" "w = concat us"
    unfolding in_rrep using assms by blast
  from us(3) obtain g where "\<forall>u\<in>set us. P (g u) \<and> u = f (g u)" by metis
  then have "map f (map g us) = us" "\<forall>x\<in>set (map g us). P x" by (auto intro: map_idI)
  with us show "\<exists>xs. lo \<le> length xs \<and> upto_opt (length xs) hi \<and> (\<forall>x\<in>set xs. P x) \<and> w = concat (map f xs)"
    by (metis length_map)
next
  assume "\<exists>xs. lo \<le> length xs \<and> upto_opt (length xs) hi \<and> (\<forall>x\<in>set xs. P x) \<and> w = concat (map f xs)"
  then obtain xs where "lo \<le> length xs" "upto_opt (length xs) hi" "\<forall>x\<in>set xs. P x" "w = concat (map f xs)" by blast
  then show "w \<in> lang i (RRep r lo hi)"
    unfolding in_rrep using assms by (intro exI[of _ "map f xs"]) auto
qed

lemma has_unit_colon [simp]: "has_unit i [(58, 58)] c \<longleftrightarrow> c = 58" "has_unit i [(46, 46)] c \<longleftrightarrow> c = 46"
  by (auto simp: has_unit_digits)

lemma in_dot_octet: "u \<in> lang i (rseq [rlit ''.'', octet_rx]) \<longleftrightarrow> (\<exists>n. n < 256 \<and> u = 46 # units (show_nat n))"
  by (auto simp: in_rseq_Cons in_rlit_Cons octet_rx_correct simp del: lang.simps rseq.simps)

lemma length_3_conv: "length xs = 3 \<longleftrightarrow> (\<exists>a b c. xs = [a, b, c])"
  by (auto simp: numeral_3_eq_3 length_Suc_conv)

lemma v4_rx_correct:
  "w \<in> lang i v4_rx \<longleftrightarrow> (\<exists>a b c d. a < 256 \<and> b < 256 \<and> c < 256 \<and> d < 256 \<and> w = units (quad_str a b c d))"
proof -
  have eq: "3 \<le> length xs \<and> upto_opt (length xs) (Some 3) \<and> P \<longleftrightarrow> length xs = 3 \<and> P" for xs :: "nat list" and P by auto
  have "w \<in> lang i v4_rx \<longleftrightarrow> (\<exists>u v. w = u @ v \<and> (\<exists>a<256. u = units (show_nat a)) \<and>
      (\<exists>xs. length xs = 3 \<and> (\<forall>x\<in>set xs. x < 256) \<and> v = concat (map (\<lambda>n. 46 # units (show_nat n)) xs)))"
    unfolding v4_rx_def in_rseq_Cons [of _ _ octet_rx] lang_rseq_1 octet_rx_correct in_rrep_image [OF in_dot_octet] eq ..
  also have "\<dots> \<longleftrightarrow> (\<exists>a b c d. a < 256 \<and> b < 256 \<and> c < 256 \<and> d < 256 \<and> w = units (quad_str a b c d))"
  proof
    assume "\<exists>u v. w = u @ v \<and> (\<exists>a<256. u = units (show_nat a)) \<and>
      (\<exists>xs. length xs = 3 \<and> (\<forall>x\<in>set xs. x < 256) \<and> v = concat (map (\<lambda>n. 46 # units (show_nat n)) xs))"
    then obtain a b c d where "a < 256" "b < 256" "c < 256" "d < 256"
      "w = units (show_nat a) @ concat (map (\<lambda>n. 46 # units (show_nat n)) [b, c, d])"
      unfolding length_3_conv by auto
    then show "\<exists>a b c d. a < 256 \<and> b < 256 \<and> c < 256 \<and> d < 256 \<and> w = units (quad_str a b c d)"
      by (intro exI[of _ a] exI[of _ b] exI[of _ c] exI[of _ d]) (simp add: quad_str_def)
  next
    assume "\<exists>a b c d. a < 256 \<and> b < 256 \<and> c < 256 \<and> d < 256 \<and> w = units (quad_str a b c d)"
    then obtain a b c d where o: "a < 256" "b < 256" "c < 256" "d < 256" and w: "w = units (quad_str a b c d)" by blast
    have "w = units (show_nat a) @ concat (map (\<lambda>n. 46 # units (show_nat n)) [b, c, d])" by (simp add: w quad_str_def)
    moreover have "length [b, c, d] = 3" "\<forall>x\<in>set [b, c, d]. x < 256" using o by simp_all
    ultimately show "\<exists>u v. w = u @ v \<and> (\<exists>a<256. u = units (show_nat a)) \<and>
      (\<exists>xs. length xs = 3 \<and> (\<forall>x\<in>set xs. x < 256) \<and> v = concat (map (\<lambda>n. 46 # units (show_nat n)) xs))"
      using o(1) by blast
  qed
  finally show ?thesis .
qed

section \<open>IPv6 addresses\<close>

definition hex_group :: "units \<Rightarrow> bool" where
  "hex_group g \<longleftrightarrow> 1 \<le> length g \<and> length g \<le> 4 \<and> (\<forall>c\<in>set g. in_ranges hex_set c)"

text \<open>The items of an address joined by colons: the hexadecimal words and, at its end, an IPv4 address.\<close>

definition after_colons :: "units list \<Rightarrow> units" where
  "after_colons gs = concat (map (\<lambda>g. 58 # g) gs)"

fun join_colons :: "units list \<Rightarrow> units" where
  "join_colons [] = []"
| "join_colons (g # gs) = g @ after_colons gs"

definition v4_tail :: "units list \<Rightarrow> bool" where
  "v4_tail q \<longleftrightarrow> q = [] \<or> (\<exists>a b c d. a < 256 \<and> b < 256 \<and> c < 256 \<and> d < 256 \<and> q = [units (quad_str a b c d)])"

definition v6_address :: "units \<Rightarrow> bool" where
  "v6_address w \<longleftrightarrow> (\<exists>l r q. list_all hex_group (l @ r) \<and> v4_tail q \<and>
     (r = [] \<and> length l + 2 * length q = 8 \<and> w = join_colons (l @ q)
    \<or> length l + length r + 2 * length q \<le> 7 \<and> w = join_colons l @ [58, 58] @ join_colons (r @ q)))"

definition before_colons :: "units list \<Rightarrow> units" where
  "before_colons gs = concat (map (\<lambda>g. g @ [58]) gs)"

lemma after_colons_simps [simp]:
  "after_colons [] = []" "after_colons (g # gs) = 58 # g @ after_colons gs"
  "after_colons (gs @ hs) = after_colons gs @ after_colons hs"
  by (simp_all add: after_colons_def)

lemma before_colons_simps [simp]:
  "before_colons [] = []" "before_colons (g # gs) = g @ 58 # before_colons gs"
  by (simp_all add: before_colons_def)

lemma join_after: "gs \<noteq> [] \<Longrightarrow> after_colons gs = 58 # join_colons gs"
  by (cases gs) simp_all

lemma before_after: "before_colons gs @ [58] = (if gs = [] then [58] else join_colons gs @ [58, 58])"
proof -
  have "58 # before_colons gs = after_colons gs @ [58]" by (induction gs) simp_all
  then show ?thesis by (cases gs) auto
qed

lemma before_join: "gs \<noteq> [] \<Longrightarrow> before_colons l @ join_colons gs = join_colons (l @ gs)"
proof -
  have "before_colons l @ join_colons gs = join_colons (l @ gs)" if "gs \<noteq> []" for l
    using that
  proof (induction l)
    case (Cons g l)
    then show ?case by (cases l; cases gs) auto
  qed simp
  then show "gs \<noteq> [] \<Longrightarrow> ?thesis" .
qed

lemma has_unit_hex: "has_unit i hex_set c \<longleftrightarrow> in_ranges hex_set c"
  by (auto simp: has_unit_def hex_set_def swap_case_def split: if_splits)

lemma group_rx_correct: "w \<in> lang i group_rx \<longleftrightarrow> hex_group w"
  unfolding group_rx_def in_rrep_units [OF in_rset] by (auto simp: hex_group_def has_unit_hex)

lemma plain_colon: "\<forall>c\<in>set '':''. of_char c < (65 :: nat)"
  by simp

lemmas in_colon = in_rseq_rlit [OF plain_colon] in_rlit_plain [OF plain_colon]

lemma in_colon_groups:
  "w \<in> lang i (colon_groups a b) \<longleftrightarrow>
    (\<exists>gs. a \<le> length gs \<and> length gs \<le> b \<and> list_all hex_group gs \<and> w = after_colons gs)"
proof -
  have "u \<in> lang i (rseq [rlit '':'', group_rx]) \<longleftrightarrow> (\<exists>g. hex_group g \<and> u = 58 # g)" for u
    unfolding in_colon lang_rseq_1 group_rx_correct by auto
  then show ?thesis
    unfolding colon_groups_def after_colons_def by (subst in_rrep_image) (auto simp: list_all_iff)
qed

lemma in_v6_colons:
  "w \<in> lang i (v6_colons k) \<longleftrightarrow> (\<exists>gs. length gs = k \<and> list_all hex_group gs \<and> w = before_colons gs)"
proof -
  have "u \<in> lang i (rseq [group_rx, rlit '':'']) \<longleftrightarrow> (\<exists>g. hex_group g \<and> u = g @ [58])" for u
    unfolding in_rseq_Cons [of _ _ group_rx] lang_rseq_1 in_colon group_rx_correct by auto
  then show ?thesis
    unfolding v6_colons_def before_colons_def
    by (subst in_rrep_image) (auto simp: list_all_iff)
qed

lemma v4_rx_tail: "w \<in> lang i v4_rx \<longleftrightarrow> v4_tail [w]"
  by (simp add: v4_rx_correct v4_tail_def)

text \<open>What may follow the first \<open>k\<close> words and their colons: a second colon, at most \<open>7 - k\<close> words.\<close>

definition v6_rest :: "nat \<Rightarrow> units \<Rightarrow> bool" where
  "v6_rest k w \<longleftrightarrow> (\<exists>r q. list_all hex_group r \<and> v4_tail q \<and> k + length r + 2 * length q \<le> 7 \<and> w = 58 # join_colons (r @ q))"

lemma v4_tail_cases: "v4_tail q \<longleftrightarrow> q = [] \<or> (\<exists>v. q = [v] \<and> v4_tail [v])"
  by (simp add: v4_tail_def) blast

lemma v6_rest_cases:
  "v6_rest k w \<longleftrightarrow>
     (\<exists>r v. list_all hex_group r \<and> v4_tail [v] \<and> k + length r \<le> 5 \<and> w = after_colons r @ 58 # v)
   \<or> (\<exists>r. list_all hex_group r \<and> r \<noteq> [] \<and> k + length r \<le> 7 \<and> w = after_colons r)
   \<or> k \<le> 7 \<and> w = [58]" (is "_ \<longleftrightarrow> ?A \<or> ?B \<or> ?C")
proof
  assume "v6_rest k w"
  then obtain r q where r: "list_all hex_group r" "v4_tail q" "k + length r + 2 * length q \<le> 7" "w = 58 # join_colons (r @ q)"
    unfolding v6_rest_def by blast
  consider "q = []" "r = []" | "q = []" "r \<noteq> []" | v where "q = [v]" "v4_tail [v]" using r(2) v4_tail_cases by blast
  then show "?A \<or> ?B \<or> ?C"
  proof cases
    case 1
    then show ?thesis using r by simp
  next
    case 2
    then have "w = after_colons r" using r by (simp add: join_after)
    then have ?B using 2 r by auto
    then show ?thesis by blast
  next
    case 3
    then have "w = after_colons (r @ [v])" using r join_after [of "r @ [v]"] by simp
    then have ?A using 3 r by auto
    then show ?thesis by blast
  qed
next
  assume "?A \<or> ?B \<or> ?C"
  then show "v6_rest k w"
  proof (elim disjE exE conjE)
    fix r v
    assume "list_all hex_group r" "v4_tail [v]" "k + length r \<le> 5" "w = after_colons r @ 58 # v"
    then show ?thesis unfolding v6_rest_def
      using join_after [of "r @ [v]"] by (intro exI[of _ r] exI[of _ "[v]"]) simp
  next
    fix r
    assume "list_all hex_group r" "r \<noteq> []" "k + length r \<le> 7" "w = after_colons r"
    then show ?thesis unfolding v6_rest_def
      using join_after [of r] by (intro exI[of _ r] exI[of _ "[]"]) (simp add: v4_tail_def)
  next
    assume "k \<le> 7" "w = [58]"
    then show ?thesis unfolding v6_rest_def by (intro exI[of _ "[]"] exI[of _ "[]"]) (simp add: v4_tail_def)
  qed
qed

lemma in_v6_tail:
  assumes "k \<le> 5" and "a = 5 - k" and "b = 7 - k"
  shows "w \<in> lang i (ralt [rseq [colon_groups 0 a, rlit '':'', v4_rx], colon_groups 1 b, rlit '':'']) \<longleftrightarrow> v6_rest k w"
proof -
  have eq: "k + n \<le> 5 \<longleftrightarrow> n \<le> a" for n using assms by auto
  have "w \<in> lang i (rseq [colon_groups 0 a, rlit '':'', v4_rx]) \<longleftrightarrow>
      (\<exists>r v. list_all hex_group r \<and> v4_tail [v] \<and> k + length r \<le> 5 \<and> w = after_colons r @ 58 # v)"
    unfolding in_rseq_Cons [of _ _ "colon_groups 0 a"] in_colon in_colon_groups lang_rseq_1 v4_rx_tail
    using eq by (simp, blast)
  moreover have "w \<in> lang i (colon_groups 1 b) \<longleftrightarrow> (\<exists>r. list_all hex_group r \<and> r \<noteq> [] \<and> k + length r \<le> 7 \<and> w = after_colons r)"
    unfolding in_colon_groups using assms by (auto simp: Suc_le_eq)
  moreover have "w \<in> lang i (rlit '':'') \<longleftrightarrow> k \<le> 7 \<and> w = [58]"
    unfolding in_colon using assms by simp
  ultimately show ?thesis
    unfolding v6_rest_cases in_ralt by simp
qed

lemma in_v6_seg:
  assumes "1 \<le> k" and "k \<le> 5" and "a = 5 - k" and "b = 7 - k"
  shows "w \<in> lang i (rseq [v6_colons k, ralt [rseq [colon_groups 0 a, rlit '':'', v4_rx], colon_groups 1 b, rlit '':'']])
    \<longleftrightarrow> (\<exists>l t. length l = k \<and> list_all hex_group l \<and> v6_rest k t \<and> w = before_colons l @ t)"
  unfolding in_rseq_Cons [of _ _ "v6_colons k"] lang_rseq_1 in_v6_colons in_v6_tail [OF assms(2-)] by blast

lemma in_v6_seg5:
  "w \<in> lang i v6_seg5 \<longleftrightarrow> (\<exists>l t. length l = 5 \<and> list_all hex_group l \<and> v6_rest 5 t \<and> w = before_colons l @ t)"
proof -
  have "u \<in> lang i (colon_groups 0 0) \<longleftrightarrow> u = []" for u unfolding in_colon_groups by auto
  then have "u \<in> lang i (rseq [colon_groups 0 0, rlit '':'', v4_rx]) \<longleftrightarrow> u \<in> lang i (rseq [rlit '':'', v4_rx])" for u
    unfolding in_rseq_Cons [of _ _ "colon_groups 0 0"] by simp
  then have "u \<in> lang i (ralt [rseq [rlit '':'', v4_rx], colon_groups 1 2, rlit '':'']) \<longleftrightarrow> v6_rest 5 u" for u
    using in_v6_tail [of 5 0 2 u i] unfolding in_ralt by simp
  then show ?thesis
    unfolding v6_seg5_def in_rseq_Cons [of _ _ "v6_colons 5"] lang_rseq_1 in_v6_colons by blast
qed

lemma in_v6_seg6:
  "w \<in> lang i v6_seg6 \<longleftrightarrow> (\<exists>l t. length l = 6 \<and> list_all hex_group l \<and> (v6_rest 6 t \<or> v4_tail [t]) \<and> w = before_colons l @ t)"
proof -
  have "u \<in> lang i (ralt [v4_rx, rseq [rlit '':'', group_rx], rlit '':'']) \<longleftrightarrow> v6_rest 6 u \<or> v4_tail [u]" for u
  proof -
    have "(\<exists>r. list_all hex_group r \<and> r \<noteq> [] \<and> 6 + length r \<le> 7 \<and> u = after_colons r) \<longleftrightarrow> (\<exists>g. hex_group g \<and> u = 58 # g)"
      by (auto simp: le_Suc_eq length_Suc_conv intro: exI[of _ "[g]" for g])
    then show ?thesis
      unfolding in_ralt v6_rest_cases set_simps bex_simps in_colon lang_rseq_1 group_rx_correct v4_rx_tail by auto
  qed
  then show ?thesis
    unfolding v6_seg6_def in_rseq_Cons [of _ _ "v6_colons 6"] lang_rseq_1 in_v6_colons by blast
qed

lemma in_v6_seg7:
  "w \<in> lang i v6_seg7 \<longleftrightarrow> (\<exists>l t. length l = 7 \<and> list_all hex_group l \<and> (v6_rest 7 t \<or> hex_group t) \<and> w = before_colons l @ t)"
proof -
  have "u \<in> lang i (ralt [group_rx, rlit '':'']) \<longleftrightarrow> v6_rest 7 u \<or> hex_group u" for u
    unfolding in_ralt v6_rest_cases set_simps bex_simps in_colon lang_rseq_1 group_rx_correct by auto
  then show ?thesis
    unfolding v6_seg7_def in_rseq_Cons [of _ _ "v6_colons 7"] lang_rseq_1 in_v6_colons by blast
qed

lemma in_v6_seg0: "w \<in> lang i v6_seg0 \<longleftrightarrow> (\<exists>t. v6_rest 0 t \<and> w = 58 # t)"
  using in_v6_tail [of 0 5 7] unfolding v6_seg0_def in_colon lang_rseq_1 by auto

lemma v6_alternatives:
  "w \<in> lang i (ralt [v6_seg7, v6_seg6, v6_seg5, v6_seg4, v6_seg3, v6_seg2, v6_seg1, v6_seg0]) \<longleftrightarrow>
     (\<exists>l t. list_all hex_group l \<and> w = before_colons l @ t \<and>
        (1 \<le> length l \<and> v6_rest (length l) t \<or> length l = 6 \<and> v4_tail [t] \<or> length l = 7 \<and> hex_group t))
   \<or> (\<exists>t. v6_rest 0 t \<and> w = 58 # t)" (is "_ \<longleftrightarrow> ?R")
proof -
  define S where "S k \<longleftrightarrow> (\<exists>l t. length l = k \<and> list_all hex_group l \<and> v6_rest k t \<and> w = before_colons l @ t)" for k
  have 5: "w \<in> lang i v6_seg5 \<longleftrightarrow> S 5" unfolding in_v6_seg5 S_def ..
  have 4: "w \<in> lang i v6_seg4 \<longleftrightarrow> S 4" unfolding v6_seg4_def S_def by (rule in_v6_seg) simp_all
  have 3: "w \<in> lang i v6_seg3 \<longleftrightarrow> S 3" unfolding v6_seg3_def S_def by (rule in_v6_seg) simp_all
  have 2: "w \<in> lang i v6_seg2 \<longleftrightarrow> S 2" unfolding v6_seg2_def S_def by (rule in_v6_seg) simp_all
  have 1: "w \<in> lang i v6_seg1 \<longleftrightarrow> S 1" unfolding v6_seg1_def S_def by (rule in_v6_seg) simp_all
  have le7: "v6_rest k t \<Longrightarrow> k \<le> 7" for k t by (auto simp: v6_rest_def)
  have k: "1 \<le> k \<Longrightarrow> v6_rest k t \<Longrightarrow> k = 1 \<or> k = 2 \<or> k = 3 \<or> k = 4 \<or> k = 5 \<or> k = 6 \<or> k = 7" for k t
    using le7 [of k t] by arith
  show ?thesis
  proof
    assume "w \<in> lang i (ralt [v6_seg7, v6_seg6, v6_seg5, v6_seg4, v6_seg3, v6_seg2, v6_seg1, v6_seg0])"
    then have "w \<in> lang i v6_seg7 \<or> w \<in> lang i v6_seg6 \<or> S 5 \<or> S 4 \<or> S 3 \<or> S 2 \<or> S 1 \<or> w \<in> lang i v6_seg0"
      unfolding in_ralt set_simps bex_simps 1 2 3 4 5 by blast
    moreover have "S k \<Longrightarrow> 1 \<le> k \<Longrightarrow> ?R" for k unfolding S_def by auto
    moreover have "w \<in> lang i v6_seg7 \<Longrightarrow> ?R" unfolding in_v6_seg7 by fastforce
    moreover have "w \<in> lang i v6_seg6 \<Longrightarrow> ?R" unfolding in_v6_seg6 by fastforce
    moreover have "w \<in> lang i v6_seg0 \<Longrightarrow> ?R" unfolding in_v6_seg0 by blast
    ultimately show ?R by (elim disjE) simp_all
  next
    assume ?R
    then have "w \<in> lang i v6_seg7 \<or> w \<in> lang i v6_seg6 \<or> S 5 \<or> S 4 \<or> S 3 \<or> S 2 \<or> S 1 \<or> w \<in> lang i v6_seg0"
    proof (elim disjE exE conjE)
      fix l t
      assume a: "list_all hex_group l" "w = before_colons l @ t" "1 \<le> length l" "v6_rest (length l) t"
      then have "S (length l)" unfolding S_def by blast
      then show ?thesis using a k [OF a(3,4)] unfolding in_v6_seg7 in_v6_seg6 by metis
    next
      fix l t
      assume "list_all hex_group l" "w = before_colons l @ t" "length l = 6" "v4_tail [t]"
      then show ?thesis unfolding in_v6_seg6 by blast
    next
      fix l t
      assume "list_all hex_group l" "w = before_colons l @ t" "length l = 7" "hex_group t"
      then show ?thesis unfolding in_v6_seg7 by blast
    next
      fix t
      assume "v6_rest 0 t" "w = 58 # t"
      then show ?thesis unfolding in_v6_seg0 by blast
    qed
    then show "w \<in> lang i (ralt [v6_seg7, v6_seg6, v6_seg5, v6_seg4, v6_seg3, v6_seg2, v6_seg1, v6_seg0])"
      unfolding in_ralt set_simps bex_simps 1 2 3 4 5 by blast
  qed
qed

lemma v6_rest_join:
  "(\<exists>t. v6_rest (length l) t \<and> w = (if l = [] then [58] else before_colons l) @ t) \<longleftrightarrow>
    (\<exists>r q. list_all hex_group r \<and> v4_tail q \<and> length l + length r + 2 * length q \<le> 7 \<and>
       w = join_colons l @ [58, 58] @ join_colons (r @ q))"
proof -
  have "(if l = [] then [58] else before_colons l) @ 58 # x = join_colons l @ [58, 58] @ x" for x
  proof (cases "l = []")
    case False
    then have "before_colons l @ [58] = join_colons l @ [58, 58]" using before_after [of l] by simp
    then have "(before_colons l @ [58]) @ x = (join_colons l @ [58, 58]) @ x" by (rule arg_cong)
    then show ?thesis using False by simp
  qed simp
  then show ?thesis unfolding v6_rest_def by (auto; metis)
qed

lemma v6_rx_address:
  "w \<in> lang i (ralt [v6_seg7, v6_seg6, v6_seg5, v6_seg4, v6_seg3, v6_seg2, v6_seg1, v6_seg0]) \<longleftrightarrow> v6_address w"
proof
  assume "w \<in> lang i (ralt [v6_seg7, v6_seg6, v6_seg5, v6_seg4, v6_seg3, v6_seg2, v6_seg1, v6_seg0])"
  then consider (short) l t where "list_all hex_group l" "v6_rest (length l) t" "w = (if l = [] then [58] else before_colons l) @ t"
    | (six) l t where "list_all hex_group l" "length l = 6" "v4_tail [t]" "w = before_colons l @ t"
    | (seven) l t where "list_all hex_group l" "length l = 7" "hex_group t" "w = before_colons l @ t"
    unfolding v6_alternatives
  proof (elim disjE exE conjE)
    fix l t
    assume "list_all hex_group l" "w = before_colons l @ t" "1 \<le> length l" "v6_rest (length l) t"
    then show thesis by (intro that(1) [of l t]) auto
  next
    fix l t
    assume "list_all hex_group l" "w = before_colons l @ t" "length l = 6" "v4_tail [t]"
    then show thesis by (intro that(2))
  next
    fix l t
    assume "list_all hex_group l" "w = before_colons l @ t" "length l = 7" "hex_group t"
    then show thesis by (intro that(3))
  next
    fix t
    assume "v6_rest 0 t" "w = 58 # t"
    then show thesis by (intro that(1) [of "[]" t]) simp_all
  qed
  then show "v6_address w"
  proof cases
    case short
    then obtain r q where "list_all hex_group r" "v4_tail q" "length l + length r + 2 * length q \<le> 7"
      "w = join_colons l @ [58, 58] @ join_colons (r @ q)"
      using v6_rest_join [of l w] by blast
    then show ?thesis using short unfolding v6_address_def
      by (intro exI[of _ l] exI[of _ r] exI[of _ q]) simp
  next
    case six
    then have "w = join_colons (l @ [t])" using before_join [of "[t]" l] by simp
    then show ?thesis using six unfolding v6_address_def
      by (intro exI[of _ l] exI[of _ "[]"] exI[of _ "[t]"]) simp
  next
    case seven
    then have "w = join_colons (l @ [t])" using before_join [of "[t]" l] by simp
    then show ?thesis using seven unfolding v6_address_def
      by (intro exI[of _ "l @ [t]"] exI[of _ "[]"]) (simp add: v4_tail_def)
  qed
next
  assume "v6_address w"
  then obtain l r q where a: "list_all hex_group (l @ r)" "v4_tail q"
    and c: "r = [] \<and> length l + 2 * length q = 8 \<and> w = join_colons (l @ q)
      \<or> length l + length r + 2 * length q \<le> 7 \<and> w = join_colons l @ [58, 58] @ join_colons (r @ q)"
    unfolding v6_address_def by blast
  from a(2) consider "q = []" | v where "q = [v]" "v4_tail [v]" using v4_tail_cases by blast
  note q = this
  from c show "w \<in> lang i (ralt [v6_seg7, v6_seg6, v6_seg5, v6_seg4, v6_seg3, v6_seg2, v6_seg1, v6_seg0])"
  proof
    assume f: "r = [] \<and> length l + 2 * length q = 8 \<and> w = join_colons (l @ q)"
    from q show ?thesis
    proof cases
      case 1
      then have "length l = Suc 7" using f by simp
      then obtain l' g where l: "l = l' @ [g]" "length l' = 7" by (metis length_Suc_conv_rev)
      then have "w = before_colons l' @ g" using f 1 before_join [of "[g]" l'] by simp
      then show ?thesis using l a unfolding v6_alternatives by (intro disjI1 exI[of _ l'] exI[of _ g]) simp
    next
      case 2
      then have "w = before_colons l @ v" using f before_join [of "[v]" l] by simp
      then show ?thesis using f 2 a unfolding v6_alternatives by (intro disjI1 exI[of _ l] exI[of _ v]) simp
    qed
  next
    assume f: "length l + length r + 2 * length q \<le> 7 \<and> w = join_colons l @ [58, 58] @ join_colons (r @ q)"
    then obtain t where t: "v6_rest (length l) t" "w = (if l = [] then [58] else before_colons l) @ t"
      using v6_rest_join [of l w] a by auto
    show ?thesis
    proof (cases "l = []")
      case True
      then show ?thesis using t unfolding v6_alternatives by auto
    next
      case False
      then have "1 \<le> length l" by (cases l) auto
      then show ?thesis using t False a unfolding v6_alternatives by (intro disjI1 exI[of _ l] exI[of _ t]) simp
    qed
  qed
qed

lemma zone_rx_correct:
  "w \<in> lang i zone_rx \<longleftrightarrow> w = [] \<or> (\<exists>z. w = 37 # z \<and> z \<noteq> [] \<and> list_all (in_ranges [(48, 57), (97, 122), (65, 90)]) z)"
proof -
  have h: "has_unit i [(48, 57), (97, 122), (65, 90)] c \<longleftrightarrow> in_ranges [(48, 57), (97, 122), (65, 90)] c" for c
    by (auto simp: has_unit_def swap_case_def split: if_splits)
  have p: "\<forall>c\<in>set ''%''. of_char c < (65 :: nat)" by simp
  show ?thesis
    unfolding zone_rx_def in_ropt in_rseq_rlit [OF p] lang_rseq_1 in_rrep_units [OF in_rset] h
    by (auto simp: list_all_iff Suc_le_eq)
qed

lemma v6_rx_correct:
  "w \<in> lang i v6_rx \<longleftrightarrow> (\<exists>u z. w = u @ z \<and> v6_address u \<and>
     (z = [] \<or> (\<exists>y. z = 37 # y \<and> y \<noteq> [] \<and> list_all (in_ranges [(48, 57), (97, 122), (65, 90)]) y)))"
  unfolding v6_rx_def in_rseq_Cons [of _ _ "ralt _"] lang_rseq_1 v6_rx_address zone_rx_correct by blast

section \<open>URLs\<close>

text \<open>Expressions none of whose words holds a given code unit.\<close>

primrec avoids :: "bool \<Rightarrow> nat \<Rightarrow> rx \<Rightarrow> bool" where
  "avoids i c REps \<longleftrightarrow> True"
| "avoids i c (RSet rs) \<longleftrightarrow> \<not> has_unit i rs c"
| "avoids i c (RNot rs) \<longleftrightarrow> has_unit i rs c"
| "avoids i c (RSeq r s) \<longleftrightarrow> avoids i c r \<and> avoids i c s"
| "avoids i c (RAlt r s) \<longleftrightarrow> avoids i c r \<and> avoids i c s"
| "avoids i c (RRep r lo hi) \<longleftrightarrow> avoids i c r"

lemma avoids_sound: "avoids i c r \<Longrightarrow> w \<in> lang i r \<Longrightarrow> c \<notin> set w"
proof (induction r arbitrary: w)
  case (RRep r lo hi)
  then obtain us where "set us \<subseteq> lang i r" "w = concat us" unfolding in_rrep by blast
  then show ?case using RRep by auto
qed (auto simp: concs_iff)

lemma avoids_rseq [simp]: "avoids i c (rseq l) \<longleftrightarrow> list_all (avoids i c) l"
  by (induction l rule: rseq.induct) auto

lemma avoids_ralt [simp]: "avoids i c (ralt l) \<longleftrightarrow> list_all (avoids i c) l"
  by (induction l rule: ralt.induct) (auto simp: has_unit_def)

lemma avoids_rlit [simp]: "avoids i c (rlit s) \<longleftrightarrow> (\<forall>d\<in>set s. \<not> has_unit i [(of_char d, of_char d)] c)"
  by (induction s) (auto simp: rlit_def)

lemma in_ranges_append [simp]: "in_ranges (rs @ ss) c \<longleftrightarrow> in_ranges rs c \<or> in_ranges ss c"
  by (auto simp: in_ranges_def)

lemma url_rx_no_space:
  assumes "c = 32 \<or> 9 \<le> c \<and> c \<le> 13"
  shows "avoids True c url_rx"
proof -
  have c: "c \<le> 32" and sw: "swap_case c = c" using assms by (auto simp: swap_case_def)
  have sp: "has_unit True (space_set @ rs) c" "has_unit True space_set c" for rs
    using assms by (auto simp: has_unit_def space_set_def)
  have no: "list_all (\<lambda>p. 32 < fst p) rs \<Longrightarrow> \<not> has_unit True rs c" for rs
    using c by (auto simp: has_unit_def in_ranges_def sw list_all_iff)
  have lit: "list_all (\<lambda>d. 32 < (of_char d :: nat)) s \<Longrightarrow> avoids True c (rlit s)" for s
    by (auto simp: list_all_iff intro!: no)
  note [simp] = lit no sp
  note [simp del] = avoids_rlit has_unit_colon
  have o: "avoids True c octet_rx" "avoids True c group_rx" "avoids True c zone_rx"
    unfolding octet_rx_def group_rx_def zone_rx_def hex_set_def digit_set_def by simp_all
  then have v4: "avoids True c v4_rx" unfolding v4_rx_def by simp
  have cg: "avoids True c (v6_colons k)" "avoids True c (colon_groups k l)" for k l
    using o unfolding v6_colons_def colon_groups_def by simp_all
  have "avoids True c v6_rx"
    using o v4 cg
    unfolding v6_rx_def v6_seg7_def v6_seg6_def v6_seg5_def v6_seg4_def v6_seg3_def v6_seg2_def v6_seg1_def v6_seg0_def
    by simp
  moreover have "avoids True c protocol_rx" "avoids True c auth_rx" "avoids True c host_rx" "avoids True c domain_rx"
    "avoids True c tld_rx" "avoids True c port_rx" "avoids True c path_rx"
    unfolding protocol_rx_def auth_rx_def host_rx_def domain_rx_def tld_rx_def port_rx_def path_rx_def alnum_set_def digit_set_def
    by simp_all
  ultimately show ?thesis
    using v4 unfolding url_rx_def by simp
qed

definition is_letter_unit :: "nat \<Rightarrow> bool" where
  "is_letter_unit c \<longleftrightarrow> 65 \<le> c \<and> c \<le> 90 \<or> 97 \<le> c \<and> c \<le> 122"

lemma has_unit_letters: "has_unit True [(97, 122)] c \<longleftrightarrow> is_letter_unit c"
  by (auto simp: has_unit_def swap_case_def is_letter_unit_def)

text \<open>What an accepted URL begins with: a scheme and two slashes, two slashes, or www and a dot in any case.\<close>

definition url_start :: "units \<Rightarrow> bool" where
  "url_start p \<longleftrightarrow> p = units ''//''
     \<or> (\<exists>l. l \<noteq> [] \<and> list_all is_letter_unit l \<and> p = l @ units ''://'')
     \<or> (\<exists>a b c. {a, b, c} \<subseteq> {87, 119} \<and> p = [a, b, c, 46])"

lemma protocol_rx_correct:
  "w \<in> lang True protocol_rx \<longleftrightarrow> w = units ''//'' \<or> (\<exists>l. l \<noteq> [] \<and> list_all is_letter_unit l \<and> w = l @ units ''://'')"
proof -
  have p: "\<forall>c\<in>set ''//''. of_char c < (65 :: nat)" by simp
  have letters: "u \<in> lang True (rplus (RSet [(97, 122)])) \<longleftrightarrow> u \<noteq> [] \<and> list_all is_letter_unit u" for u
    unfolding in_rrep_units [OF in_rset] has_unit_letters by (cases u) (simp_all add: list_all_iff)
  have "u \<in> lang True (rseq [rplus (RSet [(97, 122)]), rlit '':'']) \<longleftrightarrow> (\<exists>l. l \<noteq> [] \<and> list_all is_letter_unit l \<and> u = l @ [58])" for u
    unfolding in_rseq_Cons [of _ _ "rplus _"] lang_rseq_1 in_colon letters by auto
  then have opt: "u \<in> lang True (ropt (rseq [rplus (RSet [(97, 122)]), rlit '':''])) \<longleftrightarrow>
      u = [] \<or> (\<exists>l. l \<noteq> [] \<and> list_all is_letter_unit l \<and> u = l @ [58])" for u
    unfolding in_ropt by (rule arg_cong2 [of _ _ _ _ "(\<or>)", OF refl])
  have "units ''://'' = [58] @ units ''//''" by simp
  then show ?thesis
    unfolding protocol_rx_def in_rseq_Cons [of _ _ "ropt _"] lang_rseq_1 in_rlit_plain [OF p] opt
    by (metis append.assoc append_Nil)
qed

lemma www_rx_correct:
  "w \<in> lang True (rlit ''www.'') \<longleftrightarrow> (\<exists>a b c. {a, b, c} \<subseteq> {87, 119} \<and> w = [a, b, c, 46])"
proof -
  have 1: "has_unit True [(119, 119)] c \<longleftrightarrow> c = 87 \<or> c = 119" for c
    by (auto simp: has_unit_def swap_case_def)
  show ?thesis unfolding in_rlit_Cons in_rlit_Nil by (auto simp: 1)
qed

lemma start_rx_correct: "w \<in> lang True (ralt [protocol_rx, rlit ''www.'']) \<longleftrightarrow> url_start w"
  unfolding in_ralt url_start_def by (simp add: protocol_rx_correct www_rx_correct del: lang.simps)

lemma port_rx_correct:
  "w \<in> lang True port_rx \<longleftrightarrow> w = [] \<or> (\<exists>d. w = 58 # d \<and> 2 \<le> length d \<and> length d \<le> 5 \<and> list_all (in_ranges digit_set) d)"
  unfolding port_rx_def in_ropt in_colon lang_rseq_1 in_rrep_units [OF in_rset]
  by (auto simp: list_all_iff digit_set_def has_unit_digits)

definition url_char :: "nat \<Rightarrow> bool" where
  "url_char c \<longleftrightarrow> \<not> in_ranges space_set c \<and> c \<noteq> 34"

lemma has_unit_url_char: "has_unit True (space_set @ [(34, 34)]) c \<longleftrightarrow> \<not> url_char c"
proof -
  have "in_ranges (space_set @ [(34, 34)]) (swap_case c) \<Longrightarrow> swap_case c = c"
    by (rule ccontr) (auto simp: swap_case_def space_set_def split: if_splits)
  then show ?thesis by (auto simp: has_unit_def url_char_def)
qed

lemma path_rx_correct:
  "w \<in> lang True path_rx \<longleftrightarrow> w = [] \<or> (\<exists>c t. w = c # t \<and> c \<in> {47, 63, 35} \<and> list_all url_char t)"
proof -
  have 1: "has_unit True [(47, 47), (63, 63), (35, 35)] c \<longleftrightarrow> c \<in> {47, 63, 35}" for c
    by (auto simp: has_unit_def swap_case_def split: if_splits)
  show ?thesis
    unfolding path_rx_def in_ropt in_rseq_RSet lang_rseq_1 in_rrep_units [OF in_rnot] has_unit_url_char 1
    by (auto simp: list_all_iff)
qed

lemma auth_rx_none: "[] \<in> lang True auth_rx"
  unfolding auth_rx_def in_ropt by simp

lemma url_rx_parts:
  assumes "url_start p" and "h \<in> lang True (ralt [rlit ''localhost'', v4_rx, v6_rx, rseq [host_rx, domain_rx, tld_rx]])"
    and "k \<in> lang True port_rx" and "q \<in> lang True path_rx"
  shows "p @ h @ k @ q \<in> lang True url_rx"
proof -
  have "k @ q \<in> lang True (rseq [port_rx, path_rx])"
    unfolding in_rseq_Cons [of _ _ port_rx] lang_rseq_1 using assms(3,4) by blast
  then have "h @ k @ q \<in> lang True (rseq [ralt [rlit ''localhost'', v4_rx, v6_rx, rseq [host_rx, domain_rx, tld_rx]], port_rx, path_rx])"
    unfolding in_rseq_Cons [of _ _ "ralt _"] using assms(2) by blast
  then have "[] @ h @ k @ q \<in> lang True (rseq [auth_rx, ralt [rlit ''localhost'', v4_rx, v6_rx, rseq [host_rx, domain_rx, tld_rx]], port_rx, path_rx])"
    unfolding in_rseq_Cons [of _ _ auth_rx] using auth_rx_none by blast
  then show ?thesis
    unfolding url_rx_def in_rseq_Cons [of _ _ "ralt [protocol_rx, rlit ''www.'']"] start_rx_correct using assms(1) by auto
qed

lemma url_rx_start: "w \<in> lang True url_rx \<Longrightarrow> \<exists>p t. url_start p \<and> w = p @ t"
  unfolding url_rx_def in_rseq_Cons [of _ _ "ralt [protocol_rx, rlit ''www.'']"] start_rx_correct by blast

section \<open>Properties\<close>

lemma units_inj: "units s = units t \<longleftrightarrow> s = t"
proof -
  have "inj (of_char :: char \<Rightarrow> nat)" by (rule inj_of_char)
  then show ?thesis unfolding units_def by (simp add: inj_map_eq_map)
qed

text \<open>
  C28: The console's IPv4 expression and the server's address printer agree: for every text, with or
  without the flag i, the expression matches the whole text exactly when the text is the dotted form
  that \<open>IPUtil.int2ip\<close> gives some 32-bit number; the text is then an IPv4 address for the
  server, and \<open>ip2long\<close> reads that number from it. The server's own pattern accepts more:
  octets with leading zeros.
\<close>

theorem web_v4_is_int2ip:
  "(full_match i v4_rx (units s) \<longleftrightarrow> (\<exists>n. unat n < 2 ^ 32 \<and> s = int2ip n \<and> isIPv4 s \<and> ip2long s = Inr n))
   \<and> isIPv4 ''010.1.1.1'' \<and> \<not> full_match i v4_rx (units ''010.1.1.1'')"
proof -
  have m: "full_match i v4_rx (units s) \<longleftrightarrow> (\<exists>a b c d. a < 256 \<and> b < 256 \<and> c < 256 \<and> d < 256 \<and> s = quad_str a b c d)" for s
    unfolding full_match_lang v4_rx_correct units_inj ..
  have "full_match i v4_rx (units s) \<longleftrightarrow> (\<exists>n. unat n < 2 ^ 32 \<and> s = int2ip n \<and> isIPv4 s \<and> ip2long s = Inr n)"
  proof
    assume "full_match i v4_rx (units s)"
    then obtain a b c d where q: "a < 256" "b < 256" "c < 256" "d < 256" "s = quad_str a b c d" unfolding m by blast
    then have l: "quad_nat a b c d < 2 ^ 32" by (intro quad_nat_bound)
    then have "unat (of_nat (quad_nat a b c d) :: jlong) = quad_nat a b c d" by (simp add: unat_of_nat)
    moreover have s: "s = int2ip (of_nat (quad_nat a b c d))" using q by (simp add: int2ip_quad_nat)
    moreover have "ip2long s = Inr (of_nat (quad_nat a b c d))"
      unfolding s ip2long_int2ip using l by (simp add: take_bit_of_nat_small)
    ultimately show "\<exists>n. unat n < 2 ^ 32 \<and> s = int2ip n \<and> isIPv4 s \<and> ip2long s = Inr n"
      using l by (intro exI[of _ "of_nat (quad_nat a b c d)"]) simp
  next
    assume "\<exists>n. unat n < 2 ^ 32 \<and> s = int2ip n \<and> isIPv4 s \<and> ip2long s = Inr n"
    then show "full_match i v4_rx (units s)"
      unfolding m using int2ip_quad by (metis mod_less_divisor zero_less_numeral)
  qed
  moreover have "isIPv4 ''010.1.1.1''" by code_simp
  moreover have "\<not> full_match i v4_rx (units ''010.1.1.1'')"
  proof
    assume "full_match i v4_rx (units ''010.1.1.1'')"
    then obtain a b c d where "quad_str a b c d = ''010.1.1.1''" "a < 256" unfolding m by metis
    then have "split_all CHR ''.'' ''010.1.1.1'' = [show_nat a, show_nat b, show_nat c, show_nat d]"
      by (metis split_quad_str)
    then have a: "show_nat a = ''010''" by simp
    then have "dec_val 0 (show_nat a) = dec_val 0 ''010''" by simp
    then have "a = 10" by (simp add: digit_val_def)
    then show False using a by (simp add: show_nat.simps digit_char_def)
  qed
  ultimately show ?thesis by blast
qed

text \<open>
  C27: The console's IPv6 expression accepts exactly eight hexadecimal words of one to four digits joined
  by colons, or at most seven around one double colon, where an IPv4 address at the end counts as two
  words, followed by nothing or by a zone of letters and digits after a percent sign.
\<close>

theorem web_v6_exact:
  "full_match i v6_rx w \<longleftrightarrow>
     (\<exists>u z. w = u @ z \<and> v6_address u \<and>
        (z = [] \<or> (\<exists>y. z = 37 # y \<and> y \<noteq> [] \<and> list_all (in_ranges [(48, 57), (97, 122), (65, 90)]) y)))"
  unfolding full_match_lang by (rule v6_rx_correct)

lemma url_quad_accepted:
  assumes "url_start p" and "a < 256" "b < 256" "c < 256" "d < 256"
    and "port = [] \<or> (\<exists>ds. port = 58 # ds \<and> 2 \<le> length ds \<and> length ds \<le> 5 \<and> list_all (in_ranges digit_set) ds)"
    and "path = [] \<or> (\<exists>e t. path = e # t \<and> e \<in> {47, 63, 35} \<and> list_all url_char t)"
    and "length (p @ units (quad_str a b c d) @ port @ path) \<le> 2048"
  shows "url_ok (p @ units (quad_str a b c d) @ port @ path)"
proof -
  have "units (quad_str a b c d) \<in> lang True (ralt [rlit ''localhost'', v4_rx, v6_rx, rseq [host_rx, domain_rx, tld_rx]])"
  proof -
    have "units (quad_str a b c d) \<in> lang True v4_rx" using v4_rx_correct assms(2-5) by blast
    then show ?thesis unfolding in_ralt by (intro bexI[of _ v4_rx]) simp_all
  qed
  then have "p @ units (quad_str a b c d) @ port @ path \<in> lang True url_rx"
    using assms(1,6,7) by (intro url_rx_parts) (simp_all only: port_rx_correct path_rx_correct)
  then show "url_ok (p @ units (quad_str a b c d) @ port @ path)"
    using assms(8) by (simp add: url_ok_def full_match_lang)
qed

text \<open>The letters of a host name are all the units from 161 up: an ideographic space is one of them.\<close>

lemma url_wide_space: "url_ok (units ''//'' @ [97, 12288, 98] @ units ''.cc'')"
proof -
  have l: "has_unit True alnum_set c" if "c \<in> set [97, 12288, 98]" for c using that by (auto simp: has_unit_def alnum_set_def)
  have "[97, 12288, 98] \<in> lang True (rplus (RSet alnum_set))"
    unfolding in_rrep_units [OF in_rset] using l by simp
  moreover have "[] \<in> lang True (rstar r)" for r unfolding in_rrep by (intro exI [of _ "[]"]) simp
  moreover have "units ''.cc'' \<in> lang True tld_rx"
    unfolding tld_rx_def in_rseq_Cons [of _ _ "rlit ''.''"] lang_rseq_1 in_rrep_units [OF in_rset] in_rlit_Cons
    by (intro exI [of _ "units ''.''"] exI [of _ "units ''cc''"]) (simp add: has_unit_def)
  ultimately have "[] @ [97, 12288, 98] @ [] @ units ''.cc'' \<in> lang True (rseq [host_rx, domain_rx, tld_rx])"
    unfolding host_rx_def domain_rx_def in_rseq_Cons lang_rseq_1 by (metis append.assoc append_Nil in_rseq_Nil append_Nil2)
  then have h: "[97, 12288, 98] @ units ''.cc'' \<in> lang True (ralt [rlit ''localhost'', v4_rx, v6_rx, rseq [host_rx, domain_rx, tld_rx]])"
    unfolding in_ralt by simp
  have "url_start (units ''//'')" by (simp add: url_start_def)
  from url_rx_parts [OF this h, of "[]" "[]"] have "units ''//'' @ [97, 12288, 98] @ units ''.cc'' \<in> lang True url_rx"
    by (simp add: port_rx_correct path_rx_correct)
  then show ?thesis by (simp add: url_ok_def full_match_lang)
qed

text \<open>
  C40: The URL validator accepts a scheme (or two slashes, or www) followed by an IPv4 address, with a port
  of two to five digits or none and a path without white space and quotation marks; and every text it
  accepts has at most 2048 code units, begins in one of these ways and holds none of the white space characters
  of ASCII. (It can hold others: the letters of a host name are all the units from 161 up.)
\<close>

theorem web_url_checks:
  assumes "url_start p" and "a < 256" "b < 256" "c < 256" "d < 256"
    and "port = [] \<or> (\<exists>ds. port = 58 # ds \<and> 2 \<le> length ds \<and> length ds \<le> 5 \<and> list_all (in_ranges digit_set) ds)"
    and "path = [] \<or> (\<exists>e t. path = e # t \<and> e \<in> {47, 63, 35} \<and> list_all url_char t)"
    and "length (p @ units (quad_str a b c d) @ port @ path) \<le> 2048"
    and "url_ok w"
  shows "(url_ok (p @ units (quad_str a b c d) @ port @ path)) \<and>
     (length w \<le> 2048 \<and> (\<exists>q t. url_start q \<and> w = q @ t) \<and> (\<forall>x\<in>set w. x \<noteq> 32 \<and> \<not> (9 \<le> x \<and> x \<le> 13)))"
proof -
  have f1: "url_ok (p @ units (quad_str a b c d) @ port @ path)" by (rule url_quad_accepted [OF assms(1-8)])
  have w: "w \<in> lang True url_rx" "length w \<le> 2048" using assms(9) by (simp_all add: url_ok_def full_match_lang)
  then have "\<exists>q t. url_start q \<and> w = q @ t" by (intro url_rx_start)
  moreover have "\<forall>x\<in>set w. x \<noteq> 32 \<and> \<not> (9 \<le> x \<and> x \<le> 13)"
    using avoids_sound [OF url_rx_no_space w(1)] by blast
  ultimately have f2: "length w \<le> 2048 \<and> (\<exists>q t. url_start q \<and> w = q @ t) \<and> (\<forall>x\<in>set w. x \<noteq> 32 \<and> \<not> (9 \<le> x \<and> x \<le> 13))"
    using w(2) by blast
  show ?thesis using f1 f2 by blast
qed

lemma web_url_checks_witness:
  "url_ok (units ''http://'' @ units (quad_str 10 5 0 12) @ units '':81'' @ units ''/a'')
   \<and> (\<exists>q t. url_start q \<and> units ''//'' @ units (quad_str 10 5 0 12) = q @ t)"
proof -
  have s: "url_start (units ''http://'')" "url_start (units ''//'')"
    unfolding url_start_def by ((intro disjI2 disjI1 exI[of _ "units ''http''"], simp add: is_letter_unit_def), simp)
  have w: "url_ok (units ''//'' @ units (quad_str 10 5 0 12) @ [] @ [])"
    by (rule url_quad_accepted [OF s(2)]) (simp_all, code_simp)
  have p: "units '':81'' = [] \<or> (\<exists>ds. units '':81'' = 58 # ds \<and> 2 \<le> length ds \<and> length ds \<le> 5 \<and> list_all (in_ranges digit_set) ds)"
    by (simp add: digit_set_def)
  have q: "units ''/a'' = [] \<or> (\<exists>e t. units ''/a'' = e # t \<and> e \<in> {47, 63, 35} \<and> list_all url_char t)"
    by (simp add: url_char_def space_set_def)
  have l: "length (units ''http://'' @ units (quad_str 10 5 0 12) @ units '':81'' @ units ''/a'') \<le> 2048" by code_simp
  show ?thesis
    using web_url_checks [OF s(1) _ _ _ _ p q l w] by (simp del: units_simps)
qed

end
