(* ===== verification/WebElement.thy ===== *)
theory WebElement
  imports NetPrelude Complex_Main
begin

text \<open>
  Parts of the component library (element-plus) in the web console's bundle
  \<open>static/assets/index-ed2d0584.js\<close>: the layers of popups (\<open>useZIndex\<close>, lines 25 and 26), generated
  element ids (\<open>useId\<close>, lines 26 to 30), deprecation warnings (\<open>useDeprecated\<close>, lines 30 to 32), the
  hover zone of cascading menus (lines 35 to 38), the progress ring (lines 49 to 54), mouse wheel
  events (line 54) and the search for a mention in a text field (line 67). Numbers are unbounded
  integers or exact rationals, texts are lists of characters, \<open>window\<close> is the list of the pending
  timers.
\<close>

definition newline :: string where
  "newline = [CHR 0x0A]"

definition debugWarn :: "string \<Rightarrow> string \<Rightarrow> string" where
  "debugWarn scope msg = ''['' @ scope @ ''] '' @ msg"

section \<open>Layers of popups\<close>

text \<open>
  \<open>z_current\<close> holds the counter of every provider, \<open>z_shown\<close> the counter that all of them share.
\<close>

record zindex_state =
  z_current :: "int list"
  z_shown :: int

definition initialZIndex :: "int option \<Rightarrow> int" where
  "initialZIndex given = (case given of Some r \<Rightarrow> r | None \<Rightarrow> 2000)"

definition currentZIndex :: "int option \<Rightarrow> zindex_state \<Rightarrow> int" where
  "currentZIndex given st = initialZIndex given + z_shown st"

definition nextZIndex :: "nat \<Rightarrow> int option \<Rightarrow> zindex_state \<Rightarrow> int \<times> zindex_state" where
  "nextZIndex i given st =
     (let c = z_current st ! i + 1; st' = st\<lparr>z_current := (z_current st)[i := c], z_shown := c\<rparr>
      in (currentZIndex given st', st'))"

definition zIndex_warning :: "bool \<Rightarrow> bool \<Rightarrow> string list" where
  "zIndex_warning isClient provided =
     (if \<not> isClient \<and> \<not> provided
      then [debugWarn ''ZIndexInjection''
        (''Looks like you are using server rendering, you must provide a z-index provider to ensure the hydration process to be succeed''
         @ newline @ ''usage: app.provide(ZINDEX_INJECTION_KEY, { current: 0 })'')]
      else [])"

section \<open>Generated ids\<close>

record id_provider =
  id_prefix :: nat
  id_current :: nat

definition id_warning :: "bool \<Rightarrow> bool \<Rightarrow> string list" where
  "id_warning isClient is_default =
     (if \<not> isClient \<and> is_default
      then [debugWarn ''IdInjection''
        (''Looks like you are using server rendering, you must provide a id provider to ensure the hydration process to be succeed''
         @ newline @ ''usage: app.provide(ID_INJECTION_KEY, {'' @ newline @ ''  prefix: number,'' @ newline
         @ ''  current: number,'' @ newline @ ''})'')]
      else [])"

definition useId :: "string \<Rightarrow> string option \<Rightarrow> id_provider \<Rightarrow> string \<times> id_provider" where
  "useId ns given t =
     (case given of
        Some e \<Rightarrow> if e \<noteq> '''' then (e, t)
                  else (ns @ ''-id-'' @ show_nat (id_prefix t) @ ''-'' @ show_nat (id_current t), t\<lparr>id_current := id_current t + 1\<rparr>)
      | None \<Rightarrow> (ns @ ''-id-'' @ show_nat (id_prefix t) @ ''-'' @ show_nat (id_current t), t\<lparr>id_current := id_current t + 1\<rparr>))"

text \<open>A page that computes the ids of several elements, one after the other.\<close>

fun useIds :: "string \<Rightarrow> string option list \<Rightarrow> id_provider \<Rightarrow> string list \<times> id_provider" where
  "useIds ns [] t = ([], t)"
| "useIds ns (g # gs) t = (let (i, t') = useId ns g t; (is, t'') = useIds ns gs t' in (i # is, t''))"

section \<open>Deprecation warnings\<close>

record deprecation =
  dep_from :: string
  dep_replacement :: string
  dep_scope :: string
  dep_version :: string
  dep_ref :: string
  dep_type :: string

definition deprecated_message :: "deprecation \<Rightarrow> string" where
  "deprecated_message d = debugWarn (dep_scope d)
     (''['' @ dep_type d @ ''] '' @ dep_from d @ '' is about to be deprecated in version '' @ dep_version d
      @ '', please use '' @ dep_replacement d @ '' instead.'' @ newline
      @ ''For more detail, please visit: '' @ dep_ref d @ newline)"

text \<open>The watcher runs at once and after every change of the condition: \<open>old\<close> is its last value.\<close>

definition useDeprecated :: "deprecation \<Rightarrow> bool option \<Rightarrow> bool \<Rightarrow> string list" where
  "useDeprecated d old cond = (if old = Some cond then [] else if cond then [deprecated_message d] else [])"

fun deprecated_log :: "deprecation \<Rightarrow> bool option \<Rightarrow> bool list \<Rightarrow> string list" where
  "deprecated_log d old [] = []"
| "deprecated_log d old (c # cs) = useDeprecated d old c @ deprecated_log d (Some c) cs"

section \<open>The hover zone of a cascading menu\<close>

text \<open>
  State: the node under the pointer (\<open>activeNode\<close>), the identifier in \<open>hoverTimer\<close>, the contents of
  the \<open>svg\<close> element (\<open>None\<close> when it is not rendered), the timers the window still has to fire and the
  next timer identifier. The layout of the page and the test of DOM ancestry are parameters.
\<close>

record 'n menu_state =
  activeNode :: "'n option"
  hoverTimer :: "nat option"
  hoverZone :: "string option"
  pending :: "nat list"
  next_timer :: nat

record 'n layout =
  l_contains :: "'n \<Rightarrow> 'n \<Rightarrow> bool"
  l_left :: int
  l_offsetWidth :: int
  l_offsetHeight :: int
  l_offsetTop :: "'n \<Rightarrow> int"
  l_nodeHeight :: "'n \<Rightarrow> int"

definition upper_path :: "int \<Rightarrow> int \<Rightarrow> int \<Rightarrow> string" where
  "upper_path startX upper width =
     newline @ ''          <path style=\"pointer-events: auto;\" fill=\"transparent\" d=\"M'' @ show_int startX @ '' '' @ show_int upper
     @ '' L'' @ show_int width @ '' 0 V'' @ show_int upper @ '' Z\" />''"

definition lower_path :: "int \<Rightarrow> int \<Rightarrow> int \<Rightarrow> int \<Rightarrow> string" where
  "lower_path startX bottom width height =
     newline @ ''          <path style=\"pointer-events: auto;\" fill=\"transparent\" d=\"M'' @ show_int startX @ '' '' @ show_int bottom
     @ '' L'' @ show_int width @ '' '' @ show_int height @ '' V'' @ show_int bottom @ '' Z\" />''"

definition hover_html :: "'n layout \<Rightarrow> 'n \<Rightarrow> int \<Rightarrow> string" where
  "hover_html l r clientX =
     (let startX = clientX - l_left l; upper = l_offsetTop l r; lower = upper + l_nodeHeight l r
      in upper_path startX upper (l_offsetWidth l) @ lower_path startX lower (l_offsetWidth l) (l_offsetHeight l)
         @ newline @ ''        '')"

definition handleExpand :: "'n \<Rightarrow> 'n menu_state \<Rightarrow> 'n menu_state" where
  "handleExpand target st = st\<lparr>activeNode := Some target\<rparr>"

definition clearHoverTimer :: "'n menu_state \<Rightarrow> 'n menu_state" where
  "clearHoverTimer st =
     (case hoverTimer st of None \<Rightarrow> st
      | Some i \<Rightarrow> st\<lparr>hoverTimer := None, pending := removeAll i (pending st)\<rparr>)"

definition clearHoverZone :: "'n menu_state \<Rightarrow> 'n menu_state" where
  "clearHoverZone st =
     (case hoverZone st of None \<Rightarrow> st
      | Some _ \<Rightarrow> clearHoverTimer (st\<lparr>hoverZone := Some ''''\<rparr>))"

definition handleMouseMove :: "'n layout \<Rightarrow> bool \<Rightarrow> 'n \<Rightarrow> int \<Rightarrow> 'n menu_state \<Rightarrow> 'n menu_state" where
  "handleMouseMove l isHoverMenu target clientX st =
     (case (activeNode st, hoverZone st) of
        (Some r, Some _) \<Rightarrow>
          if \<not> isHoverMenu then st
          else if l_contains l r target
          then (clearHoverTimer st)\<lparr>hoverZone := Some (hover_html l r clientX)\<rparr>
          else (case hoverTimer st of
                  Some _ \<Rightarrow> st
                | None \<Rightarrow> st\<lparr>hoverTimer := Some (next_timer st), pending := next_timer st # pending st,
                             next_timer := next_timer st + 1\<rparr>)
      | _ \<Rightarrow> st)"

text \<open>
  What can happen to a menu: the pointer enters a node, moves, leaves the menu, a pending timer
  fires, and the renderer creates or removes the \<open>svg\<close> element. The identifiers are those the
  window gives: from 1, never reused.
\<close>

inductive menu_step :: "'n layout \<Rightarrow> 'n menu_state \<Rightarrow> 'n menu_state \<Rightarrow> bool" for l where
  expand: "menu_step l st (handleExpand n st)"
| move: "menu_step l st (handleMouseMove l isHoverMenu n x st)"
| leave: "menu_step l st (clearHoverZone st)"
| fire: "i \<in> set (pending st) \<Longrightarrow> menu_step l st (clearHoverZone (st\<lparr>pending := removeAll i (pending st)\<rparr>))"
| render: "menu_step l st (st\<lparr>hoverZone := z\<rparr>)" if "z = None \<or> hoverZone st = None \<and> z = Some ''''"

definition menu_start :: "'n menu_state" where
  "menu_start = \<lparr>activeNode = None, hoverTimer = None, hoverZone = None, pending = [], next_timer = 1\<rparr>"

inductive menu_reach :: "'n layout \<Rightarrow> 'n menu_state \<Rightarrow> bool" for l where
  start: "menu_reach l menu_start"
| step: "menu_reach l st \<Longrightarrow> menu_step l st st' \<Longrightarrow> menu_reach l st'"

section \<open>The progress ring\<close>

text \<open>
  \<open>relativeStrokeWidth\<close> in tenths of a percent, the number that \<open>toFixed(1)\<close> prints; \<open>radius\<close> is
  cut towards zero as \<open>parseInt\<close> does.
\<close>

definition relativeStrokeWidth :: "nat \<Rightarrow> nat \<Rightarrow> nat" where
  "relativeStrokeWidth strokeWidth width = (2000 * strokeWidth + width) div (2 * width)"

definition show_tenths :: "nat \<Rightarrow> string" where
  "show_tenths n = show_nat (n div 10) @ ''.'' @ show_nat (n mod 10)"

definition trunc_div :: "int \<Rightarrow> int \<Rightarrow> int" where
  "trunc_div a b = (if a < 0 then - ((- a) div b) else a div b)"

definition progress_radius :: "string \<Rightarrow> nat \<Rightarrow> nat \<Rightarrow> int" where
  "progress_radius type strokeWidth width =
     (if type = ''circle'' \<or> type = ''dashboard''
      then trunc_div (1000 - int (relativeStrokeWidth strokeWidth width)) 20 else 0)"

definition trackPath :: "string \<Rightarrow> int \<Rightarrow> string" where
  "trackPath type r =
     (let up = (if type = ''dashboard'' then '''' else ''-''); down = (if type = ''dashboard'' then ''-'' else '''')
      in newline @ ''          M 50 50''
       @ newline @ ''          m 0 '' @ up @ show_int r
       @ newline @ ''          a '' @ show_int r @ '' '' @ show_int r @ '' 0 1 1 0 '' @ down @ show_int (r * 2)
       @ newline @ ''          a '' @ show_int r @ '' '' @ show_int r @ '' 0 1 1 0 '' @ up @ show_int (r * 2)
       @ newline @ ''          '')"

text \<open>The colour of a percentage: the steps sorted by percentage, the first one above the value, else the last.\<close>

datatype color_step = ColorText string | ColorStep string rat

definition color_at :: "nat \<Rightarrow> nat \<Rightarrow> color_step \<Rightarrow> string \<times> rat" where
  "color_at len i c = (case c of ColorText s \<Rightarrow> (s, of_nat (i + 1) * (100 / of_nat len)) | ColorStep s p \<Rightarrow> (s, p))"

definition getColors :: "color_step list \<Rightarrow> (string \<times> rat) list" where
  "getColors cs = sort_key snd (map (\<lambda>i. color_at (length cs) i (cs ! i)) [0..<length cs])"

definition getCurrentColor :: "color_step list \<Rightarrow> rat \<Rightarrow> string option" where
  "getCurrentColor cs w =
     (let e = getColors cs in
      case find (\<lambda>m. snd m > w) e of
        Some m \<Rightarrow> Some (fst m)
      | None \<Rightarrow> (if e = [] then None else Some (fst (last e))))"

section \<open>Mouse wheel events\<close>

record wheel_event =
  w_detail :: "rat option"
  w_wheelDelta :: "rat option"
  w_wheelDeltaY :: "rat option"
  w_wheelDeltaX :: "rat option"
  w_horizontal :: bool
  w_deltaY :: "rat option"
  w_deltaX :: "rat option"
  w_deltaMode :: nat

record wheel_norm =
  spinX :: rat
  spinY :: rat
  pixelX :: rat
  pixelY :: rat

definition normalizeWheel :: "wheel_event \<Rightarrow> wheel_norm" where
  "normalizeWheel e =
     (let n = (case w_detail e of Some d \<Rightarrow> d | None \<Rightarrow> 0);
          n = (case w_wheelDelta e of Some d \<Rightarrow> - d / 120 | None \<Rightarrow> n);
          n = (case w_wheelDeltaY e of Some d \<Rightarrow> - d / 120 | None \<Rightarrow> n);
          t = (case w_wheelDeltaX e of Some d \<Rightarrow> - d / 120 | None \<Rightarrow> 0);
          (t, n) = (if w_horizontal e then (n, 0) else (t, n));
          l = (case w_deltaY e of Some d \<Rightarrow> d | None \<Rightarrow> n * 10);
          p = (case w_deltaX e of Some d \<Rightarrow> d | None \<Rightarrow> t * 10);
          f = (if (p \<noteq> 0 \<or> l \<noteq> 0) \<and> w_deltaMode e \<noteq> 0 then (if w_deltaMode e = 1 then 40 else 800) else 1);
          p = p * f;
          l = l * f;
          t = (if p \<noteq> 0 \<and> t = 0 then (if p < 1 then - 1 else 1) else t);
          n = (if l \<noteq> 0 \<and> n = 0 then (if l < 1 then - 1 else 1) else n)
      in \<lparr>spinX = t, spinY = n, pixelX = p, pixelY = l\<rparr>)"

section \<open>Mentions\<close>

record mention_ctx =
  m_pattern :: string
  m_start :: nat
  m_end :: nat
  m_prefix :: string
  m_prefixIndex :: nat
  m_splitIndex :: int
  m_selectionEnd :: nat

definition is_split :: "string \<Rightarrow> char \<Rightarrow> bool" where
  "is_split split c \<longleftrightarrow> [c] = split \<or> c = CHR 0x0A \<or> c = CHR 0x0D"

definition mention_at :: "string \<Rightarrow> nat \<Rightarrow> nat \<Rightarrow> int \<Rightarrow> mention_ctx" where
  "mention_at l sel u r =
     (let d = (if r = - 1 then sel else nat r) in
      \<lparr>m_pattern = take (d - (u + 1)) (drop (u + 1) l), m_start = u + 1, m_end = d, m_prefix = [l ! u],
       m_prefixIndex = u, m_splitIndex = r, m_selectionEnd = sel\<rparr>)"

text \<open>The loop from \<open>selectionEnd - 1\<close> down to 0; the argument \<open>u\<close> is the number of characters still to see.\<close>

fun mention_loop :: "string \<Rightarrow> string list \<Rightarrow> string \<Rightarrow> nat \<Rightarrow> nat \<Rightarrow> int \<Rightarrow> mention_ctx option" where
  "mention_loop l prefixes split sel 0 r = None"
| "mention_loop l prefixes split sel (Suc u) r =
     (if is_split split (l ! u) then mention_loop l prefixes split sel u (int u)
      else if [l ! u] \<in> set prefixes then Some (mention_at l sel u r)
      else mention_loop l prefixes split sel u r)"

definition getMentionCtx :: "string \<Rightarrow> nat option \<Rightarrow> string list \<Rightarrow> string \<Rightarrow> mention_ctx option" where
  "getMentionCtx l selectionEnd prefixes split =
     (case selectionEnd of None \<Rightarrow> None | Some sel \<Rightarrow> mention_loop l prefixes split sel sel (- 1))"

section \<open>Ids and layers\<close>

definition generated :: "string option \<Rightarrow> bool" where
  "generated g \<longleftrightarrow> g = None \<or> g = Some ''''"

lemma useIds_nth:
  assumes "useIds ns gs t = (ids, t')" and "k < length gs"
  shows "length ids = length gs \<and> ids ! k = (case gs ! k of Some (c # e) \<Rightarrow> c # e
           | _ \<Rightarrow> ns @ ''-id-'' @ show_nat (id_prefix t) @ ''-'' @ show_nat (id_current t + length (filter generated (take k gs))))"
  using assms
proof (induction gs arbitrary: t ids k)
  case (Cons g gs)
  obtain i t1 where u: "useId ns g t = (i, t1)" by fastforce
  obtain js where j: "useIds ns gs t1 = (js, t')" "ids = i # js"
    using Cons.prems(1) u by (auto split: prod.splits)
  have t1: "id_prefix t1 = id_prefix t" "id_current t1 = id_current t + length (filter generated [g])"
    and i: "i = (case g of Some (c # e) \<Rightarrow> c # e
         | _ \<Rightarrow> ns @ ''-id-'' @ show_nat (id_prefix t) @ ''-'' @ show_nat (id_current t))"
    using u by (auto simp: useId_def generated_def split: option.splits if_splits list.splits)
  have len: "length js = length gs"
    using Cons.IH [OF j(1)] j(1) by (cases gs) auto
  show ?case
  proof (cases k)
    case 0
    then show ?thesis using i j len by (auto split: option.splits list.splits)
  next
    case (Suc k')
    then show ?thesis using Cons.IH [OF j(1), of k'] Cons.prems(2) t1 j(2) len
      by (auto simp: generated_def add.assoc split: option.splits list.splits)
  qed
qed simp

lemma take_filter_less:
  assumes "j < k" and "j < length xs" and "P (xs ! j)"
  shows "length (filter P (take j xs)) < length (filter P (take k xs))"
proof -
  obtain m where m: "k = Suc j + m" using assms(1) less_iff_Suc_add by auto
  have "take k xs = take j xs @ [xs ! j] @ take m (drop (Suc j) xs)"
    unfolding m take_add using take_Suc_conv_app_nth [OF assms(2)] by simp
  then show ?thesis using assms(3) by simp
qed

lemma useIds_distinct:
  assumes "useIds ns gs t = (ids, t')" and "j < k" and "k < length gs" and "generated (gs ! j)" and "generated (gs ! k)"
  shows "ids ! j \<noteq> ids ! k"
proof -
  have "length (filter generated (take j gs)) < length (filter generated (take k gs))"
    using assms by (intro take_filter_less) auto
  moreover have "ids ! m = ns @ ''-id-'' @ show_nat (id_prefix t) @ ''-'' @ show_nat (id_current t + length (filter generated (take m gs)))"
    if "m < length gs" "generated (gs ! m)" for m
    using useIds_nth [OF assms(1) that(1)] that(2) by (auto simp: generated_def)
  ultimately show ?thesis using assms by (simp add: show_nat_inj)
qed

text \<open>Popups opened one after the other from one provider.\<close>

fun nextZIndexes :: "nat \<Rightarrow> nat \<Rightarrow> int option \<Rightarrow> zindex_state \<Rightarrow> int list" where
  "nextZIndexes 0 i given st = []"
| "nextZIndexes (Suc n) i given st = (let (z, st') = nextZIndex i given st in z # nextZIndexes n i given st')"

lemma nextZIndexes_upto:
  assumes "i < length (z_current st)"
  shows "nextZIndexes n i given st = map (\<lambda>k. initialZIndex given + z_current st ! i + int k + 1) [0..<n]"
  using assms
proof (induction n arbitrary: st)
  case (Suc n)
  have "map (\<lambda>k. initialZIndex given + z_current st ! i + int k + 1) [0..<Suc n]
      = (initialZIndex given + z_current st ! i + 1) # map (\<lambda>k. initialZIndex given + (z_current st ! i + 1) + int k + 1) [0..<n]"
    by (simp add: upt_conv_Cons map_Suc_upt [symmetric] del: upt_Suc)
  then show ?case using Suc by (simp add: nextZIndex_def currentZIndex_def Let_def)
qed simp

section \<open>Timers of the hover zone\<close>

definition menu_inv :: "'n menu_state \<Rightarrow> bool" where
  "menu_inv st \<longleftrightarrow> (pending st = [] \<or> (\<exists>i. hoverTimer st = Some i \<and> pending st = [i]))
     \<and> (\<forall>i. hoverTimer st = Some i \<longrightarrow> i < next_timer st)"

lemma clearHoverTimer_inv:
  assumes "menu_inv st"
  shows "menu_inv (clearHoverTimer st)" "pending (clearHoverTimer st) = []" "hoverTimer (clearHoverTimer st) = None"
  using assms by (auto simp: clearHoverTimer_def menu_inv_def split: option.splits)

lemma menu_inv_zone [simp]: "menu_inv (st\<lparr>hoverZone := z\<rparr>) \<longleftrightarrow> menu_inv st"
  by (simp add: menu_inv_def)

lemma clearHoverZone_inv:
  assumes "menu_inv st" shows "menu_inv (clearHoverZone st)"
  using assms clearHoverTimer_inv(1) [of "st\<lparr>hoverZone := z\<rparr>" for z]
  by (auto simp: clearHoverZone_def split: option.splits)

lemma menu_step_inv:
  assumes "menu_step l st st'" and "menu_inv st" shows "menu_inv st'"
  using assms
proof cases
  case (expand n)
  then show ?thesis using assms(2) by (simp add: handleExpand_def menu_inv_def)
next
  case (move isHoverMenu n x)
  then show ?thesis using assms(2) clearHoverTimer_inv [OF assms(2)]
    by (auto simp: handleMouseMove_def menu_inv_def split: option.splits)
next
  case leave
  then show ?thesis using clearHoverZone_inv [OF assms(2)] by simp
next
  case (fire i)
  have "pending st = [] \<or> removeAll i (pending st) = []" using assms(2) fire(2) by (auto simp: menu_inv_def)
  then have "menu_inv (st\<lparr>pending := removeAll i (pending st)\<rparr>)" using assms(2) by (auto simp: menu_inv_def)
  then show ?thesis using clearHoverZone_inv fire by blast
next
  case (render z)
  then show ?thesis using assms(2) by simp
qed

lemma menu_reach_inv: "menu_reach l st \<Longrightarrow> menu_inv st"
proof (induction rule: menu_reach.induct)
  case start
  then show ?case by (simp add: menu_start_def menu_inv_def)
next
  case (step st st')
  then show ?case using menu_step_inv by blast
qed

section \<open>The search for a mention\<close>

definition opens :: "string list \<Rightarrow> string \<Rightarrow> char \<Rightarrow> bool" where
  "opens prefixes split c \<longleftrightarrow> [c] \<in> set prefixes \<and> \<not> is_split split c"

text \<open>\<open>r\<close> is the first stop from position \<open>u\<close> on, or -1 when there is none before the cursor.\<close>

definition next_stop :: "string \<Rightarrow> string \<Rightarrow> nat \<Rightarrow> nat \<Rightarrow> int \<Rightarrow> bool" where
  "next_stop l split sel u r \<longleftrightarrow>
     r = - 1 \<and> (\<forall>k. u \<le> k \<and> k < sel \<longrightarrow> \<not> is_split split (l ! k))
   \<or> (\<exists>e. r = int e \<and> u \<le> e \<and> e < sel \<and> is_split split (l ! e) \<and> (\<forall>k. u \<le> k \<and> k < e \<longrightarrow> \<not> is_split split (l ! k)))"

lemma next_stop_step:
  "\<not> is_split sp (l ! u) \<Longrightarrow> next_stop l sp sel (Suc u) r \<Longrightarrow> next_stop l sp sel u r"
  unfolding next_stop_def by (elim disjE exE conjE) (metis Suc_leI le_eq_less_or_eq Suc_leD)+

lemma next_stop_here: "is_split sp (l ! u) \<Longrightarrow> u < sel \<Longrightarrow> next_stop l sp sel u (int u)"
  unfolding next_stop_def by auto

lemma mention_loop_None:
  "mention_loop l ps sp sel u r = None \<longleftrightarrow> (\<forall>k<u. \<not> opens ps sp (l ! k))"
  by (induction u arbitrary: r) (auto simp: opens_def less_Suc_eq)

lemma mention_loop_Some:
  assumes "mention_loop l ps sp sel u r = Some m" and "next_stop l sp sel u r" and "u \<le> sel"
  shows "\<exists>v r'. v < u \<and> opens ps sp (l ! v) \<and> (\<forall>k. v < k \<and> k < u \<longrightarrow> \<not> opens ps sp (l ! k))
    \<and> next_stop l sp sel (Suc v) r' \<and> m = mention_at l sel v r'"
  using assms
proof (induction u arbitrary: r)
  case (Suc u)
  show ?case
  proof (cases "\<not> is_split sp (l ! u) \<and> [l ! u] \<in> set ps")
    case True
    then have "m = mention_at l sel u r" using Suc.prems(1) by simp
    then show ?thesis using True Suc.prems(2) by (intro exI[of _ u] exI[of _ r]) (auto simp: opens_def)
  next
    case False
    then have o: "\<not> opens ps sp (l ! u)" by (auto simp: opens_def)
    obtain r1 where r1: "mention_loop l ps sp sel u r1 = Some m" "next_stop l sp sel u r1"
    proof (cases "is_split sp (l ! u)")
      case True
      then show ?thesis using Suc.prems next_stop_here [of sp l u sel] that by auto
    next
      case no: False
      then show ?thesis using Suc.prems next_stop_step [OF no] False that by auto
    qed
    show ?thesis
      using Suc.IH [OF r1] Suc.prems(3) o by (auto simp: less_Suc_eq)
  qed
qed simp

section \<open>The progress ring and its colours\<close>

lemma relativeStrokeWidth_bounds:
  assumes "0 < width" and "strokeWidth \<le> width"
  shows "relativeStrokeWidth strokeWidth width \<le> 1000"
proof -
  have "2000 * strokeWidth + width \<le> 1000 * (2 * width) + width" using assms by simp
  then have "relativeStrokeWidth strokeWidth width \<le> (1000 * (2 * width) + width) div (2 * width)"
    unfolding relativeStrokeWidth_def by (rule div_le_mono)
  also have "\<dots> = 1000" using assms(1) by (simp add: div_add1_eq)
  finally show ?thesis .
qed

lemma set_getColors: "set (getColors cs) = (\<lambda>i. color_at (length cs) i (cs ! i)) ` {0..<length cs}"
  by (simp add: getColors_def)

lemma sorted_getColors: "sorted (map snd (getColors cs))"
  by (simp add: getColors_def)

lemma find_Some_first:
  assumes "find P xs = Some x" and "sorted (map f xs)" and "\<And>y. y \<in> set xs \<Longrightarrow> P y \<longleftrightarrow> f y > w"
  shows "x \<in> set xs \<and> P x \<and> (\<forall>y\<in>set xs. P y \<longrightarrow> f x \<le> (f y :: 'a::linorder))"
  using assms by (induction xs) (auto split: if_splits)

section \<open>Properties\<close>

text \<open>
  Ids and layers of the page. When several elements take their ids from one provider, an element with
  an id of its own keeps it, and no two generated ids are equal. Popups opened one after the other from
  one provider get consecutive layers above the initial one, so each lies above all popups before it.
\<close>

theorem web_ids_and_layers:
  assumes "useIds ns gs t = (ids, t')" and "i < length (z_current st)"
  shows "(length ids = length gs) \<and>
     (k < length gs \<and> gs ! k = Some e \<and> e \<noteq> '''' \<longrightarrow> (ids ! k = e)) \<and>
     (j < k \<and> k < length gs \<and> generated (gs ! j) \<and> generated (gs ! k) \<longrightarrow> (ids ! j \<noteq> ids ! k)) \<and>
     (nextZIndexes n i given st = map (\<lambda>k. initialZIndex given + z_current st ! i + int k + 1) [0..<n]) \<and>
     (sorted_wrt (<) (nextZIndexes n i given st))"
proof -
  have f1: "length ids = length gs"
    using useIds_nth [OF assms(1)] assms(1) by (cases gs) auto
  have f2: "k < length gs \<Longrightarrow> gs ! k = Some e \<Longrightarrow> e \<noteq> '''' \<Longrightarrow> ids ! k = e"
    using useIds_nth [OF assms(1), of k] by (cases e) simp_all
  have f3: "j < k \<Longrightarrow> k < length gs \<Longrightarrow> generated (gs ! j) \<Longrightarrow> generated (gs ! k) \<Longrightarrow> ids ! j \<noteq> ids ! k"
    by (rule useIds_distinct [OF assms(1)])
  have f4: "nextZIndexes n i given st = map (\<lambda>k. initialZIndex given + z_current st ! i + int k + 1) [0..<n]"
    by (rule nextZIndexes_upto [OF assms(2)])
  then have f5: "sorted_wrt (<) (nextZIndexes n i given st)"
    by (simp add: sorted_wrt_iff_nth_less)
  show ?thesis using f1 f2 f3 f4 f5 by blast
qed

lemma web_ids_and_layers_witness:
  "fst (useIds ''el'' [None, Some ''name'', None] \<lparr>id_prefix = 7, id_current = 3\<rparr>) = [''el-id-7-3'', ''name'', ''el-id-7-4'']
   \<and> ''el-id-7-3'' \<noteq> ''el-id-7-4''
   \<and> nextZIndexes 3 0 None \<lparr>z_current = [4], z_shown = 4\<rparr> = [2005, 2006, 2007]"
proof -
  have u: "useIds ''el'' [None, Some ''name'', None] \<lparr>id_prefix = 7, id_current = 3\<rparr>
      = ([''el-id-7-3'', ''name'', ''el-id-7-4''], \<lparr>id_prefix = 7, id_current = 5\<rparr>)"
    by (simp add: useId_def show_nat.simps digit_char_def, code_simp)
  have z: "0 < length (z_current \<lparr>z_current = [4], z_shown = 4\<rparr>)" by simp
  have "[''el-id-7-3'', ''name'', ''el-id-7-4''] ! 0 \<noteq> [''el-id-7-3'', ''name'', ''el-id-7-4''] ! 2"
    using web_ids_and_layers [OF u z, where k = 2 and j = 0] by (simp add: generated_def)
  moreover have "nextZIndexes 3 0 None \<lparr>z_current = [4], z_shown = 4\<rparr> = [2005, 2006, 2007]"
    using web_ids_and_layers [OF u z, where n = 3 and given = None] by (simp add: initialZIndex_def numeral_3_eq_3)
  ultimately show ?thesis using u by simp
qed

text \<open>
  C35: The hover zone of a cascading menu, for every sequence of expansions, pointer moves, timers and
  renderings from the initial state: at most one timer is pending, and it is the one the menu remembers. A move
  over the active node of a menu whose zone is rendered draws the paths and leaves no timer, so they do not vanish;
  over any other place of it, it starts a timer if none is remembered; in a menu without hover, active
  node or zone it changes nothing. Leaving empties the zone and leaves no timer if the zone is rendered, and
  changes nothing otherwise.
\<close>

theorem web_menu_timers:
  assumes "menu_reach l st"
  shows "(length (pending st) \<le> 1 \<and> set (pending st) \<subseteq> set_option (hoverTimer st)) \<and>
     handleMouseMove l hover n x st =
       (if \<not> hover \<or> activeNode st = None \<or> hoverZone st = None then st
        else if l_contains l (the (activeNode st)) n
        then st\<lparr>hoverTimer := None, hoverZone := Some (hover_html l (the (activeNode st)) x), pending := []\<rparr>
        else if hoverTimer st = None
        then st\<lparr>hoverTimer := Some (next_timer st), pending := [next_timer st], next_timer := next_timer st + 1\<rparr>
        else st) \<and>
     clearHoverZone st = (if hoverZone st = None then st else st\<lparr>hoverTimer := None, hoverZone := Some '''', pending := []\<rparr>)"
proof -
  have inv: "menu_inv st" by (rule menu_reach_inv [OF assms])
  then have f1: "length (pending st) \<le> 1 \<and> set (pending st) \<subseteq> set_option (hoverTimer st)"
    by (auto simp: menu_inv_def)
  have clear: "clearHoverTimer st = st\<lparr>hoverTimer := None, pending := []\<rparr>" if "menu_inv st" for st :: "'a menu_state"
    using that by (cases "hoverTimer st") (auto simp: clearHoverTimer_def menu_inv_def)
  have none: "pending st = []" if "hoverTimer st = None" using inv that by (auto simp: menu_inv_def)
  show ?thesis
    using f1 clear [OF inv] clear [of "st\<lparr>hoverZone := Some ''''\<rparr>"] inv none
    by (auto simp: handleMouseMove_def clearHoverZone_def split: option.splits)
qed

lemma web_menu_timers_witness:
  "\<exists>st. menu_reach \<lparr>l_contains = (=), l_left = 10, l_offsetWidth = 180, l_offsetHeight = 200, l_offsetTop = (\<lambda>n :: nat. 34), l_nodeHeight = (\<lambda>n. 34)\<rparr> st
     \<and> hoverZone st = Some '''' \<and> pending st = [1] \<and> length (pending st) \<le> 1 \<and> set (pending st) \<subseteq> set_option (hoverTimer st)"
proof -
  define l :: "nat layout" where
    "l = \<lparr>l_contains = (=), l_left = 10, l_offsetWidth = 180, l_offsetHeight = 200, l_offsetTop = (\<lambda>n. 34), l_nodeHeight = (\<lambda>n. 34)\<rparr>"
  define st where "st = handleMouseMove l True 8 40 (handleExpand 7 (menu_start\<lparr>hoverZone := Some ''''\<rparr>))"
  have "menu_reach l (menu_start\<lparr>hoverZone := Some ''''\<rparr>)"
    by (rule menu_reach.step [OF menu_reach.start menu_step.render]) (simp add: menu_start_def)
  then have "menu_reach l (handleExpand 7 (menu_start\<lparr>hoverZone := Some ''''\<rparr>))"
    by (rule menu_reach.step [OF _ menu_step.expand])
  then have reach: "menu_reach l st"
    unfolding st_def by (rule menu_reach.step [OF _ menu_step.move])
  have "hoverZone st = Some '''' \<and> pending st = [1]"
    by (simp add: st_def l_def menu_start_def handleExpand_def handleMouseMove_def)
  then show ?thesis using reach web_menu_timers [OF reach] unfolding l_def by blast
qed

text \<open>
  The search for a mention finds the nearest character before the cursor that opens a mention (and is not
  a separator); the pattern is the text behind it up to the next separator or line end, or up to the
  cursor, and holds none; there is no result exactly when no character before the cursor opens a mention.
\<close>

theorem web_mention_correct:
  assumes "sel \<le> length l"
  shows "(getMentionCtx l (Some sel) ps sp = None \<longleftrightarrow> (\<forall>k < sel. \<not> opens ps sp (l ! k))) \<and>
     (getMentionCtx l (Some sel) ps sp = Some m \<longrightarrow> (m_prefixIndex m < m_start m \<and> m_start m \<le> m_end m \<and> m_end m \<le> sel \<and> m_prefix m = [l ! m_prefixIndex m]
      \<and> opens ps sp (l ! m_prefixIndex m) \<and> (\<forall>k. m_prefixIndex m < k \<and> k < sel \<longrightarrow> \<not> opens ps sp (l ! k))
      \<and> l = take (m_start m) l @ m_pattern m @ drop (m_end m) l \<and> list_all (\<lambda>c. \<not> is_split sp c) (m_pattern m)
      \<and> (m_end m < sel \<longrightarrow> is_split sp (l ! m_end m))))"
proof -
  have f1: "getMentionCtx l (Some sel) ps sp = None \<longleftrightarrow> (\<forall>k < sel. \<not> opens ps sp (l ! k))"
    by (simp add: getMentionCtx_def mention_loop_None)
  have f2: "m_prefixIndex m < m_start m \<and> m_start m \<le> m_end m \<and> m_end m \<le> sel \<and> m_prefix m = [l ! m_prefixIndex m]
      \<and> opens ps sp (l ! m_prefixIndex m) \<and> (\<forall>k. m_prefixIndex m < k \<and> k < sel \<longrightarrow> \<not> opens ps sp (l ! k))
      \<and> l = take (m_start m) l @ m_pattern m @ drop (m_end m) l \<and> list_all (\<lambda>c. \<not> is_split sp c) (m_pattern m)
      \<and> (m_end m < sel \<longrightarrow> is_split sp (l ! m_end m))" if g: "getMentionCtx l (Some sel) ps sp = Some m"
  proof -
  from g have "mention_loop l ps sp sel sel (- 1) = Some m" by (simp add: getMentionCtx_def)
  moreover have "next_stop l sp sel sel (- 1)" by (auto simp: next_stop_def)
  ultimately obtain v r where v: "v < sel" "opens ps sp (l ! v)" "\<forall>k. v < k \<and> k < sel \<longrightarrow> \<not> opens ps sp (l ! k)"
    and r: "next_stop l sp sel (Suc v) r" and m: "m = mention_at l sel v r"
    using mention_loop_Some [of l ps sp sel sel "- 1" m] by auto
  define e where "e = (if r = - 1 then sel else nat r)"
  have e: "Suc v \<le> e" "e \<le> sel" "\<forall>k. Suc v \<le> k \<and> k < e \<longrightarrow> \<not> is_split sp (l ! k)" "e < sel \<longrightarrow> is_split sp (l ! e)"
    using r v(1) unfolding next_stop_def e_def by auto
  have m': "m_prefixIndex m = v" "m_start m = Suc v" "m_end m = e" "m_prefix m = [l ! v]"
    "m_pattern m = take (e - Suc v) (drop (Suc v) l)"
    by (simp_all add: m mention_at_def e_def Let_def)
  have "l = take (Suc v) l @ take (e - Suc v) (drop (Suc v) l) @ drop e l"
    using e(1) by (metis append_take_drop_id drop_drop le_add_diff_inverse2)
  moreover have "list_all (\<lambda>c. \<not> is_split sp c) (take (e - Suc v) (drop (Suc v) l))"
    using e assms by (auto simp: list_all_length)
  ultimately show "m_prefixIndex m < m_start m \<and> m_start m \<le> m_end m \<and> m_end m \<le> sel \<and> m_prefix m = [l ! m_prefixIndex m]
      \<and> opens ps sp (l ! m_prefixIndex m) \<and> (\<forall>k. m_prefixIndex m < k \<and> k < sel \<longrightarrow> \<not> opens ps sp (l ! k))
      \<and> l = take (m_start m) l @ m_pattern m @ drop (m_end m) l \<and> list_all (\<lambda>c. \<not> is_split sp c) (m_pattern m)
      \<and> (m_end m < sel \<longrightarrow> is_split sp (l ! m_end m))"
    using v e unfolding m' by simp
  qed
  show ?thesis using f1 f2 by blast
qed

lemma web_mention_correct_witness:
  "\<exists>m. getMentionCtx ''ask @bob, now'' (Some 9) [''@''] '' '' = Some m \<and> m_pattern m = ''bob,''
     \<and> opens [''@''] '' '' (''ask @bob, now'' ! m_prefixIndex m)"
proof -
  have g: "getMentionCtx ''ask @bob, now'' (Some 9) [''@''] '' '' = Some (mention_at ''ask @bob, now'' 9 4 (- 1))"
    by code_simp
  have p: "m_pattern (mention_at ''ask @bob, now'' 9 4 (- 1)) = ''bob,''" by code_simp
  show ?thesis
    using web_mention_correct [where l = "''ask @bob, now''" and sel = 9 and ps = "[''@'']" and sp = "'' ''"
      and m = "mention_at ''ask @bob, now'' 9 4 (- 1)"] g p by (intro exI[of _ "mention_at ''ask @bob, now'' 9 4 (- 1)"]) simp
qed

text \<open>
  The progress ring. With a stroke no wider than the ring, the radius is between 0 and 50 and the outer
  edge of the stroke stays in the view box: radius and half the relative stroke width add up to at most 50 and to
  more than 49. The colour of a value is that of the lowest step above it, and that of a highest step when
  no step is above it.
\<close>

theorem web_progress_bounds:
  assumes "0 < width" and "strokeWidth \<le> width" and "type = ''circle'' \<or> type = ''dashboard''" and "cs \<noteq> []"
  shows "(0 \<le> progress_radius type strokeWidth width) \<and>
     (20 * progress_radius type strokeWidth width + int (relativeStrokeWidth strokeWidth width) \<le> 1000) \<and>
     (980 < 20 * progress_radius type strokeWidth width + int (relativeStrokeWidth strokeWidth width)) \<and>
     (\<exists>c p. getCurrentColor cs w = Some c \<and> (c, p) \<in> set (getColors cs) \<and>
      (if \<exists>y\<in>set (getColors cs). snd y > w then w < p \<and> (\<forall>y\<in>set (getColors cs). snd y > w \<longrightarrow> p \<le> snd y)
       else \<forall>y\<in>set (getColors cs). snd y \<le> p))"
proof -
  define n where "n = relativeStrokeWidth strokeWidth width"
  have n: "n \<le> 1000" using relativeStrokeWidth_bounds [OF assms(1,2)] by (simp add: n_def)
  then have r: "progress_radius type strokeWidth width = (1000 - int n) div 20"
    using assms(3) by (auto simp: progress_radius_def trunc_div_def n_def)
  have f123: "0 \<le> progress_radius type strokeWidth width"
    "20 * progress_radius type strokeWidth width + int (relativeStrokeWidth strokeWidth width) \<le> 1000"
    "980 < 20 * progress_radius type strokeWidth width + int (relativeStrokeWidth strokeWidth width)"
    unfolding r n_def [symmetric] using n by presburger+
  define e where "e = getColors cs"
  have e: "e \<noteq> []" using assms(4) set_getColors [of cs] by (auto simp: e_def)
  have so: "sorted (map snd e)" by (simp add: e_def sorted_getColors)
  have f4: "\<exists>c p. getCurrentColor cs w = Some c \<and> (c, p) \<in> set (getColors cs) \<and>
      (if \<exists>y\<in>set (getColors cs). snd y > w then w < p \<and> (\<forall>y\<in>set (getColors cs). snd y > w \<longrightarrow> p \<le> snd y)
       else \<forall>y\<in>set (getColors cs). snd y \<le> p)"
  proof (cases "find (\<lambda>m. snd m > w) e")
    case (Some m)
    have "m \<in> set e \<and> snd m > w \<and> (\<forall>y\<in>set e. snd y > w \<longrightarrow> snd m \<le> snd y)"
      by (rule find_Some_first [OF Some so]) simp
    then show ?thesis using Some
      by (intro exI[of _ "fst m"] exI[of _ "snd m"]) (auto simp: getCurrentColor_def e_def [symmetric] Let_def)
  next
    case None
    then have none: "\<not> (\<exists>y\<in>set e. snd y > w)" by (auto simp: find_None_iff)
    have "\<forall>y\<in>set e. snd y \<le> snd (last e)"
    proof
      fix y assume "y \<in> set e"
      then obtain k where k: "k < length e" "y = e ! k" by (auto simp: in_set_conv_nth)
      then have "map snd e ! k \<le> map snd e ! (length e - 1)" using so e by (intro sorted_nth_mono) auto
      then show "snd y \<le> snd (last e)" using k e by (simp add: last_conv_nth)
    qed
    then show ?thesis using None none e last_in_set [OF e]
      by (intro exI[of _ "fst (last e)"] exI[of _ "snd (last e)"]) (simp add: getCurrentColor_def e_def [symmetric] Let_def)
  qed
  show ?thesis using f123 f4 by blast
qed

lemma web_progress_bounds_witness:
  "progress_radius ''circle'' 6 126 = 47 \<and> relativeStrokeWidth 6 126 = 48
   \<and> 20 * progress_radius ''circle'' 6 126 + int (relativeStrokeWidth 6 126) \<le> 1000
   \<and> (\<exists>c. getCurrentColor [ColorText ''red'', ColorText ''green''] 40 = Some c)"
proof -
  have r: "progress_radius ''circle'' 6 126 = 47" "relativeStrokeWidth 6 126 = 48"
    by (simp_all add: progress_radius_def relativeStrokeWidth_def trunc_div_def)
  have b: "20 * progress_radius ''circle'' 6 126 + int (relativeStrokeWidth 6 126) \<le> 1000"
    using web_progress_bounds [of 126 6 "''circle''" "[ColorText ''red'', ColorText ''green'']"] by simp
  have "\<exists>c p. getCurrentColor [ColorText ''red'', ColorText ''green''] 40 = Some c \<and>
      (c, p) \<in> set (getColors [ColorText ''red'', ColorText ''green''])"
    using web_progress_bounds [of 126 6 "''circle''" "[ColorText ''red'', ColorText ''green'']" 40] by auto
  then show ?thesis using r b by blast
qed

end
