(* ===== verification/WebHttp.thy ===== *)
theory WebHttp
  imports JsRegex JavaMap
begin

text \<open>
  The HTTP client (axios) in the web console's bundle \<open>static/assets/index-ed2d0584.js\<close>, lines 68 to 73:
  header maps with case-insensitive names (\<open>AxiosHeaders\<close>), the parser and printer of header texts,
  joining of base URLs, the decision whether a response resolves or rejects (\<open>settle\<close>), the choice
  of the adapter (\<open>getAdapter\<close>), and the chain of interceptors of a request. An object is the list of its
  properties in insertion order (names are no array indices, and not \<open>constructor\<close> or \<open>__proto__\<close>,
  which every object has); \<open>undefined\<close>, \<open>null\<close> and \<open>false\<close> are values of their own.
\<close>

section \<open>Texts\<close>

definition js_space :: "char \<Rightarrow> bool" where
  "js_space c \<longleftrightarrow> (let n = (of_char c :: nat) in 9 \<le> n \<and> n \<le> 13 \<or> n = 32 \<or> n = 160)"

definition js_trim :: "string \<Rightarrow> string" where
  "js_trim s = rev (dropWhile js_space (rev (dropWhile js_space s)))"

definition lower_char :: "char \<Rightarrow> char" where
  "lower_char c = (let n = (of_char c :: nat) in
     if 65 \<le> n \<and> n \<le> 90 \<or> 192 \<le> n \<and> n \<le> 222 \<and> n \<noteq> 215 then char_of (n + 32) else c)"

definition js_lower :: "string \<Rightarrow> string" where
  "js_lower s = map lower_char s"

fun join_with :: "string \<Rightarrow> string list \<Rightarrow> string" where
  "join_with sep [] = ''''"
| "join_with sep [s] = s"
| "join_with sep (s # t # ss) = s @ sep @ join_with sep (t # ss)"

section \<open>Header values and maps\<close>

datatype hval = HUndef | HNull | HFalse | HTrue | HNum int | HStr string | HArr "hval list"

type_synonym headers = "(string, hval) jmap"

text \<open>\<open>String(v)\<close>, with an empty text for the elements \<open>undefined\<close> and \<open>null\<close> of arrays.\<close>

fun hval_text :: "hval \<Rightarrow> string" where
  "hval_text HUndef = ''undefined''"
| "hval_text HNull = ''null''"
| "hval_text HFalse = ''false''"
| "hval_text HTrue = ''true''"
| "hval_text (HNum n) = show_int n"
| "hval_text (HStr s) = s"
| "hval_text (HArr vs) = join_with '','' (map (\<lambda>v. if v = HUndef \<or> v = HNull then '''' else hval_text v) vs)"

fun normalizeValue :: "hval \<Rightarrow> hval" where
  "normalizeValue (HArr vs) = HArr (map normalizeValue vs)"
| "normalizeValue v = (if v = HFalse \<or> v = HNull \<or> v = HUndef then v else HStr (hval_text v))"

definition normalizeHeader :: "string \<Rightarrow> string" where
  "normalizeHeader e = js_lower (js_trim e)"

definition findKey :: "headers \<Rightarrow> string \<Rightarrow> string option" where
  "findKey h t = find (\<lambda>k. js_lower t = js_lower k) (rev (jkeys h))"

definition hprop :: "headers \<Rightarrow> string \<Rightarrow> hval" where
  "hprop h k = (case jget h k of Some v \<Rightarrow> v | None \<Rightarrow> HUndef)"

text \<open>One header; \<open>None\<close> is the error \<open>header name must be a non-empty string\<close>.\<close>

definition setHeader :: "hval \<Rightarrow> string \<Rightarrow> bool option \<Rightarrow> headers \<Rightarrow> headers option" where
  "setHeader v name rewrite h =
     (let lname = normalizeHeader name in
      if lname = '''' then None
      else let key = findKey h lname in
        Some (if key = None \<or> hprop h (the key) = HUndef \<or> rewrite = Some True
                 \<or> rewrite = None \<and> hprop h (the key) \<noteq> HFalse
              then jput (case key of Some k \<Rightarrow> k | None \<Rightarrow> name) (normalizeValue v) h else h))"

fun setHeaders :: "(string \<times> hval) list \<Rightarrow> bool option \<Rightarrow> headers \<Rightarrow> headers option" where
  "setHeaders [] rewrite h = Some h"
| "setHeaders ((k, v) # kvs) rewrite h =
     (case setHeader v k rewrite h of None \<Rightarrow> None | Some h' \<Rightarrow> setHeaders kvs rewrite h')"

definition headers_get :: "headers \<Rightarrow> string \<Rightarrow> hval" where
  "headers_get h name =
     (let t = normalizeHeader name in
      if t = '''' then HUndef else case findKey h t of None \<Rightarrow> HUndef | Some k \<Rightarrow> hprop h k)"

definition headers_has :: "headers \<Rightarrow> string \<Rightarrow> bool" where
  "headers_has h name =
     (let t = normalizeHeader name in
      t \<noteq> '''' \<and> (case findKey h t of None \<Rightarrow> False | Some k \<Rightarrow> hprop h k \<noteq> HUndef))"

definition deleteHeader :: "string \<Rightarrow> headers \<Rightarrow> bool \<times> headers" where
  "deleteHeader name h =
     (let r = normalizeHeader name in
      if r = '''' then (False, h)
      else case findKey h r of None \<Rightarrow> (False, h) | Some k \<Rightarrow> (True, jremove k h))"

fun headers_delete :: "string list \<Rightarrow> headers \<Rightarrow> bool \<times> headers" where
  "headers_delete [] h = (False, h)"
| "headers_delete (n # ns) h =
     (let (d, h') = deleteHeader n h; (d', h'') = headers_delete ns h' in (d \<or> d', h''))"

definition headers_clear :: "headers \<Rightarrow> bool \<times> headers" where
  "headers_clear h = (h \<noteq> [], [])"

text \<open>\<open>formatHeader\<close>: every run of word characters that begins with a letter or digit gets a capital.\<close>

definition word_char :: "char \<Rightarrow> bool" where
  "word_char c \<longleftrightarrow> (let n = (of_char c :: nat) in 48 \<le> n \<and> n \<le> 57 \<or> 65 \<le> n \<and> n \<le> 90 \<or> n = 95 \<or> 97 \<le> n \<and> n \<le> 122)"

definition capital :: "char \<Rightarrow> char" where
  "capital c = (let n = (of_char c :: nat) in if 97 \<le> n \<and> n \<le> 122 then char_of (n - 32) else c)"

fun format_words :: "bool \<Rightarrow> string \<Rightarrow> string" where
  "format_words in_word [] = []"
| "format_words in_word (c # s) =
     (if in_word \<and> word_char c then c # format_words True s
      else if word_char c \<and> c \<noteq> CHR ''_'' then capital c # format_words True s
      else c # format_words False s)"

definition formatHeader :: "string \<Rightarrow> string" where
  "formatHeader e = format_words False (js_lower (js_trim e))"

text \<open>
  The loop visits the names the object has at its start; \<open>seen\<close> holds the names written so far.
\<close>

fun normalize_loop :: "bool \<Rightarrow> string list \<Rightarrow> headers \<Rightarrow> headers \<Rightarrow> headers" where
  "normalize_loop fmt [] seen h = h"
| "normalize_loop fmt (a # names) seen h =
     (case findKey seen a of
        Some r \<Rightarrow> normalize_loop fmt names seen (jremove a (jput r (normalizeValue (hprop h a)) h))
      | None \<Rightarrow>
         let i = (if fmt then formatHeader a else js_trim a); l = hprop h a;
             h' = (if i \<noteq> a then jremove a h else h)
         in normalize_loop fmt names (jput i HTrue seen) (jput i (normalizeValue l) h'))"

definition headers_normalize :: "bool \<Rightarrow> headers \<Rightarrow> headers" where
  "headers_normalize fmt h = normalize_loop fmt (jkeys h) [] h"

fun is_arr :: "hval \<Rightarrow> bool" where
  "is_arr (HArr vs) \<longleftrightarrow> True"
| "is_arr v \<longleftrightarrow> False"

definition join_values :: "hval \<Rightarrow> string" where
  "join_values v = (case v of
     HArr vs \<Rightarrow> join_with '', '' (map (\<lambda>v. if v = HUndef \<or> v = HNull then '''' else hval_text v) vs)
   | _ \<Rightarrow> hval_text v)"

definition headers_toJSON :: "bool \<Rightarrow> headers \<Rightarrow> headers" where
  "headers_toJSON asStrings h =
     map (\<lambda>(k, v). (k, if asStrings \<and> is_arr v then HStr (join_values v) else v))
       (filter (\<lambda>(k, v). v \<noteq> HUndef \<and> v \<noteq> HNull \<and> v \<noteq> HFalse) h)"

definition headers_toString :: "headers \<Rightarrow> string" where
  "headers_toString h = join_with [CHR 0x0A] (map (\<lambda>(k, v). k @ '': '' @ hval_text v) (headers_toJSON False h))"

definition getSetCookie :: "headers \<Rightarrow> hval" where
  "getSetCookie h = (let v = headers_get h ''set-cookie'' in
     if v = HUndef \<or> v = HNull \<or> v = HFalse \<or> v = HNum 0 \<or> v = HStr '''' then HArr [] else v)"

section \<open>Header texts\<close>

definition ignoreDuplicateOf :: "string list" where
  "ignoreDuplicateOf = [''age'', ''authorization'', ''content-length'', ''content-type'', ''etag'', ''expires'', ''from'', ''host'',
     ''if-modified-since'', ''if-unmodified-since'', ''last-modified'', ''location'', ''max-forwards'', ''proxy-authorization'',
     ''referer'', ''retry-after'', ''user-agent'']"

text \<open>The text before and behind the first colon: \<open>substring(0, i)\<close> and \<open>substring(i + 1)\<close>, where \<open>i\<close> is -1 without one.\<close>

definition cut_colon :: "string \<Rightarrow> string \<times> string" where
  "cut_colon line = (let p = takeWhile (\<lambda>c. c \<noteq> CHR '':'') line in
     if p = line then ('''', line) else (p, drop (length p + 1) line))"

definition truthy :: "hval option \<Rightarrow> bool" where
  "truthy v \<longleftrightarrow> (case v of None \<Rightarrow> False | Some v \<Rightarrow> v \<notin> {HUndef, HNull, HFalse, HNum 0, HStr ''''})"

definition append_value :: "hval option \<Rightarrow> string \<Rightarrow> hval" where
  "append_value t val = (if truthy t then HStr (hval_text (the t) @ '', '' @ val) else HStr val)"

definition push_value :: "hval option \<Rightarrow> string \<Rightarrow> hval" where
  "push_value t val = (case t of Some (HArr vs) \<Rightarrow> HArr (vs @ [HStr val]) | _ \<Rightarrow> HArr [HStr val])"

definition parse_line :: "string \<Rightarrow> headers \<Rightarrow> headers" where
  "parse_line line t =
     (let (k, v) = cut_colon line; key = js_lower (js_trim k); val = js_trim v in
      if key = '''' \<or> truthy (jget t key) \<and> key \<in> set ignoreDuplicateOf then t
      else if key = ''set-cookie'' then jput key (push_value (jget t key) val) t
      else jput key (append_value (jget t key) val) t)"

definition parseHeaders :: "string \<Rightarrow> headers" where
  "parseHeaders text = (if text = '''' then [] else fold parse_line (split_all (CHR 0x0A) text) [])"

text \<open>\<open>set\<close> with a text: a header name with its value, or a whole header text.\<close>

definition isValidHeaderName :: "string \<Rightarrow> bool" where
  "isValidHeaderName e \<longleftrightarrow> js_trim e \<noteq> '''' \<and>
     list_all (\<lambda>c. word_char c \<or> c \<in> set ''-^`|~,!#$%&*+.'' \<or> c = CHR 0x27) (js_trim e)"

definition set_text :: "string \<Rightarrow> hval \<Rightarrow> bool option \<Rightarrow> headers \<Rightarrow> headers option" where
  "set_text t value rewrite h =
     (let t' = js_trim t in
      if t' \<noteq> '''' \<and> \<not> isValidHeaderName t'
      then setHeaders (parseHeaders t') (case value of HTrue \<Rightarrow> Some True | HUndef \<Rightarrow> None | _ \<Rightarrow> Some False) h
      else setHeader value t' rewrite h)"

section \<open>URLs\<close>

definition absolute_rx :: rx where
  "absolute_rx = rseq [ropt (rseq [RSet [(97, 122)], rstar (RSet [(97, 122), (48, 57), (43, 43), (45, 46)]), rlit '':'']), rlit ''//'']"

definition isAbsoluteURL :: "string \<Rightarrow> bool" where
  "isAbsoluteURL e \<longleftrightarrow> rests True absolute_rx (units e) \<noteq> []"

text \<open>\<open>/\/?\/$/\<close> removes up to two slashes at the end, \<open>/^\/+/\<close> all slashes at the start.\<close>

definition strip_end :: "string \<Rightarrow> string" where
  "strip_end e = (case rev e of
     c # r \<Rightarrow> if c = CHR ''/'' then (case r of d # q \<Rightarrow> if d = CHR ''/'' then rev q else rev r | [] \<Rightarrow> []) else e
   | [] \<Rightarrow> e)"

definition combineURLs :: "string \<Rightarrow> string \<Rightarrow> string" where
  "combineURLs baseURL relativeURL =
     (if relativeURL \<noteq> '''' then strip_end baseURL @ ''/'' @ dropWhile (\<lambda>c. c = CHR ''/'') relativeURL else baseURL)"

definition buildFullPath :: "string \<Rightarrow> string \<Rightarrow> bool \<Rightarrow> string" where
  "buildFullPath baseURL requestedURL allowAbsoluteUrls =
     (let isRelativeUrl = \<not> isAbsoluteURL requestedURL in
      if baseURL \<noteq> '''' \<and> (isRelativeUrl \<or> \<not> allowAbsoluteUrls) then combineURLs baseURL requestedURL else requestedURL)"

text \<open>The query text is what the serialiser made of the parameters.\<close>

definition buildURL :: "string \<Rightarrow> string \<Rightarrow> string" where
  "buildURL url serialized =
     (if serialized \<noteq> ''''
      then let u = takeWhile (\<lambda>c. c \<noteq> CHR ''#'') url in u @ (if CHR ''?'' \<in> set u then ''&'' else ''?'') @ serialized
      else url)"

section \<open>Responses\<close>

datatype error_code = ERR_BAD_REQUEST | ERR_BAD_RESPONSE

definition status_code :: "nat \<Rightarrow> error_code option" where
  "status_code s = (let i = int (s div 100) - 4 in
     if i = 0 then Some ERR_BAD_REQUEST else if i = 1 then Some ERR_BAD_RESPONSE else None)"

datatype 'r settled = Resolve 'r | Reject string "error_code option" 'r

definition settle :: "(nat \<Rightarrow> bool) option \<Rightarrow> nat \<Rightarrow> 'r \<Rightarrow> 'r settled" where
  "settle validateStatus status response =
     (if status = 0 \<or> validateStatus = None \<or> the validateStatus status then Resolve response
      else Reject (''Request failed with status code '' @ show_nat status) (status_code status) response)"

definition default_validateStatus :: "nat \<Rightarrow> bool" where
  "default_validateStatus t \<longleftrightarrow> 200 \<le> t \<and> t < 300"

section \<open>Adapters\<close>

text \<open>
  An element of \<open>config.adapter\<close>: a name, a function, or \<open>null\<close> or \<open>false\<close>. \<open>known\<close> gives for a name in lower
  case what \<open>knownAdapters\<close> holds, with \<open>get\<close> already called: \<open>None\<close> for an unknown name.
\<close>

datatype 'f adapter = AFun 'f | ANull | AFalse

datatype 'f adapter_spec = ByName string | Given "'f adapter"

datatype 'f chosen = Adapter 'f | UnknownAdapter string | NoAdapter string

definition renderReason :: "string \<Rightarrow> string" where
  "renderReason e = ''- '' @ e"

definition adapter_reason :: "string \<times> 'f adapter \<Rightarrow> string" where
  "adapter_reason r = (case r of (u, c) \<Rightarrow> ''adapter '' @ u @ '' '' @
     (case c of AFalse \<Rightarrow> ''is not supported by the environment'' | _ \<Rightarrow> ''is not available in the build''))"

definition no_adapter :: "nat \<Rightarrow> (string \<times> 'f adapter) list \<Rightarrow> string" where
  "no_adapter n a = ''There is no suitable adapter to dispatch the request '' @
     (let r = map adapter_reason a in
      if n \<noteq> 0
      then (if length r > 1 then ''since :'' @ [CHR 0x0A] @ join_with [CHR 0x0A] (map renderReason r) else '' '' @ renderReason (hd r))
      else ''as no adapter specified'')"

fun adapter_loop :: "(string \<Rightarrow> 'f adapter option) \<Rightarrow> 'f adapter_spec list \<Rightarrow> nat \<Rightarrow> nat \<Rightarrow> (string \<times> 'f adapter) list \<Rightarrow> 'f chosen" where
  "adapter_loop known [] r n a = NoAdapter (no_adapter n a)"
| "adapter_loop known (ByName s # es) r n a =
     (case known (js_lower s) of
        None \<Rightarrow> UnknownAdapter (''Unknown adapter '' @ [CHR 0x27] @ s @ [CHR 0x27])
      | Some (AFun f) \<Rightarrow> Adapter f
      | Some l \<Rightarrow> adapter_loop known es (r + 1) n (jput (if s \<noteq> '''' then s else ''#'' @ show_nat r) l a))"
| "adapter_loop known (Given (AFun f) # es) r n a = Adapter f"
| "adapter_loop known (Given l # es) r n a = adapter_loop known es (r + 1) n (jput (''#'' @ show_nat r) l a)"

definition getAdapter :: "(string \<Rightarrow> 'f adapter option) \<Rightarrow> 'f adapter_spec list \<Rightarrow> 'f chosen" where
  "getAdapter known adapters = adapter_loop known adapters 0 (length adapters) []"

section \<open>Requests\<close>

text \<open>
  \<open>request\<close> adds the place of the call to the stack of an error: \<open>stack\<close> is the error's own, \<open>here\<close>
  the captured one. \<open>/^.+\n/\<close> drops a first line that is not empty.
\<close>

definition drop_line :: "string \<Rightarrow> string" where
  "drop_line s = (let p = takeWhile (\<lambda>c. c \<noteq> CHR 0x0A) s in if p = [] \<or> p = s \<or> CHR 0x0D \<in> set p then s else drop (length p + 1) s)"

definition drop_two_lines :: "string \<Rightarrow> string" where
  "drop_two_lines s = (let t = drop_line s in if t = s \<or> drop_line t = t then s else drop_line t)"

definition ends_with :: "string \<Rightarrow> string \<Rightarrow> bool" where
  "ends_with s t \<longleftrightarrow> drop (length s - length t) s = t"

definition extend_stack :: "string \<Rightarrow> string \<Rightarrow> string" where
  "extend_stack stack here =
     (let a = (if here \<noteq> '''' then drop_line here else '''') in
      if stack \<noteq> '''' then (if a \<noteq> '''' \<and> \<not> ends_with stack (drop_two_lines a) then stack @ [CHR 0x0A] @ a else stack)
      else a)"

text \<open>
  Interceptors. A handler returns, or it throws or returns a rejected promise (\<open>Inl\<close>); a missing one
  passes on, as \<open>then(undefined, \<dots>)\<close> does. Configurations and responses are the types \<open>'c\<close> and \<open>'r\<close>;
  \<open>dispatch\<close> is \<open>dispatchRequest\<close>, which throws at once (outer \<open>Inl\<close>) or gives a promise.
\<close>

record ('c, 'e) interceptor =
  i_fulfilled :: "('c \<Rightarrow> 'e + 'c) option"
  i_rejected :: "('e \<Rightarrow> 'e + 'c) option"
  i_synchronous :: bool
  i_runWhen :: "('c \<Rightarrow> bool) option"

definition then_do :: "('a \<Rightarrow> 'e + 'a) option \<Rightarrow> ('e \<Rightarrow> 'e + 'a) option \<Rightarrow> 'e + 'a \<Rightarrow> 'e + 'a" where
  "then_do f r v = (case v of
     Inr x \<Rightarrow> (case f of None \<Rightarrow> Inr x | Some f \<Rightarrow> f x)
   | Inl e \<Rightarrow> (case r of None \<Rightarrow> Inl e | Some r \<Rightarrow> r e))"

definition active :: "'c \<Rightarrow> ('c, 'e) interceptor list \<Rightarrow> ('c, 'e) interceptor list" where
  "active n is = filter (\<lambda>h. case i_runWhen h of None \<Rightarrow> True | Some p \<Rightarrow> p n) is"

definition then_interceptor :: "('a, 'e) interceptor \<Rightarrow> 'e + 'a \<Rightarrow> 'e + 'a" where
  "then_interceptor h = then_do (i_fulfilled h) (i_rejected h)"

text \<open>
  The synchronous way, whose handlers are plain functions: one that throws ends the loop, and the last
  configuration is sent all the same.
\<close>

fun sync_requests :: "'e \<Rightarrow> ('c, 'e) interceptor list \<Rightarrow> 'c \<Rightarrow> 'e + 'c" where
  "sync_requests type_error [] p = Inr p"
| "sync_requests type_error (h # hs) p =
     (case i_fulfilled h of
        Some f \<Rightarrow> (case f p of
            Inr p' \<Rightarrow> sync_requests type_error hs p'
          | Inl g \<Rightarrow> (case i_rejected h of None \<Rightarrow> Inl type_error | Some r \<Rightarrow> (case r g of Inl e \<Rightarrow> Inl e | Inr _ \<Rightarrow> Inr p)))
      | None \<Rightarrow> (case i_rejected h of None \<Rightarrow> Inl type_error | Some r \<Rightarrow> (case r type_error of Inl e \<Rightarrow> Inl e | Inr _ \<Rightarrow> Inr p)))"

definition run_request ::
    "'e \<Rightarrow> ('c, 'e) interceptor list \<Rightarrow> ('r, 'e) interceptor list \<Rightarrow> ('c \<Rightarrow> 'e + ('e + 'r)) \<Rightarrow> 'c \<Rightarrow> 'e + 'r" where
  "run_request type_error requests responses dispatch n =
     (let reqs = rev (active n requests) in
      if list_all i_synchronous reqs
      then (case sync_requests type_error reqs n of
              Inl e \<Rightarrow> Inl e
            | Inr p \<Rightarrow> (case dispatch p of Inl m \<Rightarrow> Inl m | Inr d \<Rightarrow> fold then_interceptor responses d))
      else (case fold then_interceptor reqs (Inr n) of
              Inl e \<Rightarrow> fold then_interceptor responses (Inl e)
            | Inr p \<Rightarrow> fold then_interceptor responses (case dispatch p of Inl m \<Rightarrow> Inl m | Inr d \<Rightarrow> d)))"

section \<open>Header names ignore case and surrounding space\<close>

lemma of_char_lower_char:
  "(of_char (lower_char c) :: nat) =
     (let n = of_char c in if 65 \<le> n \<and> n \<le> 90 \<or> 192 \<le> n \<and> n \<le> 222 \<and> n \<noteq> 215 then n + 32 else n)"
  by (auto simp: lower_char_def Let_def)

lemma char_eq_of_char: "c = d \<longleftrightarrow> (of_char c :: nat) = of_char d"
  by simp

lemma lower_char_idem [simp]: "lower_char (lower_char c) = lower_char c"
  unfolding char_eq_of_char of_char_lower_char Let_def by (simp split: if_splits)

lemma js_space_lower [simp]: "js_space (lower_char c) = js_space c"
  unfolding js_space_def of_char_lower_char Let_def by (simp split: if_splits)

lemma js_lower_idem [simp]: "js_lower (js_lower s) = js_lower s"
  by (simp add: js_lower_def)

lemma js_lower_Nil [simp]: "js_lower s = '''' \<longleftrightarrow> s = ''''"
  by (simp add: js_lower_def)

lemma js_trim_lower: "js_trim (js_lower s) = js_lower (js_trim s)"
  by (simp add: js_trim_def js_lower_def dropWhile_map rev_map comp_def)

lemma hd_dropWhile_space: "dropWhile P s = [] \<or> \<not> P (hd (dropWhile P s))"
  by (induction s) auto

lemma js_trim_idem [simp]: "js_trim (js_trim s) = js_trim s"
proof -
  have idem: "js_trim t = t" if "t = [] \<or> \<not> js_space (hd t) \<and> \<not> js_space (last t)" for t
  proof (cases "t = []")
    case False
    then have "dropWhile js_space t = t" "dropWhile js_space (rev t) = rev t"
      using that by (simp_all add: dropWhile_eq_self_iff hd_rev)
    then show ?thesis by (simp add: js_trim_def)
  qed (simp add: js_trim_def)
  define u where "u = dropWhile js_space s"
  have "rev (dropWhile js_space (rev u)) = [] \<or> \<not> js_space (last (rev (dropWhile js_space (rev u))))"
    using hd_dropWhile_space [of js_space "rev u"] by (auto simp: last_rev)
  moreover have "rev (dropWhile js_space (rev u)) = [] \<or> \<not> js_space (hd (rev (dropWhile js_space (rev u))))"
  proof (cases "u = []")
    case False
    then have "\<not> js_space (hd u)" using hd_dropWhile_space [of js_space s] unfolding u_def by blast
    obtain v where v: "rev (dropWhile js_space (rev u)) @ v = u"
      by (metis rev_append rev_rev_ident takeWhile_dropWhile_id)
    then show ?thesis using \<open>\<not> js_space (hd u)\<close> by (metis hd_append2)
  qed simp
  ultimately have "js_trim (js_trim s) = js_trim s"
    unfolding js_trim_def [of s] u_def [symmetric] by (intro idem) blast
  then show ?thesis .
qed

lemma normalizeHeader_idem [simp]: "normalizeHeader (normalizeHeader s) = normalizeHeader s"
  by (simp add: normalizeHeader_def js_trim_lower)

text \<open>Well-formed header maps: the names are trimmed and differ in more than case.\<close>

definition wf_headers :: "headers \<Rightarrow> bool" where
  "wf_headers h \<longleftrightarrow> distinct (map js_lower (jkeys h)) \<and> (\<forall>k\<in>set (jkeys h). k \<noteq> '''' \<and> js_trim k = k)"

lemma find_unique:
  assumes "x \<in> set xs" and "P x" and "\<And>y. y \<in> set xs \<Longrightarrow> P y \<Longrightarrow> y = x"
  shows "find P xs = Some x"
proof -
  have "find P xs \<noteq> None" using assms(1,2) by (auto simp: find_None_iff)
  then obtain y where "find P xs = Some y" by blast
  then show ?thesis using assms(3) by (metis find_Some_iff nth_mem)
qed

lemma findKey_Some: "findKey h t = Some k \<Longrightarrow> k \<in> set (jkeys h) \<and> js_lower k = js_lower t"
  unfolding findKey_def using find_SomeD by fastforce

lemma findKey_None: "findKey h t = None \<longleftrightarrow> (\<forall>k\<in>set (jkeys h). js_lower k \<noteq> js_lower t)"
  unfolding findKey_def by (auto simp: find_None_iff)

lemma set_jkeys_jput [simp]: "set (jkeys (jput k v h)) = insert k (set (jkeys h))"
  by (auto simp: jkeys_jput)

lemma findKey_wf:
  assumes "wf_headers h" and "k \<in> set (jkeys h)" and "js_lower k = js_lower t"
  shows "findKey h t = Some k"
proof -
  have "inj_on js_lower (set (jkeys h))" using assms(1) by (simp add: wf_headers_def distinct_map)
  then have "q \<in> set (jkeys h) \<Longrightarrow> js_lower t = js_lower q \<Longrightarrow> q = k" for q
    using assms(2,3) by (metis inj_onD)
  moreover have "k \<in> set (rev (jkeys h))" using assms(2) by simp
  ultimately show ?thesis
    unfolding findKey_def using assms(3) by (intro find_unique) (assumption, rule sym, assumption, metis set_rev)
qed

text \<open>The value of a name in lower case.\<close>

lemma findKey_jput:
  assumes "wf_headers (jput k v h)" and "k = k0 \<or> k0 \<notin> set (jkeys h)"
  shows "findKey (jput k v h) t = (if js_lower t = js_lower k then Some k else findKey h t)"
proof (cases "js_lower t = js_lower k")
  case True
  then show ?thesis using findKey_wf [OF assms(1), of k t] by simp
next
  case False
  show ?thesis
  proof (cases "findKey h t")
    case None
    then have "findKey (jput k v h) t = None" using False unfolding findKey_None by fastforce
    then show ?thesis using None False by simp
  next
    case (Some q)
    then have "findKey (jput k v h) t = Some q"
      using findKey_Some [OF Some] by (intro findKey_wf [OF assms(1)]) auto
    then show ?thesis using Some False by simp
  qed
qed

lemma headers_get_lower:
  "headers_get h m = (if normalizeHeader m = '''' then HUndef
     else case findKey h (normalizeHeader m) of None \<Rightarrow> HUndef | Some k \<Rightarrow> hprop h k)"
  by (simp add: headers_get_def Let_def)

lemma setHeader_key:
  assumes "wf_headers h" and "js_trim name \<noteq> ''''" and "js_trim name = name \<or> findKey h (normalizeHeader name) \<noteq> None"
  defines "k \<equiv> (case findKey h (normalizeHeader name) of Some k \<Rightarrow> k | None \<Rightarrow> name)"
  shows "wf_headers (jput k v h)" and "js_lower k = normalizeHeader name" and "k \<noteq> ''''"
proof -
  have l: "js_lower (normalizeHeader name) = normalizeHeader name" by (simp add: normalizeHeader_def)
  have n: "normalizeHeader name \<noteq> ''''" using assms(2) by (simp add: normalizeHeader_def)
  show k: "js_lower k = normalizeHeader name"
    unfolding k_def using assms(3) l findKey_Some [of h "normalizeHeader name"] by (auto simp: normalizeHeader_def split: option.splits)
  then show "k \<noteq> ''''" using n by (metis js_lower_Nil)
  show "wf_headers (jput k v h)"
  proof (cases "findKey h (normalizeHeader name)")
    case None
    then have t: "js_trim name = name" "normalizeHeader name = js_lower name" using assms(3) by (simp_all add: normalizeHeader_def)
    have "k = name" using None by (simp add: k_def)
    moreover have "\<forall>q\<in>set (jkeys h). js_lower q \<noteq> js_lower name" using None [unfolded findKey_None l] t(2) by simp
    ultimately show ?thesis using assms(1,2) t by (auto simp: wf_headers_def jkeys_jput)
  next
    case (Some q)
    then have "k = q" "q \<in> set (jkeys h)" using findKey_Some [OF Some] by (simp_all add: k_def)
    then show ?thesis using assms(1) by (simp add: wf_headers_def jkeys_jput)
  qed
qed

text \<open>A new name with outer white space gets a key that no name is compared to.\<close>

lemma untrimmed_key:
  assumes "js_trim name \<noteq> name"
  shows "js_lower name \<noteq> normalizeHeader m"
proof
  assume "js_lower name = normalizeHeader m"
  then have "js_lower (js_trim name) = js_lower name" unfolding normalizeHeader_def by (metis js_trim_idem js_trim_lower)
  then have n: "length (js_trim name) = length name" by (metis js_lower_def length_map)
  have "length (dropWhile js_space (rev (dropWhile js_space name))) = length name" using n by (simp add: js_trim_def)
  moreover have "length (dropWhile js_space (rev (dropWhile js_space name))) \<le> length (dropWhile js_space name)"
    using length_dropWhile_le [of js_space "rev (dropWhile js_space name)"] by simp
  moreover have "length (dropWhile js_space name) \<le> length name" by (rule length_dropWhile_le)
  ultimately have "length (dropWhile js_space name) = length name"
    "length (dropWhile js_space (rev (dropWhile js_space name))) = length (rev (dropWhile js_space name))" by simp_all
  then have "dropWhile js_space name = name" "dropWhile js_space (rev (dropWhile js_space name)) = rev (dropWhile js_space name)"
    by (metis append_Nil length_append add_cancel_left_left length_0_conv takeWhile_dropWhile_id)+
  then show False using assms by (simp add: js_trim_def)
qed

lemma headers_get_untrimmed:
  assumes "js_trim name \<noteq> name" and "name \<notin> set (jkeys h)"
  shows "headers_get (jput name v h) m = headers_get h m"
proof -
  have l: "js_lower (normalizeHeader m) = normalizeHeader m" by (simp add: normalizeHeader_def)
  have "findKey (jput name v h) (normalizeHeader m) = findKey h (normalizeHeader m)"
    using untrimmed_key [OF assms(1), of m] assms(2) by (simp add: findKey_def jkeys_jput l)
  moreover have "findKey h (normalizeHeader m) = Some q \<Longrightarrow> q \<noteq> name" for q
    using findKey_Some [of h "normalizeHeader m" q] assms(2) by auto
  ultimately show ?thesis by (auto simp: headers_get_lower hprop_def split: option.splits)
qed

lemma hprop_jput [simp]: "hprop (jput k v h) q = (if q = k then v else hprop h q)"
  by (simp add: hprop_def)

lemma headers_get_jput:
  assumes "wf_headers (jput k v h)" and "js_lower k = t" and "t \<noteq> ''''"
  shows "headers_get (jput k v h) m = (if normalizeHeader m = t then v else headers_get h m)"
proof -
  have l: "js_lower (normalizeHeader m) = normalizeHeader m" by (simp add: normalizeHeader_def)
  show ?thesis
  proof (cases "normalizeHeader m = t")
    case True
    then have "findKey (jput k v h) (normalizeHeader m) = Some k"
      using assms l by (intro findKey_wf [OF assms(1)]) simp_all
    then show ?thesis using True assms(3) by (simp add: headers_get_lower)
  next
    case False
    then have f: "findKey (jput k v h) (normalizeHeader m) = findKey h (normalizeHeader m)"
      using findKey_jput [OF assms(1), of k] assms(2) l by simp
    have "findKey h (normalizeHeader m) = Some q \<Longrightarrow> q \<noteq> k" for q
      using findKey_Some [of h "normalizeHeader m" q] assms(2) l False by auto
    then show ?thesis using f False by (auto simp: headers_get_lower split: option.splits)
  qed
qed

lemma findKey_jremove:
  assumes "wf_headers h" and "k \<in> set (jkeys h)"
  shows "findKey (jremove k h) t = (if js_lower t = js_lower k then None else findKey h t)"
proof -
  have inj: "inj_on js_lower (set (jkeys h))" using assms(1) by (simp add: wf_headers_def distinct_map)
  have wf: "wf_headers (jremove k h)"
    using assms(1) by (auto simp: wf_headers_def distinct_map intro: inj_on_subset)
  show ?thesis
  proof (cases "js_lower t = js_lower k")
    case True
    then have "findKey (jremove k h) t = None"
      using inj assms(2) unfolding findKey_None by (auto dest: inj_onD)
    then show ?thesis using True by simp
  next
    case False
    show ?thesis
    proof (cases "findKey h t")
      case None
      then have "findKey (jremove k h) t = None" unfolding findKey_None by simp
      then show ?thesis using None False by simp
    next
      case (Some q)
      then have "q \<in> set (jkeys (jremove k h))" "js_lower q = js_lower t" using findKey_Some [OF Some] False by auto
      then have "findKey (jremove k h) t = Some q" by (rule findKey_wf [OF wf])
      then show ?thesis using Some False by simp
    qed
  qed
qed

lemma wf_headers_jremove: "wf_headers h \<Longrightarrow> wf_headers (jremove k h)"
  by (auto simp: wf_headers_def distinct_map intro: inj_on_subset)

section \<open>Printed headers are parsed back\<close>

definition plain_header :: "string \<times> hval \<Rightarrow> bool" where
  "plain_header kv \<longleftrightarrow> (case kv of (k, v) \<Rightarrow> \<exists>s. v = HStr s \<and> s \<noteq> '''' \<and> js_trim s = s \<and> CHR 0x0A \<notin> set s
     \<and> k \<noteq> '''' \<and> js_trim k = k \<and> js_lower k = k \<and> CHR 0x0A \<notin> set k \<and> CHR '':'' \<notin> set k \<and> k \<noteq> ''set-cookie'')"

lemma split_all_join:
  assumes "ls \<noteq> []" and "\<forall>l\<in>set ls. CHR 0x0A \<notin> set l"
  shows "split_all (CHR 0x0A) (join_with [CHR 0x0A] ls) = ls"
  using assms
proof (induction "[CHR 0x0A]" ls rule: join_with.induct)
  case (3 s t ss)
  then show ?case by (simp add: split_all_append)
qed (simp_all add: split_all_no_sep)

lemma takeWhile_colon: "CHR '':'' \<notin> set k \<Longrightarrow> takeWhile (\<lambda>c. c \<noteq> CHR '':'') (k @ CHR '':'' # t) = k"
  by (induction k) auto

lemma cut_colon_line: "CHR '':'' \<notin> set k \<Longrightarrow> cut_colon (k @ CHR '':'' # s) = (k, s)"
  by (simp add: cut_colon_def takeWhile_colon Let_def)

lemma js_trim_space: "js_trim (CHR '' '' # s) = js_trim s"
  by (simp add: js_trim_def js_space_def)

lemma parse_plain_line:
  assumes "plain_header (k, v)" and "k \<notin> set (jkeys t)"
  shows "parse_line (k @ '': '' @ hval_text v) t = t @ [(k, v)]"
proof -
  obtain s where s: "v = HStr s" "s \<noteq> ''''" "js_trim s = s" "k \<noteq> ''''" "js_trim k = k" "js_lower k = k" "CHR '':'' \<notin> set k" "k \<noteq> ''set-cookie''"
    using assms(1) by (auto simp: plain_header_def)
  have "jget t k = None" using assms(2) by (simp add: jget_None_keys)
  then show ?thesis
    using s assms(2) by (simp add: parse_line_def cut_colon_line js_trim_space append_value_def truthy_def jput_new Let_def)
qed

lemma fold_parse_plain:
  assumes "list_all plain_header h" and "distinct (jkeys (t @ h))"
  shows "fold parse_line (map (\<lambda>(k, v). k @ '': '' @ hval_text v) h) t = t @ h"
  using assms
proof (induction h arbitrary: t)
  case (Cons e h)
  obtain k v where e: "e = (k, v)" by fastforce
  have "k \<notin> set (jkeys t)" using Cons.prems(2) by (simp add: e jkeys_def)
  then have "parse_line (k @ '': '' @ hval_text v) t = t @ [(k, v)]"
    using Cons.prems(1) by (intro parse_plain_line) (simp_all add: e)
  then show ?case using Cons.IH [of "t @ [(k, v)]"] Cons.prems by (simp add: e)
qed simp

lemma toJSON_plain: "list_all plain_header h \<Longrightarrow> headers_toJSON False h = h"
  by (induction h) (auto simp: headers_toJSON_def plain_header_def)

lemma parse_toString:
  assumes "list_all plain_header h" and "distinct (jkeys h)"
  shows "parseHeaders (headers_toString h) = h"
proof (cases "h = []")
  case True
  then show ?thesis by (simp add: headers_toString_def headers_toJSON_def parseHeaders_def)
next
  case False
  define ls where "ls = map (\<lambda>(k, v). k @ '': '' @ hval_text v) h"
  have ls: "ls \<noteq> []" "\<forall>l\<in>set ls. CHR 0x0A \<notin> set l"
    using False assms(1) by (auto simp: ls_def list_all_iff plain_header_def)
  have t: "headers_toString h = join_with [CHR 0x0A] ls"
    by (simp add: headers_toString_def toJSON_plain [OF assms(1)] ls_def)
  have "headers_toString h \<noteq> ''''"
  proof
    assume "headers_toString h = ''''"
    then have "ls = ['''']" using split_all_join [OF ls] t by simp
    then show False using False by (cases h) (auto simp: ls_def)
  qed
  then show ?thesis
    using fold_parse_plain [of h "[]"] assms by (simp add: parseHeaders_def t split_all_join [OF ls]) (simp add: ls_def)
qed

section \<open>Adapters and stacks\<close>

definition resolve :: "(string \<Rightarrow> 'f adapter option) \<Rightarrow> 'f adapter_spec \<Rightarrow> 'f adapter option" where
  "resolve known e = (case e of ByName s \<Rightarrow> known (js_lower s) | Given a \<Rightarrow> Some a)"

definition unusable :: "(string \<Rightarrow> 'f adapter option) \<Rightarrow> 'f adapter_spec \<Rightarrow> bool" where
  "unusable known e \<longleftrightarrow> resolve known e = Some ANull \<or> resolve known e = Some AFalse"

text \<open>
  The name of an element in the error, with its place, and what it resolved to; the names in the order of their first
  elements, each with what its last element resolved to.
\<close>

definition adapter_name :: "nat \<Rightarrow> 'f adapter_spec \<Rightarrow> string" where
  "adapter_name r e = (case e of ByName s \<Rightarrow> if s \<noteq> '''' then s else ''#'' @ show_nat r | Given a \<Rightarrow> ''#'' @ show_nat r)"

definition tried :: "(string \<Rightarrow> 'f adapter option) \<Rightarrow> nat \<Rightarrow> 'f adapter_spec list \<Rightarrow> (string \<times> 'f adapter) list" where
  "tried known r es = map (\<lambda>(i, e). (adapter_name i e, the (resolve known e))) (enumerate r es)"

definition firsts :: "'a list \<Rightarrow> 'a list" where
  "firsts xs = rev (remdups (rev xs))"

lemma firsts_snoc: "firsts (xs @ [x]) = (if x \<in> set xs then firsts xs else firsts xs @ [x])"
  by (simp add: firsts_def)

lemma set_firsts [simp]: "set (firsts xs) = set xs" "distinct (firsts xs)"
  by (simp_all add: firsts_def)

lemma tried_Nil [simp]: "tried known r [] = []"
  by (simp add: tried_def)

lemma tried_Cons [simp]: "tried known r (e # es) = (adapter_name r e, the (resolve known e)) # tried known (Suc r) es"
  by (simp add: tried_def)

lemma jput_map: "jput k v (map (\<lambda>u. (u, g u)) us) =
    (if k \<in> set us then map (\<lambda>u. (u, if u = k then v else g u)) us else map (\<lambda>u. (u, g u)) us @ [(k, v)])" if "distinct us"
  using that by (induction us) (auto intro: map_cong)

lemma fold_jput_firsts: "fold (\<lambda>(k, v). jput k v) es [] = map (\<lambda>u. (u, the (map_of (rev es) u))) (firsts (map fst es))"
proof (induction es rule: rev_induct)
  case (snoc e es)
  obtain k v where e: "e = (k, v)" by (cases e)
  show ?case
    by (auto simp: snoc e jput_map firsts_snoc intro!: map_cong)
qed (simp add: firsts_def)

lemma adapter_loop_skips:
  "list_all (unusable known) xs \<Longrightarrow>
    adapter_loop known (xs @ es) r n a = adapter_loop known es (r + length xs) n (fold (\<lambda>(k, v). jput k v) (tried known r xs) a)"
proof (induction xs arbitrary: r a)
  case (Cons e xs)
  have "adapter_loop known ((e # xs) @ es) r n a = adapter_loop known (xs @ es) (r + 1) n (jput (adapter_name r e) (the (resolve known e)) a)"
  proof (cases e)
    case (ByName s)
    then have "known (js_lower s) = Some ANull \<or> known (js_lower s) = Some AFalse"
      using Cons.prems by (simp add: unusable_def resolve_def)
    then show ?thesis using ByName by (elim disjE) (simp_all add: adapter_name_def resolve_def)
  next
    case (Given l)
    then have "l = ANull \<or> l = AFalse" using Cons.prems by (auto simp: unusable_def resolve_def)
    then show ?thesis using Given by (auto simp: adapter_name_def resolve_def)
  qed
  then show ?case using Cons by simp
qed simp

text \<open>The lines of the error.\<close>

lemma join_with_concat: "join_with sep (x # xs) = x @ concat (map (\<lambda>y. sep @ y) xs)"
  by (induction xs arbitrary: x) simp_all

lemma no_adapter_text:
  assumes "us \<noteq> []"
  shows "no_adapter (Suc n) (map (\<lambda>u. (u, g u)) us) =
    ''There is no suitable adapter to dispatch the request '' @
      (case map (\<lambda>u. ''- adapter '' @ u @ (if g u = AFalse then '' is not supported by the environment'' else '' is not available in the build'')) us of
         [l] \<Rightarrow> '' '' @ l | ls \<Rightarrow> ''since :'' @ concat (map (\<lambda>l. CHR 0x0A # l) ls))"
proof -
  have line: "renderReason (adapter_reason (u, g u)) =
      ''- adapter '' @ u @ (if g u = AFalse then '' is not supported by the environment'' else '' is not available in the build'')" for u
    by (cases "g u") (simp_all add: renderReason_def adapter_reason_def)
  show ?thesis
  proof (cases us)
    case (Cons u ws)
    then show ?thesis
      by (cases ws) (simp_all add: no_adapter_def join_with_concat o_def line Let_def del: join_with.simps)
  qed (use assms in simp)
qed

lemma ends_with_append [simp]: "ends_with (s @ t) t"
  by (simp add: ends_with_def)

lemma drop_line_suffix: "\<exists>p. s = p @ drop_line s"
proof -
  obtain n where "drop_line s = drop n s" unfolding drop_line_def Let_def by (metis drop0)
  then show ?thesis by (intro exI[of _ "take n s"]) simp
qed

lemma drop_two_suffix: "\<exists>p. s = p @ drop_two_lines s"
proof -
  obtain p where p: "s = p @ drop_line s" using drop_line_suffix by blast
  obtain q where q: "drop_line s = q @ drop_line (drop_line s)" using drop_line_suffix by blast
  have "s = (p @ q) @ drop_line (drop_line s)" using p q by (metis append.assoc)
  then show ?thesis unfolding drop_two_lines_def Let_def by (metis append_Nil)
qed

lemma extend_stack_twice: "s \<noteq> '''' \<Longrightarrow> extend_stack (extend_stack s h) h = extend_stack s h"
proof -
  define a where "a = (if h \<noteq> '''' then drop_line h else '''')"
  assume s: "s \<noteq> ''''"
  have "ends_with (s @ [CHR 0x0A] @ a) (drop_two_lines a)"
    using drop_two_suffix [of a] by (metis append.assoc ends_with_append)
  then show ?thesis using s unfolding extend_stack_def Let_def a_def [symmetric] by simp
qed

section \<open>Properties\<close>

text \<open>
  C34: Header maps whose names are trimmed and differ in more than case stay such maps under \<open>set\<close>, with a trimmed
  name or one that the map has, and under \<open>delete\<close>, and they are read back regardless of case and surrounding
  space: after such a \<open>set\<close> (which an existing \<open>false\<close> does not stop) every spelling of the name gives the new
  value, after \<open>delete\<close> none, and every other name gives what it gave before; an empty name is refused. A new name
  with outer white space is kept with it, and then no spelling of any name reads the value.
\<close>

theorem web_headers_ignore_case:
  assumes "wf_headers h"
  shows "(js_trim name \<noteq> '''' \<and> (js_trim name = name \<or> normalizeHeader name \<in> js_lower ` set (jkeys h)) \<and>
      (rewrite = Some True \<or> rewrite = None \<and> headers_get h name \<noteq> HFalse) \<longrightarrow>
      (\<exists>h'. setHeader v name rewrite h = Some h' \<and> wf_headers h' \<and>
      (\<forall>m. headers_get h' m = (if normalizeHeader m = normalizeHeader name then normalizeValue v else headers_get h m)))) \<and>
     (js_trim name \<notin> {'''', name} \<and> normalizeHeader name \<notin> js_lower ` set (jkeys h) \<longrightarrow>
      (\<exists>h'. setHeader v name rewrite h = Some h' \<and> h' = h @ [(name, normalizeValue v)] \<and> (\<forall>m. headers_get h' m = headers_get h m))) \<and>
     (wf_headers (snd (deleteHeader m h)) \<and>
      headers_get (snd (deleteHeader m h)) q = (if normalizeHeader q = normalizeHeader m then HUndef else headers_get h q)) \<and>
     (setHeader v m rewrite h = None \<longleftrightarrow> js_trim m = '''')"
proof -
  define k where "k = (case findKey h (normalizeHeader name) of Some k \<Rightarrow> k | None \<Rightarrow> name)"
  have old: "normalizeHeader name \<in> js_lower ` set (jkeys h) \<longleftrightarrow> findKey h (normalizeHeader name) \<noteq> None"
    using findKey_None [of h "normalizeHeader name"] by (fastforce simp: normalizeHeader_def image_iff eq_commute)
  have f1: "\<exists>h'. setHeader v name rewrite h = Some h' \<and> wf_headers h' \<and>
      (\<forall>m. headers_get h' m = (if normalizeHeader m = normalizeHeader name then normalizeValue v else headers_get h m))"
    if a: "js_trim name \<noteq> ''''" "js_trim name = name \<or> normalizeHeader name \<in> js_lower ` set (jkeys h)"
      and r: "rewrite = Some True \<or> rewrite = None \<and> headers_get h name \<noteq> HFalse"
  proof -
    have n: "normalizeHeader name \<noteq> ''''" using a(1) by (simp add: normalizeHeader_def)
    note key = setHeader_key [OF assms a [unfolded old], folded k_def]
    have "findKey h (normalizeHeader name) = None \<or> hprop h (the (findKey h (normalizeHeader name))) = HUndef
        \<or> rewrite = Some True \<or> rewrite = None \<and> hprop h (the (findKey h (normalizeHeader name))) \<noteq> HFalse"
      using r n by (auto simp: headers_get_lower split: option.splits)
    then have "setHeader v name rewrite h = Some (jput k (normalizeValue v) h)"
      using n by (simp add: setHeader_def Let_def k_def)
    then show ?thesis using key(1) headers_get_jput [OF key(1) key(2) n] by blast
  qed
  have f4: "\<exists>h'. setHeader v name rewrite h = Some h' \<and> h' = h @ [(name, normalizeValue v)] \<and> (\<forall>m. headers_get h' m = headers_get h m)"
    if a: "js_trim name \<notin> {'''', name}" "normalizeHeader name \<notin> js_lower ` set (jkeys h)"
  proof -
    have k: "name \<notin> set (jkeys h)" using assms a(1) by (auto simp: wf_headers_def)
    have "setHeader v name rewrite h = Some (jput name (normalizeValue v) h)"
      using a(1) a(2) [unfolded old] by (simp add: setHeader_def Let_def normalizeHeader_def)
    then show ?thesis using headers_get_untrimmed [of name h "normalizeValue v"] a(1) k by (simp add: jput_new)
  qed
  have f3: "setHeader v m rewrite h = None \<longleftrightarrow> js_trim m = ''''"
    by (simp add: setHeader_def Let_def normalizeHeader_def)
  have f2: "wf_headers (snd (deleteHeader m h)) \<and>
      headers_get (snd (deleteHeader m h)) q = (if normalizeHeader q = normalizeHeader m then HUndef else headers_get h q)"
  proof (cases "normalizeHeader m = '''' \<or> findKey h (normalizeHeader m) = None")
    case True
    then have "snd (deleteHeader m h) = h" by (auto simp: deleteHeader_def Let_def)
    then show ?thesis using True assms(1) by (auto simp: headers_get_lower)
  next
    case False
    then obtain r where r: "findKey h (normalizeHeader m) = Some r" by blast
    have l: "js_lower (normalizeHeader q) = normalizeHeader q" for q by (simp add: normalizeHeader_def)
    have rk: "r \<in> set (jkeys h)" "js_lower r = normalizeHeader m" using findKey_Some [OF r] l by simp_all
    have d: "snd (deleteHeader m h) = jremove r h" using False r by (simp add: deleteHeader_def)
    have f: "findKey (jremove r h) (normalizeHeader q) = (if normalizeHeader q = normalizeHeader m then None else findKey h (normalizeHeader q))"
      using findKey_jremove [OF assms(1) rk(1)] rk(2) l by simp
    have "findKey h (normalizeHeader q) = Some p \<Longrightarrow> normalizeHeader q \<noteq> normalizeHeader m \<Longrightarrow> hprop (jremove r h) p = hprop h p" for p
      using findKey_Some [of h "normalizeHeader q" p] l rk(2) by (auto simp: hprop_def)
    then have "headers_get (jremove r h) q = (if normalizeHeader q = normalizeHeader m then HUndef else headers_get h q)"
      using f by (auto simp: headers_get_lower split: option.splits)
    then show ?thesis unfolding d using wf_headers_jremove [OF assms(1)] by blast
  qed
  show ?thesis using f1 f2 f3 f4 by blast
qed

lemma web_headers_ignore_case_witness:
  "\<exists>h'. setHeader (HStr ''json'') ''content-type'' None [(''Content-Type'', HStr ''text''), (''Accept'', HStr ''any'')] = Some h'
     \<and> headers_get h' '' CONTENT-type'' = HStr ''json'' \<and> headers_get h' ''accept'' = HStr ''any''"
proof -
  define h where "h = [(''Content-Type'', HStr ''text''), (''Accept'', HStr ''any'')]"
  have wf: "wf_headers h" unfolding h_def by code_simp
  have n: "js_trim ''content-type'' = ''content-type''" "''content-type'' \<noteq> ''''" by code_simp+
  have f: "None = Some True \<or> None = None \<and> headers_get h ''content-type'' \<noteq> HFalse" unfolding h_def by code_simp
  obtain h' where h': "setHeader (HStr ''json'') ''content-type'' None h = Some h'"
    "\<forall>m. headers_get h' m = (if normalizeHeader m = normalizeHeader ''content-type'' then normalizeValue (HStr ''json'') else headers_get h m)"
    using mp [OF conjunct1 [OF web_headers_ignore_case [OF wf]]] n f by (metis (no_types, lifting))
  have "normalizeHeader '' CONTENT-type'' = normalizeHeader ''content-type''" "normalizeHeader ''accept'' \<noteq> normalizeHeader ''content-type''"
    "headers_get h ''accept'' = HStr ''any''" unfolding h_def by code_simp+
  then show ?thesis using h' unfolding h_def by auto
qed

text \<open>
  C37: What the header printer writes, the parser reads back: a map with distinct lower-case names without
  colons and non-empty texts without line ends or outer space (and without set-cookie, whose value is an
  array) is printed and parsed to itself, in the same order.
\<close>

theorem web_headers_roundtrip:
  assumes "list_all plain_header h" and "distinct (jkeys h)"
  shows "parseHeaders (headers_toString h) = h"
  using assms by (rule parse_toString)

lemma web_headers_roundtrip_witness:
  "parseHeaders (headers_toString [(''etag'', HStr ''a:b''), (''age'', HStr ''10'')]) = [(''etag'', HStr ''a:b''), (''age'', HStr ''10'')]"
proof (rule web_headers_roundtrip)
  have "js_trim ''a:b'' = ''a:b''" "js_trim ''etag'' = ''etag''" "js_lower ''etag'' = ''etag''"
    "js_trim ''10'' = ''10''" "js_trim ''age'' = ''age''" "js_lower ''age'' = ''age''" by code_simp+
  then show "list_all plain_header [(''etag'', HStr ''a:b''), (''age'', HStr ''10'')]" by (simp add: plain_header_def)
qed (simp add: jkeys_def)

text \<open>
  C38: The choice of the adapter. The first element that resolves to a function is taken when all before it
  resolve to null or false; an unknown name before it is an error with that name as it was written. When no element is
  usable, the error has one line for every name of an element, in the order of their first elements, an element
  without a name being called by its place; the line tells whether the environment or the build lacks the adapter. Without
  elements the error says so. And recording the place of a call in an error's stack is idempotent: a second
  recording adds nothing.
\<close>

theorem web_adapter_choice:
  assumes "list_all (unusable known) xs"
  shows "(resolve known e = Some (AFun f) \<longrightarrow> getAdapter known (xs @ e # es) = Adapter f) \<and>
     (known (js_lower s) = None \<longrightarrow> getAdapter known (xs @ ByName s # es) = UnknownAdapter (''Unknown adapter '' @ [CHR 0x27] @ s @ [CHR 0x27])) \<and>
     (xs \<noteq> [] \<longrightarrow> getAdapter known xs = NoAdapter (''There is no suitable adapter to dispatch the request '' @
        (case map (\<lambda>u. ''- adapter '' @ u @
             (if map_of (rev (tried known 0 xs)) u = Some AFalse then '' is not supported by the environment'' else '' is not available in the build''))
           (firsts (map fst (tried known 0 xs))) of
           [l] \<Rightarrow> '' '' @ l | ls \<Rightarrow> ''since :'' @ concat (map (\<lambda>l. CHR 0x0A # l) ls)))) \<and>
     getAdapter known [] = NoAdapter ''There is no suitable adapter to dispatch the request as no adapter specified'' \<and>
     (stack \<noteq> '''' \<longrightarrow> extend_stack (extend_stack stack here) here = extend_stack stack here)"
proof (intro conjI impI)
  note skip = adapter_loop_skips [OF assms]
  show "getAdapter known (xs @ e # es) = Adapter f" if "resolve known e = Some (AFun f)"
    using that by (cases e) (simp_all add: getAdapter_def skip resolve_def)
  show "getAdapter known (xs @ ByName s # es) = UnknownAdapter (''Unknown adapter '' @ [CHR 0x27] @ s @ [CHR 0x27])"
    if "known (js_lower s) = None"
    using that by (simp add: getAdapter_def skip)
  show "getAdapter known [] = NoAdapter ''There is no suitable adapter to dispatch the request as no adapter specified''"
    by (simp add: getAdapter_def no_adapter_def)
  show "extend_stack (extend_stack stack here) here = extend_stack stack here" if "stack \<noteq> ''''"
    using that by (rule extend_stack_twice)
  assume "xs \<noteq> []"
  then obtain n where n: "length xs = Suc n" and "firsts (map fst (tried known 0 xs)) \<noteq> []"
    by (cases xs) (force simp: set_empty [symmetric] simp del: set_empty)+
  note err = no_adapter_text [OF this(2), of n "\<lambda>u. the (map_of (rev (tried known 0 xs)) u)"]
  have "(the (map_of (rev (tried known 0 xs)) u) = AFalse) = (map_of (rev (tried known 0 xs)) u = Some AFalse)"
    if "u \<in> set (firsts (map fst (tried known 0 xs)))" for u
  proof -
    from that have "map_of (rev (tried known 0 xs)) u \<noteq> None" by (auto simp: map_of_eq_None_iff)
    then show ?thesis by auto
  qed
  then have lines: "map (\<lambda>u. ''- adapter '' @ u @ (if the (map_of (rev (tried known 0 xs)) u) = AFalse then '' is not supported by the environment''
        else '' is not available in the build'')) (firsts (map fst (tried known 0 xs))) =
      map (\<lambda>u. ''- adapter '' @ u @ (if map_of (rev (tried known 0 xs)) u = Some AFalse then '' is not supported by the environment''
        else '' is not available in the build'')) (firsts (map fst (tried known 0 xs)))"
    by (intro map_cong) simp_all
  show "getAdapter known xs = NoAdapter (''There is no suitable adapter to dispatch the request '' @
        (case map (\<lambda>u. ''- adapter '' @ u @
             (if map_of (rev (tried known 0 xs)) u = Some AFalse then '' is not supported by the environment'' else '' is not available in the build''))
           (firsts (map fst (tried known 0 xs))) of
           [l] \<Rightarrow> '' '' @ l | ls \<Rightarrow> ''since :'' @ concat (map (\<lambda>l. CHR 0x0A # l) ls)))"
    using err skip [of "[]" 0 "length xs" "[]"] unfolding lines
    by (simp add: getAdapter_def n fold_jput_firsts del: append_Cons append.simps)
qed

text \<open>A build without Node's adapter in a browser without \<open>fetch\<close>; an element that is \<open>false\<close>.\<close>

definition sample_known :: "string \<Rightarrow> nat adapter option" where
  "sample_known = map_of [(''xhr'', AFun 1), (''http'', ANull), (''fetch'', AFalse)]"

lemma web_adapter_choice_witness:
  "getAdapter sample_known [ByName ''http'', ByName ''XHR'', ByName ''fetch''] = Adapter 1 \<and>
   getAdapter sample_known [ByName ''http'', ByName ''Fetch'', Given AFalse, ByName ''http''] = NoAdapter (
     ''There is no suitable adapter to dispatch the request since :'' @ [CHR 0x0A] @ ''- adapter http is not available in the build'' @
     [CHR 0x0A] @ ''- adapter Fetch is not supported by the environment'' @ [CHR 0x0A] @ ''- adapter #2 is not supported by the environment'')"
proof -
  have u: "list_all (unusable sample_known) [ByName ''http'']"
    "list_all (unusable sample_known) [ByName ''http'', ByName ''Fetch'', Given AFalse, ByName ''http'']" by code_simp+
  have r: "resolve sample_known (ByName ''XHR'') = Some (AFun 1)" by code_simp
  have "getAdapter sample_known ([ByName ''http''] @ ByName ''XHR'' # [ByName ''fetch'']) = Adapter 1"
    by (rule mp [OF conjunct1 [OF web_adapter_choice [OF u(1)]] r])
  moreover have t: "tried sample_known 0 [ByName ''http'', ByName ''Fetch'', Given AFalse, ByName ''http''] =
      [(''http'', ANull), (''Fetch'', AFalse), (''#2'', AFalse), (''http'', ANull)]" by code_simp
  ultimately show ?thesis
    using web_adapter_choice [OF u(2), of undefined undefined undefined undefined undefined undefined] unfolding t by (simp add: firsts_def)
qed


end
