(* ===== verification/WebPages.thy ===== *)
theory WebPages
  imports WebHttp
begin

text \<open>
  The pages of the web console itself, at the end of its bundle
  \<open>static/assets/index-ed2d0584.js\<close> (line 73): the interceptors that every API call passes, the login and
  password dialogs, the pages that list and edit the tenants, nodes, routes, rules, address translations
  and groups, the list of tags, and the routes of the browser. The page, the session and the server
  are one state, \<open>world\<close>; an API call takes it through the interceptor chain of \<open>WebHttp\<close>.
  What the server does is a parameter: a function of its state and the request. Messages in Chinese
  are constructors.
\<close>

section \<open>The world\<close>

datatype 'd message = LoginExpired | PasswordMismatch | PasswordChanged | ServerMessage 'd

text \<open>
  \<open>w_open\<close>: the loading overlays on the screen, by their number; \<open>w_next\<close>: the number of the next one;
  \<open>w_shared\<close>: the variable in which the component library keeps the overlay of the whole
  screen; \<open>w_token\<close>: the cookie \<open>Access-Token\<close>; \<open>w_tenant\<close>: the entry \<open>tenantId\<close> of the session storage; \<open>w_messages\<close>: the messages shown, \<open>w_path\<close>: the
  current path; \<open>w_server\<close>: the server.
\<close>

record ('d, 's) world =
  w_open :: "nat list"
  w_next :: nat
  w_shared :: "nat option"
  w_token :: "string option"
  w_tenant :: "string option"
  w_messages :: "'d message list"
  w_path :: string
  w_server :: 's

record 'b request_config =
  q_method :: string
  q_url :: string
  q_body :: 'b
  q_headers :: headers
  q_loading :: "nat option"

text \<open>What comes of a request: an answer with status and data, none, or an error that carries no configuration.\<close>

datatype 'd answer = Answer nat 'd | NoAnswer | Broken

type_synonym ('b, 'd, 's) server = "'s \<Rightarrow> 'b request_config \<Rightarrow> 'd answer \<times> 's"

record ('b, 'd) http_error =
  e_config :: "'b request_config option"
  e_response :: "(nat \<times> 'd) option"

record ('b, 'd) http_response =
  r_config :: "'b request_config"
  r_status :: nat
  r_data :: 'd

definition show_message :: "'d message \<Rightarrow> ('d, 's) world \<Rightarrow> ('d, 's) world" where
  "show_message m w = w\<lparr>w_messages := w_messages w @ [m]\<rparr>"

text \<open>
  The loading service (\<open>os\<close> and \<open>zie\<close>, line 68) for a loading of the whole screen: while there is one, the
  next request gets the same; closing it takes it off the screen and clears the variable, whoever
  else uses it, and again whichever overlay the variable has by then. An overlay counts as on the screen from
  its creation on; it appears one tick later.
\<close>

definition loading_service :: "('d, 's) world \<Rightarrow> nat \<times> ('d, 's) world" where
  "loading_service w =
     (case w_shared w of
        Some i \<Rightarrow> (i, w)
      | None \<Rightarrow> (w_next w, w\<lparr>w_open := w_next w # w_open w, w_next := w_next w + 1, w_shared := Some (w_next w)\<rparr>))"

definition close_loading :: "nat option \<Rightarrow> ('d, 's) world \<Rightarrow> ('d, 's) world" where
  "close_loading l w = (case l of None \<Rightarrow> w | Some i \<Rightarrow> w\<lparr>w_open := remove1 i (w_open w), w_shared := None\<rparr>)"

section \<open>The interceptors\<close>

definition on_request :: "'b request_config \<times> ('d, 's) world \<Rightarrow> 'b request_config \<times> ('d, 's) world" where
  "on_request cw = (case cw of (c, w) \<Rightarrow>
     let (c, w) = (if q_method c \<noteq> ''get''
                   then let (i, w) = loading_service w in (c\<lparr>q_loading := Some i\<rparr>, w)
                   else (c, w));
         c = c\<lparr>q_headers := jput ''Access-Token'' (case w_token w of Some t \<Rightarrow> HStr t | None \<Rightarrow> HUndef) (q_headers c)\<rparr>;
         c = (case w_tenant w of Some t \<Rightarrow> c\<lparr>q_headers := jput ''X-Tenant-Id'' (HStr t) (q_headers c)\<rparr> | None \<Rightarrow> c)
     in (c, w))"

text \<open>An error without configuration makes the handlers throw before they do anything else.\<close>

definition on_request_error ::
    "('b, 'd) http_error \<times> ('d, 's) world \<Rightarrow> ('b, 'd) http_error \<times> ('d, 's) world" where
  "on_request_error ew = (case ew of (e, w) \<Rightarrow>
     case e_config e of None \<Rightarrow> (e, w) | Some c \<Rightarrow> (e, close_loading (q_loading c) w))"

definition on_response ::
    "('b, 'd) http_response \<times> ('d, 's) world \<Rightarrow> ('b, 'd) http_response \<times> ('d, 's) world" where
  "on_response rw = (case rw of (r, w) \<Rightarrow> (r, close_loading (q_loading (r_config r)) w))"

definition on_response_error ::
    "('b, 'd) http_error \<times> ('d, 's) world \<Rightarrow> ('b, 'd) http_error \<times> ('d, 's) world" where
  "on_response_error ew = (case ew of (e, w) \<Rightarrow>
     case e_config e of
       None \<Rightarrow> (e, w)
     | Some c \<Rightarrow>
        let w = close_loading (q_loading c) w in
        (case e_response e of
           None \<Rightarrow> (e, w)
         | Some (status, data) \<Rightarrow>
             if status = 401 then (e, (show_message LoginExpired w)\<lparr>w_path := ''/''\<rparr>)
             else if status \<noteq> 200 then (e, show_message (ServerMessage data) w)
             else (e, w)))"

definition request_interceptor :: "('b request_config \<times> ('d, 's) world, ('b, 'd) http_error \<times> ('d, 's) world) interceptor" where
  "request_interceptor = \<lparr>i_fulfilled = Some (\<lambda>cw. Inr (on_request cw)), i_rejected = Some (\<lambda>ew. Inl (on_request_error ew)),
     i_synchronous = False, i_runWhen = None\<rparr>"

definition response_interceptor :: "(('b, 'd) http_response \<times> ('d, 's) world, ('b, 'd) http_error \<times> ('d, 's) world) interceptor" where
  "response_interceptor = \<lparr>i_fulfilled = Some (\<lambda>rw. Inr (on_response rw)), i_rejected = Some (\<lambda>ew. Inl (on_response_error ew)),
     i_synchronous = False, i_runWhen = None\<rparr>"

section \<open>API calls\<close>

text \<open>The adapter: the server's answer is settled by its status.\<close>

definition dispatch_request ::
    "('b, 'd, 's) server \<Rightarrow> 'b request_config \<times> ('d, 's) world
     \<Rightarrow> (('b, 'd) http_error \<times> ('d, 's) world) + ((('b, 'd) http_error \<times> ('d, 's) world) + (('b, 'd) http_response \<times> ('d, 's) world))" where
  "dispatch_request srv cw = (case cw of (c, w) \<Rightarrow>
     let (a, s) = srv (w_server w) c; w = w\<lparr>w_server := s\<rparr> in
     case a of
       Answer st d \<Rightarrow> (case settle (Some default_validateStatus) st \<lparr>r_config = c, r_status = st, r_data = d\<rparr> of
            Resolve r \<Rightarrow> Inr (Inr (r, w))
          | Reject msg code r \<Rightarrow> Inr (Inl (\<lparr>e_config = Some c, e_response = Some (st, d)\<rparr>, w)))
     | NoAnswer \<Rightarrow> Inr (Inl (\<lparr>e_config = Some c, e_response = None\<rparr>, w))
     | Broken \<Rightarrow> Inl (\<lparr>e_config = None, e_response = None\<rparr>, w))"

definition default_headers :: headers where
  "default_headers = the (setHeaders [(''Accept'', HStr ''application/json, text/plain, */*''), (''Content-Type'', HUndef)] None [])"

definition api ::
    "('b, 'd, 's) server \<Rightarrow> string \<Rightarrow> string \<Rightarrow> 'b \<Rightarrow> ('d, 's) world
     \<Rightarrow> (('b, 'd) http_error \<times> ('d, 's) world) + (('b, 'd) http_response \<times> ('d, 's) world)" where
  "api srv method url body w =
     run_request (\<lparr>e_config = None, e_response = None\<rparr>, w) [request_interceptor] [response_interceptor] (dispatch_request srv)
       (\<lparr>q_method = method, q_url = url, q_body = body, q_headers = default_headers, q_loading = None\<rparr>, w)"

section \<open>Login and password\<close>

text \<open>
  The data of the dialog is the form, with a flag \<open>loading\<close> of its own that nothing sets; the method sets the property
  \<open>loading\<close> of the component, undefined (\<open>None\<close>) before.
\<close>

record login_form =
  lf_username :: string
  lf_password :: string
  lf_loading :: bool

record login_page =
  lp_form :: login_form
  lp_loading :: "bool option"

definition login ::
    "('b, 'd, 's) server \<Rightarrow> (login_form \<Rightarrow> 'b) \<Rightarrow> ('d \<Rightarrow> string) \<Rightarrow> ('d \<Rightarrow> string option) \<Rightarrow> login_page \<Rightarrow> ('d, 's) world
     \<Rightarrow> login_page \<times> ('d, 's) world" where
  "login srv body accessToken tenantId p w =
     (let p = p\<lparr>lp_loading := Some True\<rparr> in
      case api srv ''post'' ''/api/account/login'' (body (lp_form p)) w of
        Inl (e, w) \<Rightarrow> (p, w)
      | Inr (r, w) \<Rightarrow>
         let w = w\<lparr>w_token := Some (accessToken (r_data r))\<rparr>;
             w = (case tenantId (r_data r) of
                    None \<Rightarrow> w\<lparr>w_path := ''/rootSpace''\<rparr>
                  | Some t \<Rightarrow> w\<lparr>w_tenant := Some t, w_path := ''/tenantSpace''\<rparr>)
         in (p\<lparr>lp_loading := Some False\<rparr>, w))"

record password_form =
  pf_password :: string
  pf_conformPassword :: string
  pf_newPassword :: string

text \<open>The result says whether the dialog asks to be closed.\<close>

definition updatePassword ::
    "('b, 'd, 's) server \<Rightarrow> (password_form \<Rightarrow> 'b) \<Rightarrow> password_form \<Rightarrow> ('d, 's) world \<Rightarrow> bool \<times> ('d, 's) world" where
  "updatePassword srv body f w =
     (if pf_newPassword f \<noteq> pf_conformPassword f then (False, show_message PasswordMismatch w)
      else case api srv ''post'' ''/api/account/updatePassword'' (body f) w of
        Inl (e, w) \<Rightarrow> (False, w)
      | Inr (r, w) \<Rightarrow>
          if r_status r \<noteq> 200 then (False, show_message (ServerMessage (r_data r)) w)
          else (True, show_message PasswordChanged w))"

section \<open>Pages that list and edit\<close>

text \<open>
  A page: its dialog and its table. The resource is the part of the URL behind \<open>/api/\<close>; \<open>lister\<close> is the
  method and the body of its list request (GET for tenants, routes, address translations and
  groups, POST for nodes and rules). The table is \<open>None\<close> until a list has arrived.
\<close>

record ('b, 'd) page =
  pg_visible :: bool
  pg_type :: string
  pg_form :: 'b
  pg_table :: "'d option"

record 'b resource =
  rs_name :: string
  rs_list_method :: string
  rs_list_body :: 'b

definition rs_url :: "'b resource \<Rightarrow> string \<Rightarrow> string" where
  "rs_url rs op = ''/api/'' @ rs_name rs @ ''/'' @ op"

definition openAddDialog :: "'b \<Rightarrow> ('b, 'd) page \<Rightarrow> ('b, 'd) page" where
  "openAddDialog empty_form p = p\<lparr>pg_visible := True, pg_type := ''add'', pg_form := empty_form\<rparr>"

text \<open>A list request; the table is set when its answer arrives, and left alone when it is refused.\<close>

definition list_request :: "('b, 'd, 's) server \<Rightarrow> 'b resource \<Rightarrow> ('d, 's) world \<Rightarrow> 'd option \<times> ('d, 's) world" where
  "list_request srv rs w =
     (case api srv (rs_list_method rs) (rs_url rs ''list'') (rs_list_body rs) w of
        Inl (e, w) \<Rightarrow> (None, w)
      | Inr (r, w) \<Rightarrow> (Some (r_data r), w))"

definition arrive :: "'d option \<Rightarrow> ('b, 'd) page \<Rightarrow> ('b, 'd) page" where
  "arrive a p = (case a of None \<Rightarrow> p | Some t \<Rightarrow> p\<lparr>pg_table := Some t\<rparr>)"

definition page_list :: "('b, 'd, 's) server \<Rightarrow> 'b resource \<Rightarrow> ('b, 'd) page \<Rightarrow> ('d, 's) world \<Rightarrow> ('b, 'd) page \<times> ('d, 's) world" where
  "page_list srv rs p w = (let (a, w) = list_request srv rs w in (arrive a p, w))"

text \<open>
  \<open>saveOrUpdate\<close>: \<open>save\<close> posts the form, hides the dialog and starts a list that nobody waits for;
  \<open>saveOrUpdate\<close> then lists again. The answers of the two lists may arrive in either order: \<open>late\<close> says
  that the first one arrives last. An error of the post leaves both methods at once.
\<close>

definition saveOrUpdate ::
    "('b, 'd, 's) server \<Rightarrow> 'b resource \<Rightarrow> bool \<Rightarrow> ('b, 'd) page \<Rightarrow> ('d, 's) world \<Rightarrow> ('b, 'd) page \<times> ('d, 's) world" where
  "saveOrUpdate srv rs late p w =
     (if pg_type p = ''add'' then
        (case api srv ''post'' (rs_url rs ''add'') (pg_form p) w of
           Inl (e, w) \<Rightarrow> (p, w)
         | Inr (r, w) \<Rightarrow>
            let p = p\<lparr>pg_visible := False\<rparr>;
                (a1, w) = list_request srv rs w;
                (a2, w) = list_request srv rs w
            in (if late then arrive a1 (arrive a2 p) else arrive a2 (arrive a1 p), w))
      else if pg_type p = ''edit'' then
        (case api srv ''post'' (rs_url rs ''edit'') (pg_form p) w of
           Inl (e, w) \<Rightarrow> (p, w)
         | Inr (r, w) \<Rightarrow> page_list srv rs (p\<lparr>pg_visible := False\<rparr>) w)
      else page_list srv rs p w)"

text \<open>\<open>del\<close>, with the answer of the confirmation box.\<close>

definition page_del ::
    "('b, 'd, 's) server \<Rightarrow> 'b resource \<Rightarrow> bool \<Rightarrow> 'b \<Rightarrow> ('b, 'd) page \<Rightarrow> ('d, 's) world \<Rightarrow> ('b, 'd) page \<times> ('d, 's) world" where
  "page_del srv rs confirmed id_body p w =
     (if \<not> confirmed then (p, w)
      else case api srv ''post'' (rs_url rs ''del'') id_body w of
        Inl (e, w) \<Rightarrow> (p, w)
      | Inr (r, w) \<Rightarrow> page_list srv rs (p\<lparr>pg_visible := False\<rparr>) w)"

section \<open>Tags\<close>

record tag_group =
  tg_tags :: "string list"
  tg_inputVisible :: bool
  tg_inputValue :: string

text \<open>\<open>splice(i, 1)\<close>: a negative index counts from the end.\<close>

definition splice1 :: "int \<Rightarrow> 'a list \<Rightarrow> 'a list" where
  "splice1 i xs = (let k = (if i < 0 then nat (max 0 (int (length xs) + i)) else nat i) in take k xs @ drop (k + 1) xs)"

fun index_of :: "'a \<Rightarrow> 'a list \<Rightarrow> int" where
  "index_of x [] = - 1"
| "index_of x (y # ys) = (if x = y then 0 else let i = index_of x ys in if i < 0 then - 1 else i + 1)"

text \<open>The index comes from the rendered list, so it is in range.\<close>

definition updateTag :: "nat \<Rightarrow> string \<Rightarrow> tag_group \<Rightarrow> tag_group" where
  "updateTag i v g = g\<lparr>tg_tags := (tg_tags g)[i := v]\<rparr>"

definition handleClose :: "string \<Rightarrow> tag_group \<Rightarrow> tag_group" where
  "handleClose e g = g\<lparr>tg_tags := splice1 (index_of e (tg_tags g)) (tg_tags g)\<rparr>"

definition showInput :: "tag_group \<Rightarrow> tag_group" where
  "showInput g = g\<lparr>tg_inputVisible := True\<rparr>"

definition handleInputConfirm :: "tag_group \<Rightarrow> tag_group" where
  "handleInputConfirm g =
     g\<lparr>tg_tags := (if tg_inputValue g \<noteq> '''' then tg_tags g @ [tg_inputValue g] else tg_tags g),
       tg_inputVisible := False, tg_inputValue := ''''\<rparr>"

section \<open>Routes of the browser\<close>

definition route_redirects :: "(string \<times> string) list" where
  "route_redirects = [(''/rootSpace'', ''/rootSpace/tenant''), (''/tenantSpace'', ''/tenantSpace/node'')]"

definition route_names :: "(string \<times> string) list" where
  "route_names = [(''/'', ''index''), (''/account'', ''account''), (''/rootSpace'', ''rootSpace''),
     (''/rootSpace/tenant'', ''tenant''), (''/rootSpace/appVersion'', ''appVersion''), (''/tenantSpace'', ''tenantSpace''),
     (''/tenantSpace/node'', ''node''), (''/tenantSpace/route'', ''route''), (''/tenantSpace/rule'', ''rule''),
     (''/tenantSpace/vnat'', ''vnat''), (''/tenantSpace/group'', ''group''), (''/test'', ''test'')]"

definition page_of :: "string \<Rightarrow> string option" where
  "page_of path = map_of route_names (case map_of route_redirects path of Some p \<Rightarrow> p | None \<Rightarrow> path)"

text \<open>The tenant pages take the tenant from the query of the address when it is given.\<close>

definition tenantSpace_mounted ::
    "('b, 'd, 's) server \<Rightarrow> 'b \<Rightarrow> string option \<Rightarrow> 'd \<Rightarrow> ('d, 's) world \<Rightarrow> 'd \<times> ('d, 's) world" where
  "tenantSpace_mounted srv no_body query tenant w =
     (let w = (case query of Some t \<Rightarrow> w\<lparr>w_tenant := Some t, w_path := ''/tenantSpace''\<rparr> | None \<Rightarrow> w) in
      case api srv ''get'' ''/api/tenant/current'' no_body w of
        Inl (e, w) \<Rightarrow> (tenant, w)
      | Inr (r, w) \<Rightarrow> (r_data r, w))"

section \<open>What an API call does\<close>

definition sent :: "string \<Rightarrow> string \<Rightarrow> 'b \<Rightarrow> ('d, 's) world \<Rightarrow> 'b request_config" where
  "sent method url body w =
     fst (on_request (\<lparr>q_method = method, q_url = url, q_body = body, q_headers = default_headers, q_loading = None\<rparr>, w))"

text \<open>
  The overlays after a call that settles: those of before, less the shared one where the call used it. The
  world after a call that got as far as the server, its overlay closed again.
\<close>

definition overlays_after :: "string \<Rightarrow> ('d, 's) world \<Rightarrow> nat list" where
  "overlays_after method w =
     (case w_shared w of None \<Rightarrow> w_open w | Some i \<Rightarrow> if method = ''get'' then w_open w else remove1 i (w_open w))"

definition after_call :: "string \<Rightarrow> 's \<Rightarrow> ('d, 's) world \<Rightarrow> ('d, 's) world" where
  "after_call method s w =
     w\<lparr>w_open := overlays_after method w, w_next := (if method \<noteq> ''get'' \<and> w_shared w = None then w_next w + 1 else w_next w),
       w_shared := (if method \<noteq> ''get'' then None else w_shared w), w_server := s\<rparr>"

definition accepted :: "nat \<Rightarrow> bool" where
  "accepted st \<longleftrightarrow> st = 0 \<or> 200 \<le> st \<and> st < 300"

lemma after_call_simps [simp]:
  "w_open (after_call m s w) = overlays_after m w" "w_shared (after_call m s w) = (if m = ''get'' then w_shared w else None)" "w_token (after_call m s w) = w_token w" "w_tenant (after_call m s w) = w_tenant w"
  "w_messages (after_call m s w) = w_messages w" "w_path (after_call m s w) = w_path w" "w_server (after_call m s w) = s"
  by (simp_all add: after_call_def)

lemma loading_service_other [simp]:
  "w_token (snd (loading_service w)) = w_token w" "w_tenant (snd (loading_service w)) = w_tenant w"
  "w_messages (snd (loading_service w)) = w_messages w" "w_path (snd (loading_service w)) = w_path w"
  "w_server (snd (loading_service w)) = w_server w"
  by (simp_all add: loading_service_def split: option.split)

lemma sent_simps [simp]:
  "q_method (sent m u b w) = m" "q_url (sent m u b w) = u" "q_body (sent m u b w) = b"
  "jget (q_headers (sent m u b w)) ''Access-Token'' = Some (case w_token w of Some t \<Rightarrow> HStr t | None \<Rightarrow> HUndef)"
  "w_tenant w = Some t \<Longrightarrow> jget (q_headers (sent m u b w)) ''X-Tenant-Id'' = Some (HStr t)"
  by (simp_all add: sent_def on_request_def Let_def case_prod_beta split: option.split)

lemma overlays_after_none [simp]: "w_shared w = None \<Longrightarrow> overlays_after m w = w_open w" "overlays_after ''get'' w = w_open w"
  by (simp_all add: overlays_after_def split: option.splits)

definition opened :: "string \<Rightarrow> ('d, 's) world \<Rightarrow> ('d, 's) world" where
  "opened m w = (if m \<noteq> ''get'' then snd (loading_service w) else w)"

lemma on_request_eq:
  "on_request (\<lparr>q_method = m, q_url = u, q_body = b, q_headers = default_headers, q_loading = None\<rparr>, w) = (sent m u b w, opened m w)"
  by (simp add: sent_def on_request_def opened_def Let_def case_prod_beta split: option.split)

lemma q_loading_sent: "q_loading (sent m u b w) = (if m \<noteq> ''get'' then Some (fst (loading_service w)) else None)"
  by (simp add: sent_def on_request_def Let_def case_prod_beta split: option.split)

lemma close_opened:
  "close_loading (q_loading (sent m u b w)) ((opened m w)\<lparr>w_server := s\<rparr>) = after_call m s w"
  by (auto simp: q_loading_sent close_loading_def opened_def after_call_def overlays_after_def loading_service_def split: option.splits)

lemma w_server_opened [simp]: "w_server (opened m w) = w_server w"
  by (auto simp: opened_def loading_service_def split: option.splits)

lemma settle_default: "settle (Some default_validateStatus) st r =
    (if accepted st then Resolve r else Reject (''Request failed with status code '' @ show_nat st) (status_code st) r)"
  by (simp add: settle_def default_validateStatus_def accepted_def)

lemma api_run:
  "api srv m u b w = fold then_interceptor [response_interceptor]
     (case dispatch_request srv (sent m u b w, opened m w) of Inl e \<Rightarrow> Inl e | Inr d \<Rightarrow> d)"
  by (simp add: api_def run_request_def active_def request_interceptor_def then_interceptor_def then_do_def on_request_eq)

lemma api_eq:
  assumes "srv (w_server w) (sent m u b w) = (a, s)"
  shows "api srv m u b w = (case a of
     Answer st d \<Rightarrow>
       if accepted st then Inr (\<lparr>r_config = sent m u b w, r_status = st, r_data = d\<rparr>, after_call m s w)
       else Inl (\<lparr>e_config = Some (sent m u b w), e_response = Some (st, d)\<rparr>,
                 if st = 401 then (show_message LoginExpired (after_call m s w))\<lparr>w_path := ''/''\<rparr>
                 else show_message (ServerMessage d) (after_call m s w))
   | NoAnswer \<Rightarrow> Inl (\<lparr>e_config = Some (sent m u b w), e_response = None\<rparr>, after_call m s w)
   | Broken \<Rightarrow> Inl (\<lparr>e_config = None, e_response = None\<rparr>, (opened m w)\<lparr>w_server := s\<rparr>))"
proof (cases a)
  case (Answer st d)
  then show ?thesis
    unfolding api_run
    by (auto simp: dispatch_request_def assms settle_default response_interceptor_def then_interceptor_def then_do_def
        on_response_def on_response_error_def close_opened Let_def accepted_def)
next
  case NoAnswer
  then show ?thesis
    unfolding api_run
    by (simp add: dispatch_request_def assms response_interceptor_def then_interceptor_def then_do_def on_response_error_def close_opened Let_def)
next
  case Broken
  then show ?thesis
    unfolding api_run
    by (simp add: dispatch_request_def assms response_interceptor_def then_interceptor_def then_do_def on_response_error_def Let_def)
qed

lemma list_request_ok:
  assumes "srv (w_server w) (sent (rs_list_method rs) (rs_url rs ''list'') (rs_list_body rs) w) = (Answer st t, s)" and "accepted st"
  shows "list_request srv rs w = (Some t, after_call (rs_list_method rs) s w)"
  using assms by (simp add: list_request_def api_eq)

section \<open>Tags\<close>

lemma index_of_range: "- 1 \<le> index_of x xs" "index_of x xs < 0 \<longleftrightarrow> x \<notin> set xs"
  by (induction xs) (auto simp: Let_def)

lemma splice1_index_of: "x \<in> set xs \<Longrightarrow> splice1 (index_of x xs) xs = remove1 x xs"
proof (induction xs)
  case (Cons y ys)
  show ?case
  proof (cases "x = y")
    case False
    then have "0 \<le> index_of x ys" using Cons.prems index_of_range(2) [of x ys] by auto
    then show ?thesis using False Cons by (simp add: splice1_def Let_def nat_add_distrib)
  qed (simp add: splice1_def)
qed simp

lemma splice1_absent: "x \<notin> set xs \<Longrightarrow> splice1 (index_of x xs) xs = butlast xs"
proof -
  assume "x \<notin> set xs"
  then have "index_of x xs = - 1" using index_of_range [of x xs] by auto
  then show ?thesis
    by (cases xs rule: rev_cases) (simp_all add: splice1_def nat_add_distrib)
qed

section \<open>Properties\<close>

text \<open>
  C8: The life of an API call, one line for each way it can end. The request carries the access token of the cookie and
  the tenant of the session. With an answer, an error status or no answer the call takes its loading overlay off the screen
  again, and when the overlay was there before (the library has one for the whole screen) it
  takes that one off too; the call succeeds exactly for status 0 or 200 to
  299; a status 401 shows that the login has expired and goes to the start page, any other error status
  shows the server's message. A call without an answer (a timeout, a lost connection) fails without any message. An
  error without configuration also fails without a message, and leaves the overlay of a request
  other than GET on the screen, until the next such request settles.
\<close>

theorem web_call_lifecycle:
  assumes "srv (w_server w) (sent m u b w) = (a, s)"
  shows "(jget (q_headers (sent m u b w)) ''Access-Token'' = Some (case w_token w of Some t \<Rightarrow> HStr t | None \<Rightarrow> HUndef)) \<and>
     (w_tenant w = Some t \<longrightarrow> (jget (q_headers (sent m u b w)) ''X-Tenant-Id'' = Some (HStr t))) \<and>
     (a = Answer st d \<and> accepted st \<longrightarrow> (\<exists>r w'. api srv m u b w = Inr (r, w') \<and> r_data r = d \<and> w' = after_call m s w \<and>
        w_open w' = overlays_after m w \<and> w_messages w' = w_messages w \<and> w_path w' = w_path w)) \<and>
     (a = Answer st d \<and> \<not> accepted st \<longrightarrow> (\<exists>e w'. api srv m u b w = Inl (e, w') \<and> w_open w' = overlays_after m w \<and> w_server w' = s
        \<and> w_messages w' = w_messages w @ [if st = 401 then LoginExpired else ServerMessage d]
        \<and> w_path w' = (if st = 401 then ''/'' else w_path w))) \<and>
     (a = NoAnswer \<longrightarrow> (\<exists>e w'. api srv m u b w = Inl (e, w') \<and> w' = after_call m s w \<and> w_open w' = overlays_after m w
        \<and> w_messages w' = w_messages w \<and> w_path w' = w_path w)) \<and>
     (a = Broken \<longrightarrow> (\<exists>e w'. api srv m u b w = Inl (e, w') \<and> w_messages w' = w_messages w \<and> w_path w' = w_path w
        \<and> w_open w' = (if m \<noteq> ''get'' \<and> w_shared w = None then w_next w # w_open w else w_open w)
        \<and> w_shared w' = (if m \<noteq> ''get'' \<and> w_shared w = None then Some (w_next w) else w_shared w)))"
  using assms by (auto simp: api_eq show_message_def opened_def loading_service_def split: option.splits)

lemma web_call_lifecycle_witness:
  "\<exists>e w'. api (\<lambda>s c. (Answer 401 ''no'', s)) ''post'' ''/api/node/add'' ()
      \<lparr>w_open = [], w_next = 1, w_shared = None, w_token = Some ''t'', w_tenant = None, w_messages = [], w_path = ''/tenantSpace/node'', w_server = ()\<rparr> = Inl (e, w')
    \<and> w_open w' = [] \<and> w_messages w' = [LoginExpired] \<and> w_path w' = ''/''"
proof -
  define w :: "(string, unit) world" where
    "w = \<lparr>w_open = [], w_next = 1, w_shared = None, w_token = Some ''t'', w_tenant = None, w_messages = [], w_path = ''/tenantSpace/node'', w_server = ()\<rparr>"
  have "\<not> accepted 401" by (simp add: accepted_def)
  then show ?thesis
    using web_call_lifecycle [where srv = "\<lambda>s c. (Answer 401 ''no'', s)" and w = w and m = "''post''" and u = "''/api/node/add''" and b = "()"
        and a = "Answer 401 ''no''" and s = "()" and st = 401 and d = "''no''" and t = "''''"]
    unfolding w_def [symmetric] by (simp add: w_def)
qed

text \<open>
  C26: Saving a new entry ends with the list of the server. When the post is accepted and the server then
  answers list requests with \<open>t\<close>, the dialog is hidden and the table shows \<open>t\<close>, in whichever order the
  answers of the two list requests arrive, and no overlay of these calls is left. When the post is refused the page stays
  as it is, dialog and form included, and the reason is shown.
\<close>

theorem web_save_shows_list:
  assumes "pg_type p = ''add''"
    and "srv (w_server w) (sent ''post'' (rs_url rs ''add'') (pg_form p) w) = (Answer st d, s)"
    and "\<And>c. q_url c = rs_url rs ''list'' \<Longrightarrow> srv s c = (Answer 200 t, s)"
  shows "(accepted st \<longrightarrow> (\<exists>w'. saveOrUpdate srv rs late p w = (p\<lparr>pg_visible := False, pg_table := Some t\<rparr>, w') \<and>
      w_open w' = overlays_after ''post'' w \<and> w_messages w' = w_messages w \<and> w_server w' = s)) \<and>
     (\<not> accepted st \<and> st \<noteq> 401 \<longrightarrow> (\<exists>w'. saveOrUpdate srv rs late p w = (p, w') \<and> w_open w' = overlays_after ''post'' w \<and> w_messages w' = w_messages w @ [ServerMessage d]))"
proof -
  have acc: "accepted 200" by (simp add: accepted_def)
  have f1: "accepted st \<Longrightarrow> \<exists>w'. saveOrUpdate srv rs late p w = (p\<lparr>pg_visible := False, pg_table := Some t\<rparr>, w') \<and>
      w_open w' = overlays_after ''post'' w \<and> w_messages w' = w_messages w \<and> w_server w' = s"
  proof -
    assume st: "accepted st"
    define w1 where "w1 = after_call ''post'' s w"
    define w2 where "w2 = after_call (rs_list_method rs) s w1"
    define w3 where "w3 = after_call (rs_list_method rs) s w2"
    have "list_request srv rs w1 = (Some t, w2)" unfolding w2_def
      by (rule list_request_ok [OF _ acc]) (simp add: w1_def assms(3))
    moreover have "list_request srv rs w2 = (Some t, w3)" unfolding w3_def
      by (rule list_request_ok [OF _ acc]) (simp add: w2_def assms(3))
    ultimately have "saveOrUpdate srv rs late p w = (p\<lparr>pg_visible := False, pg_table := Some t\<rparr>, w3)"
      using st by (simp add: saveOrUpdate_def assms(1) api_eq [of srv w, OF assms(2)] w1_def [symmetric] arrive_def)
    then show ?thesis by (simp add: w3_def w2_def w1_def)
  qed
  have f2: "\<not> accepted st \<Longrightarrow> st \<noteq> 401 \<Longrightarrow>
      \<exists>w'. saveOrUpdate srv rs late p w = (p, w') \<and> w_open w' = overlays_after ''post'' w \<and> w_messages w' = w_messages w @ [ServerMessage d]"
    by (simp add: saveOrUpdate_def assms(1) api_eq [of srv w, OF assms(2)] show_message_def)
  show ?thesis using f1 f2 by blast
qed

text \<open>A server with one list: \<open>add\<close> appends the form, which must not be empty, \<open>list\<close> gives it.\<close>

definition toy_server :: "string list \<Rightarrow> string request_config \<Rightarrow> string list answer \<times> string list" where
  "toy_server s c =
     (if q_url c = ''/api/group/list'' then (Answer 200 s, s)
      else if q_body c = '''' then (Answer 500 [''name''], s)
      else (Answer 200 [], s @ [q_body c]))"

lemma web_save_shows_list_witness:
  "\<exists>w'. saveOrUpdate toy_server \<lparr>rs_name = ''group'', rs_list_method = ''get'', rs_list_body = ''''\<rparr> True
      \<lparr>pg_visible = True, pg_type = ''add'', pg_form = ''b'', pg_table = Some [''a'']\<rparr>
      \<lparr>w_open = [], w_next = 1, w_shared = None, w_token = None, w_tenant = None, w_messages = [], w_path = ''/'', w_server = [''a'']\<rparr>
    = (\<lparr>pg_visible = False, pg_type = ''add'', pg_form = ''b'', pg_table = Some [''a'', ''b'']\<rparr>, w') \<and> w_open w' = []"
proof -
  define rs :: "string resource" where "rs = \<lparr>rs_name = ''group'', rs_list_method = ''get'', rs_list_body = ''''\<rparr>"
  define p :: "(string, string list) page" where "p = \<lparr>pg_visible = True, pg_type = ''add'', pg_form = ''b'', pg_table = Some [''a'']\<rparr>"
  define w :: "(string list, string list) world" where
    "w = \<lparr>w_open = [], w_next = 1, w_shared = None, w_token = None, w_tenant = None, w_messages = [], w_path = ''/'', w_server = [''a'']\<rparr>"
  have a: "pg_type p = ''add''" by (simp add: p_def)
  have b: "toy_server (w_server w) (sent ''post'' (rs_url rs ''add'') (pg_form p) w) = (Answer 200 [], [''a'', ''b''])"
    by (simp add: toy_server_def rs_url_def rs_def p_def w_def)
  have c: "q_url c = rs_url rs ''list'' \<Longrightarrow> toy_server [''a'', ''b''] c = (Answer 200 [''a'', ''b''], [''a'', ''b''])" for c
    by (simp add: toy_server_def rs_url_def rs_def)
  have "accepted 200" by (simp add: accepted_def)
  then show ?thesis
    using web_save_shows_list [where late = True and srv = toy_server and rs = rs and p = p and w = w, OF a b c] unfolding rs_def [symmetric] p_def [symmetric] w_def [symmetric]
    by (auto simp: p_def w_def)
qed

text \<open>
  C36: Login and session. An accepted login stores the token and the tenant, and the next call of any kind
  carries both; without a tenant the browser goes to the page of the tenants, with one to that of its
  nodes. A refused login changes neither token nor tenant, and its loading flag stays set.
\<close>

theorem web_login_session:
  assumes "srv (w_server w) (sent ''post'' ''/api/account/login'' (body (lp_form p)) w) = (Answer st d, s)"
  shows "(accepted st \<longrightarrow> (\<exists>w'. login srv body tok ten p w = (p\<lparr>lp_loading := Some False\<rparr>, w') \<and>
      jget (q_headers (sent m u b w')) ''Access-Token'' = Some (HStr (tok d)) \<and>
      (case ten d of
         None \<Rightarrow> w_tenant w' = w_tenant w \<and> page_of (w_path w') = Some ''tenant''
       | Some t \<Rightarrow> jget (q_headers (sent m u b w')) ''X-Tenant-Id'' = Some (HStr t) \<and> page_of (w_path w') = Some ''node''))) \<and>
     (\<not> accepted st \<longrightarrow> (\<exists>w'. login srv body tok ten p w = (p\<lparr>lp_loading := Some True\<rparr>, w') \<and>
      w_token w' = w_token w \<and> w_tenant w' = w_tenant w \<and> w_open w' = overlays_after ''post'' w))"
proof -
  have pages: "page_of ''/rootSpace'' = Some ''tenant''" "page_of ''/tenantSpace'' = Some ''node''"
    by (simp_all add: page_of_def route_redirects_def route_names_def)
  have f1: "accepted st \<Longrightarrow> \<exists>w'. login srv body tok ten p w = (p\<lparr>lp_loading := Some False\<rparr>, w') \<and>
      jget (q_headers (sent m u b w')) ''Access-Token'' = Some (HStr (tok d)) \<and>
      (case ten d of
         None \<Rightarrow> w_tenant w' = w_tenant w \<and> page_of (w_path w') = Some ''tenant''
       | Some t \<Rightarrow> jget (q_headers (sent m u b w')) ''X-Tenant-Id'' = Some (HStr t) \<and> page_of (w_path w') = Some ''node'')"
    by (cases "ten d") (simp_all add: login_def api_eq [of srv w, OF assms] pages Let_def)
  have f2: "\<not> accepted st \<Longrightarrow> \<exists>w'. login srv body tok ten p w = (p\<lparr>lp_loading := Some True\<rparr>, w') \<and>
      w_token w' = w_token w \<and> w_tenant w' = w_tenant w \<and> w_open w' = overlays_after ''post'' w"
    by (simp add: login_def api_eq [of srv w, OF assms] show_message_def Let_def)
  show ?thesis using f1 f2 by blast
qed

lemma web_login_session_witness:
  "\<exists>w'. login (\<lambda>s c. (Answer 200 (''tok'', Some ''7''), s)) lf_username fst snd
      \<lparr>lp_form = \<lparr>lf_username = ''u'', lf_password = ''p'', lf_loading = False\<rparr>, lp_loading = None\<rparr>
      \<lparr>w_open = [], w_next = 1, w_shared = None, w_token = None, w_tenant = None, w_messages = [], w_path = ''/account'', w_server = ()\<rparr>
      = (\<lparr>lp_form = \<lparr>lf_username = ''u'', lf_password = ''p'', lf_loading = False\<rparr>, lp_loading = Some False\<rparr>, w')
    \<and> page_of (w_path w') = Some ''node''"
proof -
  define w :: "(string \<times> string option, unit) world" where
    "w = \<lparr>w_open = [], w_next = 1, w_shared = None, w_token = None, w_tenant = None, w_messages = [], w_path = ''/account'', w_server = ()\<rparr>"
  have a: "(\<lambda>s c. (Answer 200 (''tok'', Some ''7''), s)) (w_server w)
      (sent ''post'' ''/api/account/login'' (lf_username (lp_form \<lparr>lp_form = \<lparr>lf_username = ''u'', lf_password = ''p'', lf_loading = False\<rparr>, lp_loading = None\<rparr>)) w)
    = (Answer 200 (''tok'', Some ''7''), ())" by simp
  have "accepted 200" by (simp add: accepted_def)
  then show ?thesis
    using web_login_session [where tok = fst and ten = snd and body = lf_username and w = w and st = 200 and s = "()"
      and srv = "\<lambda>s c. (Answer 200 (''tok'', Some ''7''), s)" and d = "(''tok'', Some ''7'')"
      and p = "\<lparr>lp_form = \<lparr>lf_username = ''u'', lf_password = ''p'', lf_loading = False\<rparr>, lp_loading = None\<rparr>"]
    unfolding w_def [symmetric] by fastforce
qed

text \<open>
  The list of tags. Closing a tag of the list removes its first occurrence and nothing else; confirming an
  input by Enter, after which the field also loses the focus, adds the text once, and an empty input adds
  nothing; setting a tag changes no other. Closing a text that is no tag would remove the last tag.
\<close>

theorem web_tags_correct:
  "tg_tags (handleClose e g) = (if e \<in> set (tg_tags g) then remove1 e (tg_tags g) else butlast (tg_tags g)) \<and>
   tg_tags (handleInputConfirm (handleInputConfirm g)) =
     (if tg_inputValue g = '''' then tg_tags g else tg_tags g @ [tg_inputValue g]) \<and>
   length (tg_tags (updateTag i v g)) = length (tg_tags g) \<and>
   map_of (enumerate 0 (tg_tags (updateTag i v g))) j =
     (if j = i \<and> i < length (tg_tags g) then Some v else map_of (enumerate 0 (tg_tags g)) j)"
proof -
  have nth: "map_of (enumerate 0 xs) j = (if j < length xs then Some (xs ! j) else None)" for xs :: "string list" and j
    by (induction xs rule: rev_induct) (auto simp: enumerate_append_eq nth_append map_add_def split: option.splits)
  show ?thesis
    unfolding nth by (auto simp: handleClose_def splice1_index_of splice1_absent handleInputConfirm_def updateTag_def)
qed

end
