(* ===== verification/WebVue.thy ===== *)
theory WebVue
  imports NetPrelude
begin

text \<open>
  Two algorithms of the Vue runtime that the console bundles (\<open>@vue/runtime-core\<close>): \<open>getSequence\<close>, which finds the
  children that a reordering leaves in place, and the job queue of the scheduler. Identifiers are those of
  the Vue sources, with the minified name in parentheses. Indices are natural numbers; the shifts \<open>>>1\<close> and
  \<open>>>>1\<close> of the binary searches are halves, as the sums of two array indices stay below \<open>2^31\<close>.

  \<open>getSequence\<close> keeps, for every length, the last index of the increasing subsequence of that length with the smallest end,
  and links every index to its predecessor. The lemmas state this of the loop, and with it that the result is
  an increasing subsequence and that none is longer.
\<close>

section \<open>Binary searches\<close>

text \<open>What a search by halves finds, if \<open>P\<close> holds on a front part of the range.\<close>

lemma half_search:
  assumes f: "\<And>u v :: nat. f u v = (if u < v then if P ((u + v) div 2) then f ((u + v) div 2 + 1) v else f u ((u + v) div 2) else u)"
  shows "u \<le> v \<Longrightarrow> (\<And>a b. u \<le> a \<Longrightarrow> a \<le> b \<Longrightarrow> b < v \<Longrightarrow> P b \<Longrightarrow> P a) \<Longrightarrow>
    u \<le> f u v \<and> f u v \<le> v \<and> (\<forall>a. u \<le> a \<longrightarrow> a < f u v \<longrightarrow> P a) \<and> (\<forall>a. f u v \<le> a \<longrightarrow> a < v \<longrightarrow> \<not> P a)"
proof (induction "v - u" arbitrary: u v rule: less_induct)
  case less
  let ?m = "(u + v) div 2"
  consider (stop) "\<not> u < v" | (up) "u < v" "P ?m" | (down) "u < v" "\<not> P ?m" by blast
  then show ?case
  proof cases
    case stop
    then have "f u v = u" by (subst f) simp
    then show ?thesis using stop less.prems(1) by auto
  next
    case up
    then have m: "?m + 1 \<le> v" "v - (?m + 1) < v - u" "u \<le> ?m" "?m < v" by auto
    have e: "f u v = f (?m + 1) v" by (subst f) (simp add: up)
    have i: "?m + 1 \<le> f u v \<and> f u v \<le> v \<and> (\<forall>a. ?m + 1 \<le> a \<longrightarrow> a < f u v \<longrightarrow> P a) \<and> (\<forall>a. f u v \<le> a \<longrightarrow> a < v \<longrightarrow> \<not> P a)"
      unfolding e
    proof (rule less.hyps [OF m(2,1)])
      fix a b assume "?m + 1 \<le> a" "a \<le> b" "b < v" "P b"
      then show "P a" using less.prems(2) [of a b] m(3) by simp
    qed
    have "P a" if "u \<le> a" "a < f u v" for a
      using less.prems(2) [OF that(1) _ m(4) up(2)] i that by (cases "a < ?m + 1") auto
    then show ?thesis using i m(3) by simp
  next
    case down
    then have m: "?m - u < v - u" "u \<le> ?m" "?m < v" by auto
    have e: "f u v = f u ?m" by (subst f) (simp add: down)
    have i: "u \<le> f u v \<and> f u v \<le> ?m \<and> (\<forall>a. u \<le> a \<longrightarrow> a < f u v \<longrightarrow> P a) \<and> (\<forall>a. f u v \<le> a \<longrightarrow> a < ?m \<longrightarrow> \<not> P a)"
      unfolding e
    proof (rule less.hyps [OF m(1,2)])
      fix a b assume "u \<le> a" "a \<le> b" "b < ?m" "P b"
      then show "P a" using less.prems(2) [of a b] m(3) by simp
    qed
    have "\<not> P a" if "f u v \<le> a" "a < v" for a
      using less.prems(2) [OF m(2) _ that(2)] down(2) i that by (cases "a < ?m") auto
    then show ?thesis using i m(3) by simp
  qed
qed

section \<open>getSequence (d9)\<close>

text \<open>The binary search for the first kept end that is not below \<open>c\<close>.\<close>

function seq_search :: "nat list \<Rightarrow> nat list \<Rightarrow> nat \<Rightarrow> nat \<Rightarrow> nat \<Rightarrow> nat" where
  "seq_search arr result c u v =
     (if u < v
      then (let m = (u + v) div 2
            in if arr ! (result ! m) < c then seq_search arr result c (m + 1) v else seq_search arr result c u m)
      else u)"
  by pat_completeness auto
termination by (relation "measure (\<lambda>(arr, result, c, u, v). v - u)") auto

declare seq_search.simps [simp del]

text \<open>One step of the loop: \<open>p\<close> links every index to its predecessor, \<open>result\<close> holds the kept ends.\<close>

definition seq_step :: "nat list \<Rightarrow> nat \<Rightarrow> nat list \<times> nat list \<Rightarrow> nat list \<times> nat list" where
  "seq_step arr i s =
     (let (p, result) = s; arrI = arr ! i
      in if arrI = 0 then (p, result)
         else let j = last result
              in if arr ! j < arrI then (p[i := j], result @ [i])
                 else let u = seq_search arr result arrI 0 (length result - 1)
                      in if arrI < arr ! (result ! u)
                         then (if u > 0 then p[i := result ! (u - 1)] else p, result[u := i])
                         else (p, result))"

text \<open>The walk back along the links, from the last kept end.\<close>

fun seq_back :: "nat list \<Rightarrow> nat \<Rightarrow> nat \<Rightarrow> nat list \<Rightarrow> nat list" where
  "seq_back p v 0 result = result"
| "seq_back p v (Suc u) result = seq_back p (p ! v) u (result[u := v])"

definition getSequence :: "nat list \<Rightarrow> nat list" where
  "getSequence arr =
     (let (p, result) = fold (seq_step arr) [0..<length arr] (arr, [0])
      in seq_back p (result ! (length result - 1)) (length result) result)"

section \<open>Increasing subsequences\<close>

text \<open>Indices that count: the first one, and those of old children. Zero stands for a new child.\<close>

definition counted :: "nat list \<Rightarrow> nat \<Rightarrow> bool" where
  "counted arr i \<longleftrightarrow> i = 0 \<or> i < length arr \<and> arr ! i \<noteq> 0"

definition increasing :: "nat list \<Rightarrow> nat list \<Rightarrow> bool" where
  "increasing arr js \<longleftrightarrow> sorted_wrt (<) js \<and> sorted_wrt (\<lambda>i j. arr ! i < arr ! j) js \<and> (\<forall>j \<in> set js. counted arr j)"

lemma increasing_snoc:
  "increasing arr (js @ [i]) \<longleftrightarrow> increasing arr js \<and> counted arr i \<and> (js \<noteq> [] \<longrightarrow> last js < i \<and> arr ! last js < arr ! i)"
proof (cases js rule: rev_cases)
  case (snoc ks k)
  have "\<And>x. x < k \<Longrightarrow> k < i \<Longrightarrow> x < i" by simp
  then show ?thesis unfolding snoc by (auto simp: increasing_def sorted_wrt_append)
qed (simp add: increasing_def)

text \<open>The subsequence that the links give for an index at position \<open>k\<close>.\<close>

fun chain :: "nat list \<Rightarrow> nat \<Rightarrow> nat \<Rightarrow> nat list" where
  "chain p i 0 = [i]"
| "chain p i (Suc k) = chain p (p ! i) k @ [i]"

lemma length_chain [simp]: "length (chain p i k) = Suc k"
  by (induction k arbitrary: i) simp_all

lemma last_chain [simp]: "last (chain p i k) = i" "chain p i k \<noteq> []"
  by (cases k; simp)+

lemma chain_update: "o' \<notin> set (chain p i k) \<Longrightarrow> chain (p[o' := x]) i k = chain p i k"
  by (induction k arbitrary: i) auto

lemma chain_le: "increasing arr (chain p i k) \<Longrightarrow> j \<in> set (chain p i k) \<Longrightarrow> j \<le> i"
proof -
  assume i: "increasing arr (chain p i k)" and j: "j \<in> set (chain p i k)"
  obtain xs where xs: "chain p i k = xs @ [i]" by (cases k) auto
  show "j \<le> i" using i j unfolding xs increasing_def by (auto simp: sorted_wrt_append)
qed

section \<open>The binary search\<close>

lemma seq_search_eqs:
  "\<not> u < v \<Longrightarrow> seq_search arr result c u v = u"
  "u < v \<Longrightarrow> arr ! (result ! ((u + v) div 2)) < c \<Longrightarrow> seq_search arr result c u v = seq_search arr result c ((u + v) div 2 + 1) v"
  "u < v \<Longrightarrow> \<not> arr ! (result ! ((u + v) div 2)) < c \<Longrightarrow> seq_search arr result c u v = seq_search arr result c u ((u + v) div 2)"
  by (simp_all add: seq_search.simps [of arr result c u v] Let_def)

lemma seq_search_first:
  assumes inc: "\<And>a b. a < b \<Longrightarrow> b < length result \<Longrightarrow> arr ! (result ! a) < arr ! (result ! b)"
    and ne: "result \<noteq> []" "\<not> arr ! last result < c"
  shows "seq_search arr result c 0 (length result - 1) < length result"
    "a < seq_search arr result c 0 (length result - 1) \<Longrightarrow> arr ! (result ! a) < c"
    "\<not> arr ! (result ! seq_search arr result c 0 (length result - 1)) < c"
proof -
  let ?n = "length result - 1"
  have n: "?n < length result" using ne(1) by simp
  have mono: "arr ! (result ! a) < c" if "a \<le> b" "b < ?n" "arr ! (result ! b) < c" for a b
    using that n inc [of a b] by (cases "a = b") auto
  have h: "0 \<le> seq_search arr result c 0 ?n \<and> seq_search arr result c 0 ?n \<le> ?n \<and>
      (\<forall>a. 0 \<le> a \<longrightarrow> a < seq_search arr result c 0 ?n \<longrightarrow> arr ! (result ! a) < c) \<and>
      (\<forall>a. seq_search arr result c 0 ?n \<le> a \<longrightarrow> a < ?n \<longrightarrow> \<not> arr ! (result ! a) < c)"
    by (rule half_search) (use mono in \<open>auto simp: seq_search.simps [of _ _ _ u for u] Let_def\<close>)
  show "seq_search arr result c 0 ?n < length result" using h n by simp
  show "arr ! (result ! a) < c" if "a < seq_search arr result c 0 ?n" using h that by simp
  show "\<not> arr ! (result ! seq_search arr result c 0 ?n) < c"
    using h ne(2) last_conv_nth [OF ne(1)] by (cases "seq_search arr result c 0 ?n = ?n") auto
qed

section \<open>The loop\<close>

text \<open>
  What holds after the indices below \<open>i\<close>: the kept ends increase, every kept end at position \<open>k\<close> ends the
  increasing subsequence of length \<open>k + 1\<close> of its links, and no increasing subsequence so far is longer than there
  are ends or ends below the one kept for its length.
\<close>

definition seq_inv :: "nat list \<Rightarrow> nat \<Rightarrow> nat list \<times> nat list \<Rightarrow> bool" where
  "seq_inv arr i s \<longleftrightarrow> (case s of (p, result) \<Rightarrow>
     length p = length arr \<and> result \<noteq> [] \<and>
     (\<forall>r \<in> set result. r < max i 1) \<and>
     (\<forall>a b. a < b \<longrightarrow> b < length result \<longrightarrow> arr ! (result ! a) < arr ! (result ! b)) \<and>
     (\<forall>k < length result. increasing arr (chain p (result ! k) k)) \<and>
     (\<forall>js. js \<noteq> [] \<longrightarrow> increasing arr js \<longrightarrow> last js < max i 1 \<longrightarrow>
        length js \<le> length result \<and> arr ! (result ! (length js - 1)) \<le> arr ! last js))"

lemma increasing_bounded: "increasing arr js \<Longrightarrow> j \<in> set js \<Longrightarrow> j \<le> last js"
  by (cases js rule: rev_cases) (auto simp: increasing_def sorted_wrt_append)

lemma increasing_last_0: "increasing arr js \<Longrightarrow> js \<noteq> [] \<Longrightarrow> last js = 0 \<Longrightarrow> js = [0]"
proof -
  assume a: "increasing arr js" "js \<noteq> []" "last js = 0"
  obtain ks where ks: "js = ks @ [0]" using a(2,3) by (cases js rule: rev_cases) auto
  have "ks = []" using a(1) unfolding ks increasing_snoc by auto
  then show ?thesis by (simp add: ks)
qed

lemma seq_inv_0: "arr \<noteq> [] \<Longrightarrow> seq_inv arr 0 (arr, [0])"
proof -
  have "length js \<le> 1 \<and> arr ! ([0] ! (length js - 1)) \<le> arr ! last js"
    if "increasing arr js" "js \<noteq> []" "last js < 1" for js
    using increasing_last_0 [OF that(1,2)] that(3) by simp
  then show ?thesis by (simp add: seq_inv_def increasing_def counted_def)
qed

lemma increasing_split:
  assumes "increasing arr js" "js \<noteq> []" "last js = i"
  obtains ks where "js = ks @ [i]" "increasing arr ks" "ks \<noteq> [] \<Longrightarrow> last ks < i \<and> arr ! last ks < arr ! i"
  using assms increasing_snoc by (cases js rule: rev_cases) auto


text \<open>The values of the kept ends, from the invariant.\<close>

lemma seq_invD:
  assumes "seq_inv arr i (p, result)"
  shows "length p = length arr" "result \<noteq> []" "r \<in> set result \<Longrightarrow> r < max i 1"
    "a < b \<Longrightarrow> b < length result \<Longrightarrow> arr ! (result ! a) < arr ! (result ! b)"
    "k < length result \<Longrightarrow> increasing arr (chain p (result ! k) k)"
    "js \<noteq> [] \<Longrightarrow> increasing arr js \<Longrightarrow> last js < max i 1 \<Longrightarrow>
      length js \<le> length result \<and> arr ! (result ! (length js - 1)) \<le> arr ! last js"
  using assms unfolding seq_inv_def by auto

lemma seq_above:
  assumes "seq_inv arr i (p, result)" "\<not> arr ! (result ! a) < c" "a \<le> b" "b < length result"
  shows "c \<le> arr ! (result ! b)"
  using assms(2,3,4) seq_invD(4) [OF assms(1), of a b] by (cases "a = b") auto

text \<open>Where a subsequence that ends in \<open>i\<close> can be, when \<open>a\<close> is the first end that is not below.\<close>

lemma seq_at:
  assumes I: "seq_inv arr i (p, result)" and i: "0 < i" and js: "increasing arr js" "js \<noteq> []" "last js = i"
    and below: "\<And>b. b < a \<Longrightarrow> arr ! (result ! b) < arr ! i"
    and above: "\<And>b. a \<le> b \<Longrightarrow> b < length result \<Longrightarrow> arr ! i \<le> arr ! (result ! b)"
  shows "length js - 1 \<le> a"
proof (rule increasing_split [OF js])
  fix ks assume ks: "js = ks @ [i]" "increasing arr ks" "ks \<noteq> [] \<Longrightarrow> last ks < i \<and> arr ! last ks < arr ! i"
  show ?thesis
  proof (cases "ks = []")
    case False
    have m: "length ks \<le> length result" "arr ! (result ! (length ks - 1)) \<le> arr ! last ks"
      using seq_invD(6) [OF I False ks(2)] ks(3) [OF False] by auto
    then have "arr ! (result ! (length ks - 1)) < arr ! i" using ks(3) [OF False] by simp
    moreover have "length ks - 1 < length result" using m(1) False by (cases ks) auto
    ultimately have "length ks - 1 < a" using above [of "length ks - 1"] by (meson not_le)
    then show ?thesis using ks(1) False by (cases ks) auto
  qed (simp add: ks(1))
qed

lemma seq_same:
  assumes I: "seq_inv arr i (p, result)" and i: "0 < i" "a < length result" "arr ! (result ! a) = arr ! i"
    and below: "\<And>b. b < a \<Longrightarrow> arr ! (result ! b) < arr ! i"
  shows "seq_inv arr (Suc i) (p, result)"
proof -
  have "length js \<le> length result \<and> arr ! (result ! (length js - 1)) \<le> arr ! last js"
    if js: "js \<noteq> []" "increasing arr js" "last js < Suc i" for js
  proof (cases "last js = i")
    case True
    have "length js - 1 \<le> a"
      by (rule seq_at [OF I i(1) js(2,1) True below]) (use seq_above [OF I, of a "arr ! i"] i(3) in auto)
    then show ?thesis using i below [of "length js - 1"] True by (cases "length js - 1 = a") (auto simp: le_less)
  next
    case False
    then show ?thesis using seq_invD(6) [OF I js(1,2)] js(3) by simp
  qed
  then show ?thesis using seq_invD [OF I] i(1) unfolding seq_inv_def by (auto simp: less_Suc_eq)
qed

lemma seq_place:
  assumes I: "seq_inv arr i (p, result)" and i: "0 < i" "i < length arr" "arr ! i \<noteq> 0"
    and below: "\<And>b. b < a \<Longrightarrow> arr ! (result ! b) < arr ! i"
    and above: "\<And>b. a \<le> b \<Longrightarrow> b < length result \<Longrightarrow> arr ! i \<le> arr ! (result ! b)"
    and a: "a \<le> length result"
    and r': "length result' = max (length result) (Suc a)" "\<And>b. b < length result' \<Longrightarrow> result' ! b = (if b = a then i else result ! b)"
    and p': "p' = (if a > 0 then p[i := result ! (a - 1)] else p)"
  shows "seq_inv arr (Suc i) (p', result')"
  unfolding seq_inv_def prod.case
proof (intro conjI allI impI ballI)
  show "length p' = length arr" using seq_invD(1) [OF I] by (simp add: p')
  show "result' \<noteq> []" using r'(1) by auto
  have lt: "result ! b < i" if "b < length result" for b using seq_invD(3) [OF I, of "result ! b"] that i(1) by simp
  show "r < max (Suc i) 1" if r: "r \<in> set result'" for r
  proof -
    obtain b where b: "b < length result'" "r = result' ! b" using r by (auto simp: in_set_conv_nth)
    show ?thesis
    proof (cases "b = a")
      case False
      then have "b < length result" using b(1) r'(1) a by auto
      then show ?thesis using b(2) r'(2) [OF b(1)] lt False by (simp add: less_SucI)
    qed (use b r'(2) [OF b(1)] in simp)
  qed
  show "arr ! (result' ! b) < arr ! (result' ! d)" if "b < d" "d < length result'" for b d
  proof -
    consider "d = a" | "b = a" | "d \<noteq> a" "b \<noteq> a" by blast
    then show ?thesis
    proof cases
      case 1
      then show ?thesis using that r'(2) [of b] r'(2) [of d] below [of b] by simp
    next
      case 2
      then have "d < length result" using that r'(1) a by auto
      then show ?thesis using that r'(2) [of b] r'(2) [of d] 2 above [of a] seq_invD(4) [OF I, of a d] by fastforce
    next
      case 3
      then have "d < length result" using that r'(1) a by auto
      then show ?thesis using that r'(2) [of b] r'(2) [of d] 3 seq_invD(4) [OF I, of b d] by simp
    qed
  qed
  have keep: "chain p' (result ! k) k = chain p (result ! k) k" if "k < length result" for k
  proof -
    have "i \<notin> set (chain p (result ! k) k)" using chain_le [OF seq_invD(5) [OF I that], of i] lt [OF that] by auto
    then show ?thesis by (simp add: p' chain_update)
  qed
  have ci: "counted arr i" using i by (simp add: counted_def)
  show "increasing arr (chain p' (result' ! k) k)" if "k < length result'" for k
  proof (cases "k = a")
    case False
    then have "k < length result" using that r'(1) a by auto
    then show ?thesis using False r'(2) [OF that] keep seq_invD(5) [OF I] by simp
  next
    case True
    show ?thesis
    proof (cases a)
      case 0
      then show ?thesis using True r'(2) [OF that] ci by (simp add: increasing_def)
    next
      case (Suc b)
      then have b: "b < length result" using a by simp
      have "p' ! i = result ! b" using Suc seq_invD(1) [OF I] i(2) by (simp add: p')
      then have "chain p' (result' ! k) k = chain p (result ! b) b @ [i]" using True Suc r'(2) [OF that] keep [OF b] by simp
      then show ?thesis using seq_invD(5) [OF I b] ci lt [OF b] below [of b] Suc by (simp add: increasing_snoc)
    qed
  qed
  fix js assume js: "js \<noteq> []" "increasing arr js" "last js < max (Suc i) 1"
  show len: "length js \<le> length result'"
  proof (cases "last js = i")
    case True
    have "length js - 1 \<le> a" by (rule seq_at [OF I i(1) js(2,1) True below above])
    then show ?thesis using r'(1) by auto
  next
    case False
    then show ?thesis using seq_invD(6) [OF I js(1,2)] js(3) r'(1) by (simp add: le_max_iff_disj)
  qed
  show "arr ! (result' ! (length js - 1)) \<le> arr ! last js"
  proof (cases "last js = i")
    case True
    have "length js - 1 \<le> a" by (rule seq_at [OF I i(1) js(2,1) True below above])
    moreover have "length js - 1 < length result'" using len js(1) by (cases js) auto
    ultimately show ?thesis using r'(2) [of "length js - 1"] below [of "length js - 1"] True by (cases "length js - 1 = a") auto
  next
    case False
    then have m: "length js \<le> length result" "arr ! (result ! (length js - 1)) \<le> arr ! last js"
      using seq_invD(6) [OF I js(1,2)] js(3) by auto
    moreover have "length js - 1 < length result" using m(1) js(1) by (cases js) auto
    ultimately show ?thesis using r'(2) [of "length js - 1"] above [of "length js - 1"] r'(1) by (cases "length js - 1 = a") auto
  qed
qed

lemma seq_inv_step:
  assumes I: "seq_inv arr i (p, result)" and i: "i < length arr"
  shows "seq_inv arr (Suc i) (seq_step arr i (p, result))"
proof (cases "i = 0")
  case True
  have z: "r = 0" if "r \<in> set result" for r using seq_invD(3) [OF I that] True by simp
  have "length result = 1"
  proof (rule ccontr)
    assume "length result \<noteq> 1"
    then have l: "1 < length result" using seq_invD(2) [OF I] by (cases result) auto
    then have "result ! 0 \<in> set result" "result ! 1 \<in> set result" using seq_invD(2) [OF I] by (auto intro: nth_mem)
    then have "result ! 0 = 0" "result ! 1 = 0" by (auto intro: z)
    then show False using seq_invD(4) [OF I zero_less_one l] by simp
  qed
  then obtain r where "result = [r]" by (auto simp: length_Suc_conv)
  then have r: "result = [0]" using z by simp
  have "seq_step arr 0 (p, [0]) = (p, [0])" by (simp add: seq_step_def Let_def seq_search_eqs(1))
  then show ?thesis using I True r unfolding seq_inv_def by simp
next
  case False
  show ?thesis
  proof (cases "arr ! i = 0")
    case True
    have "length js \<le> length result \<and> arr ! (result ! (length js - 1)) \<le> arr ! last js"
      if js: "js \<noteq> []" "increasing arr js" "last js < Suc i" for js
    proof -
      have "counted arr (last js)" using js by (simp add: increasing_def)
      then have "last js \<noteq> i" using True False by (auto simp: counted_def)
      then show ?thesis using seq_invD(6) [OF I js(1,2)] js(3) by simp
    qed
    then have "seq_inv arr (Suc i) (p, result)" using seq_invD [OF I] False unfolding seq_inv_def by (auto simp: less_Suc_eq)
    then show ?thesis by (simp add: seq_step_def True)
  next
    case c: False
    have ne: "result \<noteq> []" by (rule seq_invD(2) [OF I])
    have l: "last result = result ! (length result - 1)" using ne by (rule last_conv_nth)
    show ?thesis
    proof (cases "arr ! last result < arr ! i")
      case True
      have below: "arr ! (result ! b) < arr ! i" if "b < length result" for b
      proof (cases "b = length result - 1")
        case False
        then have "arr ! (result ! b) < arr ! last result" unfolding l by (intro seq_invD(4) [OF I]) (use that in auto)
        then show ?thesis using True by simp
      qed (use True l in simp)
      have "seq_inv arr (Suc i) (p[i := last result], result @ [i])"
        by (rule seq_place [OF I _ i c below]) (use False ne l in \<open>auto simp: nth_append\<close>)
      then show ?thesis using True c by (simp add: seq_step_def Let_def)
    next
      case nb: False
      define a where "a = seq_search arr result (arr ! i) 0 (length result - 1)"
      have s: "\<And>b. b < a \<Longrightarrow> arr ! (result ! b) < arr ! i" "\<not> arr ! (result ! a) < arr ! i" and al: "a < length result"
        unfolding a_def using seq_search_first [OF seq_invD(4) [OF I] ne nb] by blast+
      have st: "seq_step arr i (p, result) = (if arr ! i < arr ! (result ! a)
          then (if a > 0 then p[i := result ! (a - 1)] else p, result[a := i]) else (p, result))"
        unfolding seq_step_def Let_def prod.case a_def [symmetric] using c nb by simp
      show ?thesis
      proof (cases "arr ! i < arr ! (result ! a)")
        case True
        have "seq_inv arr (Suc i) (if a > 0 then p[i := result ! (a - 1)] else p, result[a := i])"
          by (rule seq_place [OF I _ i c s(1)]) (use False seq_above [OF I s(2)] al in \<open>auto simp: nth_list_update\<close>)
        then show ?thesis using True unfolding st by simp
      next
        case eq: False
        have "seq_inv arr (Suc i) (p, result)" by (rule seq_same [OF I _ al _ s(1)]) (use False eq s(2) in auto)
        then show ?thesis using eq unfolding st by simp
      qed
    qed
  qed
qed


lemma seq_loop:
  "arr \<noteq> [] \<Longrightarrow> n \<le> length arr \<Longrightarrow> seq_inv arr n (fold (seq_step arr) [0..<n] (arr, [0]))"
proof (induction n)
  case (Suc n)
  then show ?case using seq_inv_step [of arr n "fst (fold (seq_step arr) [0..<n] (arr, [0]))" "snd (fold (seq_step arr) [0..<n] (arr, [0]))"] by simp
qed (simp add: seq_inv_0)

section \<open>The walk back\<close>

lemma length_seq_back [simp]: "length (seq_back p v u result) = length result"
  by (induction p v u result rule: seq_back.induct) simp_all

text \<open>The walk back writes the links of the last end over the front of the array.\<close>

lemma seq_back_chain:
  "u < length result \<Longrightarrow> seq_back p v (Suc u) result = chain p v u @ drop (Suc u) result"
proof (induction u arbitrary: v result)
  case 0
  then show ?case by (cases result) auto
next
  case (Suc u)
  have "seq_back p v (Suc (Suc u)) result = seq_back p (p ! v) (Suc u) (result[Suc u := v])" by simp
  also have "\<dots> = chain p (p ! v) u @ drop (Suc u) (result[Suc u := v])" by (rule Suc.IH) (use Suc.prems in simp)
  also have "drop (Suc u) (result[Suc u := v]) = v # drop (Suc (Suc u)) result"
    using Suc.prems by (simp add: Cons_nth_drop_Suc [symmetric])
  finally show ?case by simp
qed

lemma getSequence_chain:
  assumes "arr \<noteq> []"
  obtains p result where "seq_inv arr (length arr) (p, result)"
    "getSequence arr = chain p (result ! (length result - 1)) (length result - 1)"
proof -
  obtain p result where e: "fold (seq_step arr) [0..<length arr] (arr, [0]) = (p, result)" by fastforce
  have I: "seq_inv arr (length arr) (p, result)" using seq_loop [OF assms, of "length arr"] by (simp add: e)
  obtain u where u: "length result = Suc u" using seq_invD(2) [OF I] by (cases result) auto
  have "getSequence arr = chain p (result ! u) u"
    using seq_back_chain [of u result p "result ! u"] by (simp add: getSequence_def e u del: seq_back.simps)
  then show thesis using that I u by simp
qed

section \<open>The result\<close>

text \<open>
  C14: Reordered children move as little as possible. For the old positions of the new children (one more than
  the old index, or zero for a new child), \<open>getSequence\<close> gives an increasing subsequence of children that can
  stay in place, and no increasing subsequence is longer. As the code does not test the first entry
  for zero, the first child counts as an old one.
\<close>

theorem web_sequence_longest:
  assumes "arr \<noteq> []"
  shows "increasing arr (getSequence arr) \<and> (\<forall>js. increasing arr js \<longrightarrow> length js \<le> length (getSequence arr))"
proof (rule getSequence_chain [OF assms])
  fix p result assume I: "seq_inv arr (length arr) (p, result)"
    and g: "getSequence arr = chain p (result ! (length result - 1)) (length result - 1)"
  have n: "0 < length result" using seq_invD(2) [OF I] by simp
  have "length js \<le> length result" if js: "increasing arr js" for js
  proof (cases "js = []")
    case False
    then have "counted arr (last js)" using js by (simp add: increasing_def)
    then show ?thesis using seq_invD(6) [OF I False js] assms by (auto simp: counted_def Suc_le_eq)
  qed simp
  then show ?thesis using seq_invD(5) [OF I, of "length result - 1"] n by (simp add: g)
qed

theorem web_sequence_longest_witness:
  "getSequence [2, 3, 1, 5, 6, 8, 7, 9, 4] = [0, 1, 3, 4, 6, 7] \<and> increasing [2, 3, 1, 5, 6, 8, 7, 9, 4] [0, 1, 3, 4, 6, 7]"
proof -
  have e: "getSequence [2, 3, 1, 5, 6, 8, 7, 9, 4] = [0, 1, 3, 4, 6, 7]"
    by (simp add: getSequence_def seq_step_def seq_search_eqs Let_def upt_rec)
  show ?thesis using web_sequence_longest [of "[2, 3, 1, 5, 6, 8, 7, 9, 4]", unfolded e] e by simp
qed

end
