(* ===== verification/WebScheduler.thy ===== *)
theory WebScheduler
  imports WebVue "HOL-Library.Product_Lexorder"
begin

text \<open>
  The job queue of the Vue runtime that the console bundles (\<open>scheduler\<close> of \<open>@vue/runtime-core\<close>). Updates
  of components and callbacks of watchers are jobs; they wait in a queue that is kept in the order of their ids, and
  a microtask runs them, parents before children. Callbacks that come after rendering wait in a list of
  their own. Identifiers are those of the Vue sources, with the minified name in parentheses.

  The functions below run code of the application, which calls the scheduler again, so the model is a
  machine with a stack: a frame is a loop of the scheduler, at its head or running one job. \<open>Go\<close> runs the loop on top up
  to the next job, \<open>Return\<close> and \<open>Throw\<close> end the job on top, and the other events are the calls that
  running code makes. Every sequence of events is considered, so every application is. The lemmas show
  that the queue stays sorted, that no job waits twice, and that a queued job waits or runs until it is done.
\<close>

unbundle bit_operations_syntax

section \<open>Jobs\<close>

text \<open>The number that \<open>getId\<close> gives: an integer or \<open>Infinity\<close>.\<close>

datatype jid = Fin int | Infinity

instantiation jid :: linorder
begin

fun less_eq_jid :: "jid \<Rightarrow> jid \<Rightarrow> bool" where
  "less_eq_jid _ Infinity \<longleftrightarrow> True"
| "less_eq_jid Infinity (Fin _) \<longleftrightarrow> False"
| "less_eq_jid (Fin a) (Fin b) \<longleftrightarrow> a \<le> b"

definition less_jid :: "jid \<Rightarrow> jid \<Rightarrow> bool" where
  "less_jid a b \<longleftrightarrow> a \<le> b \<and> \<not> b \<le> a"

instance
proof
  fix x y z :: jid
  show "x < y \<longleftrightarrow> x \<le> y \<and> \<not> y \<le> x" by (rule less_jid_def)
  show "x \<le> x" by (cases x) simp_all
  show "x \<le> y \<Longrightarrow> y \<le> z \<Longrightarrow> x \<le> z" by (cases x; cases y; cases z) simp_all
  show "x \<le> y \<Longrightarrow> y \<le> x \<Longrightarrow> x = y" by (cases x; cases y) simp_all
  show "x \<le> y \<or> y \<le> x" by (cases x; cases y) auto
qed

end

text \<open>The flags of a job: QUEUED 1, PRE 2, ALLOW_RECURSE 4, DISPOSED 8.\<close>

type_synonym flags = "32 word"

definition QUEUED :: flags where "QUEUED = 1"
definition PRE :: flags where "PRE = 2"
definition ALLOW_RECURSE :: flags where "ALLOW_RECURSE = 4"
definition DISPOSED :: flags where "DISPOSED = 8"

definition has :: "flags \<Rightarrow> flags \<Rightarrow> bool" where
  "has f b \<longleftrightarrow> f AND b \<noteq> 0"

text \<open>The loops of the scheduler, at their head or running a job; whether the job allowed recursion when it started is noted.\<close>

datatype post_end = AfterFlush | AfterRender

datatype pre_end = ToCaller | ToPost

datatype frame =
    FlushLoop
  | RunJob nat bool
  | PreLoop pre_end "int option" nat
  | RunPre pre_end "int option" nat nat bool
  | PostStart post_end
  | PostLoop post_end
  | RunPost post_end nat

record sched =
  sc_queue :: "nat list"
  sc_flushIndex :: int
  sc_pendingPost :: "nat list"
  sc_activePost :: "nat list option"
  sc_postIndex :: nat
  sc_promise :: bool
  sc_ticks :: nat
  sc_rendering :: bool
  sc_flags :: "nat \<Rightarrow> flags"
  sc_stack :: "frame list"

definition sched_new :: "(nat \<Rightarrow> flags) \<Rightarrow> sched" where
  "sched_new fl = \<lparr>sc_queue = [], sc_flushIndex = -1, sc_pendingPost = [], sc_activePost = None, sc_postIndex = 0,
     sc_promise = False, sc_ticks = 0, sc_rendering = False, sc_flags = fl, sc_stack = []\<rparr>"

definition set_flag :: "nat \<Rightarrow> flags \<Rightarrow> sched \<Rightarrow> sched" where
  "set_flag j b s = s\<lparr>sc_flags := (sc_flags s)(j := sc_flags s j OR b)\<rparr>"

definition clear_flag :: "nat \<Rightarrow> flags \<Rightarrow> sched \<Rightarrow> sched" where
  "clear_flag j b s = s\<lparr>sc_flags := (sc_flags s)(j := sc_flags s j AND NOT b)\<rparr>"

section \<open>Queueing\<close>

text \<open>\<open>getId\<close> (Ti): a job without an id comes first if it is a PRE job and last otherwise.\<close>

definition getId :: "(nat \<Rightarrow> int option) \<Rightarrow> (nat \<Rightarrow> flags) \<Rightarrow> nat \<Rightarrow> jid" where
  "getId ident fl j =
     (case ident j of
        None \<Rightarrow> if has (fl j) PRE then Fin (- 1) else Infinity
      | Some i \<Rightarrow> Fin i)"

text \<open>\<open>findInsertionIndex\<close> (NC): a binary search behind the smaller ids and the PRE jobs of the same id.\<close>

function find_index :: "(nat \<Rightarrow> int option) \<Rightarrow> sched \<Rightarrow> jid \<Rightarrow> nat \<Rightarrow> nat \<Rightarrow> nat" where
  "find_index ident s e start end' =
     (if start < end'
      then (let middle = (start + end') div 2;
                job = sc_queue s ! middle;
                middleJobId = getId ident (sc_flags s) job
            in if middleJobId < e \<or> middleJobId = e \<and> has (sc_flags s job) PRE
               then find_index ident s e (middle + 1) end' else find_index ident s e start middle)
      else start)"
  by pat_completeness auto
termination by (relation "measure (\<lambda>(ident, s, e, start, end'). end' - start)") auto

declare find_index.simps [simp del]

definition findInsertionIndex :: "(nat \<Rightarrow> int option) \<Rightarrow> sched \<Rightarrow> jid \<Rightarrow> nat" where
  "findInsertionIndex ident s e = find_index ident s e (nat (sc_flushIndex s + 1)) (length (sc_queue s))"

text \<open>\<open>queueFlush\<close> (d3): a promise for the next microtask, if there is none.\<close>

definition queueFlush :: "sched \<Rightarrow> sched" where
  "queueFlush s = (if sc_promise s then s else s\<lparr>sc_promise := True, sc_ticks := sc_ticks s + 1\<rparr>)"

text \<open>\<open>queueJob\<close> (v2)\<close>

definition queueJob :: "(nat \<Rightarrow> int option) \<Rightarrow> nat \<Rightarrow> sched \<Rightarrow> sched" where
  "queueJob ident job s =
     (if has (sc_flags s job) QUEUED then s
      else let jobId = getId ident (sc_flags s) job;
               queue =
                 (if sc_queue s = [] \<or> \<not> has (sc_flags s job) PRE \<and> getId ident (sc_flags s) (last (sc_queue s)) \<le> jobId
                  then sc_queue s @ [job]
                  else let i = findInsertionIndex ident s jobId in take i (sc_queue s) @ [job] @ drop i (sc_queue s))
           in queueFlush (set_flag job QUEUED (s\<lparr>sc_queue := queue\<rparr>)))"

text \<open>\<open>queuePostFlushCb\<close> (PC), for an array of hooks and for one callback.\<close>

definition queuePostFlushCbs :: "nat list \<Rightarrow> sched \<Rightarrow> sched" where
  "queuePostFlushCbs cbs s = queueFlush (s\<lparr>sc_pendingPost := sc_pendingPost s @ cbs\<rparr>)"

definition queuePostFlushCb :: "(nat \<Rightarrow> int option) \<Rightarrow> nat \<Rightarrow> sched \<Rightarrow> sched" where
  "queuePostFlushCb ident cb s =
     (case (sc_activePost s, ident cb = Some (- 1)) of
        (Some active, True) \<Rightarrow>
          queueFlush (s\<lparr>sc_activePost := Some (take (sc_postIndex s + 1) active @ [cb] @ drop (sc_postIndex s + 1) active)\<rparr>)
      | _ \<Rightarrow>
          queueFlush (if has (sc_flags s cb) QUEUED then s
            else set_flag cb QUEUED (s\<lparr>sc_pendingPost := sc_pendingPost s @ [cb]\<rparr>)))"

section \<open>Flushing\<close>

definition upd_top :: "frame \<Rightarrow> sched \<Rightarrow> sched" where
  "upd_top f s = s\<lparr>sc_stack := f # tl (sc_stack s)\<rparr>"

definition pop :: "sched \<Rightarrow> sched" where
  "pop s = s\<lparr>sc_stack := tl (sc_stack s)\<rparr>"

text \<open>A job that allows recursion may be queued again while it runs; the others may not before they are done.\<close>

definition start_job :: "nat \<Rightarrow> sched \<Rightarrow> sched" where
  "start_job j s = (if has (sc_flags s j) ALLOW_RECURSE then clear_flag j QUEUED s else s)"

definition end_job :: "nat \<Rightarrow> sched \<Rightarrow> sched" where
  "end_job j s = (if has (sc_flags s j) ALLOW_RECURSE then s else clear_flag j QUEUED s)"

text \<open>\<open>flushJobs\<close> (p3): the head of its loop, and the start of its \<open>finally\<close>.\<close>

definition flush_finally :: "sched \<Rightarrow> sched" where
  "flush_finally s =
     upd_top (PostStart AfterFlush)
       (fold (\<lambda>j. clear_flag j QUEUED) (drop (nat (sc_flushIndex s)) (sc_queue s)) s\<lparr>sc_flushIndex := - 1, sc_queue := []\<rparr>)"

definition flush_head :: "sched \<Rightarrow> sched" where
  "flush_head s =
     (if sc_flushIndex s < int (length (sc_queue s))
      then let job = sc_queue s ! nat (sc_flushIndex s)
           in if has (sc_flags s job) DISPOSED then s\<lparr>sc_flushIndex := sc_flushIndex s + 1\<rparr>
              else upd_top (RunJob job (has (sc_flags s job) ALLOW_RECURSE)) (start_job job s)
      else flush_finally s)"

text \<open>\<open>flushPreFlushCbs\<close> (Ah): the head of its loop, for one instance or for all.\<close>

definition pre_head :: "(nat \<Rightarrow> int option) \<Rightarrow> pre_end \<Rightarrow> int option \<Rightarrow> nat \<Rightarrow> sched \<Rightarrow> sched" where
  "pre_head ident k uid i s =
     (if i < length (sc_queue s)
      then let cb = sc_queue s ! i
           in if has (sc_flags s cb) PRE \<and> (uid = None \<or> ident cb = uid)
              then upd_top (RunPre k uid i cb (has (sc_flags s cb) ALLOW_RECURSE))
                (start_job cb (s\<lparr>sc_queue := take i (sc_queue s) @ drop (i + 1) (sc_queue s)\<rparr>))
              else upd_top (PreLoop k uid (i + 1)) s
      else case k of ToCaller \<Rightarrow> pop s | ToPost \<Rightarrow> upd_top (PostStart AfterRender) s)"

text \<open>
  \<open>flushPostFlushCbs\<close> (f3): its callbacks without duplicates, sorted by their ids (stably; the difference of two
  infinities is no number, which the sort takes for zero), and the head of its loop. What follows is the end of \<open>flushJobs\<close>
  or of \<open>render\<close>.
\<close>

fun dedupe :: "nat list \<Rightarrow> nat list \<Rightarrow> nat list" where
  "dedupe seen [] = []"
| "dedupe seen (x # xs) = (if x \<in> set seen then dedupe seen xs else x # dedupe (x # seen) xs)"

definition post_done :: "post_end \<Rightarrow> sched \<Rightarrow> sched" where
  "post_done k s =
     (case k of
        AfterFlush \<Rightarrow>
          (let s = s\<lparr>sc_promise := False\<rparr>
           in if sc_queue s \<noteq> [] \<or> sc_pendingPost s \<noteq> [] then upd_top FlushLoop (s\<lparr>sc_flushIndex := 0\<rparr>) else pop s)
      | AfterRender \<Rightarrow> pop (s\<lparr>sc_rendering := False\<rparr>))"

definition post_start :: "(nat \<Rightarrow> int option) \<Rightarrow> post_end \<Rightarrow> sched \<Rightarrow> sched" where
  "post_start ident k s =
     (if sc_pendingPost s = [] then post_done k s
      else let deduped = sort_key (getId ident (sc_flags s)) (dedupe [] (sc_pendingPost s));
               s = s\<lparr>sc_pendingPost := []\<rparr>
           in case sc_activePost s of
                Some active \<Rightarrow> post_done k (s\<lparr>sc_activePost := Some (active @ deduped)\<rparr>)
              | None \<Rightarrow> upd_top (PostLoop k) (s\<lparr>sc_activePost := Some deduped, sc_postIndex := 0\<rparr>))"

definition post_head :: "post_end \<Rightarrow> sched \<Rightarrow> sched" where
  "post_head k s =
     (case sc_activePost s of
        None \<Rightarrow> s
      | Some active \<Rightarrow>
          if sc_postIndex s < length active
          then let cb = active ! sc_postIndex s; s = start_job cb s
               in if has (sc_flags s cb) DISPOSED then clear_flag cb QUEUED s\<lparr>sc_postIndex := sc_postIndex s + 1\<rparr>
                  else upd_top (RunPost k cb) s
          else post_done k (s\<lparr>sc_activePost := None, sc_postIndex := 0\<rparr>))"

section \<open>The machine\<close>

text \<open>
  \<open>Tick\<close> is the microtask. The calls of running code: queueing jobs and callbacks, the flushing of PRE jobs before a
  component renders (for its instance) and at the end of \<open>render\<close>, \<open>toggleRecurse\<close>, and the disposal of a job. Jobs and
  post callbacks are different functions. An exception that a job of \<open>flushJobs\<close> throws past its error handling
  ends the loop; one of a PRE job or a post callback goes on in the caller.
\<close>

datatype sched_event =
    Tick | Go | Return | Throw
  | QueueJob nat | QueuePost nat | QueueHooks "nat list"
  | FlushPre int | Render | ToggleRecurse nat bool | Dispose nat

fun running :: "frame \<Rightarrow> bool" where
  "running (RunJob _ _) = True"
| "running (RunPre _ _ _ _ _) = True"
| "running (RunPost _ _) = True"
| "running _ = False"

text \<open>Application code runs: outside the scheduler, or in the job on top.\<close>

definition app_runs :: "sched \<Rightarrow> bool" where
  "app_runs s = (case sc_stack s of [] \<Rightarrow> True | f # _ \<Rightarrow> running f)"

definition go :: "(nat \<Rightarrow> int option) \<Rightarrow> sched \<Rightarrow> sched option" where
  "go ident s =
     (case sc_stack s of
        FlushLoop # _ \<Rightarrow> Some (flush_head s)
      | PreLoop k uid i # _ \<Rightarrow> Some (pre_head ident k uid i s)
      | PostStart k # _ \<Rightarrow> Some (post_start ident k s)
      | PostLoop k # _ \<Rightarrow> Some (post_head k s)
      | _ \<Rightarrow> None)"

text \<open>
  The end of a job. A component switches recursion off and on again within its own update, so at the end of a job it is as
  it was at the start.
\<close>

definition return_job :: "sched \<Rightarrow> sched option" where
  "return_job s =
     (case sc_stack s of
        RunJob j a # _ \<Rightarrow>
          if has (sc_flags s j) ALLOW_RECURSE = a
          then Some (upd_top FlushLoop (end_job j (s\<lparr>sc_flushIndex := sc_flushIndex s + 1\<rparr>))) else None
      | RunPre k uid i j a # _ \<Rightarrow>
          if has (sc_flags s j) ALLOW_RECURSE = a then Some (upd_top (PreLoop k uid i) (end_job j s)) else None
      | RunPost k j # _ \<Rightarrow> Some (upd_top (PostLoop k) (clear_flag j QUEUED (s\<lparr>sc_postIndex := sc_postIndex s + 1\<rparr>)))
      | _ \<Rightarrow> None)"

definition throw :: "sched \<Rightarrow> sched option" where
  "throw s =
     (case sc_stack s of
        RunJob j a # _ \<Rightarrow> Some (flush_finally s)
      | RunPre k uid i j a # _ \<Rightarrow> Some (pop s)
      | RunPost k j # _ \<Rightarrow> Some (pop s)
      | _ \<Rightarrow> None)"

definition push_frame :: "frame \<Rightarrow> sched \<Rightarrow> sched" where
  "push_frame f s = s\<lparr>sc_stack := f # sc_stack s\<rparr>"

definition call :: "(nat \<Rightarrow> int option) \<Rightarrow> (nat \<Rightarrow> bool) \<Rightarrow> sched_event \<Rightarrow> sched \<Rightarrow> sched option" where
  "call ident hook e s =
     (case e of
        QueueJob j \<Rightarrow> if hook j then None else Some (queueJob ident j s)
      | QueuePost j \<Rightarrow> if hook j then Some (queuePostFlushCb ident j s) else None
      | QueueHooks js \<Rightarrow> if list_all hook js then Some (queuePostFlushCbs js s) else None
      | FlushPre uid \<Rightarrow> Some (push_frame (PreLoop ToCaller (Some uid) (nat (sc_flushIndex s + 1))) s)
      | Render \<Rightarrow> Some (if sc_rendering s then s
          else push_frame (PreLoop ToPost None (nat (sc_flushIndex s + 1))) (s\<lparr>sc_rendering := True\<rparr>))
      | ToggleRecurse j allowed \<Rightarrow> Some (if allowed then set_flag j ALLOW_RECURSE s else clear_flag j ALLOW_RECURSE s)
      | Dispose j \<Rightarrow> Some (set_flag j DISPOSED s)
      | _ \<Rightarrow> None)"

definition sched_step :: "(nat \<Rightarrow> int option) \<Rightarrow> (nat \<Rightarrow> bool) \<Rightarrow> sched_event \<Rightarrow> sched \<Rightarrow> sched option" where
  "sched_step ident hook e s =
     (case e of
        Tick \<Rightarrow>
          if sc_stack s = [] \<and> 0 < sc_ticks s
          then Some (s\<lparr>sc_ticks := sc_ticks s - 1, sc_flushIndex := 0, sc_stack := [FlushLoop]\<rparr>) else None
      | Go \<Rightarrow> go ident s
      | Return \<Rightarrow> return_job s
      | Throw \<Rightarrow> throw s
      | _ \<Rightarrow> if app_runs s then call ident hook e s else None)"

inductive sched_reached :: "(nat \<Rightarrow> int option) \<Rightarrow> (nat \<Rightarrow> bool) \<Rightarrow> (nat \<Rightarrow> flags) \<Rightarrow> bool \<Rightarrow> sched \<Rightarrow> bool"
  for ident hook fl throws where
  start: "sched_reached ident hook fl throws (sched_new fl)"
| step: "sched_reached ident hook fl throws s \<Longrightarrow> sched_step ident hook e s = Some s' \<Longrightarrow> (e = Throw \<Longrightarrow> throws) \<Longrightarrow>
    sched_reached ident hook fl throws s'"


section \<open>Flags\<close>

lemma has_bits: "has f QUEUED = bit f 0" "has f PRE = bit f 1" "has f ALLOW_RECURSE = bit f 2" "has f DISPOSED = bit f 3"
  using and_exp_eq_0_iff_not_bit [of f 0] and_exp_eq_0_iff_not_bit [of f 1] and_exp_eq_0_iff_not_bit [of f 2]
    and_exp_eq_0_iff_not_bit [of f 3]
  by (simp_all add: has_def QUEUED_def PRE_def ALLOW_RECURSE_def DISPOSED_def)

lemma flag_bits:
  "bit QUEUED n = (n = 0)" "bit PRE n = (n = 1)" "bit ALLOW_RECURSE n = (n = 2)" "bit DISPOSED n = (n = 3)"
  using bit_exp_iff [where 'a = "32 word", of 0 n] bit_exp_iff [where 'a = "32 word", of 1 n]
    bit_exp_iff [where 'a = "32 word", of 2 n] bit_exp_iff [where 'a = "32 word", of 3 n]
  by (auto simp: QUEUED_def PRE_def ALLOW_RECURSE_def DISPOSED_def)

lemmas flag_simps = has_bits bit_or_iff bit_and_iff bit_not_iff flag_bits

section \<open>The queue that waits\<close>

text \<open>The order of the queue: by id, and PRE jobs first.\<close>

definition job_key :: "(nat \<Rightarrow> int option) \<Rightarrow> (nat \<Rightarrow> flags) \<Rightarrow> nat \<Rightarrow> jid \<times> bool" where
  "job_key ident fl j = (getId ident fl j, \<not> has (fl j) PRE)"

text \<open>
  Jobs \<open>w\<close> wait, jobs \<open>l\<close> run without recursion: those that wait are queued, once and in order; those that run stay
  marked as queued, and do not wait.
\<close>

definition core :: "(nat \<Rightarrow> int option) \<Rightarrow> (nat \<Rightarrow> bool) \<Rightarrow> (nat \<Rightarrow> flags) \<Rightarrow> nat list \<Rightarrow> nat list \<Rightarrow> bool" where
  "core ident hook fl w l \<longleftrightarrow>
     sorted (map (job_key ident fl) w) \<and> distinct (l @ w) \<and> (\<forall>j \<in> set (l @ w). has (fl j) QUEUED \<and> \<not> hook j)"

text \<open>No queued job is lost.\<close>

definition kept :: "(nat \<Rightarrow> bool) \<Rightarrow> (nat \<Rightarrow> flags) \<Rightarrow> nat list \<Rightarrow> nat list \<Rightarrow> bool" where
  "kept hook fl w l \<longleftrightarrow> (\<forall>j. has (fl j) QUEUED \<and> \<not> has (fl j) DISPOSED \<and> \<not> hook j \<longrightarrow> j \<in> set (l @ w))"

lemma job_key_cong: "has (fl' j) PRE = has (fl j) PRE \<Longrightarrow> job_key ident fl' j = job_key ident fl j"
  by (simp add: job_key_def getId_def)

lemma job_key_queued [simp]:
  "job_key ident (fl(j := fl j OR QUEUED)) = job_key ident fl"
  "job_key ident (fl(j := fl j AND NOT QUEUED)) = job_key ident fl"
proof -
  have "has (f OR QUEUED) PRE = has f PRE" "has (f AND NOT QUEUED) PRE = has f PRE" for f by (simp_all add: flag_simps)
  then have "job_key ident (fl(j := fl j OR QUEUED)) i = job_key ident fl i"
      "job_key ident (fl(j := fl j AND NOT QUEUED)) i = job_key ident fl i" for i
    by (simp_all add: job_key_def getId_def)
  then show "job_key ident (fl(j := fl j OR QUEUED)) = job_key ident fl"
    "job_key ident (fl(j := fl j AND NOT QUEUED)) = job_key ident fl" by auto
qed

text \<open>Flags change in other bits, or of post callbacks.\<close>

lemma core_flags:
  assumes "core ident hook fl w l" "\<And>j. \<not> hook j \<Longrightarrow> has (fl' j) PRE = has (fl j) PRE \<and> has (fl' j) QUEUED = has (fl j) QUEUED"
  shows "core ident hook fl' w l"
proof -
  have e: "map (job_key ident fl') w = map (job_key ident fl) w"
    using assms by (auto simp: core_def job_key_def getId_def)
  show ?thesis unfolding core_def e using assms by (auto simp: core_def)
qed

lemma kept_flags:
  assumes "kept hook fl w l"
    "\<And>j. \<not> hook j \<Longrightarrow> (has (fl' j) QUEUED \<longrightarrow> has (fl j) QUEUED) \<and> (has (fl j) DISPOSED \<longrightarrow> has (fl' j) DISPOSED)"
  shows "kept hook fl' w l"
  using assms unfolding kept_def by blast

lemma core_insert:
  assumes c: "core ident hook fl (xs @ ys) l" and j: "\<not> has (fl j) QUEUED" "\<not> hook j"
    and before: "\<And>x. x \<in> set xs \<Longrightarrow> job_key ident fl x \<le> job_key ident fl j"
    and after: "\<And>y. y \<in> set ys \<Longrightarrow> job_key ident fl j \<le> job_key ident fl y"
  shows "core ident hook (fl(j := fl j OR QUEUED)) (xs @ j # ys) l"
proof -

  have "sorted (map (job_key ident fl) (xs @ j # ys))" using c before after by (auto simp: core_def sorted_append)
  moreover have "j \<notin> set (l @ xs @ ys)" using c j(1) by (auto simp: core_def)
  moreover have "has (fl j OR QUEUED) QUEUED" by (simp add: flag_simps)
  ultimately show ?thesis using c j(2) by (auto simp: core_def)
qed

lemma kept_insert: "kept hook fl (xs @ ys) l \<Longrightarrow> kept hook (fl(j := fl j OR QUEUED)) (xs @ j # ys) l"
  by (auto simp: kept_def flag_simps)

text \<open>A job leaves the queue to run; one that allows recursion may be queued again at once.\<close>

lemma core_remove: "core ident hook fl (xs @ j # ys) l \<Longrightarrow> core ident hook fl (xs @ ys) l"
  by (auto simp: core_def sorted_append)

lemma core_start: "core ident hook fl (xs @ j # ys) l \<Longrightarrow> core ident hook fl (xs @ ys) (j # l)"
  by (auto simp: core_def sorted_append)

lemma core_clear:
  assumes "core ident hook fl w l" "j \<notin> set (l @ w)"
  shows "core ident hook (fl(j := fl j AND NOT QUEUED)) w l"
  using assms by (auto simp: core_def)

lemma core_start_recursive:
  "core ident hook fl (xs @ j # ys) l \<Longrightarrow> core ident hook (fl(j := fl j AND NOT QUEUED)) (xs @ ys) l"
  by (rule core_clear, erule core_remove) (auto simp: core_def)

lemma kept_start: "kept hook fl (xs @ j # ys) l \<Longrightarrow> kept hook fl (xs @ ys) (j # l)"
  by (auto simp: kept_def)

lemma kept_start_recursive: "kept hook fl (xs @ j # ys) l \<Longrightarrow> kept hook (fl(j := fl j AND NOT QUEUED)) (xs @ ys) l"
  by (auto simp: kept_def flag_simps)

lemma core_end: "core ident hook fl w (j # l) \<Longrightarrow> core ident hook (fl(j := fl j AND NOT QUEUED)) w l"
  by (rule core_clear) (auto simp: core_def)

lemma kept_clear: "kept hook fl w l \<Longrightarrow> set (l @ w) \<subseteq> insert j (set (l' @ w')) \<Longrightarrow> kept hook (fl(j := fl j AND NOT QUEUED)) w' l'"
  by (auto simp: kept_def flag_simps)

lemma kept_mono: "kept hook fl w l \<Longrightarrow> (\<And>j. j \<in> set (l @ w) \<Longrightarrow> j \<in> set (l' @ w') \<or> has (fl j) DISPOSED) \<Longrightarrow> kept hook fl w' l'"
  by (auto simp: kept_def)

text \<open>Where the binary search puts a job.\<close>

lemma find_index_place:
  fixes s e
  assumes c: "sorted (map (job_key ident (sc_flags s)) (drop t (sc_queue s)))" and t: "t \<le> length (sc_queue s)"
  defines "i \<equiv> find_index ident s e t (length (sc_queue s))"
  shows "t \<le> i \<and> i \<le> length (sc_queue s) \<and> (\<forall>a. t \<le> a \<longrightarrow> a < i \<longrightarrow> job_key ident (sc_flags s) (sc_queue s ! a) < (e, True)) \<and>
    (\<forall>a. i \<le> a \<longrightarrow> a < length (sc_queue s) \<longrightarrow> (e, True) \<le> job_key ident (sc_flags s) (sc_queue s ! a))"
proof -
  let ?k = "\<lambda>a. job_key ident (sc_flags s) (sc_queue s ! a)"
  have le: "?k a \<le> ?k b" if "t \<le> a" "a \<le> b" "b < length (sc_queue s)" for a b
    using sorted_nth_mono [OF c, of "a - t" "b - t"] that by simp
  have p: "?k a < (e, True) \<longleftrightarrow> getId ident (sc_flags s) (sc_queue s ! a) < e \<or>
      getId ident (sc_flags s) (sc_queue s ! a) = e \<and> has (sc_flags s (sc_queue s ! a)) PRE" for a
    by (auto simp: job_key_def)
  have "t \<le> i \<and> i \<le> length (sc_queue s) \<and> (\<forall>a. t \<le> a \<longrightarrow> a < i \<longrightarrow> ?k a < (e, True)) \<and>
      (\<forall>a. i \<le> a \<longrightarrow> a < length (sc_queue s) \<longrightarrow> \<not> ?k a < (e, True))"
    unfolding i_def
  proof (rule half_search)
    show "find_index ident s e u v = (if u < v then if ?k ((u + v) div 2) < (e, True)
        then find_index ident s e ((u + v) div 2 + 1) v else find_index ident s e u ((u + v) div 2) else u)" for u v
      by (subst find_index.simps) (simp only: Let_def p)
  qed (use t le in \<open>auto intro: le_less_trans\<close>)
  then show ?thesis by (simp add: not_less)
qed


section \<open>The invariant\<close>

fun flush_frame :: "frame \<Rightarrow> bool" where
  "flush_frame FlushLoop = True"
| "flush_frame (RunJob _ _) = True"
| "flush_frame (PostStart k) = (k = AfterFlush)"
| "flush_frame (PostLoop k) = (k = AfterFlush)"
| "flush_frame (RunPost k _) = (k = AfterFlush)"
| "flush_frame _ = False"

text \<open>The jobs that run without recursion.\<close>

fun locks :: "frame list \<Rightarrow> nat list" where
  "locks [] = []"
| "locks (RunJob j a # st) = (if a then locks st else j # locks st)"
| "locks (RunPre _ _ _ j a # st) = (if a then locks st else j # locks st)"
| "locks (_ # st) = locks st"

text \<open>The jobs that wait: those behind the one that runs, or from the index on at the head of the loop.\<close>

definition next_of :: "int \<Rightarrow> frame list \<Rightarrow> nat" where
  "next_of i st = nat (case st of FlushLoop # _ \<Rightarrow> i | _ \<Rightarrow> i + 1)"

definition waiting :: "sched \<Rightarrow> nat list" where
  "waiting s = drop (next_of (sc_flushIndex s) (sc_stack s)) (sc_queue s)"

definition idx_ok :: "int \<Rightarrow> nat \<Rightarrow> frame list \<Rightarrow> bool" where
  "idx_ok i n st \<longleftrightarrow>
     (if st = [] then i = - 1
      else case last st of FlushLoop \<Rightarrow> 0 \<le> i \<and> i \<le> int n | RunJob _ _ \<Rightarrow> 0 \<le> i \<and> i < int n | _ \<Rightarrow> i = - 1)"

text \<open>Loops are on top only, and the flush is at the bottom only.\<close>

definition stack_ok :: "frame list \<Rightarrow> bool" where
  "stack_ok st \<longleftrightarrow> (\<forall>f \<in> set (tl st). running f) \<and> (\<forall>f \<in> set (butlast st). \<not> flush_frame f)"

fun frame_ok :: "(nat \<Rightarrow> bool) \<Rightarrow> int \<Rightarrow> frame \<Rightarrow> bool" where
  "frame_ok hook i (PreLoop _ _ n) = (nat (i + 1) \<le> n)"
| "frame_ok hook i (RunPre _ _ n _ _) = (nat (i + 1) \<le> n)"
| "frame_ok hook i (RunPost _ j) = hook j"
| "frame_ok _ _ _ = True"

definition parts_inv :: "(nat \<Rightarrow> int option) \<Rightarrow> (nat \<Rightarrow> bool) \<Rightarrow> bool \<Rightarrow> int \<Rightarrow> nat list \<Rightarrow> (nat \<Rightarrow> flags) \<Rightarrow> frame list \<Rightarrow> bool" where
  "parts_inv ident hook strict i q fl st \<longleftrightarrow>
     core ident hook fl (drop (next_of i st) q) (locks st) \<and>
     (strict \<longrightarrow> kept hook fl (drop (next_of i st) q) (locks st)) \<and>
     idx_ok i (length q) st \<and> stack_ok st \<and> (\<forall>f \<in> set st. frame_ok hook i f)"

lemma parts_invD:
  assumes "parts_inv ident hook strict i q fl st"
  shows "core ident hook fl (drop (next_of i st) q) (locks st)"
    "strict \<Longrightarrow> kept hook fl (drop (next_of i st) q) (locks st)"
    "idx_ok i (length q) st" "stack_ok st" "f \<in> set st \<Longrightarrow> frame_ok hook i f"
  using assms by (simp_all add: parts_inv_def)

lemma stack_ok_top: "stack_ok (f # rest) \<Longrightarrow> flush_frame f \<Longrightarrow> rest = []"
  by (cases rest) (auto simp: stack_ok_def)

lemma stack_ok_tl: "stack_ok (f # rest) \<Longrightarrow> stack_ok rest"
  by (cases rest) (auto simp: stack_ok_def)

lemma stack_ok_replace: "stack_ok (f # rest) \<Longrightarrow> (rest = [] \<or> \<not> flush_frame g) \<Longrightarrow> stack_ok (g # rest)"
  by (cases rest) (auto simp: stack_ok_def)

text \<open>Application code runs, or a loop other than the flush loop is on top.\<close>

lemma next_running: "st = [] \<or> hd st \<noteq> FlushLoop \<Longrightarrow> next_of i st = nat (i + 1)"
  by (cases st) (auto simp: next_of_def split: frame.splits)

lemma rest_running: "stack_ok (f # rest) \<Longrightarrow> rest = [] \<or> running (hd rest)"
  by (cases rest) (auto simp: stack_ok_def)

lemma running_not_loop: "running f \<Longrightarrow> f \<noteq> FlushLoop"
  by auto

lemma idx_replace:
  assumes "idx_ok i n (f # rest)" "\<not> flush_frame f" "\<not> flush_frame g"
  shows "idx_ok i n (g # rest)"
proof (cases rest)
  case Nil
  have "i = - 1" using assms(1,2) Nil by (cases f) (auto simp: idx_ok_def)
  then show ?thesis using assms(3) Nil by (cases g) (auto simp: idx_ok_def)
qed (use assms(1) in \<open>simp add: idx_ok_def\<close>)

lemma idx_pop: "idx_ok i n (f # rest) \<Longrightarrow> \<not> flush_frame f \<Longrightarrow> idx_ok i n rest"
  by (cases rest; cases f) (auto simp: idx_ok_def)

lemma idx_push: "idx_ok i n st \<Longrightarrow> \<not> flush_frame f \<Longrightarrow> idx_ok i n (f # st)"
  by (cases st; cases f) (auto simp: idx_ok_def)

lemma idx_room:
  assumes "idx_ok i n st" "stack_ok st" "st = [] \<or> hd st \<noteq> FlushLoop"
  shows "nat (i + 1) \<le> n" "- 1 \<le> i"
proof -
  have "st \<noteq> [] \<Longrightarrow> last st \<noteq> FlushLoop" using assms(2,3) by (cases st rule: rev_cases) (auto simp: stack_ok_def tl_append split: list.splits)
  then show "nat (i + 1) \<le> n" "- 1 \<le> i" using assms(1) by (auto simp: idx_ok_def split: if_splits frame.splits)
qed

text \<open>A loop other than the flush loop goes on, ends, or starts; the job on top that it ran is done.\<close>

lemma parts_replace:
  assumes "parts_inv ident hook strict i q fl (f # rest)" "\<not> flush_frame f" "\<not> flush_frame g"
    "locks (g # rest) = locks (f # rest)" "frame_ok hook i g"
  shows "parts_inv ident hook strict i q fl (g # rest)"
proof -
  have "f \<noteq> FlushLoop" "g \<noteq> FlushLoop" using assms(2,3) by auto
  then have "next_of i (g # rest) = next_of i (f # rest)" by (simp add: next_running)
  then show ?thesis
    using assms stack_ok_replace [of f rest g] idx_replace [of i "length q" f rest g] by (simp add: parts_inv_def)
qed

lemma parts_pop:
  assumes "parts_inv ident hook strict i q fl (f # rest)" "\<not> flush_frame f" "locks (f # rest) = locks rest"
  shows "parts_inv ident hook strict i q fl rest"
proof -
  have s: "stack_ok (f # rest)" by (rule parts_invD(4) [OF assms(1)])
  have "next_of i rest = next_of i (f # rest)"
    using assms(2) rest_running [OF s] by (subst (1 2) next_running) auto
  then show ?thesis
    using assms stack_ok_tl [OF s] idx_pop [of i "length q" f rest] by (simp add: parts_inv_def)
qed

lemma parts_push:
  assumes "parts_inv ident hook strict i q fl st" "st = [] \<or> running (hd st)" "\<not> flush_frame f" "locks (f # st) = locks st" "frame_ok hook i f"
  shows "parts_inv ident hook strict i q fl (f # st)"
proof -
  have "next_of i (f # st) = next_of i st" using assms(2,3) by (subst (1 2) next_running) auto
  moreover have "stack_ok (f # st)" using parts_invD(4) [OF assms(1)] assms(2,3) by (cases st) (auto simp: stack_ok_def)
  ultimately show ?thesis using assms idx_push [of i "length q" st f] by (simp add: parts_inv_def)
qed

text \<open>Flags change in other bits, or of post callbacks.\<close>

lemma parts_flags:
  assumes "parts_inv ident hook strict i q fl st"
    "\<And>j. \<not> hook j \<Longrightarrow> has (fl' j) PRE = has (fl j) PRE \<and> has (fl' j) QUEUED = has (fl j) QUEUED \<and> (has (fl j) DISPOSED \<longrightarrow> has (fl' j) DISPOSED)"
  shows "parts_inv ident hook strict i q fl' st"
  using assms(1) core_flags [of ident hook fl _ _ fl'] kept_flags [of hook fl _ _ fl'] assms(2) unfolding parts_inv_def by blast


section \<open>Queueing keeps the invariant\<close>

lemma take_drop_from: "t \<le> i \<Longrightarrow> i \<le> length q \<Longrightarrow> drop t (take i q @ ys @ drop i q) = take (i - t) (drop t q) @ ys @ drop i q"
  by (simp add: drop_take)

lemma drop_split: "t \<le> i \<Longrightarrow> i \<le> length q \<Longrightarrow> drop t q = take (i - t) (drop t q) @ drop i q"
  using append_take_drop_id [of "i - t" "drop t q"] by simp

lemma parts_insert:
  assumes I: "parts_inv ident hook strict i q fl st" and app: "st = [] \<or> running (hd st)"
    and j: "\<not> hook j" "\<not> has (fl j) QUEUED" and n: "nat (i + 1) \<le> n" "n \<le> length q"
    and before: "\<And>a. nat (i + 1) \<le> a \<Longrightarrow> a < n \<Longrightarrow> job_key ident fl (q ! a) \<le> job_key ident fl j"
    and after: "\<And>a. n \<le> a \<Longrightarrow> a < length q \<Longrightarrow> job_key ident fl j \<le> job_key ident fl (q ! a)"
  shows "parts_inv ident hook strict i (take n q @ [j] @ drop n q) (fl(j := fl j OR QUEUED)) st"
proof -
  let ?t = "nat (i + 1)"
  have t: "next_of i st = ?t" using app running_not_loop by (intro next_running) auto
  have xs: "x \<in> set (take (n - ?t) (drop ?t q)) \<Longrightarrow> job_key ident fl x \<le> job_key ident fl j" for x
    using before n by (force simp: in_set_conv_nth)
  have ys: "y \<in> set (drop n q) \<Longrightarrow> job_key ident fl j \<le> job_key ident fl y" for y
    using after n by (force simp: in_set_conv_nth)
  have d: "drop ?t q = take (n - ?t) (drop ?t q) @ drop n q" by (rule drop_split [OF n])
  have d': "drop ?t (take n q @ [j] @ drop n q) = take (n - ?t) (drop ?t q) @ j # drop n q"
    using take_drop_from [OF n, of "[j]"] by simp
  have c: "core ident hook fl (take (n - ?t) (drop ?t q) @ drop n q) (locks st)" using parts_invD(1) [OF I] unfolding t d [symmetric] .
  have "idx_ok i (Suc (length q)) st" using parts_invD(3) [OF I] by (auto simp: idx_ok_def split: frame.splits)
  moreover have "strict \<longrightarrow> kept hook (fl(j := fl j OR QUEUED)) (take (n - ?t) (drop ?t q) @ j # drop n q) (locks st)"
    using parts_invD(2) [OF I] kept_insert [of hook fl _ "drop n q"] d unfolding t by metis
  ultimately show ?thesis
    using core_insert [OF c j(2,1) xs ys] parts_invD(4,5) [OF I] n(2) unfolding parts_inv_def t d' by simp
qed

lemma parts_queue:
  assumes I: "parts_inv ident hook strict (sc_flushIndex s) (sc_queue s) (sc_flags s) (sc_stack s)" and app: "app_runs s" and j: "\<not> hook j"
    and s': "s' = queueJob ident j s"
  shows "parts_inv ident hook strict (sc_flushIndex s') (sc_queue s') (sc_flags s') (sc_stack s')"
proof (cases "has (sc_flags s j) QUEUED")
  case True
  then show ?thesis using I by (simp add: s' queueJob_def)
next
  case q: False
  let ?fl = "sc_flags s" let ?q = "sc_queue s" let ?t = "nat (sc_flushIndex s + 1)" let ?e = "getId ident ?fl j"
  have app: "sc_stack s = [] \<or> running (hd (sc_stack s))" using app by (auto simp: app_runs_def split: list.splits)
  then have nl: "sc_stack s = [] \<or> hd (sc_stack s) \<noteq> FlushLoop" using running_not_loop by auto
  have t: "?t \<le> length ?q" by (rule idx_room(1) [OF parts_invD(3,4) [OF I] nl])
  have sorted: "sorted (map (job_key ident ?fl) (drop ?t ?q))"
    using parts_invD(1) [OF I] unfolding next_running [OF nl] core_def by blast
  have "\<exists>n. ?t \<le> n \<and> n \<le> length ?q \<and> (\<forall>a. ?t \<le> a \<longrightarrow> a < n \<longrightarrow> job_key ident ?fl (?q ! a) \<le> job_key ident ?fl j) \<and>
      (\<forall>a. n \<le> a \<longrightarrow> a < length ?q \<longrightarrow> job_key ident ?fl j \<le> job_key ident ?fl (?q ! a)) \<and>
      sc_queue (queueJob ident j s) = take n ?q @ [j] @ drop n ?q"
  proof (cases "?q = [] \<or> \<not> has (?fl j) PRE \<and> getId ident ?fl (last ?q) \<le> ?e")
    case True
    have "job_key ident ?fl (?q ! a) \<le> job_key ident ?fl j" if a: "?t \<le> a" "a < length ?q" for a
    proof -
      have "job_key ident ?fl (?q ! a) \<le> job_key ident ?fl (last ?q)"
        using sorted_nth_mono [OF sorted, of "a - ?t" "length ?q - 1 - ?t"] a last_conv_nth [of ?q] by (cases "?q = []") auto
      also have "\<dots> \<le> job_key ident ?fl j" using True a by (auto simp: job_key_def less_eq_prod_def)
      finally show ?thesis .
    qed
    then show ?thesis using t True q
      by (intro exI [of _ "length ?q"]) (auto simp: queueJob_def Let_def queueFlush_def set_flag_def)
  next
    case False
    define n where "n = findInsertionIndex ident s ?e"
    have n: "?t \<le> n \<and> n \<le> length ?q \<and> (\<forall>a. ?t \<le> a \<longrightarrow> a < n \<longrightarrow> job_key ident ?fl (?q ! a) < (?e, True)) \<and>
        (\<forall>a. n \<le> a \<longrightarrow> a < length ?q \<longrightarrow> (?e, True) \<le> job_key ident ?fl (?q ! a))"
      unfolding n_def findInsertionIndex_def by (rule find_index_place [OF sorted t])
    have k: "job_key ident ?fl j \<le> (?e, True)" "k < (?e, True) \<Longrightarrow> k \<le> job_key ident ?fl j" for k
      by (cases k; auto simp: job_key_def)+
    show ?thesis
      by (rule exI [of _ n]) (use n k q False in \<open>auto simp: queueJob_def Let_def queueFlush_def set_flag_def n_def [symmetric] intro: order_trans\<close>)
  qed
  then obtain n where n: "?t \<le> n" "n \<le> length ?q" "\<And>a. ?t \<le> a \<Longrightarrow> a < n \<Longrightarrow> job_key ident ?fl (?q ! a) \<le> job_key ident ?fl j"
      "\<And>a. n \<le> a \<Longrightarrow> a < length ?q \<Longrightarrow> job_key ident ?fl j \<le> job_key ident ?fl (?q ! a)"
      "sc_queue (queueJob ident j s) = take n ?q @ [j] @ drop n ?q" by blast
  have "sc_flags s' = ?fl(j := ?fl j OR QUEUED)" "sc_flushIndex s' = sc_flushIndex s" "sc_stack s' = sc_stack s"
    using q by (simp_all add: s' queueJob_def Let_def queueFlush_def set_flag_def)
  then show ?thesis using parts_insert [OF I app j q n(1-4)] n(5) by (simp add: s')
qed


section \<open>Every step keeps the invariant\<close>

definition hooks_ok :: "(nat \<Rightarrow> bool) \<Rightarrow> sched \<Rightarrow> bool" where
  "hooks_ok hook s \<longleftrightarrow> (\<forall>j \<in> set (sc_pendingPost s). hook j) \<and> (\<forall>act. sc_activePost s = Some act \<longrightarrow> (\<forall>j \<in> set act. hook j))"

definition flushing :: "sched \<Rightarrow> bool" where
  "flushing s \<longleftrightarrow> sc_stack s \<noteq> [] \<and> flush_frame (last (sc_stack s))"

text \<open>What waits is flushed: a microtask will run, or the flush is under way.\<close>

definition wakes :: "sched \<Rightarrow> bool" where
  "wakes s \<longleftrightarrow> (sc_promise s \<longrightarrow> 0 < sc_ticks s \<or> flushing s) \<and> (sc_queue s \<noteq> [] \<or> sc_pendingPost s \<noteq> [] \<longrightarrow> sc_promise s \<or> flushing s)"

abbreviation parts_of :: "(nat \<Rightarrow> int option) \<Rightarrow> (nat \<Rightarrow> bool) \<Rightarrow> bool \<Rightarrow> sched \<Rightarrow> bool" where
  "parts_of ident hook strict s \<equiv> parts_inv ident hook strict (sc_flushIndex s) (sc_queue s) (sc_flags s) (sc_stack s)"

definition sched_inv :: "(nat \<Rightarrow> int option) \<Rightarrow> (nat \<Rightarrow> bool) \<Rightarrow> bool \<Rightarrow> sched \<Rightarrow> bool" where
  "sched_inv ident hook strict s \<longleftrightarrow> parts_of ident hook strict s \<and> hooks_ok hook s \<and> (strict \<longrightarrow> wakes s)"

lemmas sched_op_defs = set_flag_def clear_flag_def upd_top_def pop_def push_frame_def start_job_def end_job_def

lemma start_job_simps [simp]:
  "sc_queue (start_job j s) = sc_queue s"
  "sc_flushIndex (start_job j s) = sc_flushIndex s"
  "sc_pendingPost (start_job j s) = sc_pendingPost s"
  "sc_activePost (start_job j s) = sc_activePost s"
  "sc_postIndex (start_job j s) = sc_postIndex s"
  "sc_promise (start_job j s) = sc_promise s"
  "sc_ticks (start_job j s) = sc_ticks s"
  "sc_rendering (start_job j s) = sc_rendering s"
  "sc_stack (start_job j s) = sc_stack s"
  by (simp_all add: start_job_def clear_flag_def)

lemma end_job_simps [simp]:
  "sc_queue (end_job j s) = sc_queue s"
  "sc_flushIndex (end_job j s) = sc_flushIndex s"
  "sc_pendingPost (end_job j s) = sc_pendingPost s"
  "sc_activePost (end_job j s) = sc_activePost s"
  "sc_postIndex (end_job j s) = sc_postIndex s"
  "sc_promise (end_job j s) = sc_promise s"
  "sc_ticks (end_job j s) = sc_ticks s"
  "sc_rendering (end_job j s) = sc_rendering s"
  "sc_stack (end_job j s) = sc_stack s"
  by (simp_all add: end_job_def clear_flag_def)

lemma flushing_wakes: "flushing s \<Longrightarrow> wakes s"
  by (simp add: wakes_def)

lemma core_none [simp]: "core ident hook fl [] []"
  by (simp add: core_def)

text \<open>The head of the flush loop.\<close>

lemma flush_finally_simps [simp]:
  "sc_flushIndex (flush_finally s) = - 1" "sc_queue (flush_finally s) = []" "sc_stack (flush_finally s) = PostStart AfterFlush # tl (sc_stack s)"
  "sc_pendingPost (flush_finally s) = sc_pendingPost s" "sc_activePost (flush_finally s) = sc_activePost s"
proof -
  have f: "sc_stack (fold (\<lambda>j. clear_flag j QUEUED) js s) = sc_stack s" "sc_pendingPost (fold (\<lambda>j. clear_flag j QUEUED) js s) = sc_pendingPost s"
    "sc_activePost (fold (\<lambda>j. clear_flag j QUEUED) js s) = sc_activePost s" for js
    by (induction js arbitrary: s) (simp_all add: clear_flag_def)
  show "sc_flushIndex (flush_finally s) = - 1" "sc_queue (flush_finally s) = []" "sc_stack (flush_finally s) = PostStart AfterFlush # tl (sc_stack s)"
    "sc_pendingPost (flush_finally s) = sc_pendingPost s" "sc_activePost (flush_finally s) = sc_activePost s"
    by (simp_all add: flush_finally_def upd_top_def f)
qed

lemma flush_finally_inv:
  assumes "hooks_ok hook s" "tl (sc_stack s) = []" "strict \<Longrightarrow> kept hook (sc_flags (flush_finally s)) [] []"
  shows "sched_inv ident hook strict (flush_finally s)"
  using assms by (simp add: sched_inv_def parts_inv_def idx_ok_def stack_ok_def hooks_ok_def flushing_wakes flushing_def)

lemma flush_head_inv:
  assumes I: "sched_inv ident hook strict s" and st: "sc_stack s = FlushLoop # rest"
  shows "sched_inv ident hook strict (flush_head s)"
proof -
  let ?i = "sc_flushIndex s" let ?q = "sc_queue s" let ?fl = "sc_flags s"
  have p: "parts_inv ident hook strict ?i ?q ?fl (FlushLoop # rest)" and h: "hooks_ok hook s"
    using I by (simp_all add: sched_inv_def st)
  have r: "rest = []" using stack_ok_top [OF parts_invD(4) [OF p]] by simp
  have i: "0 \<le> ?i" "?i \<le> int (length ?q)" using parts_invD(3) [OF p] by (simp_all add: idx_ok_def r)
  have c: "core ident hook ?fl (drop (nat ?i) ?q) []" and k: "strict \<Longrightarrow> kept hook ?fl (drop (nat ?i) ?q) []"
    using parts_invD(1,2) [OF p] by (simp_all add: r next_of_def)
  show ?thesis
  proof (cases "?i < int (length ?q)")
    case False
    then have d: "drop (nat ?i) ?q = []" using i by simp
    then have "sc_flags (flush_finally s) = ?fl" by (simp add: flush_finally_def upd_top_def)
    then have "sched_inv ident hook strict (flush_finally s)" using flush_finally_inv [OF h, of strict ident] k d by (simp add: st r)
    then show ?thesis using False by (simp add: flush_head_def)
  next
    case True
    define j where "j = ?q ! nat ?i"
    have n: "nat (?i + 1) = Suc (nat ?i)" using i(1) by simp
    have d: "drop (nat ?i) ?q = j # drop (Suc (nat ?i)) ?q" using True i(1) by (simp add: j_def Cons_nth_drop_Suc)
    show ?thesis
    proof (cases "has (?fl j) DISPOSED")
      case disposed: True
      have "core ident hook ?fl (drop (Suc (nat ?i)) ?q) []" using core_remove [of ident hook ?fl "[]" j] c d by simp
      moreover have "strict \<Longrightarrow> kept hook ?fl (drop (Suc (nat ?i)) ?q) []" by (rule kept_mono [OF k]) (use disposed d in auto)
      ultimately have "sched_inv ident hook strict (s\<lparr>sc_flushIndex := ?i + 1\<rparr>)"
        using i True h by (auto simp: sched_inv_def parts_inv_def st r next_of_def idx_ok_def stack_ok_def n hooks_ok_def flushing_wakes flushing_def)
      then show ?thesis using disposed True by (simp add: flush_head_def Let_def j_def)
    next
      case False
      let ?a = "has (?fl j) ALLOW_RECURSE"
      let ?fl' = "if ?a then ?fl(j := ?fl j AND NOT QUEUED) else ?fl"
      let ?l = "if ?a then [] else [j]"
      have "core ident hook ?fl' (drop (Suc (nat ?i)) ?q) ?l"
        using core_start [of ident hook ?fl "[]" j _ "[]"] core_start_recursive [of ident hook ?fl "[]" j _ "[]"] c d by simp
      moreover have "strict \<Longrightarrow> kept hook ?fl' (drop (Suc (nat ?i)) ?q) ?l"
        using kept_start [of hook ?fl "[]" j _ "[]"] kept_start_recursive [of hook ?fl "[]" j _ "[]"] k d by simp
      ultimately have "sched_inv ident hook strict (upd_top (RunJob j ?a) (start_job j s))"
        using i True h by (auto simp: sched_inv_def parts_inv_def st r next_of_def idx_ok_def stack_ok_def n hooks_ok_def flushing_wakes flushing_def sched_op_defs)
      then show ?thesis using False True by (simp add: flush_head_def Let_def j_def)
    qed
  qed
qed


lemma sched_invD:
  assumes "sched_inv ident hook strict s"
  shows "parts_of ident hook strict s" "hooks_ok hook s" "strict \<Longrightarrow> wakes s"
  using assms by (simp_all add: sched_inv_def)

text \<open>A step that replaces or removes a frame on top that is not of the flush leaves what the microtask does.\<close>

lemma wakes_cong:
  "wakes s \<Longrightarrow> flushing s' = flushing s \<Longrightarrow> sc_promise s' = sc_promise s \<Longrightarrow> sc_ticks s' = sc_ticks s \<Longrightarrow>
    (sc_queue s' \<noteq> [] \<Longrightarrow> sc_queue s \<noteq> []) \<Longrightarrow> (sc_pendingPost s' \<noteq> [] \<Longrightarrow> sc_pendingPost s \<noteq> []) \<Longrightarrow> wakes s'"
  by (auto simp: wakes_def)

lemma flushing_top: "\<not> flush_frame f \<Longrightarrow> (\<exists>f'. sc_stack s = f' # rest \<and> \<not> flush_frame f') \<Longrightarrow> sc_stack s' = f # rest \<Longrightarrow> flushing s' = flushing s"
  by (auto simp: flushing_def)

text \<open>The head of the loop over the PRE jobs.\<close>

lemma pre_start:
  assumes I: "sched_inv ident hook strict s" and st: "sc_stack s = PreLoop k uid n # rest" and n: "n < length (sc_queue s)"
  defines "j \<equiv> sc_queue s ! n"
  shows "sched_inv ident hook strict (upd_top (RunPre k uid n j (has (sc_flags s j) ALLOW_RECURSE))
    (start_job j (s\<lparr>sc_queue := take n (sc_queue s) @ drop (n + 1) (sc_queue s)\<rparr>)))"
proof -
  let ?i = "sc_flushIndex s" let ?q = "sc_queue s" let ?fl = "sc_flags s" let ?a = "has (?fl j) ALLOW_RECURSE"
  let ?t = "nat (?i + 1)" let ?q' = "take n ?q @ drop (n + 1) ?q"
  let ?fl' = "if ?a then ?fl(j := ?fl j AND NOT QUEUED) else ?fl"
  let ?st' = "RunPre k uid n j ?a # rest"
  have p: "parts_inv ident hook strict ?i ?q ?fl (PreLoop k uid n # rest)" and h: "hooks_ok hook s"
    using I by (simp_all add: sched_inv_def st)
  have t: "?t \<le> n" using parts_invD(5) [OF p, of "PreLoop k uid n"] by simp
  have d: "drop ?t ?q = take (n - ?t) (drop ?t ?q) @ j # drop (n + 1) ?q"
    using drop_split [OF t less_imp_le [OF n]] n by (simp add: j_def Cons_nth_drop_Suc)
  have d': "drop ?t ?q' = take (n - ?t) (drop ?t ?q) @ drop (n + 1) ?q" using t n by (simp add: drop_take)
  define xs where "xs = take (n - ?t) (drop ?t ?q)"
  have c: "core ident hook ?fl (xs @ j # drop (n + 1) ?q) (locks rest)" and
    k': "strict \<Longrightarrow> kept hook ?fl (xs @ j # drop (n + 1) ?q) (locks rest)"
    using parts_invD(1,2) [OF p] d by (simp_all add: next_running xs_def)
  have "core ident hook ?fl' (xs @ drop (n + 1) ?q) (locks ?st')"
    using core_start [OF c] core_start_recursive [OF c] by simp
  moreover have "strict \<Longrightarrow> kept hook ?fl' (xs @ drop (n + 1) ?q) (locks ?st')"
    using kept_start [OF k'] kept_start_recursive [OF k'] by simp
  moreover have "idx_ok ?i (length ?q') ?st'"
    using parts_invD(3) [OF p] t n by (cases rest rule: rev_cases) (auto simp: idx_ok_def split: frame.splits)
  ultimately have "parts_inv ident hook strict ?i ?q' ?fl' ?st'"
    using stack_ok_replace [OF parts_invD(4) [OF p], of "RunPre k uid n j ?a"] parts_invD(5) [OF p] t d'
    by (auto simp: parts_inv_def next_running xs_def)
  moreover have "strict \<Longrightarrow> wakes (upd_top (RunPre k uid n j ?a) (start_job j (s\<lparr>sc_queue := ?q'\<rparr>)))"
    by (rule wakes_cong [OF sched_invD(3) [OF I]]) (use st in \<open>auto simp: upd_top_def flushing_def\<close>)
  ultimately show ?thesis using h by (auto simp: sched_inv_def sched_op_defs hooks_ok_def st)
qed

lemma pre_head_inv:
  assumes I: "sched_inv ident hook strict s" and st: "sc_stack s = PreLoop k uid n # rest"
  shows "sched_inv ident hook strict (pre_head ident k uid n s)"
proof -
  have p: "parts_inv ident hook strict (sc_flushIndex s) (sc_queue s) (sc_flags s) (PreLoop k uid n # rest)" and h: "hooks_ok hook s"
    using I by (simp_all add: sched_inv_def st)
  have n: "nat (sc_flushIndex s + 1) \<le> n" using parts_invD(5) [OF p, of "PreLoop k uid n"] by simp
  have replace: "sched_inv ident hook strict (upd_top f s)" if "\<not> flush_frame f" "locks (f # rest) = locks rest" "frame_ok hook (sc_flushIndex s) f" for f
  proof -
    have "strict \<Longrightarrow> wakes (upd_top f s)"
      by (rule wakes_cong [OF sched_invD(3) [OF I]]) (use st that(1) in \<open>auto simp: upd_top_def flushing_def\<close>)
    then show ?thesis using parts_replace [OF p _ that(1)] that(2,3) h by (simp add: sched_inv_def upd_top_def st hooks_ok_def)
  qed
  have pop: "sched_inv ident hook strict (pop s)"
  proof -
    have "strict \<Longrightarrow> wakes (pop s)"
      by (rule wakes_cong [OF sched_invD(3) [OF I]]) (use st in \<open>auto simp: pop_def flushing_def\<close>)
    then show ?thesis using parts_pop [OF p] h by (simp add: sched_inv_def pop_def st hooks_ok_def)
  qed
  show ?thesis
    using pre_start [OF I st] replace [of "PreLoop k uid (n + 1)"] replace [of "PostStart AfterRender"] pop n
    by (auto simp: pre_head_def Let_def split: pre_end.splits)
qed

text \<open>The loop over the post callbacks and its end.\<close>

fun post_frame :: "post_end \<Rightarrow> frame \<Rightarrow> bool" where
  "post_frame k (PostStart k') = (k' = k)"
| "post_frame k (PostLoop k') = (k' = k)"
| "post_frame k (RunPost k' _) = (k' = k)"
| "post_frame k _ = False"

lemma post_frameD:
  assumes "post_frame k f"
  shows "locks (f # rest) = locks rest" "flush_frame f = (k = AfterFlush)" "f \<noteq> FlushLoop"
  using assms by (cases f; simp)+

lemma post_replace:
  assumes p: "parts_inv ident hook strict i q fl (f # rest)" and f: "post_frame k f" "post_frame k g" "frame_ok hook i g"
  shows "parts_inv ident hook strict i q fl (g # rest)"
proof (cases k)
  case AfterRender
  then show ?thesis using parts_replace [OF p, of g] post_frameD [OF f(1)] post_frameD [OF f(2)] f(3) by simp
next
  case AfterFlush
  then have r: "rest = []" using stack_ok_top [OF parts_invD(4) [OF p]] post_frameD(2) [OF f(1)] by simp
  have "i = - 1" using parts_invD(3) [OF p] f(1) r by (cases f) (auto simp: idx_ok_def)
  then have "idx_ok i (length q) [g]" using f(2) by (cases g) (auto simp: idx_ok_def)
  then show ?thesis using p r f(3) post_frameD [OF f(1)] post_frameD [OF f(2)] by (simp add: parts_inv_def next_running stack_ok_def)
qed

lemma post_done_inv:
  assumes p: "parts_of ident hook strict s" and h: "hooks_ok hook s" and w: "strict \<Longrightarrow> wakes s"
    and st: "sc_stack s = f # rest" "post_frame k f"
  shows "sched_inv ident hook strict (post_done k s)"
proof (cases k)
  case AfterRender
  have "strict \<Longrightarrow> wakes (pop (s\<lparr>sc_rendering := False\<rparr>))"
    by (rule wakes_cong [OF w]) (use st post_frameD(2) [OF st(2)] AfterRender in \<open>auto simp: pop_def flushing_def\<close>)
  then show ?thesis
    using parts_pop [OF p [unfolded st(1)]] post_frameD [OF st(2)] h AfterRender st(1) by (simp add: post_done_def sched_inv_def pop_def hooks_ok_def)
next
  case AfterFlush
  have r: "rest = []" using stack_ok_top [OF parts_invD(4) [OF p [unfolded st(1)]]] post_frameD(2) [OF st(2)] AfterFlush by simp
  have i: "sc_flushIndex s = - 1" using parts_invD(3) [OF p] st r AfterFlush by (cases f) (auto simp: idx_ok_def)
  have c: "core ident hook (sc_flags s) (sc_queue s) []" "strict \<Longrightarrow> kept hook (sc_flags s) (sc_queue s) []"
    using parts_invD(1,2) [OF p] post_frameD [OF st(2)] by (simp_all add: st(1) r i next_running)
  show ?thesis
  proof (cases "sc_queue s \<noteq> [] \<or> sc_pendingPost s \<noteq> []")
    case True
    then show ?thesis using c h AfterFlush
      by (simp add: post_done_def upd_top_def sched_inv_def parts_inv_def st(1) r next_of_def idx_ok_def stack_ok_def hooks_ok_def flushing_wakes flushing_def)
  next
    case False
    then show ?thesis using c h AfterFlush
      by (simp add: post_done_def pop_def sched_inv_def parts_inv_def st(1) r next_of_def idx_ok_def stack_ok_def hooks_ok_def wakes_def i)
  qed
qed

lemma set_dedupe: "set (dedupe seen xs) \<subseteq> set xs"
  by (induction seen xs rule: dedupe.induct) auto

lemma post_start_inv:
  assumes I: "sched_inv ident hook strict s" and st: "sc_stack s = PostStart k # rest"
  shows "sched_inv ident hook strict (post_start ident k s)"
proof -
  define cbs where "cbs = sort_key (getId ident (sc_flags s)) (dedupe [] (sc_pendingPost s))"
  have h: "\<forall>j \<in> set cbs. hook j" using sched_invD(2) [OF I] set_dedupe [of "[]" "sc_pendingPost s"] by (auto simp: cbs_def hooks_ok_def)
  have w: "wakes (s\<lparr>sc_pendingPost := [], sc_activePost := a, sc_postIndex := n\<rparr>)" if strict for a n
    by (rule wakes_cong [OF sched_invD(3) [OF I that]]) (auto simp: flushing_def)
  show ?thesis
  proof (cases "sc_pendingPost s = []")
    case True
    then show ?thesis using post_done_inv [OF sched_invD [OF I] st] by (simp add: post_start_def)
  next
    case False
    show ?thesis
    proof (cases "sc_activePost s")
      case None
      have "parts_inv ident hook strict (sc_flushIndex s) (sc_queue s) (sc_flags s) (PostLoop k # rest)"
        using post_replace [of ident hook strict _ _ _ "PostStart k" rest k "PostLoop k"] sched_invD(1) [OF I] st by simp
      moreover have "wakes (s\<lparr>sc_pendingPost := [], sc_activePost := Some cbs, sc_postIndex := 0, sc_stack := PostLoop k # rest\<rparr>)" if strict
        by (rule wakes_cong [OF sched_invD(3) [OF I that]]) (use st in \<open>auto simp: flushing_def\<close>)
      ultimately show ?thesis using h False None st
        by (simp add: post_start_def Let_def cbs_def [symmetric] upd_top_def sched_inv_def hooks_ok_def)
    next
      case (Some act)
      let ?s = "s\<lparr>sc_pendingPost := [], sc_activePost := Some (act @ cbs)\<rparr>"
      have "hooks_ok hook ?s" using h sched_invD(2) [OF I] Some by (auto simp: hooks_ok_def)
      then have "sched_inv ident hook strict (post_done k ?s)"
        by (intro post_done_inv [where f = "PostStart k" and rest = rest]) (use sched_invD(1) [OF I] w [where a = "Some (act @ cbs)" and n = "sc_postIndex s"] st in simp_all)
      then show ?thesis using False Some by (simp add: post_start_def Let_def cbs_def [symmetric])
    qed
  qed
qed


lemma parts_hook: "parts_inv ident hook strict i q fl st \<Longrightarrow> hook j \<Longrightarrow> parts_inv ident hook strict i q (fl(j := x)) st"
  by (erule parts_flags) auto

lemma flags_start_job: "sc_flags (start_job j s) = (if has (sc_flags s j) ALLOW_RECURSE then (sc_flags s)(j := sc_flags s j AND NOT QUEUED) else sc_flags s)"
  by (simp add: start_job_def clear_flag_def)

lemma post_head_inv:
  assumes I: "sched_inv ident hook strict s" and st: "sc_stack s = PostLoop k # rest"
  shows "sched_inv ident hook strict (post_head k s)"
proof (cases "sc_activePost s")
  case None
  then show ?thesis using I by (simp add: post_head_def)
next
  case (Some act)
  show ?thesis
  proof (cases "sc_postIndex s < length act")
    case False
    let ?s = "s\<lparr>sc_activePost := None, sc_postIndex := 0\<rparr>"
    have "strict \<Longrightarrow> wakes ?s" by (rule wakes_cong [OF sched_invD(3) [OF I]]) (auto simp: flushing_def)
    then have "sched_inv ident hook strict (post_done k ?s)"
      by (intro post_done_inv [where f = "PostLoop k" and rest = rest]) (use sched_invD(1,2) [OF I] st in \<open>simp_all add: hooks_ok_def\<close>)
    then show ?thesis using Some False by (simp add: post_head_def)
  next
    case True
    define cb where "cb = act ! sc_postIndex s"
    have cb: "hook cb" using sched_invD(2) [OF I] Some True by (auto simp: hooks_ok_def cb_def)
    have p: "parts_inv ident hook strict (sc_flushIndex s) (sc_queue s) (sc_flags (start_job cb s)) (PostLoop k # rest)"
      using parts_hook [OF sched_invD(1) [OF I] cb] sched_invD(1) [OF I] st by (simp add: flags_start_job)
    show ?thesis
    proof (cases "has (sc_flags (start_job cb s) cb) DISPOSED")
      case disposed: True
      let ?s = "clear_flag cb QUEUED (start_job cb s)\<lparr>sc_postIndex := sc_postIndex s + 1\<rparr>"
      have "strict \<Longrightarrow> wakes ?s" by (rule wakes_cong [OF sched_invD(3) [OF I]]) (auto simp: flushing_def clear_flag_def)
      then have "sched_inv ident hook strict ?s"
        using parts_hook [OF p cb] sched_invD(2) [OF I] st by (simp add: sched_inv_def clear_flag_def hooks_ok_def)
      then show ?thesis using Some True disposed by (simp add: post_head_def Let_def cb_def)
    next
      case False
      have "strict \<Longrightarrow> wakes (upd_top (RunPost k cb) (start_job cb s))"
        by (rule wakes_cong [OF sched_invD(3) [OF I]]) (use st in \<open>auto simp: flushing_def upd_top_def\<close>)
      then have "sched_inv ident hook strict (upd_top (RunPost k cb) (start_job cb s))"
        using post_replace [OF p, of k "RunPost k cb"] cb sched_invD(2) [OF I] st by (simp add: sched_inv_def upd_top_def hooks_ok_def)
      then show ?thesis using Some True False by (simp add: post_head_def Let_def cb_def)
    qed
  qed
qed

text \<open>The end of a job.\<close>

lemma flags_end_job: "sc_flags (end_job j s) = (if has (sc_flags s j) ALLOW_RECURSE then sc_flags s else (sc_flags s)(j := sc_flags s j AND NOT QUEUED))"
  by (simp add: end_job_def clear_flag_def)

lemma unlock_inv:
  assumes "core ident hook fl w (if a then l else j # l)" "strict \<Longrightarrow> kept hook fl w (if a then l else j # l)"
  defines "fl' \<equiv> if a then fl else fl(j := fl j AND NOT QUEUED)"
  shows "core ident hook fl' w l" "strict \<Longrightarrow> kept hook fl' w l"
  using assms core_end [of ident hook fl w j l] kept_clear [of hook fl w "j # l" j l w] by (auto split: if_splits)

lemma return_inv:
  assumes I: "sched_inv ident hook strict s" and r: "return_job s = Some s'"
  shows "sched_inv ident hook strict s'"
proof -
  consider (job) j a rest where "sc_stack s = RunJob j a # rest" "has (sc_flags s j) ALLOW_RECURSE = a"
      "s' = upd_top FlushLoop (end_job j (s\<lparr>sc_flushIndex := sc_flushIndex s + 1\<rparr>))"
    | (pre) k uid n j a rest where "sc_stack s = RunPre k uid n j a # rest" "has (sc_flags s j) ALLOW_RECURSE = a"
      "s' = upd_top (PreLoop k uid n) (end_job j s)"
    | (post) k j rest where "sc_stack s = RunPost k j # rest"
      "s' = upd_top (PostLoop k) (clear_flag j QUEUED (s\<lparr>sc_postIndex := sc_postIndex s + 1\<rparr>))"
    using r by (auto simp: return_job_def split: list.splits frame.splits if_splits)
  then show ?thesis
  proof cases
    case job
    have p: "parts_inv ident hook strict (sc_flushIndex s) (sc_queue s) (sc_flags s) (RunJob j a # rest)"
      using sched_invD(1) [OF I] by (simp add: job(1))
    have e: "rest = []" using stack_ok_top [OF parts_invD(4) [OF p]] by simp
    have "core ident hook (sc_flags (end_job j s)) (drop (nat (sc_flushIndex s + 1)) (sc_queue s)) []"
      "strict \<Longrightarrow> kept hook (sc_flags (end_job j s)) (drop (nat (sc_flushIndex s + 1)) (sc_queue s)) []"
      using unlock_inv [OF parts_invD(1,2) [OF p, unfolded locks.simps next_running [of "RunJob j a # rest", simplified]]]
      by (simp_all add: e flags_end_job job(2) del: if_split)
    moreover have "0 \<le> sc_flushIndex s" "sc_flushIndex s < int (length (sc_queue s))"
      using parts_invD(3) [OF p] by (simp_all add: e idx_ok_def)
    ultimately show ?thesis using sched_invD(2) [OF I]
      by (cases a) (simp_all add: job sched_inv_def parts_inv_def upd_top_def e idx_ok_def stack_ok_def next_of_def hooks_ok_def
        flushing_wakes flushing_def flags_end_job)
  next
    case pre
    have p: "parts_inv ident hook strict (sc_flushIndex s) (sc_queue s) (sc_flags s) (RunPre k uid n j a # rest)"
      using sched_invD(1) [OF I] by (simp add: pre(1))
    let ?w = "drop (nat (sc_flushIndex s + 1)) (sc_queue s)"
    have c: "core ident hook (sc_flags (end_job j s)) ?w (locks rest)" "strict \<Longrightarrow> kept hook (sc_flags (end_job j s)) ?w (locks rest)"
      using unlock_inv [OF parts_invD(1,2) [OF p, unfolded locks.simps next_running [of "RunPre k uid n j a # rest", simplified]]]
      by (simp_all add: flags_end_job pre(2) del: if_split)
    have "parts_inv ident hook strict (sc_flushIndex s) (sc_queue s) (sc_flags (end_job j s)) (PreLoop k uid n # rest)"
      using c parts_invD(5) [OF p, of "RunPre k uid n j a"] parts_invD(5) [OF p] idx_replace [OF parts_invD(3) [OF p], of "PreLoop k uid n"] stack_ok_replace [OF parts_invD(4) [OF p], of "PreLoop k uid n"]
      by (simp add: parts_inv_def next_running)
    moreover have "strict \<Longrightarrow> wakes s'"
      by (rule wakes_cong [OF sched_invD(3) [OF I]]) (use pre in \<open>auto simp: upd_top_def flushing_def\<close>)
    ultimately show ?thesis using sched_invD(2) [OF I] by (simp add: pre sched_inv_def upd_top_def hooks_ok_def)
  next
    case post
    have p: "parts_inv ident hook strict (sc_flushIndex s) (sc_queue s) (sc_flags s) (RunPost k j # rest)"
      using sched_invD(1) [OF I] by (simp add: post(1))
    have j: "hook j" using parts_invD(5) [OF p, of "RunPost k j"] by simp
    have "strict \<Longrightarrow> wakes s'"
      by (rule wakes_cong [OF sched_invD(3) [OF I]]) (use post in \<open>auto simp: upd_top_def clear_flag_def flushing_def\<close>)
    then show ?thesis using post_replace [OF parts_hook [OF p j], of k "PostLoop k"] sched_invD(2) [OF I]
      by (simp add: post sched_inv_def upd_top_def clear_flag_def hooks_ok_def)
  qed
qed

text \<open>An exception, which may lose jobs.\<close>

lemma core_unlock: "core ident hook fl w (j # l) \<Longrightarrow> core ident hook fl w l"
  by (simp add: core_def)

lemma parts_drop_frame:
  assumes "parts_inv ident hook False i q fl (f # rest)" "\<not> flush_frame f"
  shows "parts_inv ident hook False i q fl rest"
proof -
  have s: "stack_ok (f # rest)" by (rule parts_invD(4) [OF assms(1)])
  have n: "next_of i rest = nat (i + 1)" "next_of i (f # rest) = nat (i + 1)"
    using assms(2) rest_running [OF s] by (auto intro!: next_running)
  have "core ident hook fl (drop (nat (i + 1)) q) (locks rest)"
    using parts_invD(1) [OF assms(1)] core_unlock unfolding n by (cases f) (auto split: if_splits)
  then show ?thesis
    using assms stack_ok_tl [OF s] idx_pop [of i "length q" f rest] by (simp add: parts_inv_def n)
qed

lemma throw_inv:
  assumes I: "sched_inv ident hook False s" and r: "throw s = Some s'"
  shows "sched_inv ident hook False s'"
proof -
  note p = sched_invD(1) [OF I]
  show ?thesis
  proof (cases "sc_stack s")
    case (Cons f rest)
    have e: "flush_frame f \<Longrightarrow> rest = []" using stack_ok_top parts_invD(4) [OF p] by (simp add: Cons)
    have pop: "sched_inv ident hook False (pop s)" if "f = RunPre k uid n j a \<or> f = RunPost k' j'" for k uid n j a k' j'
    proof (cases "flush_frame f")
      case True
      then have "f = RunPost AfterFlush j'" using that by auto
      then have "sc_flushIndex s = - 1" using parts_invD(3) [OF p] e True by (simp add: Cons idx_ok_def)
      then show ?thesis using parts_invD(1) [OF p] e True that sched_invD(2) [OF I]
        by (auto simp: sched_inv_def parts_inv_def pop_def Cons next_of_def idx_ok_def stack_ok_def hooks_ok_def)
    next
      case False
      then show ?thesis using parts_drop_frame p sched_invD(2) [OF I] by (auto simp: sched_inv_def pop_def Cons hooks_ok_def)
    qed
    show ?thesis
    proof (cases f)
      case (RunJob j a)
      then show ?thesis using r e flush_finally_inv [OF sched_invD(2) [OF I], of False ident] by (simp add: throw_def Cons)
    qed (use r pop in \<open>auto simp: throw_def Cons\<close>)
  qed (use r in \<open>simp add: throw_def\<close>)
qed


text \<open>The calls of running code.\<close>

lemma queueFlush_simps [simp]:
  "sc_queue (queueFlush s) = sc_queue s" "sc_flushIndex (queueFlush s) = sc_flushIndex s" "sc_pendingPost (queueFlush s) = sc_pendingPost s"
  "sc_activePost (queueFlush s) = sc_activePost s" "sc_flags (queueFlush s) = sc_flags s" "sc_stack (queueFlush s) = sc_stack s"
  by (simp_all add: queueFlush_def)

lemma wakes_queueFlush: "wakes s \<Longrightarrow> sc_promise s' = sc_promise s \<Longrightarrow> sc_ticks s' = sc_ticks s \<Longrightarrow> flushing s' = flushing s \<Longrightarrow> wakes (queueFlush s')"
  by (auto simp: wakes_def queueFlush_def flushing_def)

lemma queueJob_simps [simp]:
  "sc_pendingPost (queueJob ident j s) = sc_pendingPost s" "sc_activePost (queueJob ident j s) = sc_activePost s"
  by (simp_all add: queueJob_def Let_def set_flag_def)

lemma wakes_queueJob: "wakes s \<Longrightarrow> wakes (queueJob ident j s)"
  unfolding queueJob_def Let_def by (auto simp: set_flag_def flushing_def intro!: wakes_queueFlush)

lemma queuePost_inv:
  assumes I: "sched_inv ident hook strict s" and j: "hook j"
  shows "sched_inv ident hook strict (queuePostFlushCb ident j s)"
proof -
  have "parts_of ident hook strict (queuePostFlushCb ident j s)"
    using sched_invD(1) [OF I] parts_hook [OF sched_invD(1) [OF I] j]
    by (auto simp: queuePostFlushCb_def set_flag_def split: option.splits bool.splits)
  moreover have "hooks_ok hook (queuePostFlushCb ident j s)"
    using sched_invD(2) [OF I] j by (auto simp: queuePostFlushCb_def set_flag_def hooks_ok_def split: option.splits bool.splits dest: in_set_takeD in_set_dropD)
  moreover have "wakes (queuePostFlushCb ident j s)" if strict
    using sched_invD(3) [OF I that] by (auto simp: queuePostFlushCb_def set_flag_def flushing_def intro!: wakes_queueFlush split: option.splits bool.splits)
  ultimately show ?thesis by (simp add: sched_inv_def)
qed

lemma push_pre_inv:
  assumes I: "sched_inv ident hook strict s" and app: "app_runs s"
  shows "sched_inv ident hook strict (push_frame (PreLoop k uid (nat (sc_flushIndex s + 1))) (s\<lparr>sc_rendering := r\<rparr>))"
proof -
  let ?f = "PreLoop k uid (nat (sc_flushIndex s + 1))"
  have a: "sc_stack s = [] \<or> running (hd (sc_stack s))" using app by (auto simp: app_runs_def split: list.splits)
  have "strict \<Longrightarrow> wakes (push_frame ?f (s\<lparr>sc_rendering := r\<rparr>))"
    by (rule wakes_cong [OF sched_invD(3) [OF I]]) (auto simp: push_frame_def flushing_def)
  then show ?thesis using parts_push [OF sched_invD(1) [OF I] a, of ?f] sched_invD(2) [OF I]
    by (simp add: sched_inv_def push_frame_def hooks_ok_def)
qed

lemma other_flags [simp]:
  "has (f OR ALLOW_RECURSE) PRE = has f PRE" "has (f OR ALLOW_RECURSE) QUEUED = has f QUEUED" "has (f OR ALLOW_RECURSE) DISPOSED = has f DISPOSED"
  "has (f AND NOT ALLOW_RECURSE) PRE = has f PRE" "has (f AND NOT ALLOW_RECURSE) QUEUED = has f QUEUED"
  "has (f AND NOT ALLOW_RECURSE) DISPOSED = has f DISPOSED"
  "has (f OR DISPOSED) PRE = has f PRE" "has (f OR DISPOSED) QUEUED = has f QUEUED" "has (f OR DISPOSED) DISPOSED"
  by (simp_all add: flag_simps)

lemma set_flags_inv:
  assumes "sched_inv ident hook strict s"
    "\<And>i. \<not> hook i \<Longrightarrow> has (x i) PRE = has (sc_flags s i) PRE \<and> has (x i) QUEUED = has (sc_flags s i) QUEUED \<and> (has (sc_flags s i) DISPOSED \<longrightarrow> has (x i) DISPOSED)"
  shows "sched_inv ident hook strict (s\<lparr>sc_flags := x\<rparr>)"
  using assms parts_flags [OF sched_invD(1) [OF assms(1)], of x] by (auto simp: sched_inv_def hooks_ok_def wakes_def flushing_def)

lemma call_inv:
  assumes I: "sched_inv ident hook strict s" and app: "app_runs s" and c: "call ident hook e s = Some s'"
  shows "sched_inv ident hook strict s'"
proof (cases e)
  case (QueueJob j)
  then have j: "\<not> hook j" "s' = queueJob ident j s" using c by (auto simp: call_def split: if_splits)
  then show ?thesis
    using parts_queue [OF sched_invD(1) [OF I] app j] wakes_queueJob sched_invD(2,3) [OF I] by (auto simp: sched_inv_def hooks_ok_def)
next
  case (QueuePost j)
  then show ?thesis using c queuePost_inv [OF I] by (auto simp: call_def split: if_splits)
next
  case (QueueHooks js)
  then have js: "\<forall>j \<in> set js. hook j" "s' = queuePostFlushCbs js s" using c by (auto simp: call_def list_all_iff split: if_splits)
  have "wakes s'" if strict
    using sched_invD(3) [OF I that] unfolding js(2) queuePostFlushCbs_def by (rule wakes_queueFlush) (simp_all add: flushing_def)
  then show ?thesis using js sched_invD(1,2) [OF I] by (auto simp: sched_inv_def queuePostFlushCbs_def hooks_ok_def)
next
  case (FlushPre uid)
  then show ?thesis using c push_pre_inv [OF I app, where r = "sc_rendering s"] by (auto simp: call_def)
next
  case Render
  then show ?thesis using c I push_pre_inv [OF I app] by (auto simp: call_def split: if_splits)
next
  case (ToggleRecurse j b)
  then show ?thesis using c by (auto simp: call_def set_flag_def clear_flag_def intro!: set_flags_inv [OF I] split: if_splits)
next
  case (Dispose j)
  then show ?thesis using c by (auto simp: call_def set_flag_def intro!: set_flags_inv [OF I] split: if_splits)
qed (use c in \<open>simp_all add: call_def\<close>)

lemma go_inv: "sched_inv ident hook strict s \<Longrightarrow> go ident s = Some s' \<Longrightarrow> sched_inv ident hook strict s'"
  using flush_head_inv pre_head_inv post_start_inv post_head_inv by (auto simp: go_def split: list.splits frame.splits)

lemma tick_inv:
  assumes I: "sched_inv ident hook strict s" and st: "sc_stack s = []"
  shows "sched_inv ident hook strict (s\<lparr>sc_ticks := n, sc_flushIndex := 0, sc_stack := [FlushLoop]\<rparr>)"
proof -
  have "sc_flushIndex s = - 1" using parts_invD(3) [OF sched_invD(1) [OF I]] by (simp add: st idx_ok_def)
  then show ?thesis using sched_invD(1,2) [OF I] flushing_wakes
    by (simp add: sched_inv_def parts_inv_def st next_of_def idx_ok_def stack_ok_def hooks_ok_def flushing_def)
qed

lemma sched_step_inv:
  assumes "sched_inv ident hook (\<not> throws) s" "sched_step ident hook e s = Some s'" "e = Throw \<Longrightarrow> throws"
  shows "sched_inv ident hook (\<not> throws) s'"
proof (cases e)
  case Tick
  then show ?thesis using assms(2) tick_inv [OF assms(1)] by (auto simp: sched_step_def split: if_splits)
next
  case Go
  then show ?thesis using assms(2) go_inv [OF assms(1)] by (simp add: sched_step_def)
next
  case Return
  then show ?thesis using assms(2) return_inv [OF assms(1)] by (simp add: sched_step_def)
next
  case Throw
  then show ?thesis using assms throw_inv [of ident hook s s'] by (simp add: sched_step_def)
qed (use assms(2) call_inv [OF assms(1), of e s'] in \<open>auto simp: sched_step_def split: if_splits\<close>)

lemma sched_reached_inv:
  assumes "sched_reached ident hook fl throws s" "\<And>j. \<not> has (fl j) QUEUED"
  shows "sched_inv ident hook (\<not> throws) s"
  using assms(1)
proof (induction rule: sched_reached.induct)
  case start
  then show ?case using assms(2)
    by (simp add: sched_new_def sched_inv_def parts_inv_def next_of_def kept_def idx_ok_def stack_ok_def hooks_ok_def wakes_def)
next
  case (step s e s')
  then show ?case using sched_step_inv by blast
qed


section \<open>The list of post callbacks\<close>

fun post_runs :: "frame \<Rightarrow> bool" where
  "post_runs (PostLoop _) = True"
| "post_runs (RunPost _ _) = True"
| "post_runs _ = False"

text \<open>The list that runs is there only while its loop is.\<close>

definition acts :: "sched \<Rightarrow> bool" where
  "acts s \<longleftrightarrow> (sc_activePost s \<noteq> None \<longrightarrow> (\<exists>f \<in> set (sc_stack s). post_runs f))"

lemma acts_top:
  assumes "acts s" "sc_stack s = f # rest" "post_runs f \<Longrightarrow> post_runs g" "sc_activePost s' = sc_activePost s" "sc_stack s' = g # rest"
  shows "acts s'"
  using assms by (auto simp: acts_def)

lemma acts_pop: "acts s \<Longrightarrow> sc_stack s = f # rest \<Longrightarrow> \<not> post_runs f \<Longrightarrow> sc_activePost s' = sc_activePost s \<Longrightarrow> sc_stack s' = rest \<Longrightarrow> acts s'"
  by (auto simp: acts_def)

lemma acts_same: "acts s \<Longrightarrow> sc_stack s' = sc_stack s \<Longrightarrow> sc_activePost s' = None \<or> sc_activePost s \<noteq> None \<Longrightarrow> acts s'"
  by (auto simp: acts_def)

lemma acts_none: "sc_activePost s = None \<Longrightarrow> acts s"
  by (simp add: acts_def)

lemma acts_post_done:
  assumes "sc_stack s = f # rest" "post_frame k f" "sc_activePost s \<noteq> None \<Longrightarrow> (\<exists>f \<in> set rest. post_runs f) \<and> \<not> flush_frame f"
  shows "acts (post_done k s)"
  using assms post_frameD(2) [OF assms(2)]
  by (cases k) (auto simp: post_done_def acts_def pop_def upd_top_def Let_def)

lemma acts_go:
  assumes I: "sched_inv ident hook strict s" and a: "acts s" and g: "go ident s = Some s'"
  shows "acts s'"
proof (cases "sc_stack s")
  case Nil
  then show ?thesis using g by (simp add: go_def)
next
  case (Cons f rest)
  show ?thesis
  proof (cases f)
    case FlushLoop
    then have e: "rest = []" using stack_ok_top parts_invD(4) [OF sched_invD(1) [OF I]] by (simp add: Cons)
    then have "sc_activePost s = None" using a Cons FlushLoop by (auto simp: acts_def)
    then have "sc_activePost (flush_head s) = None" by (simp add: flush_head_def Let_def upd_top_def)
    then show ?thesis using g Cons FlushLoop by (auto simp: go_def intro: acts_none)
  next
    case (PreLoop k uid n)
    then have "s' = pre_head ident k uid n s" using g Cons by (simp add: go_def)
    then show ?thesis using a Cons PreLoop
      by (auto simp: pre_head_def Let_def acts_def upd_top_def pop_def split: pre_end.splits)
  next
    case (PostStart k)
    then have s': "s' = post_start ident k s" using g Cons by (simp add: go_def)
    have f: "\<not> flush_frame (PostStart k)" if "sc_activePost s \<noteq> None"
    proof
      assume "flush_frame (PostStart k)"
      then have "rest = []" using stack_ok_top parts_invD(4) [OF sched_invD(1) [OF I]] by (simp add: Cons PostStart)
      then show False using a that by (simp add: acts_def Cons PostStart)
    qed
    have act: "\<exists>f \<in> set rest. post_runs f" if "sc_activePost s \<noteq> None" using a that by (auto simp: acts_def Cons PostStart)
    show ?thesis
    proof (cases "sc_pendingPost s = [] \<or> sc_activePost s \<noteq> None")
      case True
      then obtain t where t: "s' = post_done k t" "sc_stack t = sc_stack s" "sc_activePost t \<noteq> None \<Longrightarrow> sc_activePost s \<noteq> None"
      proof (cases "sc_pendingPost s = []")
        case True
        show ?thesis by (rule that [of s]) (use True in \<open>simp_all add: s' post_start_def\<close>)
      next
        case False
        then obtain act where act: "sc_activePost s = Some act" using True by auto
        show ?thesis
          by (rule that [of "s\<lparr>sc_pendingPost := [], sc_activePost := Some (act @ sort_key (getId ident (sc_flags s)) (dedupe [] (sc_pendingPost s)))\<rparr>"])
            (use False act in \<open>simp_all add: s' post_start_def Let_def\<close>)
      qed
      show ?thesis unfolding t(1)
        by (rule acts_post_done [of t "PostStart k" rest]) (use t f act in \<open>simp_all add: Cons PostStart\<close>)
    next
      case False
      then show ?thesis by (auto simp: s' post_start_def Let_def acts_def upd_top_def)
    qed
  next
    case (PostLoop k)
    then have s': "s' = post_head k s" using g Cons by (simp add: go_def)
    show ?thesis
    proof (cases "sc_activePost s")
      case (Some act)
      show ?thesis
      proof (cases "sc_postIndex s < length act")
        case True
        then show ?thesis using Some PostLoop Cons by (auto simp: s' post_head_def Let_def acts_def upd_top_def clear_flag_def)
      next
        case False
        then show ?thesis unfolding s' post_head_def Some
          by (auto intro!: acts_post_done [of _ "PostLoop k" rest] simp: Cons PostLoop)
      qed
    qed (use a in \<open>simp add: s' post_head_def\<close>)
  qed (use g Cons in \<open>simp_all add: go_def\<close>)
qed

lemma acts_step:
  assumes I: "sched_inv ident hook strict s" and a: "acts s" and e: "sched_step ident hook e s = Some s'" "e \<noteq> Throw"
  shows "acts s'"
proof (cases e)
  case Return
  then show ?thesis using a e
    by (auto simp: sched_step_def return_job_def acts_def upd_top_def clear_flag_def split: list.splits frame.splits if_splits)
next
  case (QueuePost j)
  then have "s' = queuePostFlushCb ident j s" using e by (auto simp: sched_step_def call_def split: if_splits)
  then show ?thesis using a
    by (auto simp: acts_def queuePostFlushCb_def set_flag_def split: option.splits bool.splits)
next
  case (QueueJob j)
  then have "s' = queueJob ident j s" using e by (auto simp: sched_step_def call_def split: if_splits)
  then show ?thesis using a by (auto simp: acts_def queueJob_def Let_def set_flag_def)
qed (use a e acts_go [OF I a] in \<open>auto simp: sched_step_def call_def acts_def queuePostFlushCbs_def push_frame_def set_flag_def clear_flag_def split: if_splits\<close>)


section \<open>A flush of jobs that call nothing\<close>

fun job_of :: "frame \<Rightarrow> nat list" where
  "job_of (RunJob j _) = [j]"
| "job_of (RunPre _ _ _ j _) = [j]"
| "job_of (RunPost _ j) = [j]"
| "job_of _ = []"

text \<open>The jobs that run, and the state when the stack is empty, if \<open>n\<close> steps are enough for that.\<close>

fun quiet :: "(nat \<Rightarrow> int option) \<Rightarrow> nat \<Rightarrow> sched \<Rightarrow> (nat list \<times> sched) option" where
  "quiet ident 0 s = (if sc_stack s = [] then Some ([], s) else None)"
| "quiet ident (Suc n) s =
     (case sc_stack s of
        [] \<Rightarrow> Some ([], s)
      | f # _ \<Rightarrow>
          (case (if running f then return_job s else go ident s) of
             None \<Rightarrow> None
           | Some s' \<Rightarrow> map_option (\<lambda>(js, t). (job_of f @ js, t)) (quiet ident n s')))"

declare quiet.simps(2) [simp del]

definition live :: "(nat \<Rightarrow> flags) \<Rightarrow> nat list \<Rightarrow> nat list" where
  "live fl = filter (\<lambda>j. \<not> has (fl j) DISPOSED)"

definition cleared :: "(nat \<Rightarrow> flags) \<Rightarrow> nat list \<Rightarrow> nat \<Rightarrow> flags" where
  "cleared fl js j = (if j \<in> set js then fl j AND NOT QUEUED else fl j)"

lemma clear_queued [simp]:
  "has (f AND NOT QUEUED) PRE = has f PRE" "has (f AND NOT QUEUED) ALLOW_RECURSE = has f ALLOW_RECURSE"
  "has (f AND NOT QUEUED) DISPOSED = has f DISPOSED" "\<not> has (f AND NOT QUEUED) QUEUED"
  "f AND NOT QUEUED AND NOT QUEUED = f AND NOT QUEUED"
  by (simp_all add: flag_simps and.assoc)

lemma cleared_Nil [simp]: "cleared fl [] = fl"
  by (rule ext) (simp add: cleared_def)

lemma has_cleared [simp]:
  "has (cleared fl js j) PRE = has (fl j) PRE" "has (cleared fl js j) DISPOSED = has (fl j) DISPOSED"
  "has (cleared fl js j) QUEUED \<longleftrightarrow> has (fl j) QUEUED \<and> j \<notin> set js"
  by (auto simp: cleared_def)

lemma getId_cleared [simp]: "getId ident (cleared fl js) = getId ident fl"
  by (rule ext) (simp add: getId_def)

lemma cleared_Cons: "cleared (fl(j := fl j AND NOT QUEUED)) js = cleared fl (j # js)"
  by (rule ext) (simp add: cleared_def)

lemma live_cong: "(\<And>j. has (fl j) DISPOSED = has (fl' j) DISPOSED) \<Longrightarrow> live fl js = live fl' js"
  by (simp add: live_def)

lemma quiet_go: "sc_stack s = f # rest \<Longrightarrow> \<not> running f \<Longrightarrow> go ident s = Some s' \<Longrightarrow> quiet ident n s' = Some (js, t) \<Longrightarrow> quiet ident (Suc n) s = Some (js, t)"
  by (cases f) (simp_all add: quiet.simps(2))

lemma quiet_run:
  assumes "sc_stack s = f # rest" "\<not> running f" "go ident s = Some s'" "sc_stack s' = g # rest'" "running g" "return_job s' = Some s''"
    "quiet ident n s'' = Some (js, t)"
  shows "quiet ident (Suc (Suc n)) s = Some (job_of g @ js, t)"
  by (rule quiet_go [OF assms(1,2,3)]) (use assms(4-7) in \<open>simp add: quiet.simps(2)\<close>)

definition after_flush :: "sched \<Rightarrow> sched" where
  "after_flush s = s\<lparr>sc_flags := cleared (sc_flags s) (live (sc_flags s) (drop (nat (sc_flushIndex s)) (sc_queue s))),
     sc_flushIndex := - 1, sc_queue := [], sc_stack := [PostStart AfterFlush]\<rparr>"

lemma quiet_flush:
  assumes "sc_stack s = [FlushLoop]" "0 \<le> sc_flushIndex s" "sc_flushIndex s \<le> int (length (sc_queue s))"
    "quiet ident n (after_flush s) = Some (js, t)"
  shows "\<exists>m. quiet ident m s = Some (live (sc_flags s) (drop (nat (sc_flushIndex s)) (sc_queue s)) @ js, t)"
  using assms
proof (induction "length (sc_queue s) - nat (sc_flushIndex s)" arbitrary: s)
  case 0
  then have e: "\<not> sc_flushIndex s < int (length (sc_queue s))" "drop (nat (sc_flushIndex s)) (sc_queue s) = []" by auto
  have "go ident s = Some (after_flush s)"
    using e 0(2) by (simp add: go_def flush_head_def flush_finally_def upd_top_def after_flush_def live_def cleared_def)
  then have "quiet ident (Suc n) s = Some (js, t)" using quiet_go [OF 0(2) _ _ 0(5)] by simp
  then show ?case by (auto simp: e live_def)
next
  case (Suc k)
  define i where "i = nat (sc_flushIndex s)"
  define j where "j = sc_queue s ! i"
  define u where "u = s\<lparr>sc_flags := cleared (sc_flags s) (live (sc_flags s) [j]), sc_flushIndex := sc_flushIndex s + 1\<rparr>"
  have i: "sc_flushIndex s = int i" "i < length (sc_queue s)" "nat (int i + 1) = Suc i" using Suc.hyps(2) Suc.prems(2) by (auto simp: i_def)
  have d: "drop i (sc_queue s) = j # drop (Suc i) (sc_queue s)" using i(2) by (simp add: j_def Cons_nth_drop_Suc)
  have u: "sc_stack u = [FlushLoop]" "0 \<le> sc_flushIndex u" "sc_flushIndex u \<le> int (length (sc_queue u))"
      "k = length (sc_queue u) - nat (sc_flushIndex u)"
    using i Suc.hyps(2) Suc.prems(1) by (auto simp: u_def)
  have l: "live (sc_flags u) js = live (sc_flags s) js" for js by (rule live_cong) (simp add: u_def)
  have "cleared (sc_flags u) (live (sc_flags u) (drop (Suc i) (sc_queue s))) = cleared (sc_flags s) (live (sc_flags s) (drop i (sc_queue s)))"
    by (rule ext) (auto simp: l u_def d cleared_def live_def)
  then have "after_flush u = after_flush s" using i by (simp add: after_flush_def u_def)
  then obtain m where m: "quiet ident m u = Some (live (sc_flags s) (drop (Suc i) (sc_queue s)) @ js, t)"
    using Suc.hyps(1) [OF u(4,1,2,3)] Suc.prems(4) l i by (auto simp: u_def)
  show ?case
  proof (cases "has (sc_flags s j) DISPOSED")
    case True
    then have "u = s\<lparr>sc_flushIndex := sc_flushIndex s + 1\<rparr>" by (simp add: u_def live_def cleared_def)
    then have "go ident s = Some u" using True i Suc.prems(1) by (simp add: go_def flush_head_def Let_def j_def)
    then have "quiet ident (Suc m) s = Some (live (sc_flags s) (drop (Suc i) (sc_queue s)) @ js, t)"
      using quiet_go [OF Suc.prems(1) _ _ m] by simp
    then show ?thesis using True i d by (auto simp: live_def)
  next
    case False
    let ?a = "has (sc_flags s j) ALLOW_RECURSE"
    define v where "v = upd_top (RunJob j ?a) (start_job j s)"
    have g: "go ident s = Some v" using False i Suc.prems(1) by (simp add: go_def flush_head_def Let_def j_def v_def)
    have st: "sc_stack v = [RunJob j ?a]" using Suc.prems(1) by (simp add: v_def upd_top_def)
    have "cleared (sc_flags s) (live (sc_flags s) [j]) = (sc_flags s)(j := sc_flags s j AND NOT QUEUED)"
      using False by (auto simp: live_def cleared_def)
    then have "return_job v = Some u" using Suc.prems(1)
      by (cases ?a) (simp_all add: return_job_def v_def upd_top_def start_job_def end_job_def clear_flag_def u_def)
    then have "quiet ident (Suc (Suc m)) s = Some ([j] @ live (sc_flags s) (drop (Suc i) (sc_queue s)) @ js, t)"
      using quiet_run [OF Suc.prems(1) _ g st _ _ m] by simp
    then show ?thesis using False i d by (auto simp: live_def)
  qed
qed


definition after_post :: "sched \<Rightarrow> sched" where
  "after_post s = s\<lparr>sc_flags := cleared (sc_flags s) (case sc_activePost s of None \<Rightarrow> [] | Some act \<Rightarrow> drop (sc_postIndex s) act),
     sc_activePost := None, sc_postIndex := 0, sc_promise := False, sc_stack := []\<rparr>"

lemma quiet_post:
  assumes "sc_stack s = [PostLoop AfterFlush]" "sc_activePost s = Some act" "sc_queue s = []" "sc_pendingPost s = []"
  shows "\<exists>m. quiet ident m s = Some (live (sc_flags s) (drop (sc_postIndex s) act), after_post s)"
  using assms
proof (induction "length act - sc_postIndex s" arbitrary: s)
  case 0
  then have "go ident s = Some (after_post s)"
    by (simp add: go_def post_head_def post_done_def pop_def after_post_def)
  then have "quiet ident (Suc 0) s = Some ([], after_post s)" using quiet_go [OF 0(2)] by (simp add: after_post_def)
  then show ?case using 0(1) by (auto simp: live_def)
next
  case (Suc k)
  define i where "i = sc_postIndex s"
  define j where "j = act ! i"
  define u where "u = s\<lparr>sc_flags := cleared (sc_flags s) [j], sc_postIndex := Suc i\<rparr>"
  have i: "i < length act" using Suc.hyps(2) by (simp add: i_def)
  have d: "drop i act = j # drop (Suc i) act" using i by (simp add: j_def Cons_nth_drop_Suc)
  have u: "sc_stack u = [PostLoop AfterFlush]" "sc_activePost u = Some act" "sc_queue u = []" "sc_pendingPost u = []"
      "k = length act - sc_postIndex u" "sc_postIndex u = Suc i"
    using Suc.prems Suc.hyps(2) by (simp_all add: u_def i_def)
  have l: "live (sc_flags u) js = live (sc_flags s) js" for js by (rule live_cong) (simp add: u_def)
  have "cleared (sc_flags u) (drop (Suc i) act) = cleared (sc_flags s) (drop i act)"
    by (rule ext) (auto simp: u_def d cleared_def)
  then have a: "after_post u = after_post s" using Suc.prems(2) by (simp add: after_post_def u_def i_def)
  obtain m where m: "quiet ident m u = Some (live (sc_flags s) (drop (Suc i) act), after_post s)"
    using Suc.hyps(1) [OF u(5,1-4)] by (auto simp: l a u(6))
  have f: "cleared (sc_flags s) [j] = (sc_flags s)(j := sc_flags s j AND NOT QUEUED)" by (rule ext) (simp add: cleared_def)
  show ?case
  proof (cases "has (sc_flags s j) DISPOSED")
    case True
    then have "go ident s = Some u" using Suc.prems i
      by (cases "has (sc_flags s j) ALLOW_RECURSE")
        (simp_all add: go_def post_head_def Let_def i_def [symmetric] j_def [symmetric] start_job_def clear_flag_def u_def f)
    then have "quiet ident (Suc m) s = Some (live (sc_flags s) (drop (Suc i) act), after_post s)"
      using quiet_go [OF Suc.prems(1) _ _ m] by simp
    then show ?thesis using True d by (auto simp: live_def i_def)
  next
    case False
    define v where "v = upd_top (RunPost AfterFlush j) (start_job j s)"
    have g: "go ident s = Some v" using False Suc.prems i
      by (cases "has (sc_flags s j) ALLOW_RECURSE")
        (simp_all add: go_def post_head_def Let_def i_def [symmetric] j_def [symmetric] start_job_def clear_flag_def v_def)
    have st: "sc_stack v = [RunPost AfterFlush j]" using Suc.prems(1) by (simp add: v_def upd_top_def)
    have "return_job v = Some u" using Suc.prems(1)
      by (cases "has (sc_flags s j) ALLOW_RECURSE") (simp_all add: return_job_def v_def upd_top_def start_job_def clear_flag_def u_def f i_def)
    then have "quiet ident (Suc (Suc m)) s = Some ([j] @ live (sc_flags s) (drop (Suc i) act), after_post s)"
      using quiet_run [OF Suc.prems(1) _ g st _ _ m] by simp
    then show ?thesis using False d by (auto simp: live_def i_def)
  qed
qed

text \<open>The post callbacks in the order in which they run.\<close>

definition post_order :: "(nat \<Rightarrow> int option) \<Rightarrow> (nat \<Rightarrow> flags) \<Rightarrow> nat list \<Rightarrow> nat list" where
  "post_order ident fl cbs = sort_key (getId ident fl) (dedupe [] cbs)"

text \<open>What that order is: each callback once, by id, and with equal ids by the first time it was queued.\<close>

definition first_at :: "nat list \<Rightarrow> nat \<Rightarrow> nat" where
  "first_at cbs j = length (takeWhile (\<lambda>x. x \<noteq> j) cbs)"

definition before :: "(nat \<Rightarrow> int option) \<Rightarrow> (nat \<Rightarrow> flags) \<Rightarrow> nat list \<Rightarrow> nat \<Rightarrow> nat \<Rightarrow> bool" where
  "before ident fl cbs i j \<longleftrightarrow> getId ident fl i < getId ident fl j \<or> getId ident fl i = getId ident fl j \<and> first_at cbs i < first_at cbs j"

lemma dedupe_once: "distinct (dedupe seen xs) \<and> set (dedupe seen xs) = set xs - set seen"
  by (induction seen xs rule: dedupe.induct) auto

lemma dedupe_first: "sorted_wrt (\<lambda>i j. first_at xs i < first_at xs j) (dedupe seen xs)"
proof (induction seen xs rule: dedupe.induct)
  case (2 seen x xs)
  have "sorted_wrt (\<lambda>i j. first_at (x # xs) i < first_at (x # xs) j) (dedupe t xs)"
    if "sorted_wrt (\<lambda>i j. first_at xs i < first_at xs j) (dedupe t xs)" "x \<in> set t" for t
    using that(1) by (rule sorted_wrt_mono_rel [rotated]) (use that(2) dedupe_once [of t xs] in \<open>auto simp: first_at_def\<close>)
  from this [of seen] this [of "x # seen"] show ?case
    using 2 dedupe_once [of "x # seen" xs] by (auto simp: first_at_def)
qed simp

lemma insort_before:
  assumes "sorted_wrt (\<lambda>i j. f i < f j \<or> f i = f j \<and> R i j) xs" and "\<forall>y \<in> set xs. R x y"
  shows "sorted_wrt (\<lambda>i j. f i < f j \<or> f i = f j \<and> R i j) (insort_key f x xs)"
  using assms by (induction xs) (auto simp: set_insort_key)

lemma sort_key_before: "sorted_wrt R xs \<Longrightarrow> sorted_wrt (\<lambda>i j. f i < f j \<or> f i = f j \<and> R i j) (sort_key f xs)"
  by (induction xs) (auto intro: insort_before)

lemma post_order_once:
  "distinct (post_order ident fl cbs)" "set (post_order ident fl cbs) = set cbs" "sorted_wrt (before ident fl cbs) (post_order ident fl cbs)"
  using dedupe_once [of "[]" cbs] sort_key_before [OF dedupe_first, of "getId ident fl" cbs "[]"]
  by (simp_all add: post_order_def before_def [abs_def])

lemma quiet_post_start:
  assumes "sc_stack s = [PostStart AfterFlush]" "sc_activePost s = None" "sc_queue s = []"
  shows "\<exists>m t. quiet ident m s = Some (live (sc_flags s) (post_order ident (sc_flags s) (sc_pendingPost s)), t) \<and>
    sc_stack t = [] \<and> sc_queue t = [] \<and> sc_pendingPost t = [] \<and> sc_activePost t = None \<and> \<not> sc_promise t \<and>
    (\<forall>j. has (sc_flags t j) QUEUED \<longrightarrow> has (sc_flags s j) QUEUED) \<and> (\<forall>j. has (sc_flags t j) DISPOSED = has (sc_flags s j) DISPOSED)"
proof (cases "sc_pendingPost s = []")
  case True
  let ?t = "s\<lparr>sc_promise := False, sc_stack := []\<rparr>"
  have "go ident s = Some ?t" using assms True by (simp add: go_def post_start_def post_done_def pop_def)
  then have "quiet ident (Suc 0) s = Some ([], ?t)" using quiet_go [OF assms(1)] by simp
  then show ?thesis using True assms by (intro exI [of _ "Suc 0"] exI [of _ ?t]) (simp add: post_order_def live_def)
next
  case False
  define u where "u = s\<lparr>sc_pendingPost := [], sc_activePost := Some (post_order ident (sc_flags s) (sc_pendingPost s)),
    sc_postIndex := 0, sc_stack := [PostLoop AfterFlush]\<rparr>"
  have g: "go ident s = Some u" using assms False by (simp add: go_def post_start_def Let_def upd_top_def u_def post_order_def)
  obtain m where "quiet ident m u = Some (live (sc_flags s) (post_order ident (sc_flags s) (sc_pendingPost s)), after_post u)"
    using quiet_post [of u "post_order ident (sc_flags s) (sc_pendingPost s)" ident] assms(3) by (auto simp: u_def)
  then have "quiet ident (Suc m) s = Some (live (sc_flags s) (post_order ident (sc_flags s) (sc_pendingPost s)), after_post u)"
    using quiet_go [OF assms(1) _ g] by simp
  then show ?thesis using assms(3) by (intro exI [of _ "Suc m"] exI [of _ "after_post u"]) (simp add: after_post_def u_def)
qed

lemma sched_reached_acts:
  assumes "sched_reached ident hook fl False s" "\<And>j. \<not> has (fl j) QUEUED"
  shows "acts s"
  using assms(1)
proof (induction rule: sched_reached.induct)
  case (step s e s')
  then show ?case using acts_step [OF sched_reached_inv [OF step.hyps(1) assms(2)] step.IH step.hyps(2)] by blast
qed (simp add: acts_def sched_new_def)

section \<open>The properties\<close>

text \<open>
  C9: The queue of jobs is sound, whatever the application calls and however jobs nest. In every reachable state the
  jobs that wait are sorted by their ids, PRE jobs before others of the same id, so a component is updated after
  its parents; no job waits twice, and each is marked as queued. If no exception passes the error handling,
  then every job that is marked as queued, and is not disposed of, waits or runs, so no update is lost, and when
  something waits a microtask or the flush under way will take it.
\<close>

theorem web_queue_ordered:
  assumes "sched_reached ident hook fl throws s" and "\<And>j. \<not> has (fl j) QUEUED"
  shows "sorted (map (job_key ident (sc_flags s)) (waiting s)) \<and> distinct (waiting s) \<and>
    (\<forall>j \<in> set (waiting s). has (sc_flags s j) QUEUED \<and> \<not> hook j) \<and>
    (\<not> throws \<longrightarrow>
      (\<forall>j. has (sc_flags s j) QUEUED \<and> \<not> has (sc_flags s j) DISPOSED \<and> \<not> hook j \<longrightarrow>
        j \<in> set (waiting s) \<or> j \<in> set (locks (sc_stack s))) \<and>
      (waiting s \<noteq> [] \<or> sc_pendingPost s \<noteq> [] \<longrightarrow> 0 < sc_ticks s \<or> flushing s))"
proof -
  note I = sched_reached_inv [OF assms]
  have c: "core ident hook (sc_flags s) (waiting s) (locks (sc_stack s))" using parts_invD(1) [OF sched_invD(1) [OF I]] by (simp add: waiting_def)
  have k: "kept hook (sc_flags s) (waiting s) (locks (sc_stack s))" if "\<not> throws"
    using parts_invD(2) [OF sched_invD(1) [OF I] that] by (simp add: waiting_def)
  have w: "wakes s" if "\<not> throws" using sched_invD(3) [OF I that] .
  have "waiting s \<noteq> [] \<Longrightarrow> sc_queue s \<noteq> []" by (auto simp: waiting_def)
  then show ?thesis using c k w unfolding core_def kept_def wakes_def by (simp add: ball_Un) blast
qed

text \<open>
  C10: A flush does what was queued. When a microtask runs and no exception has passed the error handling before, then
  jobs and callbacks that call nothing themselves are run, those that are not disposed of: first the jobs in the order of the
  queue, then the callbacks that wait, in the order of their ids and, with equal ids, of their first queueing; and none of
  all these runs twice, however often it was queued. The flush ends, with nothing that waits, and no job
  marked as queued except disposed ones, so every later change queues its jobs again. (No function is both a job
  and a callback, and none was marked as queued when the application began.)
\<close>

theorem web_queue_drains:
  assumes "sched_reached ident hook fl False s" and "\<And>j. \<not> has (fl j) QUEUED" and "sched_step ident hook Tick s = Some s'"
  shows "\<exists>n ps t. quiet ident n s' = Some (filter (\<lambda>j. \<not> has (sc_flags s j) DISPOSED) (sc_queue s) @ ps, t) \<and>
    set ps = {j \<in> set (sc_pendingPost s). \<not> has (sc_flags s j) DISPOSED} \<and>
    sorted_wrt (before ident (sc_flags s) (sc_pendingPost s)) ps \<and> distinct (sc_queue s @ ps) \<and>
    sc_stack t = [] \<and> sc_queue t = [] \<and> sc_pendingPost t = [] \<and> \<not> sc_promise t \<and>
    (\<forall>j. \<not> hook j \<longrightarrow> has (sc_flags t j) QUEUED \<longrightarrow> has (sc_flags t j) DISPOSED)"
proof -
  have st: "sc_stack s = []" and s': "s' = s\<lparr>sc_ticks := sc_ticks s - 1, sc_flushIndex := 0, sc_stack := [FlushLoop]\<rparr>"
    using assms(3) by (auto simp: sched_step_def split: if_splits)
  have "sc_activePost s = None" using sched_reached_acts [OF assms(1,2)] by (simp add: acts_def st)
  then obtain n t where n: "quiet ident n (after_flush s') = Some (live (sc_flags s) (post_order ident (sc_flags s) (sc_pendingPost s)), t)"
      "sc_stack t = []" "sc_queue t = []" "sc_pendingPost t = []" "\<not> sc_promise t"
      "\<And>j. has (sc_flags t j) QUEUED \<Longrightarrow> has (sc_flags (after_flush s') j) QUEUED"
      "\<And>j. has (sc_flags t j) DISPOSED = has (sc_flags (after_flush s') j) DISPOSED"
    using quiet_post_start [of "after_flush s'" ident] by (auto simp: after_flush_def s' post_order_def live_def)
  obtain m where m: "quiet ident m s' = Some (live (sc_flags s) (sc_queue s) @ live (sc_flags s) (post_order ident (sc_flags s) (sc_pendingPost s)), t)"
    using quiet_flush [OF _ _ _ n(1)] by (auto simp: s')
  have i: "sc_flushIndex s = - 1" using parts_invD(3) [OF sched_invD(1) [OF sched_reached_inv [OF assms(1,2)]]] by (simp add: idx_ok_def st)
  have "j \<in> set (sc_queue s)" if "has (sc_flags s j) QUEUED" "\<not> has (sc_flags s j) DISPOSED" "\<not> hook j" for j
    using parts_invD(2) [OF sched_invD(1) [OF sched_reached_inv [OF assms(1,2)]]] that by (auto simp: kept_def st next_of_def i)
  then have "has (sc_flags t j) DISPOSED" if "\<not> hook j" "has (sc_flags t j) QUEUED" for j
    using n(6,7) [of j] that by (auto simp: after_flush_def s' live_def)
  note marked = this
  let ?ps = "live (sc_flags s) (post_order ident (sc_flags s) (sc_pendingPost s))"
  note inv = sched_reached_inv [OF assms(1,2)]
  have "core ident hook (sc_flags s) (sc_queue s) []"
    using parts_invD(1) [OF sched_invD(1) [OF inv]] by (simp add: kept_def st next_of_def i)
  then have "distinct (sc_queue s)" "\<forall>j \<in> set (sc_queue s). \<not> hook j" by (auto simp: core_def)
  moreover have "\<forall>j \<in> set (sc_pendingPost s). hook j" using sched_invD(2) [OF inv] by (auto simp: hooks_ok_def)
  ultimately have "distinct (sc_queue s @ ?ps)"
    using post_order_once(1,2) [of ident "sc_flags s" "sc_pendingPost s"] by (auto simp: live_def)
  then show ?thesis
    using m n(2-5) marked post_order_once(2,3) [of ident "sc_flags s" "sc_pendingPost s"]
    by (intro exI [of _ m] exI [of _ ?ps] exI [of _ t]) (auto simp: live_def sorted_wrt_filter)
qed


section \<open>Samples\<close>

fun run_events :: "(nat \<Rightarrow> int option) \<Rightarrow> (nat \<Rightarrow> bool) \<Rightarrow> sched_event list \<Rightarrow> sched \<Rightarrow> sched option" where
  "run_events ident hook [] s = Some s"
| "run_events ident hook (e # es) s = (case sched_step ident hook e s of None \<Rightarrow> None | Some s' \<Rightarrow> run_events ident hook es s')"

lemma run_events_reached:
  "sched_reached ident hook fl throws s \<Longrightarrow> run_events ident hook es s = Some s' \<Longrightarrow> Throw \<notin> set es \<Longrightarrow> sched_reached ident hook fl throws s'"
proof (induction es arbitrary: s)
  case (Cons e es)
  obtain t where t: "sched_step ident hook e s = Some t" "run_events ident hook es t = Some s'"
    using Cons.prems(2) by (auto split: option.splits)
  show ?case by (rule Cons.IH [OF sched_reached.step [OF Cons.prems(1) t(1)] t(2)]) (use Cons.prems(3) in auto)
qed simp

text \<open>Components 1, 2 and 3, which allow recursion, and the post callbacks 8 and 9.\<close>

definition sample_ident :: "nat \<Rightarrow> int option" where "sample_ident j = Some (int j)"

definition sample_hook :: "nat \<Rightarrow> bool" where "sample_hook j = (8 \<le> j)"

definition sample_flags :: "nat \<Rightarrow> flags" where "sample_flags j = ALLOW_RECURSE"

lemma sample_flags_free: "\<not> has (sample_flags j) QUEUED"
  by (simp add: sample_flags_def flag_simps)

lemma find_index_eqs:
  "\<not> u < v \<Longrightarrow> find_index ident s e u v = u"
  "u < v \<Longrightarrow> find_index ident s e u v =
     (if getId ident (sc_flags s) (sc_queue s ! ((u + v) div 2)) < e \<or>
         getId ident (sc_flags s) (sc_queue s ! ((u + v) div 2)) = e \<and> has (sc_flags s (sc_queue s ! ((u + v) div 2))) PRE
      then find_index ident s e ((u + v) div 2 + 1) v else find_index ident s e u ((u + v) div 2))"
  by (simp_all add: find_index.simps [of ident s e u v] Let_def)

lemmas sched_run = sched_step_def call_def app_runs_def go_def return_job_def queueJob_def findInsertionIndex_def find_index_eqs queueFlush_def
  queuePostFlushCb_def flush_head_def start_job_def set_flag_def clear_flag_def upd_top_def sched_new_def getId_def Let_def less_jid_def
  flag_simps sample_ident_def sample_hook_def sample_flags_def

lemma sample_run:
  "\<exists>s. run_events sample_ident sample_hook [QueueJob 3, QueueJob 1, Tick, Go, QueueJob 2, QueueJob 3, QueueJob 1] (sched_new sample_flags) = Some s \<and>
    waiting s = [1, 2, 3]"
  by (simp add: sched_run waiting_def next_of_def)

theorem web_queue_ordered_witness:
  "\<exists>s. waiting s = [1, 2, 3] \<and> sorted (map (job_key sample_ident (sc_flags s)) (waiting s)) \<and> distinct (waiting s) \<and> 0 < sc_ticks s + length (sc_stack s)"
proof -
  obtain s where s: "run_events sample_ident sample_hook [QueueJob 3, QueueJob 1, Tick, Go, QueueJob 2, QueueJob 3, QueueJob 1] (sched_new sample_flags) = Some s"
    "waiting s = [1, 2, 3]" using sample_run by blast
  have "sched_reached sample_ident sample_hook sample_flags False s"
    by (rule run_events_reached [OF sched_reached.start s(1)]) simp
  from web_queue_ordered [OF this sample_flags_free] show ?thesis using s(2) by (intro exI [of _ s]) (auto simp: flushing_def)
qed

theorem web_queue_drains_witness:
  "\<exists>s s' n t. run_events sample_ident sample_hook [QueueHooks [9, 8, 9], QueueJob 3, QueueJob 1, QueueJob 2] (sched_new sample_flags) = Some s \<and>
    sched_step sample_ident sample_hook Tick s = Some s' \<and> quiet sample_ident n s' = Some ([1, 2, 3, 8, 9], t) \<and> sc_queue t = []"
proof -
  obtain s where s: "run_events sample_ident sample_hook [QueueHooks [9, 8, 9], QueueJob 3, QueueJob 1, QueueJob 2] (sched_new sample_flags) = Some s"
      "sc_queue s = [1, 2, 3]" "sc_pendingPost s = [9, 8, 9]" "sc_stack s = []" "0 < sc_ticks s" "\<And>j. \<not> has (sc_flags s j) DISPOSED"
    by (simp add: sched_run queuePostFlushCbs_def)
  obtain s' where s': "sched_step sample_ident sample_hook Tick s = Some s'" using s(4,5) by (simp add: sched_step_def)
  have "sched_reached sample_ident sample_hook sample_flags False s"
    by (rule run_events_reached [OF sched_reached.start s(1)]) simp
  from web_queue_drains [OF this sample_flags_free s'] obtain n ps t where q: "quiet sample_ident n s' = Some ([1, 2, 3] @ ps, t)" "sc_queue t = []"
      and "set ps = {j. j = 9 \<or> j = 8 \<or> j = 9}" and o: "sorted_wrt (before sample_ident (sc_flags s) [9, 8, 9]) ps"
    using s by auto
  then have p: "set ps = {8, 9}" by auto
  have "ps = [8, 9]"
  proof -
    have "sorted_wrt (<) ps" using o by (rule sorted_wrt_mono_rel [rotated]) (use p in \<open>auto simp: before_def getId_def sample_ident_def less_jid_def\<close>)
    then show ?thesis using p sorted_distinct_set_unique [of ps "[8, 9]"] by (simp add: strict_sorted_iff)
  qed
  then show ?thesis using q s(1) s' by auto
qed

end
