(* ===== verification/WebRouter.thy ===== *)
theory WebRouter
  imports JavaMap JsRegex
begin

text \<open>
  Locations of the router that the console bundles (\<open>vue-router\<close>): encoding and decoding, queries, URLs and relative
  paths. Identifiers are those of the router's sources, with the minified name in parentheses. Texts are lists of UTF-16
  code units. \<open>encodeURI\<close> and \<open>decodeURIComponent\<close> are those of the language: UTF-8 in percent
  escapes, \<open>None\<close> where they throw a URIError. A query is an object: its entries in their order; the order in which
  JavaScript enumerates integer keys first is that of the entries.

  The lemmas read an encoded text as a list of tokens, plain units and escapes, on which the chains of \<open>replace\<close> calls
  act token by token; with that what is stringified is parsed back.
\<close>

section \<open>Escapes\<close>

definition hex_digit :: "nat \<Rightarrow> nat" where
  "hex_digit n = (if n < 10 then 48 + n else 55 + n)"

definition percent :: "nat \<Rightarrow> units" where
  "percent b = [37, hex_digit (b div 16), hex_digit (b mod 16)]"

definition utf8 :: "nat \<Rightarrow> nat list" where
  "utf8 c =
     (if c < 128 then [c]
      else if c < 2048 then [192 + c div 64, 128 + c mod 64]
      else if c < 65536 then [224 + c div 4096, 128 + c div 64 mod 64, 128 + c mod 64]
      else [240 + c div 262144, 128 + c div 4096 mod 64, 128 + c div 64 mod 64, 128 + c mod 64])"

definition is_high :: "nat \<Rightarrow> bool" where "is_high c \<longleftrightarrow> 55296 \<le> c \<and> c < 56320"

definition is_low :: "nat \<Rightarrow> bool" where "is_low c \<longleftrightarrow> 56320 \<le> c \<and> c < 57344"

text \<open>The characters that \<open>encodeURI\<close> keeps: letters, digits, \<open>-_.!~*'()\<close>, \<open>;/?:@&=+$,\<close> and \<open>#\<close>.\<close>

definition uri_keeps :: "nat \<Rightarrow> bool" where
  "uri_keeps c \<longleftrightarrow> in_ranges [(48, 57), (65, 90), (97, 122)] c \<or> c \<in> set (units ''-_.!~*();/?:@&=+$,#'') \<or> c = 39"

fun encodeURI :: "units \<Rightarrow> units option" where
  "encodeURI [] = Some []"
| "encodeURI (c # cs) =
     (if uri_keeps c then map_option ((#) c) (encodeURI cs)
      else if is_low c then None
      else if is_high c then
        (case cs of
           d # ds \<Rightarrow> if is_low d then map_option ((@) (concat (map percent (utf8 (65536 + (c - 55296) * 1024 + (d - 56320)))))) (encodeURI ds) else None
         | [] \<Rightarrow> None)
      else map_option ((@) (concat (map percent (utf8 c)))) (encodeURI cs))"

definition hex_val :: "nat \<Rightarrow> nat option" where
  "hex_val c =
     (if 48 \<le> c \<and> c \<le> 57 then Some (c - 48)
      else if 65 \<le> c \<and> c \<le> 70 then Some (c - 55)
      else if 97 \<le> c \<and> c \<le> 102 then Some (c - 87) else None)"

text \<open>An escape at the start of a text: its octet and what follows.\<close>

fun octet :: "units \<Rightarrow> (nat \<times> units) option" where
  "octet (p # a # b # cs) =
     (case (hex_val a, hex_val b) of
        (Some x, Some y) \<Rightarrow> if p = 37 then Some (16 * x + y, cs) else None
      | _ \<Rightarrow> None)"
| "octet _ = None"

text \<open>\<open>n\<close> continuation octets, six bits each.\<close>

fun continuation :: "nat \<Rightarrow> nat \<Rightarrow> units \<Rightarrow> (nat \<times> units) option" where
  "continuation 0 v cs = Some (v, cs)"
| "continuation (Suc n) v cs =
     (case octet cs of
        None \<Rightarrow> None
      | Some (b, rest) \<Rightarrow> if 128 \<le> b \<and> b < 192 then continuation n (v * 64 + (b - 128)) rest else None)"

definition utf16 :: "nat \<Rightarrow> units" where
  "utf16 v = (if v < 65536 then [v] else [55296 + (v - 65536) div 1024, 56320 + (v - 65536) mod 1024])"

text \<open>One character in escapes: a shortest UTF-8 sequence of a scalar value.\<close>

definition escaped :: "units \<Rightarrow> (units \<times> units) option" where
  "escaped cs =
     (case octet cs of
        None \<Rightarrow> None
      | Some (b, rest) \<Rightarrow>
          if b < 128 then Some ([b], rest)
          else let (n, low, v) =
                 (if 192 \<le> b \<and> b < 224 then (1, 128, b - 192) else if 224 \<le> b \<and> b < 240 then (2, 2048, b - 224)
                  else if 240 \<le> b \<and> b < 248 then (3, 65536, b - 240) else (0, 1, 0))
               in (case continuation n v rest of
                     None \<Rightarrow> None
                   | Some (c, rest') \<Rightarrow>
                       if low \<le> c \<and> c \<le> 1114111 \<and> \<not> (55296 \<le> c \<and> c < 57344) then Some (utf16 c, rest') else None))"

lemma octet_length: "octet cs = Some (b, rest) \<Longrightarrow> length rest < length cs"
  by (induction cs rule: octet.induct) (auto split: option.splits if_splits)

lemma continuation_length: "continuation n v cs = Some (w, rest) \<Longrightarrow> length rest \<le> length cs"
proof (induction n arbitrary: v cs)
  case (Suc n)
  then obtain b r where "octet cs = Some (b, r)" "continuation n (v * 64 + (b - 128)) r = Some (w, rest)"
    by (auto split: option.splits if_splits)
  then show ?case using Suc.IH octet_length by fastforce
qed simp

lemma escaped_length: "escaped cs = Some (w, rest) \<Longrightarrow> length rest < length cs"
  by (auto simp: escaped_def Let_def split: option.splits if_splits dest!: octet_length continuation_length)

function decodeURIComponent :: "units \<Rightarrow> units option" where
  "decodeURIComponent [] = Some []"
| "decodeURIComponent (c # cs) =
     (if c \<noteq> 37 then map_option ((#) c) (decodeURIComponent cs)
      else (case escaped (c # cs) of
              None \<Rightarrow> None
            | Some (w, rest) \<Rightarrow> map_option ((@) w) (decodeURIComponent rest)))"
  by pat_completeness auto
termination by (relation "measure length") (auto dest: escaped_length)

section \<open>The router's encoders\<close>

text \<open>\<open>text.replace(/p/g, r)\<close> for a literal \<open>p\<close>.\<close>

function replace_all :: "units \<Rightarrow> units \<Rightarrow> units \<Rightarrow> units" where
  "replace_all p r s =
     (if s = [] then []
      else if p \<noteq> [] \<and> take (length p) s = p then r @ replace_all p r (drop (length p) s)
      else hd s # replace_all p r (tl s))"
  by pat_completeness auto
termination by (relation "measure (\<lambda>(p, r, s). length s)") auto

declare replace_all.simps [simp del]

text \<open>\<open>commonEncode\<close> ($2), \<open>encodeHash\<close> (OA), \<open>encodeQueryValue\<close> (z0), \<open>encodeQueryKey\<close> ($A); the chains of replacements are lists.\<close>

definition replaces :: "(string \<times> string) list \<Rightarrow> units \<Rightarrow> units" where
  "replaces rs s = fold (\<lambda>(p, r). replace_all (units p) (units r)) rs s"

definition common_table :: "(string \<times> string) list" where
  "common_table = [(''%7C'', ''|''), (''%5B'', ''[''), (''%5D'', '']'')]"

definition hash_table :: "(string \<times> string) list" where
  "hash_table = [(''%7B'', ''{''), (''%7D'', ''}''), (''%5E'', ''^'')]"

definition value_table :: "(string \<times> string) list" where
  "value_table = [(''+'', ''%2B''), (''%20'', ''+''), (''#'', ''%23''), (''&'', ''%26''), (''%60'', ''`''), (''%7B'', ''{''),
     (''%7D'', ''}''), (''%5E'', ''^'')]"

definition commonEncode :: "units \<Rightarrow> units option" where
  "commonEncode s = map_option (replaces common_table) (encodeURI s)"

definition encodeHash :: "units \<Rightarrow> units option" where
  "encodeHash s = map_option (replaces hash_table) (commonEncode s)"

definition encodeQueryValue :: "units \<Rightarrow> units option" where
  "encodeQueryValue s = map_option (replaces value_table) (commonEncode s)"

definition encodeQueryKey :: "units \<Rightarrow> units option" where
  "encodeQueryKey s = map_option (replaces [(''='', ''%3D'')]) (encodeQueryValue s)"

text \<open>\<open>decode\<close> (Ii): the text itself where decoding throws.\<close>

definition decode :: "units \<Rightarrow> units" where
  "decode s = (case decodeURIComponent s of None \<Rightarrow> s | Some t \<Rightarrow> t)"


section \<open>Queries\<close>

text \<open>A value is a text, null, undefined or an array of those; \<open>Inherited\<close> is a function of \<open>Object.prototype\<close>.\<close>

datatype qitem = Undef | Null | Text units | Inherited units

datatype qval = One qitem | Many "qitem list"

type_synonym query = "(units, qval) jmap"

text \<open>\<open>key in query\<close> also finds what an object inherits.\<close>

definition object_keys :: "units list" where
  "object_keys = map units [''constructor'', ''hasOwnProperty'', ''isPrototypeOf'', ''propertyIsEnumerable'', ''toLocaleString'',
     ''toString'', ''valueOf'', ''__defineGetter__'', ''__defineSetter__'', ''__lookupGetter__'', ''__lookupSetter__'']"

definition proto_key :: units where
  "proto_key = units ''__proto__''"

fun split_at :: "nat \<Rightarrow> units \<Rightarrow> units list" where
  "split_at c [] = [[]]"
| "split_at c (x # xs) =
     (if x = c then [] # split_at c xs
      else (case split_at c xs of
              [] \<Rightarrow> [[x]]
            | p # ps \<Rightarrow> (x # p) # ps))"

text \<open>The value of a key is pushed to those before it.\<close>

definition add_value :: "units \<Rightarrow> qitem \<Rightarrow> query \<Rightarrow> query" where
  "add_value k v t =
     (case jget t k of
        Some (One u) \<Rightarrow> jput k (Many [u, v]) t
      | Some (Many us) \<Rightarrow> jput k (Many (us @ [v])) t
      | None \<Rightarrow> if k \<in> set object_keys then jput k (Many [Inherited k, v]) t else jput k (One v) t)"

text \<open>\<open>parseQuery\<close> (GA). \<open>None\<close>: the key \<open>__proto__\<close>, which replaces the prototype of the query.\<close>

definition parse_param :: "units \<Rightarrow> query \<Rightarrow> query option" where
  "parse_param p t =
     (let searchParam = replace_all (units ''+'') (units '' '') p;
          key = decode (takeWhile (\<lambda>c. c \<noteq> 61) searchParam);
          value = (if 61 \<in> set searchParam then Text (decode (tl (dropWhile (\<lambda>c. c \<noteq> 61) searchParam))) else Null)
      in if key = proto_key then None else Some (add_value key value t))"

fun parse_params :: "units list \<Rightarrow> query \<Rightarrow> query option" where
  "parse_params [] t = Some t"
| "parse_params (p # ps) t = (case parse_param p t of None \<Rightarrow> None | Some t' \<Rightarrow> parse_params ps t')"

definition parseQuery :: "units \<Rightarrow> query option" where
  "parseQuery search =
     (if search = [] \<or> search = units ''?'' then Some []
      else parse_params (split_at 38 (if hd search = 63 then tl search else search)) [])"

text \<open>\<open>stringifyQuery\<close> (b1). \<open>None\<close>: the encoding throws. A function is turned to its text, which is not modelled.\<close>

definition ampersand :: "units \<Rightarrow> units" where
  "ampersand s = (if s = [] then [] else units ''&'')"

fun item_text :: "qitem \<Rightarrow> units option option" where
  "item_text Undef = Some None"
| "item_text Null = Some (Some [])"
| "item_text (Text s) = (if s = [] then Some (Some (units ''='')) else map_option (\<lambda>e. Some (units ''='' @ e)) (encodeQueryValue s))"
| "item_text (Inherited _) = None"

fun stringify_items :: "units \<Rightarrow> qitem list \<Rightarrow> units \<Rightarrow> units option" where
  "stringify_items k [] s = Some s"
| "stringify_items k (v # vs) s =
     (case item_text v of
        None \<Rightarrow> None
      | Some None \<Rightarrow> stringify_items k vs s
      | Some (Some t) \<Rightarrow> stringify_items k vs (s @ ampersand s @ k @ t))"

definition qitems :: "qval \<Rightarrow> qitem list" where
  "qitems v = (case v of One x \<Rightarrow> [x] | Many xs \<Rightarrow> xs)"

fun stringify_from :: "query \<Rightarrow> units \<Rightarrow> units option" where
  "stringify_from [] s = Some s"
| "stringify_from ((k, v) # q) s =
     (case encodeQueryKey k of
        None \<Rightarrow> None
      | Some k' \<Rightarrow> (case stringify_items k' (qitems v) s of None \<Rightarrow> None | Some s' \<Rightarrow> stringify_from q s'))"

definition stringifyQuery :: "query \<Rightarrow> units option" where
  "stringifyQuery q = stringify_from q []"

section \<open>URLs\<close>

text \<open>\<open>resolveRelativePath\<close> (DA): the loop over the segments, with the position in the current path.\<close>

fun relative_loop :: "units list \<Rightarrow> nat \<Rightarrow> nat \<times> units list" where
  "relative_loop [] position = (position, [])"
| "relative_loop (i # toSegments) position =
     (if i = units ''.'' then relative_loop toSegments position
      else if i = units ''..'' then relative_loop toSegments (if position > 1 then position - 1 else position)
      else (position, i # toSegments))"

fun join_at :: "nat \<Rightarrow> units list \<Rightarrow> units" where
  "join_at c [] = []"
| "join_at c [p] = p"
| "join_at c (p # ps) = p @ c # join_at c ps"

definition resolveRelativePath :: "units \<Rightarrow> units \<Rightarrow> units" where
  "resolveRelativePath to from' =
     (if to \<noteq> [] \<and> hd to = 47 then to
      else if to = [] then from'
      else let fromSegments = split_at 47 from';
               segments = split_at 47 to;
               toSegments = (if last segments = units ''..'' \<or> last segments = units ''.'' then segments @ [[]] else segments);
               (position, rest) = relative_loop toSegments (length fromSegments - 1)
           in join_at 47 (take position fromSegments) @ units ''/'' @ join_at 47 rest)"

record location =
  lo_fullPath :: units
  lo_path :: units
  lo_query :: query
  lo_hash :: units

text \<open>
  \<open>parseURL\<close> (Wf), with the positions of the first \<open>#\<close> and the first question mark before it. The empty path of a URL
  that begins with the query is taken for a missing one when there is a hash: then the query is in the path, too.
\<close>

definition parseURL :: "units \<Rightarrow> units \<Rightarrow> location option" where
  "parseURL url currentLocation =
     (let front = takeWhile (\<lambda>c. c \<noteq> 35) url;
          hash = dropWhile (\<lambda>c. c \<noteq> 35) url;
          path = takeWhile (\<lambda>c. c \<noteq> 63) front;
          search = dropWhile (\<lambda>c. c \<noteq> 63) front
      in map_option (\<lambda>query.
           let path = resolveRelativePath (if path = [] \<and> hash \<noteq> [] then front else path) currentLocation
           in \<lparr>lo_fullPath = path @ search @ hash, lo_path = path, lo_query = query, lo_hash = decode hash\<rparr>)
         (if search = [] then Some [] else parseQuery (tl search)))"

text \<open>\<open>stringifyURL\<close> (NA).\<close>

definition stringifyURL :: "units \<Rightarrow> query \<Rightarrow> units \<Rightarrow> units option" where
  "stringifyURL path query hash =
     map_option (\<lambda>n. path @ (if n = [] then [] else units ''?'') @ n @ hash) (stringifyQuery query)"


section \<open>Tokens\<close>

datatype token = Plain nat | Pct nat

fun tok_text :: "token \<Rightarrow> units" where
  "tok_text (Plain c) = [c]"
| "tok_text (Pct b) = percent b"

fun tok_ok :: "token \<Rightarrow> bool" where
  "tok_ok (Plain c) = (c \<noteq> 37)"
| "tok_ok (Pct b) = (b < 256)"

definition toks_text :: "token list \<Rightarrow> units" where
  "toks_text ts = concat (map tok_text ts)"

lemma toks_text_simps [simp]:
  "toks_text [] = []" "toks_text (t # ts) = tok_text t @ toks_text ts" "toks_text (ts @ us) = toks_text ts @ toks_text us"
  by (simp_all add: toks_text_def)

definition subst :: "token \<Rightarrow> token \<Rightarrow> token \<Rightarrow> token" where
  "subst p r t = (if t = p then r else t)"

lemma subst_simps [simp]: "subst p r p = r" "t \<noteq> p \<Longrightarrow> subst p r t = t"
  by (simp_all add: subst_def)

lemma hex_digit_inj: "a < 16 \<Longrightarrow> b < 16 \<Longrightarrow> hex_digit a = hex_digit b \<Longrightarrow> a = b"
  by (auto simp: hex_digit_def split: if_splits)

lemma hex_digit_val [simp]: "a < 16 \<Longrightarrow> hex_val (hex_digit a) = Some a"
  by (auto simp: hex_digit_def hex_val_def)

lemma hex_digit_range: "a < 16 \<Longrightarrow> hex_val c = None \<Longrightarrow> hex_digit a \<noteq> c"
  by (metis hex_digit_val option.distinct(1))

lemma percent_inj: "a < 256 \<Longrightarrow> b < 256 \<Longrightarrow> percent a = percent b \<Longrightarrow> a = b"
proof -
  assume ab: "a < 256" "b < 256" "percent a = percent b"
  have "a div 16 = b div 16" "a mod 16 = b mod 16" using ab by (auto simp: percent_def intro!: hex_digit_inj)
  then show "a = b" by (metis div_mult_mod_eq)
qed

lemma octet_percent [simp]: "b < 256 \<Longrightarrow> octet (percent b @ rest) = Some (b, rest)"
  by (simp add: percent_def)

lemma replace_all_Nil [simp]: "replace_all p r [] = []"
  by (simp add: replace_all.simps)

lemma replace_all_no: "take (length p) (c # s) \<noteq> p \<Longrightarrow> replace_all p r (c # s) = c # replace_all p r s"
  by (subst replace_all.simps) simp

lemma replace_all_yes: "p \<noteq> [] \<Longrightarrow> replace_all p r (p @ s) = r @ replace_all p r s"
  by (subst replace_all.simps) simp

text \<open>The token to be replaced: an escape, or a unit that no escape contains.\<close>

fun tok_pattern :: "token \<Rightarrow> bool" where
  "tok_pattern (Plain c) = (c \<noteq> 37 \<and> hex_val c = None)"
| "tok_pattern (Pct b) = (b < 256)"

lemma replace_toks:
  assumes "list_all tok_ok ts" "tok_pattern p"
  shows "replace_all (tok_text p) (tok_text r) (toks_text ts) = toks_text (map (subst p r) ts)"
  using assms(1)
proof (induction ts)
  case (Cons t ts)
  then have IH: "replace_all (tok_text p) (tok_text r) (toks_text ts) = toks_text (map (subst p r) ts)" and t: "tok_ok t" by simp_all
  show ?case
  proof (cases "t = p")
    case True
    have "tok_text p \<noteq> []" by (cases p) (simp_all add: percent_def)
    then show ?thesis using True IH by (simp add: replace_all_yes)
  next
    case False
    show ?thesis
    proof (cases t)
      case (Plain d)
      have "take (length (tok_text p)) (d # toks_text ts) \<noteq> tok_text p"
        using False Plain t by (cases p) (simp_all add: percent_def)
      then show ?thesis using False IH Plain by (simp add: replace_all_no)
    next
      case (Pct e)
      have e: "e div 16 < 16" "e mod 16 < 16" using t Pct by auto
      have h: "hex_digit (e div 16) \<noteq> 37" "hex_digit (e mod 16) \<noteq> 37" using e hex_digit_range by (auto simp: hex_val_def)
      have n: "take (length (tok_text p)) (percent e @ toks_text ts) \<noteq> tok_text p"
        "take (length (tok_text p)) (hex_digit (e div 16) # hex_digit (e mod 16) # toks_text ts) \<noteq> tok_text p"
        "take (length (tok_text p)) (hex_digit (e mod 16) # toks_text ts) \<noteq> tok_text p"
      proof -
        show "take (length (tok_text p)) (percent e @ toks_text ts) \<noteq> tok_text p"
        proof (cases p)
          case (Pct b)
          then have "percent e \<noteq> percent b" using percent_inj [of e b] False t \<open>t = Pct e\<close> assms(2) by auto
          then show ?thesis using Pct by (simp add: percent_def)
        qed (use assms(2) in \<open>simp add: percent_def\<close>)
        show "take (length (tok_text p)) (hex_digit (e div 16) # hex_digit (e mod 16) # toks_text ts) \<noteq> tok_text p"
          "take (length (tok_text p)) (hex_digit (e mod 16) # toks_text ts) \<noteq> tok_text p"
          using assms(2) h hex_digit_range e by (cases p; simp add: percent_def)+
      qed
      have "replace_all (tok_text p) (tok_text r) (percent e @ toks_text ts) = percent e @ replace_all (tok_text p) (tok_text r) (toks_text ts)"
        using n by (simp add: percent_def replace_all_no)
      then show ?thesis using False IH Pct by simp
    qed
  qed
qed simp

lemma replace_unit: "replace_all [c] [d] s = map (\<lambda>x. if x = c then d else x) s"
proof (induction s)
  case (Cons x s)
  then show ?case using replace_all_yes [of "[c]" "[d]" s] replace_all_no [of "[c]" x s "[d]"] by (cases "x = c") simp_all
qed simp


section \<open>What the encoders give\<close>

definition scalar :: "nat \<Rightarrow> bool" where
  "scalar c \<longleftrightarrow> c < 55296 \<or> 57344 \<le> c \<and> c \<le> 1114111"

definition chars :: "nat list \<Rightarrow> units" where
  "chars cs = concat (map utf16 cs)"

lemma chars_simps [simp]: "chars [] = []" "chars (c # cs) = utf16 c @ chars cs"
  by (simp_all add: chars_def)

definition uri_toks :: "nat \<Rightarrow> token list" where
  "uri_toks c = (if uri_keeps c then [Plain c] else map Pct (utf8 c))"

lemma uri_keeps_ascii: "uri_keeps c \<Longrightarrow> c < 128 \<and> c \<noteq> 37"
  by (auto simp: uri_keeps_def)

lemma utf8_byte: "scalar c \<Longrightarrow> b \<in> set (utf8 c) \<Longrightarrow> b < 256 \<and> (128 \<le> c \<longrightarrow> 128 \<le> b)"
  by (auto simp: utf8_def scalar_def split: if_splits)

lemma uri_toks_ok: "scalar c \<Longrightarrow> list_all tok_ok (uri_toks c)"
  using uri_keeps_ascii utf8_byte by (auto simp: uri_toks_def list_all_iff)

lemma toks_text_Pct [simp]: "toks_text (map Pct bs) = concat (map percent bs)"
  by (induction bs) simp_all

lemma encodeURI_char: "scalar c \<Longrightarrow> encodeURI (utf16 c @ s) = map_option ((@) (toks_text (uri_toks c))) (encodeURI s)"
proof (cases "c < 65536")
  case True
  assume "scalar c"
  then show ?thesis using True by (auto simp: utf16_def uri_toks_def is_low_def is_high_def scalar_def intro!: option.map_cong0)
next
  case False
  assume c: "scalar c"
  let ?h = "55296 + (c - 65536) div 1024" let ?l = "56320 + (c - 65536) mod 1024"
  have h: "?h < 56320" using c by (auto simp: scalar_def)
  have k: "\<not> uri_keeps ?h" "\<not> uri_keeps c" using uri_keeps_ascii [of ?h] uri_keeps_ascii [of c] False by auto
  have "65536 + (?h - 55296) * 1024 + (?l - 56320) = c" using False by simp
  then show ?thesis using h k False by (simp add: utf16_def is_high_def is_low_def uri_toks_def)
qed

lemma encodeURI_chars: "list_all scalar cs \<Longrightarrow> encodeURI (chars cs) = Some (toks_text (concat (map uri_toks cs)))"
  by (induction cs) (simp_all add: encodeURI_char)

text \<open>A table of replacements on tokens.\<close>

definition substs :: "(token \<times> token) list \<Rightarrow> token \<Rightarrow> token" where
  "substs ps t = fold (\<lambda>(p, r). subst p r) ps t"

lemma replaces_toks:
  assumes "list_all tok_ok ts" "list_all (\<lambda>(p, r). tok_pattern p \<and> tok_ok r) ps"
    and "map (\<lambda>(p, r). (units p, units r)) rs = map (\<lambda>(p, r). (tok_text p, tok_text r)) ps"
  shows "replaces rs (toks_text ts) = toks_text (map (substs ps) ts) \<and> list_all tok_ok (map (substs ps) ts)"
  using assms
proof (induction ps arbitrary: rs ts)
  case Nil
  then show ?case by (simp add: replaces_def substs_def)
next
  case (Cons x ps)
  obtain p r where x: "x = (p, r)" by (cases x)
  obtain p' r' rs' where rs: "rs = (p', r') # rs'" "units p' = tok_text p" "units r' = tok_text r"
      "map (\<lambda>(p, r). (units p, units r)) rs' = map (\<lambda>(p, r). (tok_text p, tok_text r)) ps"
    using Cons.prems(3) x by auto
  let ?ts = "map (subst p r) ts"
  have ok: "list_all tok_ok ?ts" using Cons.prems(1,2) x by (auto simp: list_all_iff subst_def)
  have e: "replace_all (units p') (units r') (toks_text ts) = toks_text ?ts"
    unfolding rs(2,3) using replace_toks [OF Cons.prems(1), of p r] Cons.prems(2) x by simp
  have m: "map (substs ps) ?ts = map (substs (x # ps)) ts" by (simp add: substs_def x)
  have r: "replaces rs (toks_text ts) = replaces rs' (toks_text ?ts)" using e by (simp add: replaces_def rs(1))
  show ?case unfolding r m [symmetric] by (rule Cons.IH [OF ok _ rs(4)]) (use Cons.prems(2) in simp)
qed

definition value_substs :: "(token \<times> token) list" where
  "value_substs = [(Pct 124, Plain 124), (Pct 91, Plain 91), (Pct 93, Plain 93), (Plain 43, Pct 43), (Pct 32, Plain 43), (Plain 35, Pct 35),
     (Plain 38, Pct 38), (Pct 96, Plain 96), (Pct 123, Plain 123), (Pct 125, Plain 125), (Pct 94, Plain 94)]"

definition key_substs :: "(token \<times> token) list" where
  "key_substs = value_substs @ [(Plain 61, Pct 61)]"

definition hash_substs :: "(token \<times> token) list" where
  "hash_substs = [(Pct 124, Plain 124), (Pct 91, Plain 91), (Pct 93, Plain 93), (Pct 123, Plain 123), (Pct 125, Plain 125), (Pct 94, Plain 94)]"

lemma encode_chars:
  assumes cs: "list_all scalar cs"
  shows "encodeQueryValue (chars cs) = Some (toks_text (map (substs value_substs) (concat (map uri_toks cs))))"
    "encodeQueryKey (chars cs) = Some (toks_text (map (substs key_substs) (concat (map uri_toks cs))))"
    "encodeHash (chars cs) = Some (toks_text (map (substs hash_substs) (concat (map uri_toks cs))))"
proof -
  let ?ts = "concat (map uri_toks cs)"
  have ok: "list_all tok_ok ?ts" using cs uri_toks_ok by (induction cs) auto
  have r: "replaces rs (toks_text ?ts) = toks_text (map (substs ps) ?ts)"
    if "list_all (\<lambda>(p, r). tok_pattern p \<and> tok_ok r) ps" "map (\<lambda>(p, r). (units p, units r)) rs = map (\<lambda>(p, r). (tok_text p, tok_text r)) ps" for rs ps
    using replaces_toks [OF ok that] by blast
  have a: "replaces rs' (replaces rs s) = replaces (rs @ rs') s" for rs rs' s by (simp add: replaces_def)
  show "encodeQueryValue (chars cs) = Some (toks_text (map (substs value_substs) ?ts))"
    unfolding encodeQueryValue_def commonEncode_def encodeURI_chars [OF cs] option.map a
    by (subst r [where ps = value_substs]) (simp_all add: value_substs_def common_table_def value_table_def percent_def hex_digit_def hex_val_def)
  show "encodeQueryKey (chars cs) = Some (toks_text (map (substs key_substs) ?ts))"
    unfolding encodeQueryKey_def encodeQueryValue_def commonEncode_def encodeURI_chars [OF cs] option.map a
    by (subst r [where ps = key_substs]) (simp_all add: key_substs_def value_substs_def common_table_def value_table_def percent_def hex_digit_def hex_val_def)
  show "encodeHash (chars cs) = Some (toks_text (map (substs hash_substs) ?ts))"
    unfolding encodeHash_def commonEncode_def encodeURI_chars [OF cs] option.map a
    by (subst r [where ps = hash_substs]) (simp_all add: hash_substs_def common_table_def hash_table_def percent_def hex_digit_def hex_val_def)
qed


section \<open>Decoding\<close>

lemma continuation_step: "x < 64 \<Longrightarrow> continuation (Suc n) v (percent (128 + x) @ s) = continuation n (v * 64 + x) s"
  by simp

lemma escaped_lead:
  assumes "192 \<le> b" "b < 248" "(n, low, v) = (if b < 224 then (1, 128, b - 192) else if b < 240 then (2, 2048, b - 224) else (3, 65536, b - 240))"
    "continuation n v rest = Some (c, rest')" "low \<le> c" "scalar c"
  shows "escaped (percent b @ rest) = Some (utf16 c, rest')"
proof -
  have "c \<le> 1114111 \<and> \<not> (55296 \<le> c \<and> c < 57344)" using assms(6) by (auto simp: scalar_def)
  moreover have "b < 256" using assms(2) by simp
  ultimately show ?thesis using assms by (auto simp: escaped_def split: if_splits)
qed

lemma div_mod_64:
  "(c::nat) div 64 * 64 + c mod 64 = c"
  "(c div 4096 * 64 + c div 64 mod 64) * 64 + c mod 64 = c"
  "((c div 262144 * 64 + c div 4096 mod 64) * 64 + c div 64 mod 64) * 64 + c mod 64 = c"
proof -
  show a: "c div 64 * 64 + c mod 64 = c" for c :: nat by simp
  have "c div 4096 = c div 64 div 64" "c div 262144 = c div 4096 div 64" by (simp_all add: div_mult2_eq [symmetric])
  then show "(c div 4096 * 64 + c div 64 mod 64) * 64 + c mod 64 = c"
    "((c div 262144 * 64 + c div 4096 mod 64) * 64 + c div 64 mod 64) * 64 + c mod 64 = c"
    using a [of c] a [of "c div 64"] a [of "c div 4096"] by simp_all
qed

lemma escaped_utf8: "scalar c \<Longrightarrow> escaped (concat (map percent (utf8 c)) @ rest) = Some (utf16 c, rest)"
proof -
  assume c: "scalar c"
  note s = continuation_step [of "c mod 64", simplified] continuation_step [of "c div 64 mod 64", simplified] continuation_step [of "c div 4096 mod 64", simplified]
  have "c \<le> 1114111" using c by (auto simp: scalar_def)
  then consider "c < 128" | "128 \<le> c" "c < 2048" | "2048 \<le> c" "c < 65536" | "65536 \<le> c" "c \<le> 1114111" by linarith
  then show ?thesis
  proof cases
    case 1
    then show ?thesis by (simp add: utf8_def escaped_def utf16_def)
  next
    case 2
    then have d: "c div 64 < 32" "2 \<le> c div 64" by auto
    have "escaped (percent (192 + c div 64) @ percent (128 + c mod 64) @ rest) = Some (utf16 c, rest)"
      by (rule escaped_lead [of _ 1 128 "c div 64"]) (use 2 d c in \<open>simp_all add: s div_mod_64 del: continuation.simps(2) add: continuation.simps(2) [of 0]\<close>)
    then show ?thesis using 2 by (simp add: utf8_def)
  next
    case 3
    then have d: "c div 4096 < 16" by auto
    have "escaped (percent (224 + c div 4096) @ percent (128 + c div 64 mod 64) @ percent (128 + c mod 64) @ rest) = Some (utf16 c, rest)"
      by (rule escaped_lead [of _ 2 2048 "c div 4096"]) (use 3 d c div_mod_64(2) [of c] in \<open>simp_all add: numeral_2_eq_2\<close>)
    then show ?thesis using 3 by (simp add: utf8_def)
  next
    case 4
    then have d: "c div 262144 < 8" by auto
    have "escaped (percent (240 + c div 262144) @ percent (128 + c div 4096 mod 64) @ percent (128 + c div 64 mod 64) @ percent (128 + c mod 64) @ rest) = Some (utf16 c, rest)"
      by (rule escaped_lead [of _ 3 65536 "c div 262144"]) (use 4 d c div_mod_64(3) [of c] in \<open>simp_all add: numeral_3_eq_3\<close>)
    then show ?thesis using 4 by (simp add: utf8_def)
  qed
qed


text \<open>Tokens that decode to a character: itself, or its escapes.\<close>

definition reads :: "(token \<Rightarrow> token) \<Rightarrow> bool" where
  "reads f \<longleftrightarrow> (\<forall>c < 128. map f (uri_toks c) = [Pct c] \<or> c \<noteq> 37 \<and> map f (uri_toks c) = [Plain c]) \<and> (\<forall>b. 128 \<le> b \<longrightarrow> f (Pct b) = Pct b)"

lemma decode_char:
  assumes f: "reads f" and c: "scalar c"
  shows "decodeURIComponent (toks_text (map f (uri_toks c)) @ s) = map_option ((@) (utf16 c)) (decodeURIComponent s)"
proof (cases "c < 128")
  case True
  have u: "utf16 c = [c]" using True by (simp add: utf16_def)
  have "escaped (percent c @ s) = Some ([c], s)" using True by (simp add: escaped_def)
  then have "decodeURIComponent (percent c @ s) = map_option ((@) [c]) (decodeURIComponent s)" by (simp add: percent_def)
  moreover have "c \<noteq> 37 \<Longrightarrow> decodeURIComponent (c # s) = map_option ((@) [c]) (decodeURIComponent s)"
    by (auto intro!: option.map_cong0)
  moreover have "map f (uri_toks c) = [Pct c] \<or> c \<noteq> 37 \<and> map f (uri_toks c) = [Plain c]" using f True by (auto simp: reads_def)
  ultimately show ?thesis by (auto simp: u)
next
  case False
  then have "uri_toks c = map Pct (utf8 c)" using uri_keeps_ascii [of c] by (auto simp: uri_toks_def)
  moreover have "map f (map Pct (utf8 c)) = map Pct (utf8 c)"
    using f utf8_byte [OF c] False by (auto simp: reads_def)
  ultimately have t: "toks_text (map f (uri_toks c)) = concat (map percent (utf8 c))" by (metis toks_text_Pct)
  have "utf8 c \<noteq> []" by (simp add: utf8_def)
  then obtain p where p: "concat (map percent (utf8 c)) = 37 # p" by (cases "utf8 c") (auto simp: percent_def)
  show ?thesis unfolding t using escaped_utf8 [OF c, of s] by (simp add: p)
qed

lemma decode_chars:
  assumes "reads f" "list_all scalar cs"
  shows "decodeURIComponent (toks_text (map f (concat (map uri_toks cs)))) = Some (chars cs)"
  using assms(2) by (induction cs) (simp_all add: decode_char [OF assms(1)])

lemma substs_other: "\<forall>(p, r) \<in> set ps. p \<noteq> t \<Longrightarrow> substs ps t = t"
  by (induction ps) (auto simp: substs_def)

definition space :: "token \<Rightarrow> token" where
  "space = subst (Plain 43) (Plain 32)"

lemma ascii_toks: "c < 128 \<Longrightarrow> uri_toks c = [Pct c] \<or> c \<noteq> 37 \<and> uri_toks c = [Plain c]"
  using uri_keeps_ascii [of c] by (auto simp: uri_toks_def utf8_def)

lemmas table_defs = substs_def value_substs_def key_substs_def hash_substs_def space_def subst_def

lemma reads_table:
  assumes "\<And>c. f (Pct c) = Pct c \<or> c \<noteq> 37 \<and> f (Pct c) = Plain c" "\<And>c. f (Plain c) = Pct c \<or> f (Plain c) = Plain c"
    "\<And>b. 128 \<le> b \<Longrightarrow> f (Pct b) = Pct b"
  shows "reads f"
  unfolding reads_def
proof (intro conjI allI impI)
  fix c :: nat assume "c < 128"
  then show "map f (uri_toks c) = [Pct c] \<or> c \<noteq> 37 \<and> map f (uri_toks c) = [Plain c]"
    using ascii_toks [of c] assms(1,2) [of c] by auto
qed (rule assms(3))

lemma reads_tables: "reads (space \<circ> substs value_substs)" "reads (space \<circ> substs key_substs)" "reads (substs hash_substs)"
  by (rule reads_table; simp add: table_defs)+

text \<open>Units of an encoded text: of tables that leave none of some plain units.\<close>

definition absent :: "(token \<Rightarrow> token) \<Rightarrow> nat \<Rightarrow> bool" where
  "absent f d \<longleftrightarrow> d \<noteq> 37 \<and> hex_val d = None \<and> d < 128 \<and> (\<forall>c < 128. Plain d \<notin> set (map f (uri_toks c))) \<and> (\<forall>b. 128 \<le> b \<longrightarrow> f (Pct b) = Pct b)"

lemma absent_toks:
  assumes "absent f d" "list_all scalar cs"
  shows "Plain d \<notin> set (map f (concat (map uri_toks cs)))"
proof -
  have "Plain d \<notin> set (map f (uri_toks c))" if c: "scalar c" for c
  proof (cases "c < 128")
    case True
    then show ?thesis using assms(1) by (simp add: absent_def)
  next
    case False
    then have "uri_toks c = map Pct (utf8 c)" using uri_keeps_ascii [of c] by (auto simp: uri_toks_def)
    then show ?thesis using assms(1) utf8_byte [OF c] False by (auto simp: absent_def)
  qed
  then show ?thesis using assms(2) by (auto simp: list_all_iff)
qed

lemma toks_text_unit:
  "d \<in> set (toks_text ts) \<Longrightarrow> list_all tok_ok ts \<Longrightarrow> d \<noteq> 37 \<Longrightarrow> hex_val d = None \<Longrightarrow> Plain d \<in> set ts"
proof (induction ts)
  case (Cons t ts)
  have "hex_digit (b div 16) \<noteq> d" "hex_digit (b mod 16) \<noteq> d" if "b < 256" for b
    using that hex_digit_range Cons.prems(4) by auto
  then show ?case using Cons by (cases t) (auto simp: percent_def)
qed simp


section \<open>What is stringified is parsed back\<close>

text \<open>\<open>replace(/\+/g, ' ')\<close> on an encoded text.\<close>

definition unplus :: "units \<Rightarrow> units" where
  "unplus s = map (\<lambda>x. if x = 43 then 32 else x) s"

lemma unplus_replace: "replace_all [43] [32] s = unplus s"
  by (simp add: unplus_def replace_unit)

lemma table_absent:
  "absent (substs value_substs) 38" "absent (substs value_substs) 35"
  "absent (substs key_substs) 38" "absent (substs key_substs) 35" "absent (substs key_substs) 61"

proof -
  have a: "absent f d" if "d \<noteq> 37 \<and> hex_val d = None \<and> d < 128" "\<And>c. f (Pct c) \<noteq> Plain d" "\<And>c. f (Plain c) \<noteq> Plain d"
    "\<And>b. 128 \<le> b \<Longrightarrow> f (Pct b) = Pct b" for f d
    unfolding absent_def using that ascii_toks by fastforce
  show "absent (substs value_substs) 38" "absent (substs value_substs) 35"
    "absent (substs key_substs) 38" "absent (substs key_substs) 35" "absent (substs key_substs) 61"
    by (rule a; simp add: table_defs hex_val_def)+
qed

lemma encoded_toks:
  assumes cs: "list_all scalar cs" and ps: "list_all (\<lambda>(p, r). tok_pattern p \<and> tok_ok r) ps"
  shows "list_all tok_ok (map (substs ps) (concat (map uri_toks cs)))"
proof -
  have s: "tok_ok t \<Longrightarrow> tok_ok (substs ps t)" for t
    using ps by (induction ps arbitrary: t) (auto simp: substs_def subst_def split: if_splits)
  show ?thesis using cs uri_toks_ok s by (induction cs) (auto simp: list_all_iff)
qed

lemma decode_encoded:
  assumes cs: "list_all scalar cs" and e: "e = toks_text (map (substs ps) (concat (map uri_toks cs)))"
    and ps: "list_all (\<lambda>(p, r). tok_pattern p \<and> tok_ok r) ps" "reads (space \<circ> substs ps)"
  shows "decode (unplus e) = chars cs" "absent (substs ps) d \<Longrightarrow> d \<notin> set e" "cs \<noteq> [] \<Longrightarrow> e \<noteq> []"
    "cs \<noteq> [] \<Longrightarrow> hd e = 63 \<Longrightarrow> hd (chars cs) = 63"
proof -
  let ?ts = "map (substs ps) (concat (map uri_toks cs))"
  have ok: "list_all tok_ok ?ts" by (rule encoded_toks [OF cs ps(1)])
  have "unplus e = toks_text (map space ?ts)"
    unfolding e unplus_replace [symmetric] space_def using replace_toks [OF ok, of "Plain 43" "Plain 32"] by (simp add: hex_val_def)
  then have u: "unplus e = toks_text (map (space \<circ> substs ps) (concat (map uri_toks cs)))" by (simp only: map_map)
  have d: "decodeURIComponent (unplus e) = Some (chars cs)" unfolding u by (rule decode_chars [OF ps(2) cs])
  then show "decode (unplus e) = chars cs" by (simp add: decode_def)
  show "d \<notin> set e" if "absent (substs ps) d"
    using absent_toks [OF that cs] toks_text_unit [OF _ ok, of d] that by (auto simp: e absent_def)
  have "utf16 c \<noteq> []" for c by (simp add: utf16_def)
  then have ne: "chars cs \<noteq> []" if "cs \<noteq> []" using that by (cases cs) auto
  then show "e \<noteq> []" if "cs \<noteq> []" using d that by (auto simp: unplus_def)
  show "hd (chars cs) = 63" if "cs \<noteq> []" "hd e = 63"
  proof (cases e)
    case (Cons x s)
    then have "unplus e = 63 # unplus s" using that(2) by (simp add: unplus_def)
    then obtain z where "63 # z = chars cs" using d by auto
    then show ?thesis by (metis list.sel(1))
  qed (use d ne [OF that(1)] in \<open>simp add: unplus_def\<close>)
qed

lemma tables_ok:
  "list_all (\<lambda>(p, r). tok_pattern p \<and> tok_ok r) value_substs" "list_all (\<lambda>(p, r). tok_pattern p \<and> tok_ok r) key_substs"
  by (simp_all add: value_substs_def key_substs_def hex_val_def)

text \<open>Texts without lone surrogates.\<close>

definition well_formed :: "units \<Rightarrow> bool" where
  "well_formed s \<longleftrightarrow> (\<exists>cs. list_all scalar cs \<and> s = chars cs)"

lemma encoded_value:
  assumes "well_formed s"
  obtains e where "encodeQueryValue s = Some e" "decode (unplus e) = s" "38 \<notin> set e" "35 \<notin> set e"
proof -
  obtain cs where cs: "list_all scalar cs" "s = chars cs" using assms by (auto simp: well_formed_def)
  note d = decode_encoded [OF cs(1) refl tables_ok(1) reads_tables(1)]
  show thesis by (rule that [OF encode_chars(1) [OF cs(1), folded cs(2)]]) (use d(1,2) table_absent cs(2) in auto)
qed

lemma encoded_key:
  assumes "well_formed s" "s \<noteq> []"
  obtains e where "encodeQueryKey s = Some e" "decode (unplus e) = s" "38 \<notin> set e" "35 \<notin> set e" "61 \<notin> set e" "e \<noteq> []" "hd s \<noteq> 63 \<Longrightarrow> hd e \<noteq> 63"
proof -
  obtain cs where cs: "list_all scalar cs" "s = chars cs" using assms(1) by (auto simp: well_formed_def)
  have ne: "cs \<noteq> []" using assms(2) cs(2) by auto
  note d = decode_encoded [OF cs(1) refl tables_ok(2) reads_tables(2)]
  show thesis by (rule that [OF encode_chars(2) [OF cs(1), folded cs(2)]]) (use d ne table_absent cs(2) in auto)
qed


text \<open>
  Queries as the router keeps them: every key is there once and is a text that an object does not inherit; a value is a text
  or null, or an array of two or more of them. The first key does not begin with a question mark.
\<close>

fun item_ok :: "qitem \<Rightarrow> bool" where
  "item_ok Null = True"
| "item_ok (Text s) = well_formed s"
| "item_ok _ = False"

fun value_ok :: "qval \<Rightarrow> bool" where
  "value_ok (One x) = item_ok x"
| "value_ok (Many xs) = (2 \<le> length xs \<and> list_all item_ok xs)"

definition key_ok :: "units \<Rightarrow> bool" where
  "key_ok k \<longleftrightarrow> well_formed k \<and> k \<noteq> [] \<and> k \<notin> set object_keys \<and> k \<noteq> proto_key"

definition query_ok :: "query \<Rightarrow> bool" where
  "query_ok q \<longleftrightarrow> wf_jmap q \<and> (\<forall>(k, v) \<in> set q. key_ok k \<and> value_ok v) \<and> (q \<noteq> [] \<longrightarrow> hd (fst (hd q)) \<noteq> 63)"

lemma split_at_no: "c \<notin> set s \<Longrightarrow> split_at c s = [s]"
  by (induction s) auto

lemma split_at_append: "c \<notin> set p \<Longrightarrow> split_at c (p @ c # s) = p # split_at c s"
  by (induction p) auto

lemma split_join: "ps \<noteq> [] \<Longrightarrow> \<forall>p \<in> set ps. c \<notin> set p \<Longrightarrow> split_at c (join_at c ps) = ps"
  by (induction ps rule: join_at.induct) (simp_all add: split_at_no split_at_append)

lemma join_snoc: "join_at c (ps @ [p]) = (if ps = [] then p else join_at c ps @ c # p)"
  by (induction ps rule: join_at.induct) auto

lemma join_nonempty: "ps \<noteq> [] \<Longrightarrow> \<forall>p \<in> set ps. p \<noteq> [] \<Longrightarrow> join_at c ps \<noteq> []"
  by (induction ps rule: join_at.induct) auto

lemma set_join: "x \<in> set (join_at c ps) \<Longrightarrow> x = c \<or> (\<exists>p \<in> set ps. x \<in> set p)"
  by (induction ps rule: join_at.induct) auto

text \<open>One parameter: it is appended by the one function and read by the other.\<close>

definition param_of :: "units \<Rightarrow> qitem \<Rightarrow> units \<Rightarrow> bool" where
  "param_of k v p \<longleftrightarrow> p \<noteq> [] \<and> 38 \<notin> set p \<and> 35 \<notin> set p \<and> (\<forall>t. parse_param p t = Some (add_value k v t)) \<and> (hd k \<noteq> 63 \<longrightarrow> hd p \<noteq> 63)"

lemma unplus_simps [simp]: "unplus (s @ t) = unplus s @ unplus t" "unplus (61 # s) = 61 # unplus s" "61 \<in> set (unplus s) \<longleftrightarrow> 61 \<in> set s"
  by (auto simp: unplus_def)

lemma takeWhile_no: "61 \<notin> set s \<Longrightarrow> takeWhile (\<lambda>c. c \<noteq> 61) (s @ 61 # t) = s \<and> dropWhile (\<lambda>c. c \<noteq> 61) (s @ 61 # t) = 61 # t"
  for s :: units by (induction s) auto

lemma item_param:
  assumes k: "key_ok k" "encodeQueryKey k = Some k'" and v: "item_ok v"
  obtains t where "item_text v = Some (Some t)" "param_of k v (k' @ t)"
proof -
  obtain e where "encodeQueryKey k = Some e" "decode (unplus e) = k" "38 \<notin> set e" "35 \<notin> set e" "61 \<notin> set e" "e \<noteq> []" "hd k \<noteq> 63 \<Longrightarrow> hd e \<noteq> 63"
    using encoded_key k(1) unfolding key_ok_def by metis
  then have e: "decode (unplus k') = k" "38 \<notin> set k'" "35 \<notin> set k'" "61 \<notin> set k'" "k' \<noteq> []" "hd k \<noteq> 63 \<Longrightarrow> hd k' \<noteq> 63" using k(2) by auto
  have p: "k \<noteq> proto_key" using k(1) by (simp add: key_ok_def)
  show thesis
  proof (cases v)
    case Null
    have "61 \<notin> set (unplus k')" using e(4) by simp
    then have w: "takeWhile (\<lambda>c. c \<noteq> 61) (unplus k') = unplus k'" by (intro takeWhile_eq_all_conv [THEN iffD2]) auto
    have "param_of k Null k'" using e p by (simp add: param_of_def parse_param_def unplus_replace Let_def w)
    then show thesis using that [of "[]"] Null by simp
  next
    case (Text s)
    obtain t where t: "item_text v = Some (Some (61 # t))" "decode (unplus t) = s" "38 \<notin> set t" "35 \<notin> set t"
    proof (cases "s = []")
      case True
      then show thesis using that [of "[]"] Text by (simp add: unplus_def decode_def)
    next
      case False
      obtain x where "encodeQueryValue s = Some x" "decode (unplus x) = s" "38 \<notin> set x" "35 \<notin> set x"
        using encoded_value [of s] v Text by auto
      then show thesis using that [of x] Text False by simp
    qed
    have w: "takeWhile (\<lambda>c. c \<noteq> 61) (unplus k' @ 61 # unplus t) = unplus k'" "dropWhile (\<lambda>c. c \<noteq> 61) (unplus k' @ 61 # unplus t) = 61 # unplus t"
      using takeWhile_no [of "unplus k'" "unplus t"] e(4) by simp_all
    have "param_of k v (k' @ 61 # t)" using e p t w Text by (simp add: param_of_def parse_param_def unplus_replace Let_def)
    then show thesis using that t(1) by blast
  qed (use v in simp_all)
qed

text \<open>The parameters of a list of values, and of a query.\<close>

definition params_of :: "(units \<times> qitem) list \<Rightarrow> units list \<Rightarrow> bool" where
  "params_of kvs ps \<longleftrightarrow> list_all2 (\<lambda>(k, v) p. param_of k v p) kvs ps"

lemma params_append: "params_of xs ps \<Longrightarrow> params_of ys rs \<Longrightarrow> params_of (xs @ ys) (ps @ rs)"
  by (simp add: params_of_def list_all2_appendI)

lemma stringify_items_params:
  assumes k: "key_ok k" "encodeQueryKey k = Some k'" and vs: "list_all item_ok vs" and ps: "\<forall>p \<in> set ps. p \<noteq> []"
  obtains rs where "params_of (map (Pair k) vs) rs" "stringify_items k' vs (join_at 38 ps) = Some (join_at 38 (ps @ rs))"
  using vs ps
proof (induction vs arbitrary: ps thesis)
  case Nil
  show ?case by (rule Nil.prems(1) [of "[]"]) (simp_all add: params_of_def)
next
  case (Cons v vs)
  obtain t where t: "item_text v = Some (Some t)" "param_of k v (k' @ t)" using item_param [OF k] Cons.prems(2) by auto
  have j: "join_at 38 ps @ ampersand (join_at 38 ps) @ k' @ t = join_at 38 (ps @ [k' @ t])"
    using join_nonempty [of ps 38] Cons.prems(3) by (cases "ps = []") (auto simp: join_snoc ampersand_def)
  have ne: "\<forall>p \<in> set (ps @ [k' @ t]). p \<noteq> []" using Cons.prems(3) t(2) by (auto simp: param_of_def)
  obtain rs where rs: "params_of (map (Pair k) vs) rs" "stringify_items k' vs (join_at 38 (ps @ [k' @ t])) = Some (join_at 38 ((ps @ [k' @ t]) @ rs))"
    using Cons.IH [OF _ _ ne] Cons.prems(2) by auto
  show ?case by (rule Cons.prems(1) [of "(k' @ t) # rs"]) (use rs t in \<open>simp_all add: params_of_def j [simplified]\<close>)
qed

definition pairs_of :: "query \<Rightarrow> (units \<times> qitem) list" where
  "pairs_of q = concat (map (\<lambda>(k, v). map (Pair k) (qitems v)) q)"

lemma stringify_params:
  assumes q: "\<forall>(k, v) \<in> set q. key_ok k \<and> value_ok v" and ps: "\<forall>p \<in> set ps. p \<noteq> []"
  obtains rs where "params_of (pairs_of q) rs" "stringify_from q (join_at 38 ps) = Some (join_at 38 (ps @ rs))"
  using q ps
proof (induction q arbitrary: ps thesis)
  case Nil
  show ?case by (rule Nil.prems(1) [of "[]"]) (simp_all add: params_of_def pairs_of_def)
next
  case (Cons kv q)
  obtain k v where kv: "kv = (k, v)" by (cases kv)
  have k: "key_ok k" and v: "list_all item_ok (qitems v)" using Cons.prems(2) kv by (cases v; auto simp: qitems_def)+
  obtain k' where k': "encodeQueryKey k = Some k'" using encoded_key k unfolding key_ok_def by metis
  obtain rs where rs: "params_of (map (Pair k) (qitems v)) rs" "stringify_items k' (qitems v) (join_at 38 ps) = Some (join_at 38 (ps @ rs))"
    using stringify_items_params [OF k k' v Cons.prems(3)] by blast
  have "\<forall>p \<in> set rs. p \<noteq> []" using rs(1) unfolding params_of_def by (induction rule: list_all2_induct) (auto simp: param_of_def)
  then have ne: "\<forall>p \<in> set (ps @ rs). p \<noteq> []" using Cons.prems(3) by auto
  obtain us where us: "params_of (pairs_of q) us" "stringify_from q (join_at 38 (ps @ rs)) = Some (join_at 38 ((ps @ rs) @ us))"
    using Cons.IH [OF _ _ ne] Cons.prems(2) by auto
  show ?case by (rule Cons.prems(1) [of "rs @ us"])
      (use params_append [OF rs(1) us(1)] rs(2) us(2) k' in \<open>simp_all add: kv pairs_of_def\<close>)
qed


lemma parse_params_fold: "params_of kvs ps \<Longrightarrow> parse_params ps t = Some (fold (\<lambda>(k, v). add_value k v) kvs t)"
  unfolding params_of_def
proof (induction arbitrary: t rule: list_all2_induct)
  case (Cons kv kvs p ps)
  then show ?case by (cases kv) (simp add: param_of_def)
qed simp

lemma jput_last: "k \<notin> set (jkeys t) \<Longrightarrow> jput k v (t @ [(k, w)]) = t @ [(k, v)] \<and> jget (t @ [(k, w)]) k = Some w"
  by (induction t) (auto simp: jkeys_def jget_def)

lemma add_values:
  assumes k: "k \<notin> set (jkeys t)" "k \<notin> set object_keys" and v: "value_ok v"
  shows "fold (\<lambda>(k, v). add_value k v) (map (Pair k) (qitems v)) t = t @ [(k, v)]"
proof -
  have new: "add_value k x t = t @ [(k, One x)]" for x
    using k jput_new [OF k(1)] jget_None_keys [of t k] by (simp add: add_value_def)
  have more: "fold (\<lambda>(k, v). add_value k v) (map (Pair k) zs) (t @ [(k, Many us)]) = t @ [(k, Many (us @ zs))]" for zs us
    by (induction zs arbitrary: us) (simp_all add: add_value_def jput_last [OF k(1)])
  show ?thesis
  proof (cases v)
    case (Many xs)
    then obtain x y zs where xs: "xs = x # y # zs" using v by (cases xs; cases "tl xs") auto
    have "add_value k y (t @ [(k, One x)]) = t @ [(k, Many [x, y])]" by (simp add: add_value_def jput_last [OF k(1)])
    then show ?thesis using new more [of zs "[x, y]"] Many xs by (simp add: qitems_def)
  qed (simp add: new qitems_def)
qed

lemma add_query:
  assumes "wf_jmap (t @ q)" "\<forall>(k, v) \<in> set q. key_ok k \<and> value_ok v"
  shows "fold (\<lambda>(k, v). add_value k v) (pairs_of q) t = t @ q"
  using assms
proof (induction q arbitrary: t)
  case (Cons kv q)
  obtain k v where kv: "kv = (k, v)" by (cases kv)
  have "k \<notin> set (jkeys t)" using Cons.prems(1) kv by (auto simp: wf_jmap_def jkeys_def)
  then have "fold (\<lambda>(k, v). add_value k v) (map (Pair k) (qitems v)) t = t @ [(k, v)]"
    using add_values Cons.prems(2) kv by (simp add: key_ok_def)
  then show ?case using Cons.IH [of "t @ [(k, v)]"] Cons.prems kv by (simp add: pairs_of_def)
qed (simp add: pairs_of_def)

lemma query_roundtrip:
  assumes q: "query_ok q"
  obtains n where "stringifyQuery q = Some n" "parseQuery n = Some q" "35 \<notin> set n" "n = [] \<longleftrightarrow> q = []"
proof -
  have ok: "\<forall>(k, v) \<in> set q. key_ok k \<and> value_ok v" using q by (simp add: query_ok_def)
  obtain ps where ps: "params_of (pairs_of q) ps" "stringify_from q [] = Some (join_at 38 ps)"
    using stringify_params [OF ok, of "[]"] by auto
  have p: "\<forall>p \<in> set ps. p \<noteq> [] \<and> 38 \<notin> set p \<and> 35 \<notin> set p"
    using ps(1) unfolding params_of_def by (induction rule: list_all2_induct) (auto simp: param_of_def)
  have parse: "parse_params ps [] = Some q" using parse_params_fold [OF ps(1), of "[]"] add_query [of "[]" q] q by (simp add: query_ok_def)
  have hash: "35 \<notin> set (join_at 38 ps)" using p set_join [of 35 38 ps] by auto
  show thesis
  proof (cases "q = []")
    case True
    then have "ps = []" using ps(1) by (simp add: pairs_of_def params_of_def)
    then show ?thesis using that [of "[]"] ps(2) True by (simp add: stringifyQuery_def parseQuery_def)
  next
    case False
    then obtain k v q' where kv: "q = (k, v) # q'" by (cases q) auto
    obtain x xs where "qitems v = x # xs" using ok kv by (cases v; cases "qitems v") (auto simp: qitems_def)
    then obtain r ps' where r: "ps = r # ps'" "param_of k x r"
      using ps(1) unfolding params_of_def pairs_of_def kv by (auto simp: list_all2_Cons1)
    have h: "hd r \<noteq> 63" using r(2) q kv by (simp add: query_ok_def param_of_def)
    have "join_at 38 ps \<noteq> []" "hd (join_at 38 ps) = hd r" using p r(1) by (cases ps'; simp)+
    then have "parseQuery (join_at 38 ps) = parse_params (split_at 38 (join_at 38 ps)) []" using h by (auto simp: parseQuery_def)
    then have "parseQuery (join_at 38 ps) = Some q" using split_join [of ps 38] p r(1) parse by simp
    then show ?thesis using that [of "join_at 38 ps"] ps(2) hash False \<open>join_at 38 ps \<noteq> []\<close> by (simp add: stringifyQuery_def)
  qed
qed

lemma encoded_hash:
  assumes "well_formed h"
  obtains e where "encodeHash h = Some e" "decode (35 # e) = 35 # h"
proof -
  obtain cs where cs: "list_all scalar cs" "h = chars cs" using assms by (auto simp: well_formed_def)
  have "decodeURIComponent (toks_text (map (substs hash_substs) (concat (map uri_toks cs)))) = Some (chars cs)"
    by (rule decode_chars [OF reads_tables(3) cs(1)])
  then show thesis by (intro that [OF encode_chars(3) [OF cs(1), folded cs(2)]]) (simp add: decode_def cs(2))
qed

lemma takeWhile_stop: "c \<notin> set s \<Longrightarrow> takeWhile (\<lambda>x. x \<noteq> c) (s @ t) = s @ takeWhile (\<lambda>x. x \<noteq> c) t \<and> dropWhile (\<lambda>x. x \<noteq> c) (s @ t) = dropWhile (\<lambda>x. x \<noteq> c) t"
  for s :: units by (induction s) auto

text \<open>
  C13: Locations of the console survive their URL. The path is absolute and holds no hash or question mark. The
  query is one that the router keeps (\<open>query_ok\<close>): its values are texts of any characters (spaces, plus and percent
  signs, ampersands, letters beyond ASCII), null or arrays of two or more of these; its keys are distinct texts that are not empty and that an object
  does not inherit, and the first does not begin with a question mark. The hash is any text; no text has a lone surrogate
  (\<open>well_formed\<close>). Then
  stringifying gives a URL, and parsing it, from whatever current location, gives the same path, the
  same query and the same hash, and the URL as the full path. The keys left out are not parsed back (\<open>question_mark_lost\<close>,
  \<open>inherited_key\<close> below).
\<close>

theorem web_location_roundtrip:
  assumes path: "path \<noteq> []" "hd path = 47" "35 \<notin> set path" "63 \<notin> set path"
    and q: "query_ok q" and h: "well_formed h"
  shows "\<exists>e url. encodeHash h = Some e \<and> stringifyURL path q (if h = [] then [] else 35 # e) = Some url \<and>
    parseURL url current = Some \<lparr>lo_fullPath = url, lo_path = path, lo_query = q, lo_hash = (if h = [] then [] else 35 # h)\<rparr>"
proof -
  obtain e where e: "encodeHash h = Some e" "decode (35 # e) = 35 # h" using encoded_hash [OF h] by blast
  obtain n where n: "stringifyQuery q = Some n" "parseQuery n = Some q" "35 \<notin> set n" "n = [] \<longleftrightarrow> q = []" using query_roundtrip [OF q] by blast
  define hash where "hash = (if h = [] then [] else 35 # e)"
  define search where "search = (if n = [] then [] else 63 # n)"
  have f: "takeWhile (\<lambda>c. c \<noteq> 35) (path @ search @ hash) = path @ search" "dropWhile (\<lambda>c. c \<noteq> 35) (path @ search @ hash) = hash"
    using takeWhile_stop [of 35 "path @ search" hash] path(3) n(3) by (auto simp: search_def hash_def)
  have g: "takeWhile (\<lambda>c. c \<noteq> 63) (path @ search) = path" "dropWhile (\<lambda>c. c \<noteq> 63) (path @ search) = search"
    using takeWhile_stop [of 63 path search] path(4) by (auto simp: search_def)
  have s: "(if search = [] then Some [] else parseQuery (tl search)) = Some q" using n by (auto simp: search_def)
  have d: "decode hash = (if h = [] then [] else 35 # h)" using e(2) by (simp add: hash_def decode_def)
  have "stringifyURL path q hash = Some (path @ search @ hash)" by (simp add: stringifyURL_def n(1) search_def)
  moreover have "parseURL (path @ search @ hash) current =
      Some \<lparr>lo_fullPath = path @ search @ hash, lo_path = path, lo_query = q, lo_hash = (if h = [] then [] else 35 # h)\<rparr>"
    unfolding parseURL_def f g Let_def s d option.map using path(1,2) by (simp add: resolveRelativePath_def)
  ultimately show ?thesis using e(1) by (auto simp: hash_def)
qed


section \<open>Samples, and what is not parsed back\<close>

lemma well_formed_ascii: "list_all (\<lambda>c. c < 55296) s \<Longrightarrow> well_formed s"
proof -
  assume s: "list_all (\<lambda>c. c < 55296) s"
  then have "list_all scalar s" "s = chars s" by (induction s) (auto simp: scalar_def utf16_def)
  then show "well_formed s" by (auto simp: well_formed_def)
qed

definition sample_query :: query where
  "sample_query = [(units ''q a'', One (Text (units ''1+1=2&3''))), (units ''x'', Many [Null, Text [233, 8364]])]"

lemma sample_query_ok: "query_ok sample_query"
  by (simp add: query_ok_def sample_query_def wf_jmap_def jkeys_def key_ok_def well_formed_ascii object_keys_def proto_key_def)

theorem web_location_roundtrip_witness:
  "\<exists>e url. encodeHash (units ''top'') = Some e \<and> stringifyURL (units ''/tenant'') sample_query (35 # e) = Some url \<and>
    parseURL url [] = Some \<lparr>lo_fullPath = url, lo_path = units ''/tenant'', lo_query = sample_query, lo_hash = units ''#top''\<rparr>"
  using web_location_roundtrip [of "units ''/tenant''" sample_query "units ''top''" "[]"] sample_query_ok
    well_formed_ascii [of "units ''top''"] by simp

lemma sample_encoding:
  "encodeQueryValue (units ''1+1=2&3 %'') = Some (units ''1%2B1=2%263+%25'')"
  by (simp add: encodeQueryValue_def commonEncode_def uri_keeps_def replaces_def common_table_def value_table_def
    replace_all.simps percent_def utf8_def hex_digit_def is_low_def is_high_def)

text \<open>
  A key that begins with a question mark loses it when it comes first; a key that every object inherits gets the
  inherited function as its first value; the query of a URL without a path gets into the path when there is a hash.
\<close>

lemma question_mark_lost:
  "stringifyURL (units ''/'') [(units ''?a'', One (Text (units ''1'')))] [] = Some (units ''/??a=1'')"
  "parseQuery (units ''?a=1'') = Some [(units ''a'', One (Text (units ''1'')))]"
  by (simp_all add: stringifyURL_def stringifyQuery_def encodeQueryKey_def encodeQueryValue_def commonEncode_def uri_keeps_def replaces_def
    common_table_def value_table_def replace_all.simps qitems_def ampersand_def parseQuery_def parse_param_def Let_def decode_def
    add_value_def jget_def object_keys_def proto_key_def)

lemma inherited_key: "parseQuery (units ''toString=1'') = Some [(units ''toString'', Many [Inherited (units ''toString''), Text (units ''1'')])]"
  by (simp add: parseQuery_def parse_param_def replace_all.simps Let_def decode_def add_value_def jget_def object_keys_def proto_key_def)

lemma query_in_path:
  "map_option lo_path (parseURL (units ''?a=1#b'') (units ''/x'')) = Some (units ''/?a=1'')"
  "map_option lo_path (parseURL (units ''?a=1'') (units ''/x'')) = Some (units ''/x'')"
  by (simp_all add: parseURL_def parseQuery_def parse_param_def replace_all.simps Let_def decode_def add_value_def jget_def
    object_keys_def proto_key_def resolveRelativePath_def)

end
