(* ===== verification/Spec2Isabelle.thy ===== *)
theory Spec2Isabelle
  imports VirtualRouter Relay Controller NodeJoin WebUrl WebElement WebPages WebScheduler WebRouter
begin

text \<open>
  net-thunder is an SD-WAN: nodes (\<open>sdwan-node\<close>) carry IP packets of a virtual network to each other
  over UDP, a controller (\<open>sdwan-core\<close> with \<open>sdwan-controller\<close>) gives every node its address, its
  routes and its rules, and a web console (a bundled JavaScript application in
  \<open>sdwan-controller/src/main/resources/static/assets\<close>) administers the tenants. This library models
  the parts below and proves what makes them correct.

  The parts and their theories, in the order in which they build on each other:

  \<^item> \<open>NetPrelude\<close>: errors as values (\<open>'a res\<close> is \<open>error + 'a\<close>), Java integers as words, decimal
    numbers as Java prints and parses them, \<open>String.split\<close>, and the lemmas on them.
  \<^item> \<open>JavaMap\<close>: Java maps in iteration order; the locale \<open>keyed_store\<close> states the laws of put, get and
    remove, and the association lists interpret it.
  \<^item> \<open>IPAddr\<close>, \<open>CidrBlock\<close>: addresses (\<open>IPUtil\<close>, \<open>Multicast\<close>) and blocks of addresses (\<open>Cidr\<close>) of
    \<open>sdwan-common\<close>. The lemmas relate texts, numbers and byte arrays, give membership in a block as
    equality of the leading bits, and show that translation between blocks keeps the offset.
  \<^item> \<open>Messages\<close>: the messages of \<open>sdwan.proto\<close> that the modelled code reads.
  \<^item> \<open>RouteRules\<close>: the rule predicates of \<open>tranport/rule\<close>; the decision is that of the first matching
    rule in the order of the levels.
  \<^item> \<open>NettyBuf\<close>: the interface of Netty's \<open>ByteBuf\<close> as a record of operations with the locale
    \<open>netty_buf\<close>; a buffer over byte lists interprets it.
  \<^item> \<open>CheckSum\<close>, \<open>IpPackets\<close>, \<open>IpLayer\<close>: the Internet checksum, the codecs of IPv4, UDP, TCP, ICMP and
    Ethernet, and packets edited in place (\<open>IpLayerPacket\<close>) of \<open>sdwan-tun\<close>. The codecs invert each other,
    and an edited packet has verifying checksums, except for the odd last bytes that \<open>CheckSum\<close> states.
  \<^item> \<open>Stun\<close>: STUN messages of \<open>sdwan-common\<close>, encoder and decoder.
  \<^item> \<open>VirtualRouter\<close>: the data path of a node (\<open>VirtualRouter\<close>, \<open>NodeManager\<close>): rules, routes, address
    translation, the table of the known nodes, and the messages of the controller that change them.
  \<^item> \<open>Relay\<close>: the servers over STUN messages, \<open>RelayServer\<close> and \<open>StunServer\<close>, with the requests of their
    clients. A relay is a function over received packets and ticks of its timer; its maps stay inverse to each
    other, and packets with a token reach the endpoint that got it.
  \<^item> \<open>TenantData\<close>: the tenants of the configuration file (\<open>LocalConfigSdWanDataService\<close>) and the
    assignment of addresses; the locale \<open>vip_service\<close> states what the controller relies on.
  \<^item> \<open>Controller\<close>: \<open>ControllerServer\<close> with its handlers, the heartbeat timer and the close listeners
    as a step relation over connections (\<open>step\<close>, \<open>reached\<close>). Addresses are exclusive in every reachable
    state, an offer goes to the holder of its destination or to a closed channel, and every first registration has one of five outcomes.
  \<^item> \<open>ConsoleDb\<close>: the database of the administration service in \<open>sdwan-controller\<close>: a record of tables and the
    statements of its repositories, each restricted to the tenant of the request.
  \<^item> \<open>ConsoleServices\<close>, \<open>NodeService\<close>: the services over it (groups, routes, rules, translations, tenants,
    nodes) and \<open>DatabaseSdWanDataService\<close>, which answers the controller from the same tables. The locale
    \<open>address_pool\<close> states what a pool of addresses promises (take, release, who holds what); \<open>vip_pool\<close>
    interprets it on the table of the pool.
  \<^item> \<open>ConsoleControllers\<close>, \<open>Console\<close>: the checks of the HTTP controllers, and the console as a machine:
    \<open>handle\<close> is one request with its transaction, \<open>console_reached\<close> the databases that requests produce. Addresses
    are exclusive and none is lost.
  \<^item> \<open>Registration\<close>, \<open>ConsoleSample\<close>: what a registration answers, as a verdict on four conditions; every
    request returns.
  \<^item> \<open>ConsoleConfig\<close>, \<open>NodeJoin\<close>: the tables stay well formed, the configuration of a node is a join of
    them, and the router of \<open>VirtualRouter\<close> loads it.
  \<^item> \<open>JsRegex\<close>, \<open>WebUrl\<close>: regular expressions of JavaScript with a matcher proved against their language,
    and the console's address and URL expressions.
  \<^item> \<open>WebElement\<close>: components of the console's element library: popup layers, ids, the hover zone of
    cascading menus, the progress ring, wheel events and mentions.
  \<^item> \<open>WebHttp\<close>: the console's HTTP client: header maps, header texts, URLs, settling, adapters, interceptors.
  \<^item> \<open>WebPages\<close>: the console's own pages: interceptors with the loading overlay that requests share, login,
    lists with dialogs, tags, routes.
  \<^item> \<open>WebVue\<close>: of the console's Vue runtime, the choice of the children that stay in place (\<open>getSequence\<close>);
    it is a longest increasing subsequence.
  \<^item> \<open>WebScheduler\<close>: the job queue of the Vue runtime as a machine with a stack of loops, over arbitrary calls
    of the application; the queue stays sorted and loses nothing, and a flush does what was queued.
  \<^item> \<open>WebRouter\<close>: the router's encoders, queries, URLs and relative paths; a location survives its URL.

  How the parts interact. A packet from the tunnel enters \<open>vr_send\<close>: \<open>routeOut\<close> translates its
  destination (\<open>processVnatOut\<close>, over \<open>CidrBlock\<close> and \<open>IpLayer\<close>), asks the rules, and finds the next hop; a
  message of \<open>Messages\<close> goes to that node, whose \<open>vr_recv\<close> undoes the translation on the answer.
  The tables are those of the controller's messages (\<open>vr_channelRead0\<close>): \<open>processRegist\<close> of
  \<open>Controller\<close> asks the data service (\<open>TenantData\<close>) for an address, answers with the routes, rules and
  translations of the tenant, and announces the node to the others, as does the end of its connection. The data
  service is either the configuration file or the database that the administrators edit; \<open>console_configs_load\<close>
  goes from the requests of the administrators through the registration to the start of the node's router. Nodes that do not
  reach each other learn their public address from \<open>stun_channelRead0\<close> and send over a relay with its tokens. In the console a page calls
  \<open>api\<close>, which runs \<open>run_request\<close> of \<open>WebHttp\<close> with the console's interceptors; the server is a parameter.
  \<open>web_v4_is_int2ip\<close> connects both sides: the console's IPv4 expression accepts exactly what the
  server prints.

  Conventions. Third-party code is a parameter: Netty's buffers (interface \<open>netty\<close>), hutool's address
  pattern (\<open>pat\<close>), the row that a query with \<open>limit 1\<close> picks (\<open>pick\<close>), charsets, the transport, DOM queries and the HTTP server. The libraries of
  the languages are modelled directly: \<open>int\<close>, \<open>long\<close> and \<open>byte\<close> are words of their width, strings are
  lists of characters below 256 (texts for regular expressions are lists of UTF-16 code units), an
  exception is \<open>Inl\<close> of a constructor of \<open>error\<close>. Loops whose end depends on a buffer or on overflowing
  integers are \<open>partial_function (option)\<close>, so that running for ever is \<open>None\<close>; properties state that they
  return. The only fuel is in the matcher of \<open>JsRegex\<close>: \<open>rests\<close> gives a repetition as much as its minimum
  and the text's length, which \<open>set_rests\<close> shows to be enough for every expression and text.

  Not modelled: threads, timers other than those named above, sockets and Netty's event loops,
  reference counts, logging; the ICE election and the peer-to-peer transports, which futures and timers
  drive; of the administration service, concurrent transactions (requests run one after the other), the lengths of
  columns, the patterns of names and hardware addresses in requests, accounts, application versions, stored files and the
  paging and detail views; TUN devices and operating
  system routes; the desktop programs; of the console, reactivity and the renderer of Vue, the matcher, guards and history of the
  router, the remaining element components and the render functions. Handlers run one at a time in \<open>Relay\<close> and \<open>Controller\<close>;
  in the controller the listeners of a closing connection interleave with them.
\<close>

end
